(* ===== verification/Perp_Prelude.thy ===== *)
theory Perp_Prelude
  imports Main "HOL-Library.Word" "HOL-Library.Monad_Syntax"
begin

text \<open>
  Shared vocabulary of the development: the C integer types as words, buffers with
  bounds-checked reads and writes, C strings inside buffers, little-endian byte
  sequences, and the generic lemmas about them that the component theories use.

  Faults.  A read or a write outside an object is undefined behaviour in C.  In the
  model a pointer is an index into the buffer of its object, and a read or write past
  the end of the buffer is \<^const>\<open>None\<close> in the option monad, so a theorem that a
  function returns \<^const>\<open>Some\<close> states that it stays within bounds.
\<close>

unbundle bit_operations_syntax

type_synonym u8 = "8 word"
type_synonym u16 = "16 word"
type_synonym u32 = "32 word"
type_synonym u64 = "64 word"
type_synonym buffer = "u8 list"

named_theorems mem_simps \<open>buffer reads, writes and their composition\<close>
named_theorems flag_simps \<open>tests and updates of bit flags\<close>

section \<open>Buffers\<close>

text \<open>\<open>*p\<close> and \<open>*p = c\<close> for a pointer \<open>p\<close> into the object \<open>b\<close>.\<close>

definition rd :: "'a list \<Rightarrow> nat \<Rightarrow> 'a option" where
  "rd b i = (if i < length b then Some (b ! i) else None)"

definition wr :: "'a list \<Rightarrow> nat \<Rightarrow> 'a \<Rightarrow> 'a list option" where
  "wr b i c = (if i < length b then Some (b[i := c]) else None)"

text \<open>Copy a list of bytes to position \<open>off\<close>; a fault when it does not fit.\<close>

definition put_at :: "'a list \<Rightarrow> nat \<Rightarrow> 'a list \<Rightarrow> 'a list option" where
  "put_at b off xs =
     (if off + length xs \<le> length b
      then Some (take off b @ xs @ drop (off + length xs) b) else None)"

text \<open>
  \<open>cstr_at b i s\<close>: the buffer holds at index \<open>i\<close> the C string \<open>s\<close>: the bytes of
  \<open>s\<close>, none of them NUL, and a terminating NUL, all inside the buffer.
\<close>

definition cstr_at :: "buffer \<Rightarrow> nat \<Rightarrow> u8 list \<Rightarrow> bool" where
  "cstr_at b i s \<longleftrightarrow>
     0 \<notin> set s \<and> i + length s < length b \<and>
     take (Suc (length s)) (drop i b) = s @ [0]"

text \<open>The characters of an Isabelle string as bytes.\<close>

definition bytes :: "string \<Rightarrow> u8 list" where
  "bytes s = map of_char s"

lemma rd_Some_iff [mem_simps]: "rd b i = Some c \<longleftrightarrow> i < length b \<and> b ! i = c"
  by (auto simp: rd_def)

lemma wr_Some_iff [mem_simps]: "wr b i c = Some b' \<longleftrightarrow> i < length b \<and> b' = b[i := c]"
  by (auto simp: wr_def)

lemma rd_in [simp]: "i < length b \<Longrightarrow> rd b i = Some (b ! i)"
  by (simp add: rd_def)

lemma wr_in [simp]: "i < length b \<Longrightarrow> wr b i c = Some (b[i := c])"
  by (simp add: wr_def)

lemma rd_out [simp]: "length b \<le> i \<Longrightarrow> rd b i = None"
  by (simp add: rd_def)

lemma put_at_in: "off + length xs \<le> length b \<Longrightarrow>
    put_at b off xs = Some (take off b @ xs @ drop (off + length xs) b)"
  by (simp add: put_at_def)

lemma put_at_length: "put_at b off xs = Some b' \<Longrightarrow> length b' = length b"
  by (auto simp: put_at_def split: if_splits)

lemma put_at_nth_outside:
  "put_at b off xs = Some b' \<Longrightarrow> i < length b \<Longrightarrow> i < off \<or> off + length xs \<le> i \<Longrightarrow> b' ! i = b ! i"
  by (auto simp: put_at_def nth_append min_def split: if_splits)

lemma put_at_read: "put_at b off xs = Some b' \<Longrightarrow> take (length xs) (drop off b') = xs"
  by (auto simp: put_at_def split: if_splits)

lemma cstr_at_nth:
  assumes "cstr_at b i s" and "j < length s"
  shows "b ! (i + j) = s ! j" and "b ! (i + j) \<noteq> 0" and "i + j < length b"
proof -
  have len: "i + length s < length b" and eq: "take (Suc (length s)) (drop i b) = s @ [0]"
    and nz: "0 \<notin> set s"
    using assms(1) by (auto simp: cstr_at_def)
  show "i + j < length b" using len assms(2) by simp
  have "take (Suc (length s)) (drop i b) ! j = drop i b ! j"
    using assms(2) len by simp
  also have "\<dots> = b ! (i + j)" using len by simp
  finally show *: "b ! (i + j) = s ! j"
    using eq assms(2) by (simp add: nth_append)
  show "b ! (i + j) \<noteq> 0"
    unfolding * using nz assms(2) by (metis nth_mem)
qed

lemma cstr_at_end:
  assumes "cstr_at b i s"
  shows "b ! (i + length s) = 0" and "i + length s < length b"
proof -
  have len: "i + length s < length b" and eq: "take (Suc (length s)) (drop i b) = s @ [0]"
    using assms by (auto simp: cstr_at_def)
  show "i + length s < length b" by (rule len)
  have "take (Suc (length s)) (drop i b) ! length s = drop i b ! length s"
    using len by simp
  then show "b ! (i + length s) = 0"
    using eq len by (simp add: nth_append)
qed

lemma cstr_atI:
  assumes "0 \<notin> set s" "i + length s < length b"
    and "\<And>j. j < length s \<Longrightarrow> b ! (i + j) = s ! j" and "b ! (i + length s) = 0"
  shows "cstr_at b i s"
proof -
  have "take (Suc (length s)) (drop i b) = s @ [0]"
    using assms by (intro nth_equalityI) (auto simp: nth_append less_Suc_eq)
  then show ?thesis using assms by (simp add: cstr_at_def)
qed

lemma cstr_at_append: "0 \<notin> set s \<Longrightarrow> cstr_at (pre @ s @ 0 # rest) (length pre) s"
  by (simp add: cstr_at_def)

lemma cstr_at_zero: "0 \<notin> set s \<Longrightarrow> cstr_at (s @ 0 # rest) 0 s"
  by (simp add: cstr_at_def)

lemma cstr_at_tl: "cstr_at b i (c # s) \<Longrightarrow> cstr_at b (Suc i) s"
proof -
  assume a: "cstr_at b i (c # s)"
  show ?thesis
  proof (rule cstr_atI)
    show "0 \<notin> set s" using a by (simp add: cstr_at_def)
    show "Suc i + length s < length b" using cstr_at_end(2) [OF a] by simp
    show "b ! (Suc i + j) = s ! j" if "j < length s" for j
      using cstr_at_nth(1) [OF a, of "Suc j"] that by simp
    show "b ! (Suc i + length s) = 0" using cstr_at_end(1) [OF a] by simp
  qed
qed

lemma cstr_at_Nil: "cstr_at b i [] \<longleftrightarrow> i < length b \<and> b ! i = 0"
  by (auto simp: cstr_at_def take_Suc hd_drop_conv_nth)

lemma cstr_at_Cons_nth: "cstr_at b i (c # s) \<Longrightarrow> i < length b \<and> b ! i = c \<and> c \<noteq> 0"
  using cstr_at_nth [of b i "c # s" 0] by simp

section \<open>Little-endian byte sequences\<close>

primrec le_bytes :: "nat \<Rightarrow> 'a::len word \<Rightarrow> u8 list" where
  "le_bytes 0 u = []"
| "le_bytes (Suc n) u = ucast u # le_bytes n (drop_bit 8 u)"

primrec le_word :: "u8 list \<Rightarrow> 'a::len word" where
  "le_word [] = 0"
| "le_word (b # bs) = push_bit 8 (le_word bs) + ucast b"

lemma length_le_bytes [simp]: "length (le_bytes n u) = n"
  by (induction n arbitrary: u) auto

lemma push_add_or: "push_bit 8 x + ucast (b :: u8) = push_bit 8 x OR (ucast b :: 'a::len word)"
proof (rule disjunctive_add)
  fix n
  show "\<not> bit (push_bit 8 x) n \<or> \<not> bit (ucast b :: 'a word) n"
    by (auto simp: bit_simps dest: bit_imp_le_length)
qed

text \<open>
  Packing \<open>n\<close> bytes and unpacking them gives back the low \<open>8 * n\<close> bits: the round
  trip of every fixed-width codec below is an instance.
\<close>

lemma le_word_le_bytes: "le_word (le_bytes n u) = (take_bit (8 * n) u :: 'a::len word)"
proof (induction n arbitrary: u)
  case 0
  then show ?case by simp
next
  case (Suc n)
  have "le_word (le_bytes (Suc n) u) =
      push_bit 8 (take_bit (8 * n) (drop_bit 8 u)) OR (ucast (ucast u :: u8) :: 'a word)"
    by (simp add: Suc push_add_or)
  also have "\<dots> = take_bit (8 * Suc n) u"
    by (rule bit_eqI) (auto simp: bit_simps)
  finally show ?case .
qed

lemma le_bytes_le_word:
  "8 * length bs \<le> LENGTH('a) \<Longrightarrow> le_bytes (length bs) (le_word bs :: 'a::len word) = bs"
proof (induction bs)
  case Nil
  then show ?case by simp
next
  case (Cons b bs)
  have lo: "(ucast (push_bit 8 (le_word bs) OR (ucast b :: 'a word)) :: u8) = b"
    using Cons.prems by (intro bit_eqI) (auto simp: bit_simps)
  have mask: "drop_bit 8 (push_bit 8 (le_word bs) OR (ucast b :: 'a word)) =
      take_bit (LENGTH('a) - 8) (le_word bs)"
    by (rule bit_eqI) (auto simp: bit_simps dest: bit_imp_le_length)
  have bnd: "take_bit (LENGTH('a) - 8) (le_word bs :: 'a word) = le_word bs"
  proof -
    have IH: "le_bytes (length bs) (le_word bs :: 'a word) = bs"
      using Cons by simp
    have "(le_word bs :: 'a word) = le_word (le_bytes (length bs) (le_word bs :: 'a word))"
      by (simp only: IH)
    also have "\<dots> = take_bit (8 * length bs) (le_word bs)"
      by (rule le_word_le_bytes)
    finally have *: "(le_word bs :: 'a word) = take_bit (8 * length bs) (le_word bs)" .
    have "take_bit (LENGTH('a) - 8) (take_bit (8 * length bs) (le_word bs :: 'a word)) =
        take_bit (8 * length bs) (le_word bs)"
      using Cons.prems by (simp add: take_bit_take_bit min.absorb2)
    then show ?thesis using * by simp
  qed
  show ?case
    using Cons lo mask bnd by (simp add: push_add_or)
qed

lemma take_bit_full [simp]: "LENGTH('a) \<le> n \<Longrightarrow> take_bit n (u :: 'a::len word) = u"
  by (rule bit_eqI) (auto simp: bit_simps dest: bit_imp_le_length)

lemma and_255: "u AND 255 = (take_bit 8 u :: 'a::len word)"
proof -
  have "(255 :: 'a word) = mask 8" by (simp add: mask_eq_exp_minus_1)
  then show ?thesis by (simp add: take_bit_eq_mask)
qed

lemma ucast_and_255 [simp]: "(ucast (u AND 255 :: 'a::len word) :: u8) = ucast u"
  unfolding and_255 by (rule bit_eqI) (auto simp: bit_simps)

section \<open>Bit flags\<close>

text \<open>
  Flags are bytes tested with \<open>flags & F\<close>, set with \<open>flags |= F\<close> and cleared with
  \<open>flags &= ~F\<close>.
\<close>

definition has_flag :: "u8 \<Rightarrow> u8 \<Rightarrow> bool" where
  "has_flag fl f \<longleftrightarrow> fl AND f \<noteq> 0"

definition set_flag :: "u8 \<Rightarrow> u8 \<Rightarrow> u8" where
  "set_flag fl f = fl OR f"

definition clr_flag :: "u8 \<Rightarrow> u8 \<Rightarrow> u8" where
  "clr_flag fl f = fl AND NOT f"

lemma has_set_flag [flag_simps]: "has_flag (set_flag fl f) g \<longleftrightarrow> has_flag fl g \<or> has_flag f g"
proof -
  have "(fl OR f) AND g = (fl AND g) OR (f AND g)"
    by (simp add: bit.conj_disj_distrib2)
  then show ?thesis by (simp add: has_flag_def set_flag_def or_eq_0_iff)
qed

lemma has_clr_flag_other [flag_simps]: "f AND g = 0 \<Longrightarrow> has_flag (clr_flag fl f) g \<longleftrightarrow> has_flag fl g"
proof -
  assume d: "f AND g = 0"
  have "g AND NOT f = g"
  proof (rule bit_eqI)
    fix n
    from d have "\<not> (bit f n \<and> bit g n)"
      by (metis bit_and_iff bit_0_eq bot_apply bot_bool_def)
    then show "bit (g AND NOT f) n = bit g n"
      by (auto simp: bit_simps dest: bit_imp_le_length)
  qed
  then have "(fl AND NOT f) AND g = fl AND g"
    by (metis and.assoc and.commute)
  then show ?thesis by (simp add: has_flag_def clr_flag_def)
qed

lemma has_clr_flag_same [flag_simps]: "has_flag (clr_flag fl f) f = False"
  by (simp add: has_flag_def clr_flag_def and.assoc)

lemma has_flag_zero [flag_simps]: "has_flag 0 f = False"
  by (simp add: has_flag_def)

section \<open>Loops over the first entries of an array\<close>

text \<open>\<open>for(i = 0; i < n; ++i) op(&a[i]);\<close> with a state threaded through the calls.\<close>

fun for_first :: "('s \<Rightarrow> 'd \<Rightarrow> 's \<times> 'd) \<Rightarrow> nat \<Rightarrow> 's \<Rightarrow> 'd list \<Rightarrow> 's \<times> 'd list" where
  "for_first f 0 s ds = (s, ds)"
| "for_first f (Suc n) s [] = (s, [])"
| "for_first f (Suc n) s (d # ds) =
     (let (s, d) = f s d; (s, ds) = for_first f n s ds in (s, d # ds))"

text \<open>
  The contract of an operation on one entry: it moves the state along a preorder that keeps the state good, keeps
  the invariant of the entry and its key.  Then a loop of such operations does the same for the array.
\<close>

locale entry_op =
  fixes good :: "'s \<Rightarrow> bool" and moves :: "'s \<Rightarrow> 's \<Rightarrow> bool" and inv :: "'d \<Rightarrow> bool"
    and key :: "'d \<Rightarrow> 'k" and f :: "'s \<Rightarrow> 'd \<Rightarrow> 's \<times> 'd"
  assumes moves_refl: "moves s s"
    and moves_trans: "moves s t \<Longrightarrow> moves t u \<Longrightarrow> moves s u"
    and moves_good: "moves s t \<Longrightarrow> good s \<Longrightarrow> good t"
    and op_moves: "good s \<Longrightarrow> inv d \<Longrightarrow> f s d = (s', d') \<Longrightarrow> moves s s'"
    and op_inv: "good s \<Longrightarrow> inv d \<Longrightarrow> f s d = (s', d') \<Longrightarrow> inv d'"
    and op_key: "good s \<Longrightarrow> inv d \<Longrightarrow> f s d = (s', d') \<Longrightarrow> key d' = key d"
begin

lemma for_first_keeps:
  assumes "good s" and "\<forall>d \<in> set (take n ds). inv d" and "for_first f n s ds = (s', ds')"
  shows "moves s s' \<and> good s' \<and> length ds' = length ds \<and> drop n ds' = drop n ds \<and>
    (\<forall>d \<in> set (take n ds'). inv d) \<and> map key (take n ds') = map key (take n ds)"
  using assms
proof (induction n arbitrary: s ds s' ds')
  case (Suc n)
  show ?case
  proof (cases ds)
    case (Cons d es)
    obtain s1 d1 where f: "f s d = (s1, d1)" by force
    obtain s2 es2 where r: "for_first f n s1 es = (s2, es2)" by force
    have d: "moves s s1" "inv d1" "key d1 = key d" "good s1"
      using op_moves [OF _ _ f] op_inv [OF _ _ f] op_key [OF _ _ f] moves_good Suc.prems Cons by auto
    have eq: "s' = s2" "ds' = d1 # es2" using Suc.prems(3) Cons f r by auto
    have "moves s1 s2 \<and> good s2 \<and> length es2 = length es \<and> drop n es2 = drop n es \<and>
        (\<forall>d \<in> set (take n es2). inv d) \<and> map key (take n es2) = map key (take n es)"
      using Suc.prems(2) Cons d(4) r by (intro Suc.IH) (auto simp: eq)
    then show ?thesis using d eq Cons moves_trans by auto
  qed (use Suc.prems moves_refl in auto)
qed (auto intro: moves_refl)

text \<open>Every entry within the loop comes from one call, made in a good state.\<close>

lemma for_first_nth:
  assumes "good s" and "\<forall>d \<in> set (take n ds). inv d" and "for_first f n s ds = (s', ds')" and "i < n" and "i < length ds"
  shows "\<exists>t t'. good t \<and> moves s t \<and> moves t' s' \<and> f t (ds ! i) = (t', ds' ! i)"
  using assms
proof (induction n arbitrary: s ds s' ds' i)
  case (Suc n)
  then obtain d es where Cons: "ds = d # es" by (cases ds) auto
  obtain s1 d1 where f: "f s d = (s1, d1)" by force
  obtain s2 es2 where r: "for_first f n s1 es = (s2, es2)" by force
  have eq: "s' = s2" "ds' = d1 # es2" using Suc.prems(3) Cons f r by auto
  have m: "moves s s1" "good s1" using op_moves [OF _ _ f] moves_good Suc.prems Cons by auto
  have inv: "\<forall>d \<in> set (take n es). inv d" using Suc.prems(2) Cons by simp
  have m2: "moves s1 s2" using for_first_keeps [OF m(2) inv r] by simp
  show ?case
  proof (cases i)
    case 0
    then show ?thesis using f eq Cons Suc.prems(1) m2 moves_refl by auto
  next
    case (Suc j)
    then obtain t t' where "good t \<and> moves s1 t \<and> moves t' s2 \<and> f t (es ! j) = (t', es2 ! j)"
      using Suc.IH [OF m(2) inv r, of j] Suc.prems Cons by auto
    then show ?thesis using moves_trans [OF m(1)] Suc eq Cons by auto
  qed
qed simp

end

end
