(* ===== verification/Cstr.thy ===== *)
theory Cstr
  imports Perp_Prelude
begin

text \<open>
  Operations on NUL-terminated strings (\<open>src/lasagna/cstr\<close>).  A string argument is a
  buffer and an index into it.  Two pointer parameters of one function point into different
  objects, as the callers use them.  The source writes the body of each character loop four
  times in a row; the model has one copy, except in \<open>cstr_len\<close>, where the unrolled
  loop is kept and shown equal to the rolled one of \<open>cstr_len_small.c\<close>.  The character
  classes of \<open>ctype.h\<close> are those of the C locale.
\<close>

section \<open>Definitions\<close>

function cstr_len_small_loop :: "buffer \<Rightarrow> nat \<Rightarrow> nat option" where
  "cstr_len_small_loop b p = do {
     c \<leftarrow> rd b p;
     if c = 0 then Some p else cstr_len_small_loop b (p + 1) }"
  by pat_completeness auto
termination
  by (relation "measure (\<lambda>(b, p). length b - p)") (auto simp: mem_simps)

definition cstr_len_small :: "buffer \<Rightarrow> nat \<Rightarrow> nat option" where
  "cstr_len_small b s = do { p \<leftarrow> cstr_len_small_loop b s; Some (p - s) }"

function cstr_len_loop :: "buffer \<Rightarrow> nat \<Rightarrow> nat option" where
  "cstr_len_loop b p = do {
     c \<leftarrow> rd b p;
     if c = 0 then Some p else do {
       c \<leftarrow> rd b (p + 1);
       if c = 0 then Some (p + 1) else do {
         c \<leftarrow> rd b (p + 2);
         if c = 0 then Some (p + 2) else do {
           c \<leftarrow> rd b (p + 3);
           if c = 0 then Some (p + 3) else cstr_len_loop b (p + 4) } } } }"
  by pat_completeness auto
termination
  by (relation "measure (\<lambda>(b, p). length b - p)") (auto simp: mem_simps)

definition cstr_len :: "buffer \<Rightarrow> nat \<Rightarrow> nat option" where
  "cstr_len b s = do { p \<leftarrow> cstr_len_loop b s; Some (p - s) }"

text \<open>The copying loop \<open>if(!( *to = *from)) break; ++to; ++from;\<close> of four functions.\<close>

function cstr_copy_loop :: "buffer \<Rightarrow> nat \<Rightarrow> buffer \<Rightarrow> nat \<Rightarrow> (buffer \<times> nat) option" where
  "cstr_copy_loop to t from f = do {
     c \<leftarrow> rd from f;
     to \<leftarrow> wr to t c;
     if c = 0 then Some (to, t) else cstr_copy_loop to (t + 1) from (f + 1) }"
  by pat_completeness auto
termination
  by (relation "measure (\<lambda>(to, t, from, f). length from - f)") (auto simp: mem_simps)

definition cstr_copy :: "buffer \<Rightarrow> nat \<Rightarrow> buffer \<Rightarrow> nat \<Rightarrow> (buffer \<times> nat) option" where
  "cstr_copy to t from f = do {
     (to, t') \<leftarrow> cstr_copy_loop to t from f;
     Some (to, t' - t) }"

definition cstr_cat :: "buffer \<Rightarrow> nat \<Rightarrow> buffer \<Rightarrow> nat \<Rightarrow> (buffer \<times> nat) option" where
  "cstr_cat to t from f = do {
     e \<leftarrow> cstr_len_small_loop to t;
     (to, t') \<leftarrow> cstr_copy_loop to e from f;
     Some (to, t' - t) }"

text \<open>The argument list of the variadic functions, up to its NULL: buffers with an index.\<close>

fun cstr_vcopy_loop :: "buffer \<Rightarrow> nat \<Rightarrow> (buffer \<times> nat) list \<Rightarrow> (buffer \<times> nat) option" where
  "cstr_vcopy_loop to t [] = Some (to, t)"
| "cstr_vcopy_loop to t ((from, f) # args) = do {
     (to, t) \<leftarrow> cstr_copy_loop to t from f;
     cstr_vcopy_loop to t args }"

definition cstr_vcopy :: "buffer \<Rightarrow> nat \<Rightarrow> (buffer \<times> nat) list \<Rightarrow> (buffer \<times> nat) option" where
  "cstr_vcopy to t args = do {
     (to, t') \<leftarrow> cstr_vcopy_loop to t args;
     Some (to, t' - t) }"

definition cstr_vcat :: "buffer \<Rightarrow> nat \<Rightarrow> (buffer \<times> nat) list \<Rightarrow> (buffer \<times> nat) option" where
  "cstr_vcat to t args = do {
     e \<leftarrow> cstr_len_small_loop to t;
     (to, t') \<leftarrow> cstr_vcopy_loop to e args;
     Some (to, t' - t) }"

fun cstr_vlen_loop :: "nat \<Rightarrow> buffer \<times> nat \<Rightarrow> (buffer \<times> nat) list \<Rightarrow> nat option" where
  "cstr_vlen_loop n (b, s) args = do {
     k \<leftarrow> cstr_len b s;
     let n = n + k;
     case args of [] \<Rightarrow> Some n | a # args' \<Rightarrow> cstr_vlen_loop n a args' }"

definition cstr_vlen :: "buffer \<times> nat \<Rightarrow> (buffer \<times> nat) list \<Rightarrow> nat option" where
  "cstr_vlen s0 args = cstr_vlen_loop 0 s0 args"

text \<open>\<open>malloc\<close> is the parameter: the new object of the size asked for, or NULL.\<close>

definition cstr_dup :: "(nat \<Rightarrow> buffer option) \<Rightarrow> buffer \<Rightarrow> nat \<Rightarrow> buffer option option" where
  "cstr_dup malloc b s = do {
     n \<leftarrow> cstr_len b s;
     case malloc (n + 1) of
       None \<Rightarrow> Some None
     | Some new \<Rightarrow> do { (new, _) \<leftarrow> cstr_copy new 0 b s; Some (Some new) } }"

definition cstr_chop :: "buffer \<Rightarrow> nat \<Rightarrow> buffer option" where
  "cstr_chop b s = do {
     sN \<leftarrow> cstr_len_small_loop b s;
     let sN = (if sN > s then sN - 1 else sN);
     c \<leftarrow> rd b sN;
     if c = 10 then wr b sN 0 else Some b }"

function cstr_cmp :: "buffer \<Rightarrow> nat \<Rightarrow> buffer \<Rightarrow> nat \<Rightarrow> int option" where
  "cstr_cmp a s1 b s2 = do {
     c \<leftarrow> rd a s1;
     d \<leftarrow> rd b s2;
     if c \<noteq> d then Some (uint c - uint d)
     else if c = 0 then Some (uint c - uint d)
     else cstr_cmp a (s1 + 1) b (s2 + 1) }"
  by pat_completeness auto
termination
  by (relation "measure (\<lambda>(a, s1, b, s2). length a - s1)") (auto simp: mem_simps)

fun cstr_ncmp :: "buffer \<Rightarrow> nat \<Rightarrow> buffer \<Rightarrow> nat \<Rightarrow> nat \<Rightarrow> int option" where
  "cstr_ncmp a s1 b s2 0 = Some 0"
| "cstr_ncmp a s1 b s2 (Suc len) = do {
     c \<leftarrow> rd a s1;
     d \<leftarrow> rd b s2;
     if c \<noteq> d then Some (uint c - uint d)
     else if c = 0 then Some (uint c - uint d)
     else cstr_ncmp a (s1 + 1) b (s2 + 1) len }"

text \<open>\<open>tolower\<close> of the C locale, on the value of a (signed) \<open>char\<close> converted to \<open>int\<close>.\<close>

definition tolower :: "int \<Rightarrow> int" where
  "tolower c = (if 65 \<le> c \<and> c \<le> 90 then c + 32 else c)"

definition isspace :: "u8 \<Rightarrow> bool" where
  "isspace c \<longleftrightarrow> c = 32 \<or> 9 \<le> c \<and> c \<le> 13"

function cstr_cmpi :: "buffer \<Rightarrow> nat \<Rightarrow> buffer \<Rightarrow> nat \<Rightarrow> int option" where
  "cstr_cmpi a s1 b s2 = do {
     c \<leftarrow> rd a s1;
     d \<leftarrow> rd b s2;
     let x = tolower (sint c);
     if x \<noteq> tolower (sint d) then Some (x - tolower (sint d))
     else if x = 0 then Some (x - tolower (sint d))
     else cstr_cmpi a (s1 + 1) b (s2 + 1) }"
  by pat_completeness auto
termination
  by (relation "measure (\<lambda>(a, s1, b, s2). length a - s1)") (auto simp: mem_simps)

function cstr_contains :: "buffer \<Rightarrow> nat \<Rightarrow> buffer \<Rightarrow> nat \<Rightarrow> bool option" where
  "cstr_contains a s1 b s2 = do {
     c \<leftarrow> rd b s2;
     if c = 0 then Some True else do {
       d \<leftarrow> rd a s1;
       if c \<noteq> d then Some False else cstr_contains a (s1 + 1) b (s2 + 1) } }"
  by pat_completeness auto
termination
  by (relation "measure (\<lambda>(a, s1, b, s2). length b - s2)") (auto simp: mem_simps)

text \<open>
  \<open>strlcpy\<close>: the loop returns the destination, the two pointers and the remaining count;
  it breaks on the terminating NUL or when the count reaches zero.
\<close>

fun cstr_lcpy_loop :: "buffer \<Rightarrow> nat \<Rightarrow> buffer \<Rightarrow> nat \<Rightarrow> nat \<Rightarrow> (buffer \<times> nat \<times> nat \<times> nat) option" where
  "cstr_lcpy_loop dest t src f 0 = None"
| "cstr_lcpy_loop dest t src f (Suc n) = do {
     c \<leftarrow> rd src f;
     dest \<leftarrow> wr dest t c;
     if c = 0 then Some (dest, t + 1, f + 1, Suc n)
     else if n = 0 then Some (dest, t + 1, f + 1, 0)
     else cstr_lcpy_loop dest (t + 1) src (f + 1) n }"

definition cstr_lcpy :: "buffer \<Rightarrow> nat \<Rightarrow> buffer \<Rightarrow> nat \<Rightarrow> nat \<Rightarrow> (buffer \<times> nat) option" where
  "cstr_lcpy dest d src s dest_len = do {
     (dest, t, f, n) \<leftarrow>
       (if dest_len \<noteq> 0 \<and> dest_len - 1 \<noteq> 0 then cstr_lcpy_loop dest d src s (dest_len - 1)
        else Some (dest, d, s, dest_len - 1));
     (if n = 0 then do {
        dest \<leftarrow> (if dest_len > 0 then wr dest t 0 else Some dest);
        e \<leftarrow> cstr_len_small_loop src f;
        Some (dest, (e + 1) - s - 1) }
      else Some (dest, f - s - 1)) }"

text \<open>\<open>strlcat\<close>.\<close>

fun cstr_lcat_end :: "buffer \<Rightarrow> nat \<Rightarrow> nat \<Rightarrow> nat option" where
  "cstr_lcat_end dest t 0 = Some t"
| "cstr_lcat_end dest t (Suc n) = do {
     c \<leftarrow> rd dest t;
     if c = 0 then Some t else cstr_lcat_end dest (t + 1) n }"

function cstr_lcat_loop :: "buffer \<Rightarrow> nat \<Rightarrow> buffer \<Rightarrow> nat \<Rightarrow> nat \<Rightarrow> (buffer \<times> nat \<times> nat) option" where
  "cstr_lcat_loop dest t src f n = do {
     c \<leftarrow> rd src f;
     if c = 0 then Some (dest, t, f)
     else if n \<noteq> 1 then do {
       dest \<leftarrow> wr dest t c;
       cstr_lcat_loop dest (t + 1) src (f + 1) (n - 1) }
     else cstr_lcat_loop dest t src (f + 1) n }"
  by pat_completeness auto
termination
  by (relation "measure (\<lambda>(dest, t, src, f, n). length src - f)") (auto simp: mem_simps)

definition cstr_lcat :: "buffer \<Rightarrow> nat \<Rightarrow> buffer \<Rightarrow> nat \<Rightarrow> nat \<Rightarrow> (buffer \<times> nat) option" where
  "cstr_lcat dest d src s dest_len = do {
     t \<leftarrow> cstr_lcat_end dest d dest_len;
     let n0 = t - d;
     let n = dest_len - n0;
     if n = 0 then do { k \<leftarrow> cstr_len src s; Some (dest, n0 + k) }
     else do {
       (dest, t, f) \<leftarrow> cstr_lcat_loop dest t src s n;
       dest \<leftarrow> wr dest t 0;
       Some (dest, n0 + (f - s)) } }"

function cstr_skip_space :: "buffer \<Rightarrow> nat \<Rightarrow> nat option" where
  "cstr_skip_space b x = do {
     c \<leftarrow> rd b x;
     if c \<noteq> 0 \<and> isspace c then cstr_skip_space b (x + 1) else Some x }"
  by pat_completeness auto
termination
  by (relation "measure (\<lambda>(b, x). length b - x)") (auto simp: mem_simps)

function cstr_ltrim_loop :: "buffer \<Rightarrow> nat \<Rightarrow> nat \<Rightarrow> (buffer \<times> nat) option" where
  "cstr_ltrim_loop b sN sX = do {
     c \<leftarrow> rd b sX;
     if c \<noteq> 0 then do { b \<leftarrow> wr b sN c; cstr_ltrim_loop b (sN + 1) (sX + 1) }
     else Some (b, sN) }"
  by pat_completeness auto
termination
  by (relation "measure (\<lambda>(b, sN, sX). length b - sX)") (auto simp: mem_simps)

definition cstr_ltrim :: "buffer \<Rightarrow> nat \<Rightarrow> buffer option" where
  "cstr_ltrim b s = do {
     sX \<leftarrow> cstr_skip_space b s;
     if sX \<noteq> s then do {
       (b, sN) \<leftarrow> cstr_ltrim_loop b s sX;
       wr b sN 0 }
     else Some b }"

function cstr_rtrim_loop :: "buffer \<Rightarrow> nat \<Rightarrow> nat \<Rightarrow> buffer option" where
  "cstr_rtrim_loop b s sN =
     (if sN > s then do {
        c \<leftarrow> rd b sN;
        if isspace c then do { b \<leftarrow> wr b sN 0; cstr_rtrim_loop b s (sN - 1) } else Some b }
      else Some b)"
  by pat_completeness auto
termination
  by (relation "measure (\<lambda>(b, s, sN). sN)") (auto simp: mem_simps)

definition cstr_rtrim :: "buffer \<Rightarrow> nat \<Rightarrow> buffer option" where
  "cstr_rtrim b s = do {
     sN \<leftarrow> cstr_len_small_loop b s;
     let sN = (if sN > s then sN - 1 else sN);
     cstr_rtrim_loop b s sN }"

definition cstr_trim :: "buffer \<Rightarrow> nat \<Rightarrow> buffer option" where
  "cstr_trim b s = do { b \<leftarrow> cstr_rtrim b s; cstr_ltrim b s }"

function cstr_pos_loop :: "buffer \<Rightarrow> nat \<Rightarrow> u8 \<Rightarrow> nat option" where
  "cstr_pos_loop b p ch = do {
     c \<leftarrow> rd b p;
     if c = 0 then Some p else if c = ch then Some p else cstr_pos_loop b (p + 1) ch }"
  by pat_completeness auto
termination
  by (relation "measure (\<lambda>(b, p, ch). length b - p)") (auto simp: mem_simps)

definition cstr_pos :: "buffer \<Rightarrow> nat \<Rightarrow> u32 \<Rightarrow> nat option" where
  "cstr_pos b s c = do { p \<leftarrow> cstr_pos_loop b s (ucast c); Some (p - s) }"

function cstr_rpos_loop :: "buffer \<Rightarrow> nat \<Rightarrow> u8 \<Rightarrow> nat option \<Rightarrow> (nat \<times> nat option) option" where
  "cstr_rpos_loop b p ch t = do {
     c \<leftarrow> rd b p;
     if c = 0 then Some (p, t)
     else cstr_rpos_loop b (p + 1) ch (if c = ch then Some p else t) }"
  by pat_completeness auto
termination
  by (relation "measure (\<lambda>(b, p, ch, t). length b - p)") (auto simp: mem_simps)

definition cstr_rpos :: "buffer \<Rightarrow> nat \<Rightarrow> u32 \<Rightarrow> nat option" where
  "cstr_rpos b s c = do {
     (p, t) \<leftarrow> cstr_rpos_loop b s (ucast c) None;
     Some ((case t of None \<Rightarrow> p | Some t \<Rightarrow> t) - s) }"

declare
  cstr_len_small_loop.simps [simp del] cstr_len_loop.simps [simp del]
  cstr_copy_loop.simps [simp del] cstr_cmp.simps [simp del] cstr_cmpi.simps [simp del]
  cstr_contains.simps [simp del] cstr_lcat_loop.simps [simp del]
  cstr_skip_space.simps [simp del] cstr_ltrim_loop.simps [simp del]
  cstr_rtrim_loop.simps [simp del] cstr_pos_loop.simps [simp del] cstr_rpos_loop.simps [simp del]

section \<open>Length and copying\<close>

lemma cstr_len_loop_eq: "cstr_len_loop b p = cstr_len_small_loop b p"
proof (induction b p rule: cstr_len_loop.induct)
  case (1 b p)
  note u = cstr_len_small_loop.simps
  have "cstr_len_loop b (p + 4) = cstr_len_small_loop b (p + 3 + 1)"
    if "rd b p = Some c0" "c0 \<noteq> 0" "rd b (p + 1) = Some c1" "c1 \<noteq> 0"
      "rd b (p + 2) = Some c2" "c2 \<noteq> 0" "rd b (p + 3) = Some c3" "c3 \<noteq> 0" for c0 c1 c2 c3
    using 1 [OF that] by (simp add: eval_nat_numeral)
  then show ?case
    by (subst cstr_len_loop.simps, subst u, subst u [of b "p + 1"], subst u [of b "p + 1 + 1"],
        subst u [of b "p + 1 + 1 + 1"])
      (auto simp: eval_nat_numeral split: Option.bind_split)
qed

lemma cstr_end: "cstr_at b i s \<Longrightarrow> cstr_len_small_loop b i = Some (i + length s)"
proof (induction s arbitrary: i)
  case Nil
  then show ?case by (subst cstr_len_small_loop.simps) (simp add: cstr_at_Nil)
next
  case (Cons c s)
  then show ?case
    using cstr_at_Cons_nth [OF Cons.prems] cstr_at_tl [OF Cons.prems]
    by (subst cstr_len_small_loop.simps) simp
qed

lemma cstr_len_spec [simp]: "cstr_at b i s \<Longrightarrow> cstr_len b i = Some (length s)"
  by (simp add: cstr_len_def cstr_len_loop_eq cstr_end)

text \<open>The buffer \<open>b\<close> with the C string \<open>s\<close> stored at index \<open>t\<close>.\<close>

definition store_cstr :: "buffer \<Rightarrow> nat \<Rightarrow> u8 list \<Rightarrow> buffer" where
  "store_cstr b t s = take t b @ s @ 0 # drop (t + Suc (length s)) b"

lemma length_store_cstr [simp]:
  "t + length s < length b \<Longrightarrow> length (store_cstr b t s) = length b"
  by (simp add: store_cstr_def)

lemma cstr_at_store:
  "0 \<notin> set s \<Longrightarrow> t + length s < length b \<Longrightarrow> cstr_at (store_cstr b t s) t s"
  using cstr_at_append [of s "take t b"] by (simp add: store_cstr_def)

lemma take_update_Suc: "t < length b \<Longrightarrow> take (Suc t) (b[t := c]) = take t b @ [c]"
  by (simp add: take_Suc_conv_app_nth)

lemma store_cstr_step:
  "t < length b \<Longrightarrow> store_cstr (b[t := c]) (Suc t) s = store_cstr b t (c # s)"
  by (simp add: store_cstr_def take_update_Suc)

lemma cstr_copy_loop_spec:
  "cstr_at from f s \<Longrightarrow> t + length s < length to \<Longrightarrow>
   cstr_copy_loop to t from f = Some (store_cstr to t s, t + length s)"
proof (induction s arbitrary: to t f)
  case Nil
  then show ?case
    by (subst cstr_copy_loop.simps)
      (simp add: cstr_at_Nil store_cstr_def upd_conv_take_nth_drop)
next
  case (Cons c s)
  then show ?case
    using cstr_at_Cons_nth [OF Cons.prems(1)] cstr_at_tl [OF Cons.prems(1)]
      Cons.IH [of "Suc f" "Suc t" "to[t := c]"]
    by (subst cstr_copy_loop.simps) (simp add: store_cstr_step)
qed

lemma cstr_copy_loop_fault:
  "cstr_at from f s \<Longrightarrow> length to \<le> t + length s \<Longrightarrow> cstr_copy_loop to t from f = None"
proof (induction s arbitrary: to t f)
  case Nil
  then show ?case by (subst cstr_copy_loop.simps) (simp add: cstr_at_Nil wr_def)
next
  case (Cons c s)
  then show ?case
    using cstr_at_Cons_nth [OF Cons.prems(1)] cstr_at_tl [OF Cons.prems(1)]
      Cons.IH [of "Suc f" "to[t := c]" "Suc t"]
    by (subst cstr_copy_loop.simps) (auto simp: wr_def)
qed

lemma store_cstr_append:
  "t + length s + length r < length b \<Longrightarrow>
   store_cstr (store_cstr b t s) (t + length s) r = store_cstr b t (s @ r)"
  by (simp add: store_cstr_def ac_simps)

definition args_at :: "(buffer \<times> nat) list \<Rightarrow> u8 list list \<Rightarrow> bool" where
  "args_at args ss = list_all2 (\<lambda>(b, i) s. cstr_at b i s) args ss"

lemma cstr_vcopy_loop_spec:
  "args_at args ss \<Longrightarrow> t + length (concat ss) < length to \<Longrightarrow> args \<noteq> [] \<Longrightarrow>
   cstr_vcopy_loop to t args = Some (store_cstr to t (concat ss), t + length (concat ss))"
proof (induction args arbitrary: to t ss)
  case Nil
  then show ?case by simp
next
  case (Cons a args)
  obtain b i where a: "a = (b, i)" by force
  from Cons.prems obtain s ss' where ss: "ss = s # ss'" and s: "cstr_at b i s"
    and rest: "args_at args ss'"
    by (auto simp: args_at_def list_all2_Cons1 a)
  have step: "cstr_copy_loop to t b i = Some (store_cstr to t s, t + length s)"
    using Cons.prems s ss by (intro cstr_copy_loop_spec) auto
  show ?case
  proof (cases args)
    case Nil
    with rest have "ss' = []" by (simp add: args_at_def)
    with Nil show ?thesis by (simp add: a ss step)
  next
    case (Cons a' args')
    have "cstr_vcopy_loop (store_cstr to t s) (t + length s) args =
        Some (store_cstr (store_cstr to t s) (t + length s) (concat ss'),
              t + length s + length (concat ss'))"
      using Cons.IH [OF rest] Cons.prems ss Cons by simp
    then show ?thesis
      using Cons.prems by (simp add: a ss step store_cstr_append)
  qed
qed

section \<open>Comparison\<close>

lemma cstr_cmp_spec:
  "cstr_at a i s \<Longrightarrow> cstr_at b j r \<Longrightarrow>
   \<exists>x. cstr_cmp a i b j = Some x \<and> (x = 0 \<longleftrightarrow> s = r) \<and>
       (x < 0 \<longleftrightarrow> (s, r) \<in> lexord {(x, y). x < y})"
proof (induction s arbitrary: i j r)
  case Nil
  show ?case
  proof (cases r)
    case Nil
    with Nil.prems \<open>r = []\<close> show ?thesis
      by (subst cstr_cmp.simps) (simp add: cstr_at_Nil)
  next
    case (Cons d r')
    then show ?thesis
      using Nil.prems cstr_at_Cons_nth [of b j d r']
      by (subst cstr_cmp.simps) (auto simp: cstr_at_Nil word_less_def uint_0_iff unsigned_eq_0_iff order.strict_iff_order)
  qed
next
  case (Cons c s)
  note c = cstr_at_Cons_nth [OF Cons.prems(1)]
  show ?case
  proof (cases r)
    case Nil
    with Cons.prems c show ?thesis
      by (subst cstr_cmp.simps) (auto simp: cstr_at_Nil not_less unsigned_eq_0_iff)
  next
    case (Cons d r')
    note d = cstr_at_Cons_nth [OF Cons.prems(2) [unfolded Cons]]
    show ?thesis
    proof (cases "c = d")
      case True
      have "\<exists>x. cstr_cmp a (Suc i) b (Suc j) = Some x \<and> (x = 0 \<longleftrightarrow> s = r') \<and>
          (x < 0 \<longleftrightarrow> (s, r') \<in> lexord {(x, y). x < y})"
        using Cons.prems Cons by (intro Cons.IH) (auto intro: cstr_at_tl)
      with True c d Cons show ?thesis by (subst cstr_cmp.simps) auto
    next
      case False
      with c d Cons show ?thesis
        by (subst cstr_cmp.simps) (auto simp: word_less_def word_uint_eq_iff)
    qed
  qed
qed

lemma cstr_ncmp_spec:
  "cstr_at a i s \<Longrightarrow> cstr_at b j r \<Longrightarrow>
   \<exists>x. cstr_ncmp a i b j n = Some x \<and> (x = 0 \<longleftrightarrow> take n s = take n r) \<and>
       (x < 0 \<longleftrightarrow> (take n s, take n r) \<in> lexord {(x, y). x < y})"
proof (induction n arbitrary: i j s r)
  case (Suc n)
  show ?case
  proof (cases s)
    case Nil
    then show ?thesis
      using Suc.prems cstr_at_Cons_nth [of b j "hd r" "tl r"]
      by (cases r) (auto simp: cstr_at_Nil word_less_def unsigned_eq_0_iff order.strict_iff_order)
  next
    case (Cons c s')
    note c = cstr_at_Cons_nth [OF Suc.prems(1) [unfolded Cons]]
    show ?thesis
    proof (cases r)
      case Nil
      with Suc.prems c Cons show ?thesis by (auto simp: cstr_at_Nil not_less unsigned_eq_0_iff)
    next
      case r: (Cons d r')
      note d = cstr_at_Cons_nth [OF Suc.prems(2) [unfolded r]]
      have "\<exists>x. cstr_ncmp a (Suc i) b (Suc j) n = Some x \<and> (x = 0 \<longleftrightarrow> take n s' = take n r') \<and>
          (x < 0 \<longleftrightarrow> (take n s', take n r') \<in> lexord {(x, y). x < y})"
        using Suc.prems Cons r by (intro Suc.IH) (auto intro: cstr_at_tl)
      with c d Cons r show ?thesis by (cases "c = d") (auto simp: word_less_def word_uint_eq_iff)
    qed
  qed
qed simp

lemma tolower_sint_0: "tolower (sint c) = 0 \<longleftrightarrow> c = (0 :: u8)"
proof -
  have "sint c = 0 \<longleftrightarrow> c = 0" by (metis signed_0 signed_word_eqI)
  then show ?thesis by (auto simp: tolower_def)
qed

lemma tolower_zero [simp]: "tolower 0 = 0" "0 = tolower (sint c) \<longleftrightarrow> c = (0 :: u8)"
  using tolower_sint_0 [of c] by (auto simp: tolower_def)

lemma cstr_cmpi_spec:
  "cstr_at a i s \<Longrightarrow> cstr_at b j r \<Longrightarrow>
   \<exists>x. cstr_cmpi a i b j = Some x \<and>
       (x = 0 \<longleftrightarrow> map (\<lambda>c. tolower (sint c)) s = map (\<lambda>c. tolower (sint c)) r)"
proof (induction s arbitrary: i j r)
  case Nil
  then show ?case
    using cstr_at_Cons_nth [of b j "hd r" "tl r"]
    by (cases r; subst cstr_cmpi.simps) (auto simp: cstr_at_Nil Let_def tolower_sint_0)
next
  case (Cons c s)
  note c = cstr_at_Cons_nth [OF Cons.prems(1)]
  show ?case
  proof (cases r)
    case Nil
    with Cons.prems c show ?thesis
      by (subst cstr_cmpi.simps) (auto simp: cstr_at_Nil Let_def tolower_sint_0)
  next
    case r: (Cons d r')
    note d = cstr_at_Cons_nth [OF Cons.prems(2) [unfolded r]]
    have "\<exists>x. cstr_cmpi a (Suc i) b (Suc j) = Some x \<and>
        (x = 0 \<longleftrightarrow> map (\<lambda>c. tolower (sint c)) s = map (\<lambda>c. tolower (sint c)) r')"
      using Cons.prems r by (intro Cons.IH) (auto intro: cstr_at_tl)
    with c d r show ?thesis
      by (subst cstr_cmpi.simps) (auto simp: Let_def tolower_sint_0)
  qed
qed

lemma cstr_contains_spec:
  "cstr_at a i s \<Longrightarrow> cstr_at b j r \<Longrightarrow> cstr_contains a i b j = Some (take (length r) s = r)"
proof (induction r arbitrary: i j s)
  case Nil
  then show ?case by (subst cstr_contains.simps) (simp add: cstr_at_Nil)
next
  case (Cons d r)
  note d = cstr_at_Cons_nth [OF Cons.prems(2)]
  show ?case
  proof (cases s)
    case Nil
    with Cons.prems d show ?thesis by (subst cstr_contains.simps) (simp add: cstr_at_Nil)
  next
    case s: (Cons c s')
    note c = cstr_at_Cons_nth [OF Cons.prems(1) [unfolded s]]
    have "cstr_contains a (Suc i) b (Suc j) = Some (take (length r) s' = r)"
      using Cons.prems s by (intro Cons.IH) (auto intro: cstr_at_tl)
    with c d s show ?thesis by (subst cstr_contains.simps) auto
  qed
qed

section \<open>Bounded copy and append\<close>

lemma cstr_at_drop: "cstr_at b i s \<Longrightarrow> n \<le> length s \<Longrightarrow> cstr_at b (i + n) (drop n s)"
proof (induction n arbitrary: i s)
  case (Suc n)
  then show ?case
    using cstr_at_tl [of b i "hd s" "tl s"] Suc.IH [of "Suc i" "tl s"] by (cases s) auto
qed simp

lemma cstr_lcpy_loop_all:
  "cstr_at src f s \<Longrightarrow> length s < n \<Longrightarrow> t + length s < length dest \<Longrightarrow>
   cstr_lcpy_loop dest t src f n =
     Some (store_cstr dest t s, t + length s + 1, f + length s + 1, n - length s)"
proof (induction s arbitrary: dest t f n)
  case Nil
  then show ?case
    by (cases n) (auto simp: cstr_at_Nil store_cstr_def upd_conv_take_nth_drop)
next
  case (Cons c s)
  obtain m where n: "n = Suc m" using Cons.prems by (cases n) auto
  show ?case
    using Cons.prems cstr_at_Cons_nth [OF Cons.prems(1)] cstr_at_tl [OF Cons.prems(1)]
      Cons.IH [of "Suc f" m "Suc t" "dest[t := c]"]
    by (auto simp: n store_cstr_step)
qed

lemma cstr_lcpy_loop_cut:
  "cstr_at src f s \<Longrightarrow> 0 < n \<Longrightarrow> n \<le> length s \<Longrightarrow> t + n \<le> length dest \<Longrightarrow>
   cstr_lcpy_loop dest t src f n =
     Some (take t dest @ take n s @ drop (t + n) dest, t + n, f + n, 0)"
proof (induction n arbitrary: dest t f s)
  case (Suc n)
  obtain c s' where s: "s = c # s'" using Suc.prems by (cases s) auto
  note c = cstr_at_Cons_nth [OF Suc.prems(1) [unfolded s]]
  show ?case
  proof (cases "n = 0")
    case True
    with Suc.prems c s show ?thesis by (simp add: upd_conv_take_nth_drop)
  next
    case False
    have "cstr_lcpy_loop (dest[t := c]) (Suc t) src (Suc f) n =
        Some (take (Suc t) (dest[t := c]) @ take n s' @ drop (Suc t + n) (dest[t := c]),
              Suc t + n, Suc f + n, 0)"
      using Suc.prems False s by (intro Suc.IH) (auto intro: cstr_at_tl)
    with False Suc.prems c s show ?thesis by (simp add: take_update_Suc)
  qed
qed simp

lemma store_cut:
  "t + n < length b \<Longrightarrow> n = length r \<Longrightarrow>
   (take t b @ r @ drop (t + n) b)[t + n := 0] = store_cstr b t r"
  by (simp add: store_cstr_def list_update_append upd_conv_take_nth_drop hd_drop_conv_nth
      Cons_nth_drop_Suc [symmetric] del: drop_append)

lemma cstr_lcpy_spec:
  assumes "cstr_at src i s" and "0 < n" and "d + min (length s) (n - 1) < length dest"
  shows "cstr_lcpy dest d src i n = Some (store_cstr dest d (take (n - 1) s), length s)"
proof (cases "length s < n - 1")
  case True
  with assms show ?thesis
    by (auto simp: cstr_lcpy_def cstr_lcpy_loop_all)
next
  case False
  have e: "cstr_len_small_loop src (i + (n - 1)) = Some (i + length s)"
    using cstr_end [OF cstr_at_drop [OF assms(1), of "n - 1"]] False by simp
  show ?thesis
  proof (cases "n = 1")
    case True
    with assms e show ?thesis
      by (simp add: cstr_lcpy_def store_cstr_def upd_conv_take_nth_drop)
  next
    case ne: False
    have "(take d dest @ take (n - 1) s @ drop (d + (n - 1)) dest)[d + (n - 1) := 0] =
        store_cstr dest d (take (n - 1) s)"
      using assms False by (intro store_cut) auto
    moreover have "cstr_lcpy_loop dest d src i (n - 1) =
        Some (take d dest @ take (n - 1) s @ drop (d + (n - 1)) dest, d + (n - 1), i + (n - 1), 0)"
      using assms False ne by (intro cstr_lcpy_loop_cut) auto
    ultimately show ?thesis
      using assms ne False e by (simp add: cstr_lcpy_def)
  qed
qed

lemma cstr_lcpy_zero: "cstr_at src i s \<Longrightarrow> cstr_lcpy dest d src i 0 = Some (dest, length s)"
  by (simp add: cstr_lcpy_def cstr_end)

lemma cstr_lcat_end_spec:
  "cstr_at dest d r \<Longrightarrow> cstr_lcat_end dest d n = Some (d + min n (length r))"
proof (induction n arbitrary: d r)
  case (Suc n)
  show ?case
  proof (cases r)
    case Nil
    with Suc.prems show ?thesis by (simp add: cstr_at_Nil)
  next
    case (Cons c r')
    then show ?thesis
      using Suc.prems Suc.IH [of "Suc d" r'] cstr_at_tl [of dest d c r']
        cstr_at_Cons_nth [of dest d c r'] by simp
  qed
qed simp

lemma cstr_lcat_loop_spec:
  "cstr_at src f s \<Longrightarrow> 1 \<le> n \<Longrightarrow> t + min (length s) (n - 1) < length dest \<Longrightarrow>
   cstr_lcat_loop dest t src f n =
     Some (take t dest @ take (n - 1) s @ drop (t + min (length s) (n - 1)) dest,
           t + min (length s) (n - 1), f + length s)"
proof (induction s arbitrary: dest t f n)
  case Nil
  then show ?case by (subst cstr_lcat_loop.simps) (simp add: cstr_at_Nil)
next
  case (Cons c s)
  note c = cstr_at_Cons_nth [OF Cons.prems(1)] and tl = cstr_at_tl [OF Cons.prems(1)]
  show ?case
  proof (cases "n = 1")
    case True
    with Cons.prems c tl Cons.IH [of "Suc f" 1 t dest] show ?thesis
      by (subst cstr_lcat_loop.simps) simp
  next
    case False
    define m where "m = n - 2"
    have n: "n = Suc (Suc m)" using False Cons.prems(2) by (simp add: m_def)
    with Cons.prems c tl Cons.IH [of "Suc f" "Suc m" "Suc t" "dest[t := c]"] show ?thesis
      by (subst cstr_lcat_loop.simps) (simp add: take_update_Suc)
  qed
qed

lemma take_cstr: "cstr_at b i s \<Longrightarrow> take (i + length s) b = take i b @ s"
proof -
  assume a: "cstr_at b i s"
  then have "take (length s) (take (Suc (length s)) (drop i b)) = s"
    by (simp add: cstr_at_def)
  then have "take (length s) (drop i b) = s" by simp
  then show ?thesis by (simp add: take_add)
qed

lemma cstr_lcat_spec:
  assumes "cstr_at dest d r" and "cstr_at src i s" and "length r < n"
    and "d + min (length r + length s) (n - 1) < length dest"
  shows "cstr_lcat dest d src i n =
    Some (store_cstr dest d (take (n - 1) (r @ s)), length r + length s)"
proof -
  define k where "k = n - length r"
  have k: "1 \<le> k" and n1: "n - 1 = length r + (k - 1)" using assms(3) by (auto simp: k_def)
  let ?t = "d + length r"
  have loop: "cstr_lcat_loop dest ?t src i k =
      Some (take ?t dest @ take (k - 1) s @ drop (?t + min (length s) (k - 1)) dest,
            ?t + min (length s) (k - 1), i + length s)"
    using assms k n1 by (intro cstr_lcat_loop_spec) auto
  have upd: "(take ?t dest @ take (k - 1) s @ drop (?t + min (length s) (k - 1)) dest)
      [?t + min (length s) (k - 1) := 0] = store_cstr dest ?t (take (k - 1) s)"
    using assms(4) n1 by (intro store_cut) auto
  have "store_cstr dest ?t (take (k - 1) s) = store_cstr dest d (r @ take (k - 1) s)"
    using take_cstr [OF assms(1)] by (simp add: store_cstr_def ac_simps)
  moreover have "r @ take (k - 1) s = take (n - 1) (r @ s)" unfolding n1 by simp
  ultimately have st: "store_cstr dest ?t (take (k - 1) s) = store_cstr dest d (take (n - 1) (r @ s))"
    by simp
  have e: "cstr_lcat_end dest d n = Some ?t"
    using cstr_lcat_end_spec [OF assms(1), of n] assms(3) by simp
  have in_bounds: "?t + min (length s) (k - 1) < length dest" using assms(4) n1 by auto
  show ?thesis
    using k in_bounds assms(3) by (simp add: cstr_lcat_def e k_def [symmetric] Let_def loop upd st del: One_nat_def)
qed

lemma cstr_lcat_full:
  assumes "cstr_at dest d r" and "cstr_at src i s" and "n \<le> length r"
  shows "cstr_lcat dest d src i n = Some (dest, n + length s)"
  using assms cstr_lcat_end_spec [OF assms(1), of n] by (simp add: cstr_lcat_def)

section \<open>Trimming\<close>

lemma isspace_0 [simp]: "\<not> isspace 0"
  by (simp add: isspace_def)

lemma cstr_at_cut: "cstr_at b i (s @ c # r) \<Longrightarrow> cstr_at (b[i + length s := 0]) i s"
  using cstr_at_nth [of b i "s @ c # r"] cstr_at_end [of b i "s @ c # r"]
  by (intro cstr_atI) (auto simp: cstr_at_def nth_append)

lemma cstr_at_update_before: "k < i \<Longrightarrow> cstr_at b i s \<Longrightarrow> cstr_at (b[k := c]) i s"
  by (simp add: cstr_at_def)

text \<open>What \<open>cstr_rtrim\<close> leaves of a string: the first character is never removed.\<close>

fun rtrimmed :: "u8 list \<Rightarrow> u8 list" where
  "rtrimmed [] = []"
| "rtrimmed (c # s) = c # rev (dropWhile isspace (rev s))"

lemma rtrimmed_snoc:
  "s \<noteq> [] \<Longrightarrow> rtrimmed (s @ [c]) = (if isspace c then rtrimmed s else s @ [c])"
  by (cases s) auto

lemma cstr_rtrim_loop_spec:
  "cstr_at b i s \<Longrightarrow> s \<noteq> [] \<Longrightarrow>
   \<exists>b'. cstr_rtrim_loop b i (i + length s - 1) = Some b' \<and> length b' = length b \<and> cstr_at b' i (rtrimmed s)"
proof (induction s arbitrary: b rule: rev_induct)
  case (snoc c s)
  show ?case
  proof (cases "s = []")
    case True
    with snoc.prems show ?thesis by (subst cstr_rtrim_loop.simps) simp
  next
    case False
    have c: "b ! (i + length s) = c" "i + length s < length b"
      using cstr_at_nth [OF snoc.prems(1), of "length s"] by (auto simp: nth_append)
    have cut: "cstr_at (b[i + length s := 0]) i s"
      using snoc.prems(1) by (intro cstr_at_cut [where c = c and r = "[]"]) simp
    show ?thesis
      using False c snoc.IH [OF cut False] snoc.prems(1)
      by (subst cstr_rtrim_loop.simps) (auto simp: rtrimmed_snoc)
  qed
qed simp

lemma cstr_rtrim_spec:
  assumes "cstr_at b i s"
  shows "\<exists>b'. cstr_rtrim b i = Some b' \<and> length b' = length b \<and> cstr_at b' i (rtrimmed s)"
proof (cases "s = []")
  case True
  with assms show ?thesis
    by (simp add: cstr_rtrim_def cstr_end cstr_rtrim_loop.simps)
next
  case False
  with cstr_rtrim_loop_spec [OF assms False] assms show ?thesis
    by (simp add: cstr_rtrim_def cstr_end)
qed

lemma cstr_skip_space_spec:
  "cstr_at b i s \<Longrightarrow> cstr_skip_space b i = Some (i + length (takeWhile isspace s))"
proof (induction s arbitrary: i)
  case Nil
  then show ?case by (subst cstr_skip_space.simps) (simp add: cstr_at_Nil)
next
  case (Cons c s)
  then show ?case
    using cstr_at_Cons_nth [OF Cons.prems] cstr_at_tl [OF Cons.prems]
    by (subst cstr_skip_space.simps) auto
qed

lemma cstr_ltrim_loop_spec:
  "cstr_at b x r \<Longrightarrow> n < x \<Longrightarrow>
   \<exists>b'. cstr_ltrim_loop b n x = Some (b', n + length r) \<and> length b' = length b \<and>
        (\<forall>j < length r. b' ! (n + j) = r ! j) \<and> (\<forall>j < n. b' ! j = b ! j)"
proof (induction r arbitrary: b n x)
  case Nil
  then show ?case by (subst cstr_ltrim_loop.simps) (simp add: cstr_at_Nil)
next
  case (Cons c r)
  note c = cstr_at_Cons_nth [OF Cons.prems(1)]
  have "cstr_at (b[n := c]) (Suc x) r"
    using Cons.prems by (intro cstr_at_update_before cstr_at_tl) auto
  then obtain b' where b': "cstr_ltrim_loop (b[n := c]) (Suc n) (Suc x) = Some (b', Suc n + length r)"
      "length b' = length b" "\<forall>j < length r. b' ! (Suc n + j) = r ! j"
      "\<forall>j < Suc n. b' ! j = (b[n := c]) ! j"
    using Cons.IH [of "b[n := c]" "Suc x" "Suc n"] Cons.prems by auto
  have "b' ! (n + j) = (c # r) ! j" if "j < length (c # r)" for j
    using b'(3,4) that c Cons.prems(2) by (cases j) auto
  then show ?case
    using b' c Cons.prems(2) by (subst cstr_ltrim_loop.simps) auto
qed

lemma cstr_ltrim_spec:
  assumes "cstr_at b i s"
  shows "\<exists>b'. cstr_ltrim b i = Some b' \<and> length b' = length b \<and> cstr_at b' i (dropWhile isspace s)"
proof -
  define k where "k = length (takeWhile isspace s)"
  define r where "r = dropWhile isspace s"
  have skip: "cstr_skip_space b i = Some (i + k)"
    using cstr_skip_space_spec [OF assms] by (simp add: k_def)
  have kr: "k + length r = length s" and r: "drop k s = r"
    unfolding k_def r_def by (metis length_append takeWhile_dropWhile_id) (simp add: dropWhile_eq_drop)
  show ?thesis
  proof (cases "k = 0")
    case True
    then have "dropWhile isspace s = s" using r by (simp add: r_def)
    with True assms show ?thesis by (simp add: cstr_ltrim_def skip)
  next
    case False
    have at: "cstr_at b (i + k) r" using cstr_at_drop [OF assms, of k] kr r by simp
    obtain b' where b': "cstr_ltrim_loop b i (i + k) = Some (b', i + length r)"
      "length b' = length b" "\<forall>j < length r. b' ! (i + j) = r ! j"
      using cstr_ltrim_loop_spec [OF at, of i] False by auto
    have len: "i + length r < length b" using cstr_at_end(2) [OF assms] kr by simp
    have "cstr_at (b'[i + length r := 0]) i r"
      using b'(2,3) len at by (intro cstr_atI) (auto simp: cstr_at_def)
    then show ?thesis using b' len False by (simp add: cstr_ltrim_def skip r_def)
  qed
qed

lemma dropWhile_rtrimmed:
  "dropWhile isspace (rtrimmed s) = rev (dropWhile isspace (rev (dropWhile isspace s)))"
proof (induction s)
  case (Cons c s)
  show ?case
  proof (cases "isspace c")
    case True
    show ?thesis
    proof (cases s)
      case Nil
      with True show ?thesis by simp
    next
      case (Cons d s')
      have "dropWhile isspace (rev (dropWhile isspace (rev s))) =
          rev (dropWhile isspace (rev (dropWhile isspace s)))"
      proof (cases "\<exists>x \<in> set s. \<not> isspace x")
        case True
        then have "rev (dropWhile isspace (rev s)) = rtrimmed s"
          by (simp add: Cons dropWhile_append)
        then show ?thesis using Cons.IH by simp
      next
        case False
        then have "dropWhile isspace s = []" and "dropWhile isspace (rev s) = []" by auto
        then show ?thesis by (simp only:) simp
      qed
      with True show ?thesis by simp
    qed
  next
    case False
    then show ?thesis by (simp add: dropWhile_append)
  qed
qed simp

section \<open>Searching\<close>

lemma cstr_pos_loop_spec:
  "cstr_at b i s \<Longrightarrow> cstr_pos_loop b i ch = Some (i + length (takeWhile (\<lambda>x. x \<noteq> ch) s))"
proof (induction s arbitrary: i)
  case Nil
  then show ?case by (subst cstr_pos_loop.simps) (simp add: cstr_at_Nil)
next
  case (Cons c s)
  then show ?case
    using cstr_at_Cons_nth [OF Cons.prems] cstr_at_tl [OF Cons.prems]
    by (subst cstr_pos_loop.simps) auto
qed

lemma cstr_rpos_loop_spec:
  "cstr_at b i s \<Longrightarrow> \<exists>t'. cstr_rpos_loop b i ch t = Some (i + length s, t') \<and>
     (ch \<notin> set s \<longrightarrow> t' = t) \<and>
     (ch \<in> set s \<longrightarrow> (\<exists>k < length s. t' = Some (i + k) \<and> s ! k = ch \<and> ch \<notin> set (drop (Suc k) s)))"
proof (induction s arbitrary: i t)
  case Nil
  then show ?case by (subst cstr_rpos_loop.simps) (simp add: cstr_at_Nil)
next
  case (Cons c s)
  note c = cstr_at_Cons_nth [OF Cons.prems]
  let ?t = "if c = ch then Some i else t"
  obtain t' where t': "cstr_rpos_loop b (Suc i) ch ?t = Some (Suc i + length s, t')"
    "ch \<notin> set s \<longrightarrow> t' = ?t"
    "ch \<in> set s \<longrightarrow> (\<exists>k < length s. t' = Some (Suc i + k) \<and> s ! k = ch \<and> ch \<notin> set (drop (Suc k) s))"
    using Cons.IH [OF cstr_at_tl [OF Cons.prems], of ?t] by blast
  have "cstr_rpos_loop b i ch t = Some (i + length (c # s), t')"
    using c t'(1) by (subst cstr_rpos_loop.simps) simp
  moreover have "\<exists>k < length (c # s). t' = Some (i + k) \<and> (c # s) ! k = ch \<and> ch \<notin> set (drop (Suc k) (c # s))"
    if "ch \<in> set (c # s)"
  proof (cases "ch \<in> set s")
    case True
    with t'(3) obtain k where "k < length s" "t' = Some (Suc i + k)" "s ! k = ch"
      "ch \<notin> set (drop (Suc k) s)" by blast
    then show ?thesis by (intro exI [of _ "Suc k"]) auto
  next
    case False
    with that t'(2) show ?thesis by (intro exI [of _ 0]) auto
  qed
  ultimately show ?case using t'(2) by auto
qed

section \<open>Properties\<close>

text \<open>The unrolled \<open>cstr_len\<close> and the rolled one of \<open>cstr_len_small.c\<close> agree
  on every buffer, faults included, and give the number of bytes before the NUL.\<close>

theorem cstr_len_equiv:
  "cstr_len b i = cstr_len_small b i \<and> (cstr_at b i s \<longrightarrow> cstr_len b i = Some (length s))"
  by (simp add: cstr_len_def cstr_len_small_def cstr_len_loop_eq cstr_end)

theorem cstr_len_equiv_witness:
  "cstr_at (bytes ''perpd'' @ [0]) 0 (bytes ''perpd'') \<and> cstr_len (bytes ''perpd'' @ [0]) 0 = Some 5"
proof -
  have "cstr_at (bytes ''perpd'' @ [0]) 0 (bytes ''perpd'')"
    by (simp add: cstr_at_def bytes_def)
  then show ?thesis
    using cstr_len_equiv [of "bytes ''perpd'' @ [0]" 0 "bytes ''perpd''"]
    by (simp add: bytes_def eval_nat_numeral)
qed

text \<open>C37: \<open>cstr_lcpy\<close> and \<open>cstr_lcat\<close> behave as \<open>strlcpy\<close> and \<open>strlcat\<close>: given a
  destination of \<open>n\<close> bytes they store the longest prefix that leaves room for the NUL, write no
  byte outside the stored string and its NUL, and return the full length the result would have.\<close>

theorem cstr_lcpy_lcat_bounded:
  assumes "cstr_at src i s" and "0 < n" and "d + n \<le> length dest"
  shows "cstr_lcpy dest d src i n =
      Some (take d dest @ take (n - 1) s @ 0 # drop (d + Suc (min (length s) (n - 1))) dest, length s) \<and>
    (cstr_at dest d r \<and> length r < n \<longrightarrow>
      cstr_lcat dest d src i n =
        Some (take d dest @ take (n - 1) (r @ s) @
              0 # drop (d + Suc (min (length r + length s) (n - 1))) dest, length r + length s))"
proof -
  have "cstr_lcpy dest d src i n = Some (store_cstr dest d (take (n - 1) s), length s)"
    using assms by (intro cstr_lcpy_spec) auto
  moreover have "cstr_lcat dest d src i n =
      Some (store_cstr dest d (take (n - 1) (r @ s)), length r + length s)"
    if "cstr_at dest d r" "length r < n"
    using assms that by (intro cstr_lcat_spec) auto
  ultimately show ?thesis unfolding store_cstr_def length_take length_append by blast
qed

theorem cstr_lcpy_lcat_bounded_witness:
  "cstr_lcpy (replicate 4 255) 0 (bytes ''perp'' @ [0]) 0 4 = Some (bytes ''per'' @ [0], 4)"
proof -
  have "cstr_at (bytes ''perp'' @ [0]) 0 (bytes ''perp'')" by (simp add: cstr_at_def bytes_def)
  then show ?thesis
    using cstr_lcpy_lcat_bounded [of "bytes ''perp'' @ [0]" 0 "bytes ''perp''" 4 0 "replicate 4 255"]
    by (simp add: bytes_def)
qed

text \<open>The variadic copy stores the concatenation of its arguments and a NUL, and faults
  exactly when they do not fit the destination (shown for one argument), and the variadic append
  puts them after the string already there.\<close>

theorem cstr_vcopy_concat:
  assumes "args_at args ss" and "args \<noteq> []"
  shows "(t + length (concat ss) < length to \<longrightarrow>
      cstr_vcopy to t args =
        Some (take t to @ concat ss @ 0 # drop (t + Suc (length (concat ss))) to, length (concat ss))) \<and>
    (cstr_at to t r \<and> t + length (r @ concat ss) < length to \<longrightarrow>
      cstr_vcat to t args =
        Some (take t to @ (r @ concat ss) @ 0 # drop (t + Suc (length (r @ concat ss))) to,
              length (r @ concat ss))) \<and>
    (length args = 1 \<and> length to \<le> t + length (concat ss) \<longrightarrow> cstr_vcopy to t args = None)"
proof (intro conjI impI)
  assume len: "t + length (concat ss) < length to"
  show "cstr_vcopy to t args =
      Some (take t to @ concat ss @ 0 # drop (t + Suc (length (concat ss))) to, length (concat ss))"
    using cstr_vcopy_loop_spec [OF assms(1) len assms(2)]
    by (simp add: cstr_vcopy_def store_cstr_def)
next
  assume a: "cstr_at to t r \<and> t + length (r @ concat ss) < length to"
  then have "cstr_vcopy_loop to (t + length r) args =
      Some (store_cstr to (t + length r) (concat ss), t + length r + length (concat ss))"
    using assms by (intro cstr_vcopy_loop_spec) auto
  moreover have "store_cstr to (t + length r) (concat ss) = store_cstr to t (r @ concat ss)"
    using take_cstr [of to t r] a by (simp add: store_cstr_def ac_simps)
  ultimately show "cstr_vcat to t args =
      Some (take t to @ (r @ concat ss) @ 0 # drop (t + Suc (length (r @ concat ss))) to,
            length (r @ concat ss))"
    using a cstr_end [of to t r] by (simp add: cstr_vcat_def store_cstr_def)
next
  assume a: "length args = 1 \<and> length to \<le> t + length (concat ss)"
  then obtain b i where "args = [(b, i)]" by (cases args) auto
  with assms(1) a show "cstr_vcopy to t args = None"
    by (auto simp: args_at_def list_all2_Cons1 cstr_vcopy_def cstr_copy_loop_fault)
qed

theorem cstr_vcopy_concat_witness:
  "cstr_vcopy (replicate 6 255) 0 [(bytes ''./'' @ [0], 0), (bytes ''sv'' @ [0], 0)] =
     Some (bytes ''./sv'' @ [0, 255], 4)"
proof -
  have "args_at [(bytes ''./'' @ [0], 0), (bytes ''sv'' @ [0], 0)] [bytes ''./'', bytes ''sv'']"
    by (simp add: args_at_def cstr_at_def bytes_def)
  then show ?thesis
    using cstr_vcopy_concat [of "[(bytes ''./'' @ [0], 0), (bytes ''sv'' @ [0], 0)]"
        "[bytes ''./'', bytes ''sv'']" 0 "replicate 6 255" "[]"]
    by (simp add: bytes_def)
qed

text \<open>\<open>cstr_cmp\<close> decides equality and the lexicographic order of bytes taken as
  unsigned, \<open>cstr_ncmp\<close> does so on prefixes, \<open>cstr_contains\<close> decides whether a string begins
  with another; none of them reads past the end of its strings.\<close>

theorem cstr_cmp_order:
  assumes "cstr_at a i s" and "cstr_at b j r"
  shows "(\<exists>x. cstr_cmp a i b j = Some x \<and> (x = 0 \<longleftrightarrow> s = r) \<and>
           (x < 0 \<longleftrightarrow> (s, r) \<in> lexord {(x, y). x < y})) \<and>
    (\<exists>x. cstr_ncmp a i b j n = Some x \<and> (x = 0 \<longleftrightarrow> take n s = take n r) \<and>
           (x < 0 \<longleftrightarrow> (take n s, take n r) \<in> lexord {(x, y). x < y})) \<and>
    cstr_contains a i b j = Some (take (length r) s = r)"
  using cstr_cmp_spec [OF assms] cstr_ncmp_spec [OF assms] cstr_contains_spec [OF assms] by blast

theorem cstr_cmp_order_witness:
  "(\<exists>x. cstr_cmp (bytes ''ab'' @ [0]) 0 (bytes ''b'' @ [0]) 0 = Some x \<and> x < 0) \<and>
   cstr_contains (bytes ''ab'' @ [0]) 0 (bytes ''b'' @ [0]) 0 = Some False"
proof -
  have "cstr_at (bytes ''ab'' @ [0]) 0 (bytes ''ab'')" "cstr_at (bytes ''b'' @ [0]) 0 (bytes ''b'')"
    by (simp_all add: cstr_at_def bytes_def)
  from cstr_cmp_order [OF this, of 0] show ?thesis by (auto simp: bytes_def)
qed

text \<open>\<open>cstr_trim\<close> removes the white space at both ends of a string in place, within the
  string's own bytes; \<open>cstr_rtrim\<close> alone never removes the first character, so a string of
  blanks keeps one.\<close>

theorem cstr_trim_strips:
  assumes "cstr_at b i s"
  shows "(\<exists>b'. cstr_trim b i = Some b' \<and> length b' = length b \<and>
           cstr_at b' i (rev (dropWhile isspace (rev (dropWhile isspace s))))) \<and>
    (\<exists>b'. cstr_rtrim b i = Some b' \<and> cstr_at b' i
       (case s of [] \<Rightarrow> [] | c # r \<Rightarrow> c # rev (dropWhile isspace (rev r))))"
proof -
  obtain b1 where b1: "cstr_rtrim b i = Some b1" "length b1 = length b" "cstr_at b1 i (rtrimmed s)"
    using cstr_rtrim_spec [OF assms] by blast
  obtain b2 where b2: "cstr_ltrim b1 i = Some b2" "length b2 = length b1"
    "cstr_at b2 i (dropWhile isspace (rtrimmed s))"
    using cstr_ltrim_spec [OF b1(3)] by blast
  have "rtrimmed s = (case s of [] \<Rightarrow> [] | c # r \<Rightarrow> c # rev (dropWhile isspace (rev r)))"
    by (cases s) auto
  moreover have "cstr_at b2 i (rev (dropWhile isspace (rev (dropWhile isspace s))))"
    using b2(3) by (simp only: dropWhile_rtrimmed)
  ultimately show ?thesis using b1 b2 by (simp add: cstr_trim_def)
qed

theorem cstr_trim_strips_witness:
  "(\<exists>b'. cstr_trim (bytes ''  a '' @ [0]) 0 = Some b' \<and> cstr_at b' 0 (bytes ''a'')) \<and>
   (\<exists>b'. cstr_rtrim (bytes ''  '' @ [0]) 0 = Some b' \<and> cstr_at b' 0 (bytes '' ''))"
proof -
  have "cstr_at (bytes ''  a '' @ [0]) 0 (bytes ''  a '')" "cstr_at (bytes ''  '' @ [0]) 0 (bytes ''  '')"
    by (simp_all add: cstr_at_def bytes_def)
  from cstr_trim_strips [OF this(1)] cstr_trim_strips [OF this(2)] show ?thesis
    by (auto simp: bytes_def isspace_def)
qed

end
