(* ===== verification/Cstr_Match.thy ===== *)
theory Cstr_Match
  imports Cstr
begin

text \<open>
  The wildcard matchers \<open>cstr_match\<close> and \<open>cstr_matchi\<close> (\<open>src/lasagna/cstr\<close>).  The
  two sources differ only in the macro that compares a pattern character with a string
  character, which is the parameter \<open>cmp\<close> of the shared loops.  The backtracking loop has no
  structural measure, so it is a \<^theory_text>\<open>partial_function\<close> in the option monad: \<^const>\<open>None\<close> is a
  fault or a loop that never ends, and the theorems show it is never the result on C strings.
  \<open>glob\<close> is the meaning of a pattern: \<open>*\<close> (42) stands for any bytes, \<open>?\<close> (63) for one.
\<close>

section \<open>Definitions\<close>

text \<open>The initial scan: \<open>Some None\<close> when it returns 0.\<close>

function match_lead :: "(u8 \<Rightarrow> u8 \<Rightarrow> bool) \<Rightarrow> buffer \<Rightarrow> nat \<Rightarrow> buffer \<Rightarrow> nat \<Rightarrow> (nat \<times> nat) option option" where
  "match_lead cmp pat p str s = do {
     sc \<leftarrow> rd str s;
     if sc = 0 then Some (Some (p, s)) else do {
       pc \<leftarrow> rd pat p;
       if pc = 42 then Some (Some (p, s))
       else if \<not> (cmp pc sc \<or> pc = 63) then Some None
       else match_lead cmp pat (p + 1) str (s + 1) } }"
  by pat_completeness auto
termination
  by (relation "measure (\<lambda>(cmp, pat, p, str, s). length str - s)") (auto simp: mem_simps)

function skip_stars :: "buffer \<Rightarrow> nat \<Rightarrow> nat option" where
  "skip_stars pat p = do {
     c \<leftarrow> rd pat p;
     if c = 42 then skip_stars pat (p + 1) else Some p }"
  by pat_completeness auto
termination
  by (relation "measure (\<lambda>(pat, p). length pat - p)") (auto simp: mem_simps)

text \<open>
  The main loop.  \<open>pm\<close> and \<open>sm\<close> are the pointers \<open>p\<close> and \<open>s\<close> of the source, NULL at
  first.  The result is \<open>Inl\<close> of an early return, or \<open>Inr\<close> of the pattern pointer when the
  string is exhausted.
\<close>

partial_function (option) match_scan ::
  "(u8 \<Rightarrow> u8 \<Rightarrow> bool) \<Rightarrow> buffer \<Rightarrow> nat \<Rightarrow> buffer \<Rightarrow> nat \<Rightarrow> nat option \<Rightarrow> nat option \<Rightarrow> (bool + nat) option" where
  "match_scan cmp pat p str s pm sm = do {
     sc \<leftarrow> rd str s;
     if sc = 0 then Some (Inr p) else do {
       pc \<leftarrow> rd pat p;
       if pc = 42 then do {
         q \<leftarrow> skip_stars pat (p + 1);
         qc \<leftarrow> rd pat q;
         if qc = 0 then Some (Inl True)
         else match_scan cmp pat q str s (Some q) (Some (s + 1)) }
       else if cmp pc sc \<or> pc = 63 then match_scan cmp pat (p + 1) str (s + 1) pm sm
       else do {
         nc \<leftarrow> rd str (s + 1);
         if nc = 0 then Some (Inl False)
         else do {
           q \<leftarrow> pm;
           r \<leftarrow> sm;
           match_scan cmp pat q str r (Some q) (Some (r + 1)) } } } }"

definition match_finish :: "buffer \<Rightarrow> bool + nat \<Rightarrow> bool option" where
  "match_finish pat r =
     (case r of
        Inl b \<Rightarrow> Some b
      | Inr p \<Rightarrow> do {
          p \<leftarrow> skip_stars pat p;
          c \<leftarrow> rd pat p;
          Some (c = 0) })"

definition match_with :: "(u8 \<Rightarrow> u8 \<Rightarrow> bool) \<Rightarrow> buffer \<Rightarrow> nat \<Rightarrow> buffer \<Rightarrow> nat \<Rightarrow> bool option" where
  "match_with cmp pat p str s = do {
     r \<leftarrow> match_lead cmp pat p str s;
     case r of
       None \<Rightarrow> Some False
     | Some (p, s) \<Rightarrow> do {
         r \<leftarrow> match_scan cmp pat p str s None None;
         match_finish pat r } }"

definition cstr_match :: "buffer \<Rightarrow> nat \<Rightarrow> buffer \<Rightarrow> nat \<Rightarrow> bool option" where
  "cstr_match pat p str s = match_with (\<lambda>c1 c2. c1 = c2) pat p str s"

definition cstr_matchi :: "buffer \<Rightarrow> nat \<Rightarrow> buffer \<Rightarrow> nat \<Rightarrow> bool option" where
  "cstr_matchi pat p str s =
     match_with (\<lambda>c1 c2. tolower (sint c1) = tolower (sint c2)) pat p str s"

declare match_lead.simps [simp del] skip_stars.simps [simp del]

section \<open>The meaning of patterns\<close>

fun glob :: "(u8 \<Rightarrow> u8 \<Rightarrow> bool) \<Rightarrow> u8 list \<Rightarrow> u8 list \<Rightarrow> bool" where
  "glob cmp [] s = (s = [])"
| "glob cmp (p # ps) s =
     (if p = 42 then glob cmp ps s \<or> (case s of [] \<Rightarrow> False | c # cs \<Rightarrow> glob cmp (p # ps) cs)
      else (case s of [] \<Rightarrow> False | c # cs \<Rightarrow> (cmp p c \<or> p = 63) \<and> glob cmp ps cs))"

definition block :: "(u8 \<Rightarrow> u8 \<Rightarrow> bool) \<Rightarrow> u8 list \<Rightarrow> u8 list \<Rightarrow> bool" where
  "block cmp blk m \<longleftrightarrow> 42 \<notin> set blk \<and> list_all2 (\<lambda>p c. cmp p c \<or> p = 63) blk m"

lemma glob_Cons_Nil: "glob cmp (p # ps) [] \<longleftrightarrow> p = 42 \<and> glob cmp ps []"
  and glob_star_Cons: "glob cmp (42 # ps) (c # s) \<longleftrightarrow> glob cmp ps (c # s) \<or> glob cmp (42 # ps) s"
  and glob_char_Cons: "p \<noteq> 42 \<Longrightarrow> glob cmp (p # ps) (c # s) \<longleftrightarrow> (cmp p c \<or> p = 63) \<and> glob cmp ps s"
  by simp_all

declare glob.simps(2) [simp del]
lemmas glob_simps = glob_Cons_Nil glob_star_Cons glob_char_Cons

lemma glob_star: "glob cmp (42 # ps) s \<longleftrightarrow> (\<exists>k \<le> length s. glob cmp ps (drop k s))"
proof (induction s)
  case (Cons c s)
  have "glob cmp (42 # ps) (c # s) \<longleftrightarrow> glob cmp ps (c # s) \<or> (\<exists>k \<le> length s. glob cmp ps (drop k s))"
    by (simp add: glob_star_Cons Cons)
  also have "\<dots> \<longleftrightarrow> (\<exists>k \<le> length (c # s). glob cmp ps (drop k (c # s)))"
  proof
    assume "glob cmp ps (c # s) \<or> (\<exists>k \<le> length s. glob cmp ps (drop k s))"
    then show "\<exists>k \<le> length (c # s). glob cmp ps (drop k (c # s))"
    proof
      assume "glob cmp ps (c # s)"
      then show ?thesis by (intro exI [of _ 0]) simp
    next
      assume "\<exists>k \<le> length s. glob cmp ps (drop k s)"
      then obtain k where "k \<le> length s" "glob cmp ps (drop k s)" by blast
      then show ?thesis by (intro exI [of _ "Suc k"]) simp
    qed
  next
    assume "\<exists>k \<le> length (c # s). glob cmp ps (drop k (c # s))"
    then obtain k where "k \<le> length (c # s)" "glob cmp ps (drop k (c # s))" by blast
    then show "glob cmp ps (c # s) \<or> (\<exists>k \<le> length s. glob cmp ps (drop k s))"
      by (cases k) auto
  qed
  finally show ?case .
qed (simp add: glob_Cons_Nil)

lemma glob_star_star: "glob cmp (42 # 42 # ps) s \<longleftrightarrow> glob cmp (42 # ps) s"
proof -
  have "(\<exists>k \<le> length s. \<exists>j \<le> length (drop k s). glob cmp ps (drop j (drop k s))) \<longleftrightarrow>
      (\<exists>k \<le> length s. glob cmp ps (drop k s))"
  proof
    assume "\<exists>k \<le> length s. \<exists>j \<le> length (drop k s). glob cmp ps (drop j (drop k s))"
    then obtain k j where "k \<le> length s" "j \<le> length (drop k s)" "glob cmp ps (drop (j + k) s)"
      by auto
    then show "\<exists>k \<le> length s. glob cmp ps (drop k s)" by (intro exI [of _ "j + k"]) auto
  next
    assume "\<exists>k \<le> length s. glob cmp ps (drop k s)"
    then show "\<exists>k \<le> length s. \<exists>j \<le> length (drop k s). glob cmp ps (drop j (drop k s))"
      by (metis drop0 le0)
  qed
  then show ?thesis by (simp only: glob_star)
qed

lemma glob_stars: "glob cmp (replicate n 42 @ 42 # ps) s \<longleftrightarrow> glob cmp (42 # ps) s"
proof (induction n)
  case (Suc n)
  have "replicate (Suc n) 42 @ 42 # ps = 42 # 42 # replicate n 42 @ ps"
    by (simp add: replicate_app_Cons_same)
  moreover have "42 # replicate n 42 @ ps = replicate n 42 @ 42 # ps"
    by (simp add: replicate_app_Cons_same)
  ultimately show ?case using Suc glob_star_star by metis
qed simp

lemma glob_all_stars: "glob cmp (replicate n 42) s \<longleftrightarrow> n > 0 \<or> s = []"
proof (cases n)
  case (Suc k)
  have "glob cmp (42 # []) s" by (simp only: glob_star) (auto intro: exI [of _ "length s"])
  then show ?thesis
    using glob_stars [of cmp k "[]" s] by (simp add: Suc replicate_append_same)
qed simp

lemma glob_block: "block cmp blk m \<Longrightarrow> glob cmp (blk @ ps) (m @ ss) \<longleftrightarrow> glob cmp ps ss"
proof (induction blk arbitrary: m)
  case (Cons p blk)
  then obtain c m' where "m = c # m'" "cmp p c \<or> p = 63" "block cmp blk m'" "p \<noteq> 42"
    by (auto simp: block_def list_all2_Cons1)
  with Cons.IH [of m'] show ?case by (simp add: glob_char_Cons)
qed (simp add: block_def)

lemma glob_block_split:
  "42 \<notin> set blk \<Longrightarrow> glob cmp (blk @ ps) s \<Longrightarrow> length blk \<le> length s \<and> glob cmp ps (drop (length blk) s)"
proof (induction blk arbitrary: s)
  case (Cons p blk)
  then show ?case by (cases s) (auto simp: glob_simps)
qed simp

lemma glob_length: "glob cmp ps s \<Longrightarrow> length (filter (\<lambda>p. p \<noteq> 42) ps) \<le> length s"
proof (induction ps arbitrary: s)
  case (Cons p ps)
  show ?case
  proof (cases "p = 42")
    case True
    with Cons.prems obtain k where "k \<le> length s" "glob cmp ps (drop k s)"
      by (auto simp: glob_star)
    with Cons.IH [of "drop k s"] True show ?thesis by simp
  next
    case False
    with Cons.prems Cons.IH show ?thesis by (cases s) (auto simp: glob_simps)
  qed
qed simp

text \<open>The greedy step: a leftmost match of a block before a star loses no match.\<close>

lemma glob_greedy:
  assumes "42 \<notin> set blk" and "length m = length blk" and "glob cmp (42 # blk @ 42 # rest) (m @ ss)"
  shows "glob cmp (42 # rest) ss"
proof -
  obtain k where k: "k \<le> length (m @ ss)" "glob cmp (blk @ 42 # rest) (drop k (m @ ss))"
    using assms(3) unfolding glob_star by blast
  from glob_block_split [OF assms(1) k(2)]
  have len: "length blk \<le> length (drop k (m @ ss))"
    and g: "glob cmp (42 # rest) (drop (length blk) (drop k (m @ ss)))" by auto
  have "drop (length blk) (drop k (m @ ss)) = drop k (drop (length blk) (m @ ss))"
    by (simp only: drop_drop add.commute)
  also have "\<dots> = drop k ss" using assms(2) by simp
  finally have "drop (length blk) (drop k (m @ ss)) = drop k ss" .
  with g have g': "glob cmp (42 # rest) (drop k ss)" by simp
  have "k \<le> length ss"
    using len k(1) assms(2) by (simp only: length_drop length_append)
  with g' show ?thesis using glob_star_star glob_star by metis
qed

lemma glob_mismatch:
  "ps = [] \<or> (\<exists>p ps'. ps = p # ps' \<and> p \<noteq> 42 \<and> \<not> (cmp p c \<or> p = 63)) \<Longrightarrow> \<not> glob cmp ps (c # ss)"
  by (auto simp: glob_simps)

section \<open>Correctness of the matchers\<close>

lemma skip_stars_spec:
  "cstr_at pat p ps \<Longrightarrow>
   \<exists>n q qs. skip_stars pat p = Some q \<and> ps = replicate n 42 @ qs \<and> cstr_at pat q qs \<and>
       (qs = [] \<or> hd qs \<noteq> 42) \<and> q = p + n"
proof (induction ps arbitrary: p)
  case Nil
  then show ?case by (subst skip_stars.simps) (auto simp: cstr_at_Nil)
next
  case (Cons c ps)
  note c = cstr_at_Cons_nth [OF Cons.prems]
  show ?case
  proof (cases "c = 42")
    case True
    obtain n q qs where "skip_stars pat (Suc p) = Some q" "ps = replicate n 42 @ qs"
      "cstr_at pat q qs" "qs = [] \<or> hd qs \<noteq> 42" "q = Suc p + n"
      using Cons.IH [OF cstr_at_tl [OF Cons.prems]] by blast
    with True c show ?thesis
      by (subst skip_stars.simps) (auto intro!: exI [of _ "Suc n"])
  next
    case False
    with c Cons.prems show ?thesis
      by (subst skip_stars.simps) (auto intro!: exI [of _ "0 :: nat"])
  qed
qed

lemma match_finish_spec:
  assumes "cstr_at pat p ps"
  shows "\<exists>b. match_finish pat (Inr p) = Some b \<and> (b \<longleftrightarrow> glob cmp ps [])"
proof -
  obtain n q qs where q: "skip_stars pat p = Some q" and ps: "ps = replicate n 42 @ qs"
    and qs: "cstr_at pat q qs" "qs = [] \<or> hd qs \<noteq> 42"
    using skip_stars_spec [OF assms] by blast
  have g: "glob cmp ps [] \<longleftrightarrow> glob cmp qs []"
    unfolding ps by (induction n) (auto simp: glob_Cons_Nil)
  show ?thesis
  proof (cases qs)
    case Nil
    with q qs g show ?thesis by (intro exI [of _ True]) (simp add: match_finish_def cstr_at_Nil)
  next
    case (Cons c r)
    with q qs g cstr_at_Cons_nth [of pat q c r] show ?thesis
      by (intro exI [of _ False]) (simp add: match_finish_def glob_Cons_Nil)
  qed
qed

lemma glob_no_room:
  assumes "42 \<notin> set blk" "length m = length blk" "ps = [] \<or> hd ps \<noteq> 42"
    and "blk @ ps \<noteq> []" "last (blk @ ps) = 42"
  shows "\<not> glob cmp (42 # blk @ ps) (tl (m @ [c]))"
proof (cases ps)
  case Nil
  with assms show ?thesis by (metis append_Nil2 last_in_set)
next
  case (Cons p ps')
  have f: "filter (\<lambda>p. p \<noteq> 42) blk = blk" using assms(1) by (simp add: filter_id_conv) metis
  show ?thesis
  proof
    assume "glob cmp (42 # blk @ ps) (tl (m @ [c]))"
    from glob_length [OF this] show False using Cons assms(2,3) f by simp
  qed
qed

text \<open>
  The state of the loop during the attempt to match the pattern \<open>blk @ ps\<close> at the start of
  the string \<open>m @ ss\<close>, of which the star-free block \<open>blk\<close> has matched \<open>m\<close>; and
  what the rest of the function makes of it: it returns, a positive answer is right, and a
  negative one is right when the pattern ends in a star.
\<close>

definition attempt ::
  "(u8 \<Rightarrow> u8 \<Rightarrow> bool) \<Rightarrow> buffer \<Rightarrow> nat \<Rightarrow> u8 list \<Rightarrow> u8 list \<Rightarrow> buffer \<Rightarrow> nat \<Rightarrow> u8 list \<Rightarrow> u8 list \<Rightarrow> bool" where
  "attempt cmp pat q blk ps str r m ss \<longleftrightarrow>
     cstr_at pat q (blk @ ps) \<and> cstr_at str r (m @ ss) \<and> m @ ss \<noteq> [] \<and> block cmp blk m"

definition scan_result ::
  "(u8 \<Rightarrow> u8 \<Rightarrow> bool) \<Rightarrow> buffer \<Rightarrow> nat \<Rightarrow> buffer \<Rightarrow> nat \<Rightarrow> nat \<Rightarrow> nat \<Rightarrow> u8 list \<Rightarrow> u8 list \<Rightarrow> bool" where
  "scan_result cmp pat p str s q r P S \<longleftrightarrow>
     (\<exists>b. (match_scan cmp pat p str s (Some q) (Some (Suc r)) \<bind> match_finish pat) = Some b \<and>
        (b \<longrightarrow> glob cmp (42 # P) S) \<and> (P \<noteq> [] \<and> last P = 42 \<and> glob cmp (42 # P) S \<longrightarrow> b))"

lemma attemptD:
  assumes "attempt cmp pat q blk ps str r m ss"
  shows "cstr_at pat (q + length blk) ps" "cstr_at str (r + length m) ss"
    "42 \<notin> set blk" "length m = length blk"
    "glob cmp (42 # blk @ ps) (m @ ss) \<longleftrightarrow> glob cmp ps ss \<or> glob cmp (42 # blk @ ps) (tl (m @ ss))"
proof -
  show "cstr_at pat (q + length blk) ps"
    using cstr_at_drop [of pat q "blk @ ps" "length blk"] assms by (simp add: attempt_def)
  show "cstr_at str (r + length m) ss"
    using cstr_at_drop [of str r "m @ ss" "length m"] assms by (simp add: attempt_def)
  show "42 \<notin> set blk" and "length m = length blk"
    using assms by (auto simp: attempt_def block_def dest: list_all2_lengthD)
  have "glob cmp (blk @ ps) (m @ ss) \<longleftrightarrow> glob cmp ps ss"
    using assms by (intro glob_block) (simp add: attempt_def)
  then show "glob cmp (42 # blk @ ps) (m @ ss) \<longleftrightarrow> glob cmp ps ss \<or> glob cmp (42 # blk @ ps) (tl (m @ ss))"
    using assms by (cases "m @ ss") (auto simp: glob_star_Cons attempt_def)
qed

text \<open>
  The comparison of characters the matcher is used with: NUL, which ends the pattern, compares
  equal to no character of the string.
\<close>

locale char_cmp =
  fixes cmp :: "u8 \<Rightarrow> u8 \<Rightarrow> bool"
  assumes nul_differs: "c \<noteq> 0 \<Longrightarrow> \<not> cmp 0 c"
begin

lemma match_lead_spec:
  "cstr_at pat p ps \<Longrightarrow> cstr_at str s ss \<Longrightarrow>
   (match_lead cmp pat p str s = Some None \<and> \<not> glob cmp ps ss) \<or>
   (\<exists>q r qs rs. match_lead cmp pat p str s = Some (Some (q, r)) \<and> cstr_at pat q qs \<and> cstr_at str r rs \<and>
      (glob cmp ps ss \<longleftrightarrow> glob cmp qs rs) \<and> (rs = [] \<or> (qs \<noteq> [] \<and> hd qs = 42)) \<and>
      (\<exists>pre. ps = pre @ qs \<and> 42 \<notin> set pre))"
proof (induction ss arbitrary: p s ps)
  case Nil
  have "match_lead cmp pat p str s = Some (Some (p, s))"
    using Nil by (subst match_lead.simps) (simp add: cstr_at_Nil)
  with Nil show ?case by (intro disjI2 exI [of _ p] exI [of _ s] exI [of _ ps] exI [of _ "[]"]) auto
next
  case (Cons c ss)
  note c = cstr_at_Cons_nth [OF Cons.prems(2)]
  show ?case
  proof (cases ps)
    case Nil
    with c Cons.prems nul_differs [of c] show ?thesis
      by (subst match_lead.simps) (simp add: cstr_at_Nil)
  next
    case ps: (Cons q ps')
    note q = cstr_at_Cons_nth [OF Cons.prems(1) [unfolded ps]]
    consider "q = 42" | "q \<noteq> 42" "\<not> (cmp q c \<or> q = 63)" | "q \<noteq> 42" "cmp q c \<or> q = 63" by blast
    then show ?thesis
    proof cases
      case 1
      have "match_lead cmp pat p str s = Some (Some (p, s))"
        using c q 1 by (subst match_lead.simps) simp
      with Cons.prems ps 1 show ?thesis
        by (intro disjI2 exI [of _ p] exI [of _ s] exI [of _ ps] exI [of _ "c # ss"]) auto
    next
      case 2
      with c q ps show ?thesis by (subst match_lead.simps) (auto simp: glob_simps)
    next
      case 3
      have step: "match_lead cmp pat p str s = match_lead cmp pat (Suc p) str (Suc s)"
        using c q 3 by (subst match_lead.simps) auto
      have g: "glob cmp ps (c # ss) \<longleftrightarrow> glob cmp ps' ss" using 3 ps by (simp add: glob_simps)
      have pre: "\<exists>pre. ps = pre @ qs \<and> 42 \<notin> set pre" if "ps' = pre' @ qs" "42 \<notin> set pre'" for qs pre'
        using that 3 ps by (intro exI [of _ "q # pre'"]) auto
      have tls: "cstr_at pat (Suc p) ps'" "cstr_at str (Suc s) ss"
        using Cons.prems ps by (auto intro: cstr_at_tl)
      from Cons.IH [OF tls] show ?thesis
      proof (elim disjE exE conjE, goal_cases)
        case 1
        then show ?case using step g by simp
      next
        case (2 q r qs rs pre')
        then show ?case using step g pre [of pre' qs]
          by (intro disjI2 exI [of _ q] exI [of _ r] exI [of _ qs] exI [of _ rs]) simp
      next
        case (3 q r qs rs pre')
        then show ?case using step g pre [of pre' qs]
          by (intro disjI2 exI [of _ q] exI [of _ r] exI [of _ qs] exI [of _ rs]) simp
      qed
    qed
  qed
qed

lemma scan_end:
  assumes "attempt cmp pat q blk ps str r m []"
  shows "scan_result cmp pat (q + length blk) str (r + length m) q r (blk @ ps) (m @ [])"
proof -
  note D = attemptD [OF assms]
  have "match_scan cmp pat (q + length blk) str (r + length m) (Some q) (Some (Suc r)) =
      Some (Inr (q + length blk))"
    using D(2) by (subst match_scan.simps) (simp add: cstr_at_Nil)
  moreover obtain b where b: "match_finish pat (Inr (q + length blk)) = Some b" "b \<longleftrightarrow> glob cmp ps []"
    using match_finish_spec [OF D(1)] by blast
  moreover have "\<not> glob cmp (42 # blk @ ps) (tl (m @ []))"
  proof
    assume "glob cmp (42 # blk @ ps) (tl (m @ []))"
    from glob_length [OF this] have "length (filter (\<lambda>p. p \<noteq> 42) blk) \<le> length m - 1" by simp
    moreover have "filter (\<lambda>p. p \<noteq> 42) blk = blk" using D(3) by (simp add: filter_id_conv) metis
    ultimately show False using D(4) assms by (cases m) (auto simp: attempt_def)
  qed
  ultimately show ?thesis using D(5) by (auto simp: scan_result_def)
qed

text \<open>A mismatch restarts the block one character further on, or gives up at the last one.\<close>

lemma scan_restart:
  assumes att: "attempt cmp pat q blk ps str r m (c # ss)"
    and mis: "ps = [] \<or> hd ps \<noteq> 42 \<and> \<not> (cmp (hd ps) c \<or> hd ps = 63)"
    and cont: "ss \<noteq> [] \<Longrightarrow> scan_result cmp pat q str (Suc r) q (Suc r) (blk @ ps) (tl (m @ c # ss))"
  shows "scan_result cmp pat (q + length blk) str (r + length m) q r (blk @ ps) (m @ c # ss)"
proof -
  note D = attemptD [OF att]
  note c = cstr_at_Cons_nth [OF D(2)] and at_ss = cstr_at_tl [OF D(2)]
  have no: "\<not> glob cmp ps (c # ss)"
    using mis by (intro glob_mismatch) (cases ps; auto)
  have step: "match_scan cmp pat (q + length blk) str (r + length m) (Some q) (Some (Suc r)) =
      (if ss = [] then Some (Inl False)
       else match_scan cmp pat q str (Suc r) (Some q) (Some (Suc (Suc r))))"
  proof (cases ps)
    case Nil
    then show ?thesis
      using D(1) at_ss c nul_differs [of c] cstr_at_Cons_nth [of str "Suc (r + length m)" "hd ss" "tl ss"]
      by (subst match_scan.simps) (cases ss; auto simp: cstr_at_Nil)
  next
    case (Cons p ps')
    then show ?thesis
      using D(1) at_ss c mis cstr_at_Cons_nth [of str "Suc (r + length m)" "hd ss" "tl ss"]
        cstr_at_Cons_nth [of pat "q + length blk" p ps']
      by (subst match_scan.simps) (cases ss; auto simp: cstr_at_Nil)
  qed
  show ?thesis
  proof (cases "ss = []")
    case True
    have "\<not> glob cmp (42 # blk @ ps) (m @ c # ss)" if "blk @ ps \<noteq> []" "last (blk @ ps) = 42"
      using glob_no_room [OF D(3,4) _ that, of cmp c] mis D(5) no True by auto
    with step True show ?thesis by (auto simp: scan_result_def match_finish_def)
  next
    case False
    with cont step D(5) no show ?thesis by (auto simp: scan_result_def)
  qed
qed

text \<open>A star begins a new block: what is before it is matched for good.\<close>

lemma scan_star:
  assumes att: "attempt cmp pat q blk (42 # ps) str r m ss" and "ss \<noteq> []"
    and cont: "\<And>n q' qs. ps = replicate n 42 @ qs \<Longrightarrow> qs \<noteq> [] \<Longrightarrow> cstr_at pat q' qs \<Longrightarrow>
      scan_result cmp pat q' str (r + length m) q' (r + length m) qs ss"
  shows "scan_result cmp pat (q + length blk) str (r + length m) q r (blk @ 42 # ps) (m @ ss)"
proof -
  note D = attemptD [OF att]
  note pc = cstr_at_Cons_nth [OF D(1)]
  obtain c ss' where ss: "ss = c # ss'" using assms(2) by (cases ss) auto
  note c = cstr_at_Cons_nth [OF D(2) [unfolded ss]]
  obtain n q' qs where q': "skip_stars pat (Suc (q + length blk)) = Some q'" "ps = replicate n 42 @ qs"
    "cstr_at pat q' qs"
    using skip_stars_spec cstr_at_tl D(1) by blast
  have gps: "glob cmp (42 # ps) ss \<longleftrightarrow> glob cmp (42 # qs) ss"
    using glob_stars [of cmp n qs ss] q'(2) by (simp add: replicate_app_Cons_same)
  show ?thesis
  proof (cases qs)
    case Nil
    then have "match_scan cmp pat (q + length blk) str (r + length m) (Some q) (Some (Suc r)) = Some (Inl True)"
      using q' c pc by (subst match_scan.simps) (simp add: cstr_at_Nil)
    moreover have "glob cmp (42 # ps) ss" using glob_all_stars [of cmp 1 ss] gps Nil by simp
    ultimately show ?thesis using D(5) by (auto simp: scan_result_def match_finish_def)
  next
    case (Cons d rest)
    have "match_scan cmp pat (q + length blk) str (r + length m) (Some q) (Some (Suc r)) =
        match_scan cmp pat q' str (r + length m) (Some q') (Some (Suc (r + length m)))"
      using q' c pc Cons cstr_at_Cons_nth [of pat q' d rest] by (subst match_scan.simps) simp
    moreover have "glob cmp (42 # qs) ss" if "glob cmp (42 # blk @ 42 # ps) (m @ ss)"
      using glob_greedy [OF D(3,4) that] gps by simp
    moreover have "last (blk @ 42 # ps) = last qs" using q'(2) Cons by simp
    ultimately show ?thesis
      using cont [OF q'(2) _ q'(3)] D(5) gps Cons by (auto simp: scan_result_def)
  qed
qed

lemma scan_char:
  assumes att: "attempt cmp pat q blk (p # ps) str r m (c # ss)" and "p \<noteq> 42" "cmp p c \<or> p = 63"
    and "scan_result cmp pat (Suc (q + length blk)) str (Suc (r + length m)) q r ((blk @ [p]) @ ps) ((m @ [c]) @ ss)"
  shows "scan_result cmp pat (q + length blk) str (r + length m) q r (blk @ p # ps) (m @ c # ss)"
proof -
  note D = attemptD [OF att]
  have "match_scan cmp pat (q + length blk) str (r + length m) (Some q) (Some (Suc r)) =
      match_scan cmp pat (Suc (q + length blk)) str (Suc (r + length m)) (Some q) (Some (Suc r))"
    using cstr_at_Cons_nth [OF D(1)] cstr_at_Cons_nth [OF D(2)] assms(2,3)
    by (subst match_scan.simps) auto
  with assms(4) show ?thesis by (simp add: scan_result_def)
qed

text \<open>The loop ends: each round shortens the pattern still to place, or else the string left
  for the current block, or else the string left in the attempt.\<close>

lemma match_scan_spec:
  "attempt cmp pat q blk ps str r m ss \<Longrightarrow>
   scan_result cmp pat (q + length blk) str (r + length m) q r (blk @ ps) (m @ ss)"
proof (induction "(length (blk @ ps), length (m @ ss), length ss)" arbitrary: q blk ps r m ss
    rule: wf_induct_rule [OF wf_lex_prod [OF wf_less_than wf_lex_prod [OF wf_less_than wf_less_than]]])
  case 1
  note IH = "1.hyps" and att = "1.prems"
  note D = attemptD [OF att]
  show ?case
  proof (cases ss)
    case Nil
    with att scan_end show ?thesis by blast
  next
    case (Cons c ss')
    consider "ps = [] \<or> hd ps \<noteq> 42 \<and> \<not> (cmp (hd ps) c \<or> hd ps = 63)"
      | ps' where "ps = 42 # ps'" | p ps' where "ps = p # ps'" "p \<noteq> 42" "cmp p c \<or> p = 63"
      by (cases ps) auto
    then show ?thesis
    proof cases
      case 1
      have "scan_result cmp pat q str (Suc r) q (Suc r) (blk @ ps) (tl (m @ c # ss'))" if "ss' \<noteq> []"
      proof -
        obtain e rest where e: "m @ c # ss' = e # rest" "rest \<noteq> []"
          using \<open>ss' \<noteq> []\<close> by (cases m) auto
        have len: "length m + length ss' = length rest"
          using arg_cong [OF e(1), of length] by simp
        have "attempt cmp pat q [] (blk @ ps) str (Suc r) [] rest"
          using att e Cons by (auto simp: attempt_def block_def intro: cstr_at_tl)
        from IH [OF _ this] len e(1) Cons show ?thesis by simp
      qed
      with scan_restart [OF att [unfolded Cons] 1] Cons show ?thesis by simp
    next
      case (2 ps')
      have "scan_result cmp pat q' str (r + length m) q' (r + length m) qs ss"
        if "ps' = replicate n 42 @ qs" "qs \<noteq> []" "cstr_at pat q' qs" for n q' qs
      proof -
        have "attempt cmp pat q' [] qs str (r + length m) [] ss"
          using that D(2) Cons by (simp add: attempt_def block_def)
        from IH [OF _ this] that 2 show ?thesis by simp
      qed
      with scan_star [OF att [unfolded 2]] 2 Cons show ?thesis by blast
    next
      case (3 p ps')
      have "attempt cmp pat q (blk @ [p]) ps' str r (m @ [c]) ss'"
        using att 3 Cons by (auto simp: attempt_def block_def intro: list_all2_appendI)
      from IH [OF _ this] 3 Cons scan_char [of pat q blk p ps' str r m c ss'] att
      show ?thesis by simp
    qed
  qed
qed

lemma match_with_spec:
  assumes "cstr_at pat i P" and "cstr_at str j S"
  shows "\<exists>b. match_with cmp pat i str j = Some b \<and> (b \<longrightarrow> glob cmp P S) \<and>
    (42 \<notin> set P \<or> last P = 42 \<longrightarrow> (b \<longleftrightarrow> glob cmp P S))"
  using match_lead_spec [OF assms]
proof (elim disjE exE conjE, goal_cases)
  case 1
  then show ?case by (auto simp: match_with_def)
next
  case (2 q r qs rs pre)
  have "match_scan cmp pat q str r None None = Some (Inr q)"
    using 2 by (subst match_scan.simps) (simp add: cstr_at_Nil)
  with 2 match_finish_spec [of pat q qs cmp] show ?case by (auto simp: match_with_def)
next
  case (3 q r qs rs pre)
  show ?case
  proof (cases rs)
    case Nil
    have "match_scan cmp pat q str r None None = Some (Inr q)"
      using 3 Nil by (subst match_scan.simps) (simp add: cstr_at_Nil)
    with 3 Nil match_finish_spec [of pat q qs cmp] show ?thesis by (auto simp: match_with_def)
  next
    case (Cons c rs')
    obtain qs' where qs: "qs = 42 # qs'" using 3 by (cases qs) auto
    note c = cstr_at_Cons_nth [OF \<open>cstr_at str r rs\<close> [unfolded Cons]]
      and pc = cstr_at_Cons_nth [OF \<open>cstr_at pat q qs\<close> [unfolded qs]]
    obtain n q' ts where q': "skip_stars pat (Suc q) = Some q'" "qs' = replicate n 42 @ ts"
      "cstr_at pat q' ts"
      using skip_stars_spec cstr_at_tl 3(2) qs by blast
    have g: "glob cmp qs rs \<longleftrightarrow> glob cmp (42 # ts) rs"
      using glob_stars [of cmp n ts rs] qs q'(2) by (simp add: replicate_app_Cons_same)
    show ?thesis
    proof (cases ts)
      case Nil
      have "match_scan cmp pat q str r None None = Some (Inl True)"
        using q' c pc Nil by (subst match_scan.simps) (simp add: cstr_at_Nil)
      moreover have "glob cmp P S"
        using glob_all_stars [of cmp 1 rs] 3 g Nil by simp
      ultimately show ?thesis using 3 by (auto simp: match_with_def match_finish_def)
    next
      case ts: (Cons d ts')
      have "match_scan cmp pat q str r None None = match_scan cmp pat q' str r (Some q') (Some (Suc r))"
        using q' c pc ts cstr_at_Cons_nth [of pat q' d ts'] by (subst match_scan.simps) simp
      moreover have "last P = last ts" "42 \<in> set P" using 3 qs q'(2) ts by auto
      ultimately show ?thesis
        using match_scan_spec [of pat q' "[]" ts str r "[]" rs] q'(3) 3 g Cons ts
        by (auto simp: match_with_def block_def attempt_def scan_result_def)
    qed
  qed
qed

end

interpretation exact: char_cmp "\<lambda>c1 c2 :: u8. c1 = c2"
  by unfold_locales simp

interpretation caseless: char_cmp "\<lambda>c1 c2 :: u8. tolower (sint c1) = tolower (sint c2)"
  by unfold_locales simp

section \<open>Properties\<close>

text \<open>C38: on C strings both matchers return without a fault; a match they report is a match of
  the whole string against the whole pattern, and for a pattern without a star or with a star at
  its end they report a match exactly when there is one.\<close>

theorem cstr_match_sound:
  assumes "cstr_at pat i P" and "cstr_at str j S"
  shows "(\<exists>b. cstr_match pat i str j = Some b \<and> (b \<longrightarrow> glob (\<lambda>c d. c = d) P S) \<and>
      (42 \<notin> set P \<or> last P = 42 \<longrightarrow> (b \<longleftrightarrow> glob (\<lambda>c d. c = d) P S))) \<and>
    (\<exists>b. cstr_matchi pat i str j = Some b \<and>
      (b \<longrightarrow> glob (\<lambda>c d. tolower (sint c) = tolower (sint d)) P S) \<and>
      (42 \<notin> set P \<or> last P = 42 \<longrightarrow> (b \<longleftrightarrow> glob (\<lambda>c d. tolower (sint c) = tolower (sint d)) P S)))"
  using exact.match_with_spec [OF assms] caseless.match_with_spec [OF assms]
  by (simp add: cstr_match_def cstr_matchi_def)

theorem cstr_match_sound_witness:
  "cstr_match (bytes ''a?c*'' @ [0]) 0 (bytes ''abcd'' @ [0]) 0 = Some True"
proof -
  have "cstr_at (bytes ''a?c*'' @ [0]) 0 (bytes ''a?c*'')"
    "cstr_at (bytes ''abcd'' @ [0]) 0 (bytes ''abcd'')"
    by (simp_all add: cstr_at_def bytes_def)
  from cstr_match_sound [OF this]
  have "\<exists>b. cstr_match (bytes ''a?c*'' @ [0]) 0 (bytes ''abcd'' @ [0]) 0 = Some b \<and>
      (b \<longleftrightarrow> glob (\<lambda>c d. c = d) (bytes ''a?c*'') (bytes ''abcd''))"
    by (auto simp: bytes_def)
  moreover have "glob (\<lambda>c d. c = d) (bytes ''a?c*'') (bytes ''abcd'')"
    by (simp add: bytes_def glob_simps)
  ultimately show ?thesis by auto
qed

text \<open>The short circuit on the last character of the string gives up on matches: the pattern
  \<open>*a\<close> matches \<open>aa\<close> and \<open>*?\<close> matches \<open>ab\<close>, but \<open>cstr_match\<close> says no.\<close>

theorem cstr_match_incomplete:
  "glob (\<lambda>c d. c = d) (bytes ''*a'') (bytes ''aa'') \<and>
   cstr_match (bytes ''*a'' @ [0]) 0 (bytes ''aa'' @ [0]) 0 = Some False \<and>
   glob (\<lambda>c d. c = d) (bytes ''*?'') (bytes ''ab'') \<and>
   cstr_match (bytes ''*?'' @ [0]) 0 (bytes ''ab'' @ [0]) 0 = Some False"
  by (simp add: bytes_def glob_simps cstr_match_def match_with_def match_lead.simps
      match_scan.simps skip_stars.simps match_finish_def)

end
