(* ===== verification/Upak.thy ===== *)
theory Upak
  imports Perp_Prelude
begin

text \<open>
  The portable storage format for unsigned integers (\<open>src/lasagna/upak\<close>): the
  fixed-width packers and unpackers, and the variadic \<open>upak_pack\<close>/\<open>upak_unpack\<close>
  driven by a format string.  A packer returns the bytes it stores from \<open>b[0]\<close>
  on; an unpacker reads from the start of its buffer and faults when it is too short.
  The locale \<open>fixed_codec\<close> is the contract the packet and time layers rely on.
\<close>

section \<open>Definitions\<close>

definition upak16_pack :: "u16 \<Rightarrow> u8 list" where
  "upak16_pack u = [ucast (u AND 255), ucast (drop_bit 8 u)]"

definition upak16_unpack :: "buffer \<Rightarrow> u16 option" where
  "upak16_unpack b = do {
     b1 \<leftarrow> rd b 1;
     let u = ucast b1;
     let u = push_bit 8 u;
     b0 \<leftarrow> rd b 0;
     Some (u + ucast b0) }"

definition upak24_pack :: "u32 \<Rightarrow> u8 list" where
  "upak24_pack u =
     (let b0 = ucast (u AND 255); u = drop_bit 8 u;
          b1 = ucast (u AND 255); u = drop_bit 8 u;
          b2 = ucast (u AND 255)
      in [b0, b1, b2])"

definition upak24_unpack :: "buffer \<Rightarrow> u32 option" where
  "upak24_unpack b = do {
     b2 \<leftarrow> rd b 2;
     let u = ucast b2;
     let u = push_bit 8 u;
     b1 \<leftarrow> rd b 1;
     let u = u + ucast b1;
     let u = push_bit 8 u;
     b0 \<leftarrow> rd b 0;
     Some (u + ucast b0) }"

definition upak32_pack :: "u32 \<Rightarrow> u8 list" where
  "upak32_pack u =
     (let b0 = ucast (u AND 255); u = drop_bit 8 u;
          b1 = ucast (u AND 255); u = drop_bit 8 u;
          b2 = ucast (u AND 255);
          b3 = ucast (drop_bit 8 u)
      in [b0, b1, b2, b3])"

definition upak32_unpack :: "buffer \<Rightarrow> u32 option" where
  "upak32_unpack b = do {
     b3 \<leftarrow> rd b 3;
     let u = ucast b3;
     let u = push_bit 8 u;
     b2 \<leftarrow> rd b 2;
     let u = u + ucast b2;
     let u = push_bit 8 u;
     b1 \<leftarrow> rd b 1;
     let u = u + ucast b1;
     let u = push_bit 8 u;
     b0 \<leftarrow> rd b 0;
     Some (u + ucast b0) }"

definition upak64_pack :: "u64 \<Rightarrow> u8 list" where
  "upak64_pack u =
     (let b0 = ucast (u AND 255); u = drop_bit 8 u;
          b1 = ucast (u AND 255); u = drop_bit 8 u;
          b2 = ucast (u AND 255); u = drop_bit 8 u;
          b3 = ucast (u AND 255); u = drop_bit 8 u;
          b4 = ucast (u AND 255); u = drop_bit 8 u;
          b5 = ucast (u AND 255); u = drop_bit 8 u;
          b6 = ucast (u AND 255);
          b7 = ucast (drop_bit 8 u)
      in [b0, b1, b2, b3, b4, b5, b6, b7])"

definition upak64_unpack :: "buffer \<Rightarrow> u64 option" where
  "upak64_unpack b = do {
     b7 \<leftarrow> rd b 7;
     let u = ucast b7;
     let u = push_bit 8 u;
     b6 \<leftarrow> rd b 6;
     let u = u + ucast b6;
     let u = push_bit 8 u;
     b5 \<leftarrow> rd b 5;
     let u = u + ucast b5;
     let u = push_bit 8 u;
     b4 \<leftarrow> rd b 4;
     let u = u + ucast b4;
     let u = push_bit 8 u;
     b3 \<leftarrow> rd b 3;
     let u = u + ucast b3;
     let u = push_bit 8 u;
     b2 \<leftarrow> rd b 2;
     let u = u + ucast b2;
     let u = push_bit 8 u;
     b1 \<leftarrow> rd b 1;
     let u = u + ucast b1;
     let u = push_bit 8 u;
     b0 \<leftarrow> rd b 0;
     Some (u + ucast b0) }"

text \<open>
  The variadic arguments of \<open>upak_pack\<close> as the types \<open>va_arg\<close> asks for: \<open>int\<close>
  for the characters b, c and s, \<open>uint32_t\<close> for d and \<open>uint64_t\<close> for L.  An argument
  of another type or a missing one is undefined behaviour, hence \<^const>\<open>None\<close>.
\<close>

datatype vararg = VInt u32 | VU32 u32 | VU64 u64

text \<open>
  The result: the bytes stored so far and the return value, \<open>-1\<close> (with \<open>errno\<close>
  set to EINVAL) at an unknown format character.
\<close>

fun upak_pack :: "string \<Rightarrow> vararg list \<Rightarrow> u8 list \<Rightarrow> (u8 list \<times> int) option" where
  "upak_pack [] args b = Some (b, int (length b))"
| "upak_pack (p # fmt) args b =
     (if p = CHR ''b'' \<or> p = CHR ''c'' then
        (case args of VInt i # args' \<Rightarrow> upak_pack fmt args' (b @ [ucast i]) | _ \<Rightarrow> None)
      else if p = CHR ''s'' then
        (case args of VInt i # args' \<Rightarrow>
           let u16 = (ucast i :: u16) in
             upak_pack fmt args' (b @ [ucast (u16 AND 255), ucast (drop_bit 8 u16)])
         | _ \<Rightarrow> None)
      else if p = CHR ''d'' then
        (case args of VU32 u32 # args' \<Rightarrow>
           upak_pack fmt args' (b @
             (let b0 = ucast (u32 AND 255); u32 = drop_bit 8 u32;
                  b1 = ucast (u32 AND 255); u32 = drop_bit 8 u32;
                  b2 = ucast (u32 AND 255); u32 = drop_bit 8 u32
              in [b0, b1, b2, ucast u32]))
         | _ \<Rightarrow> None)
      else if p = CHR ''L'' then
        (case args of VU64 u64 # args' \<Rightarrow>
           upak_pack fmt args' (b @
             (let b0 = ucast (u64 AND 255); u64 = drop_bit 8 u64;
                  b1 = ucast (u64 AND 255); u64 = drop_bit 8 u64;
                  b2 = ucast (u64 AND 255); u64 = drop_bit 8 u64;
                  b3 = ucast (u64 AND 255); u64 = drop_bit 8 u64;
                  b4 = ucast (u64 AND 255); u64 = drop_bit 8 u64;
                  b5 = ucast (u64 AND 255); u64 = drop_bit 8 u64;
                  b6 = ucast (u64 AND 255); u64 = drop_bit 8 u64
              in [b0, b1, b2, b3, b4, b5, b6, ucast u64]))
         | _ \<Rightarrow> None)
      else Some (b, -1))"

text \<open>
  \<open>upak_unpack\<close> stores through one pointer per format character; a NULL pointer
  skips the field.  The arguments are the flags "pointer is not NULL", the result the
  values stored through the non-NULL pointers, in order, and the return value.
\<close>

datatype uval = V8 u8 | V16 u16 | V32 u32 | V64 u64

text \<open>The reads of one field happen only when its pointer is not NULL.\<close>

definition fetch :: "bool \<Rightarrow> (buffer \<Rightarrow> 'a option) \<Rightarrow> ('a \<Rightarrow> uval) \<Rightarrow> buffer \<Rightarrow> uval list option" where
  "fetch ptr unp con b = (if ptr then map_option (\<lambda>v. [con v]) (unp b) else Some [])"

fun upak_unpack :: "buffer \<Rightarrow> string \<Rightarrow> bool list \<Rightarrow> nat \<Rightarrow> uval list \<Rightarrow> (uval list \<times> int) option" where
  "upak_unpack buf [] args b out = Some (out, int b)"
| "upak_unpack buf (p # fmt) args b out =
     (if p = CHR ''b'' \<or> p = CHR ''c'' then
        (case args of [] \<Rightarrow> None | ptr # args' \<Rightarrow> do {
           v \<leftarrow> fetch ptr (\<lambda>c. rd c 0) V8 (drop b buf);
           upak_unpack buf fmt args' (b + 1) (out @ v) })
      else if p = CHR ''s'' then
        (case args of [] \<Rightarrow> None | ptr # args' \<Rightarrow> do {
           v \<leftarrow> fetch ptr upak16_unpack V16 (drop b buf);
           upak_unpack buf fmt args' (b + 2) (out @ v) })
      else if p = CHR ''d'' then
        (case args of [] \<Rightarrow> None | ptr # args' \<Rightarrow> do {
           v \<leftarrow> fetch ptr upak32_unpack V32 (drop b buf);
           upak_unpack buf fmt args' (b + 4) (out @ v) })
      else if p = CHR ''L'' then
        (case args of [] \<Rightarrow> None | ptr # args' \<Rightarrow> do {
           v \<leftarrow> fetch ptr upak64_unpack V64 (drop b buf);
           upak_unpack buf fmt args' (b + 8) (out @ v) })
      else Some (out, -1))"

section \<open>The contract of a fixed-width codec\<close>

locale fixed_codec =
  fixes pack :: "'v \<Rightarrow> u8 list" and unpack :: "buffer \<Rightarrow> 'v option"
    and width :: nat and in_range :: "'v \<Rightarrow> bool"
  assumes pack_length: "length (pack v) = width"
    and unpack_pack: "in_range v \<Longrightarrow> unpack (pack v @ rest) = Some v"
    and unpack_surj: "length bs = width \<Longrightarrow> \<exists>v. in_range v \<and> pack v = bs"
    and unpack_short: "length b < width \<Longrightarrow> unpack b = None"
begin

text \<open>Two values in range with the same bytes are equal.\<close>

lemma pack_inj: "in_range v \<Longrightarrow> in_range w \<Longrightarrow> pack v = pack w \<Longrightarrow> v = w"
  using unpack_pack [of v "[]"] unpack_pack [of w "[]"] by simp

text \<open>Reading a field back from where it was stored.\<close>

lemma field_read:
  assumes "put_at b off (pack v) = Some b'" and "in_range v"
  shows "unpack (drop off b') = Some v"
proof -
  have "take width (drop off b') = pack v"
    using put_at_read [OF assms(1)] by (simp add: pack_length)
  then have "drop off b' = pack v @ drop width (drop off b')"
    by (metis append_take_drop_id)
  then show ?thesis using unpack_pack [OF assms(2)] by metis
qed

text \<open>The decoder depends only on the first \<open>width\<close> bytes, and inverts the packer there.\<close>

lemma unpack_take:
  assumes "width \<le> length b"
  obtains v where "in_range v" and "unpack b = Some v" and "pack v = take width b"
proof -
  obtain v where v: "in_range v" "pack v = take width b"
    using unpack_surj [of "take width b"] assms by (auto simp: min.absorb2)
  have "unpack (pack v @ drop width b) = Some v" using v(1) by (rule unpack_pack)
  then have "unpack b = Some v" by (simp add: v(2))
  then show ?thesis using that v by blast
qed

lemma unpack_defined: "unpack b \<noteq> None \<longleftrightarrow> width \<le> length b"
  by (metis not_le_imp_less option.distinct(1) unpack_short unpack_take)

end

section \<open>The upak functions satisfy the contract\<close>

lemma upak16_pack_le: "upak16_pack u = le_bytes 2 u"
  by (simp add: upak16_pack_def numeral_2_eq_2)

lemma upak24_pack_le: "upak24_pack u = le_bytes 3 u"
  by (simp add: upak24_pack_def Let_def numeral_3_eq_3)

lemma upak32_pack_le: "upak32_pack u = le_bytes 4 u"
  by (simp add: upak32_pack_def Let_def eval_nat_numeral)

lemma upak64_pack_le: "upak64_pack u = le_bytes 8 u"
  by (simp add: upak64_pack_def Let_def eval_nat_numeral)

lemma upak16_unpack_le: "upak16_unpack (b0 # b1 # rest) = Some (le_word [b0, b1])"
  by (simp add: upak16_unpack_def Let_def)

lemma upak24_unpack_le: "upak24_unpack (b0 # b1 # b2 # rest) = Some (le_word [b0, b1, b2])"
  by (simp add: upak24_unpack_def Let_def eval_nat_numeral)

lemma upak32_unpack_le:
  "upak32_unpack (b0 # b1 # b2 # b3 # rest) = Some (le_word [b0, b1, b2, b3])"
  by (simp add: upak32_unpack_def Let_def eval_nat_numeral)

lemma upak64_unpack_le:
  "upak64_unpack (b0 # b1 # b2 # b3 # b4 # b5 # b6 # b7 # rest) =
   Some (le_word [b0, b1, b2, b3, b4, b5, b6, b7])"
  by (simp add: upak64_unpack_def Let_def eval_nat_numeral)

lemma le_codec:
  fixes unp :: "buffer \<Rightarrow> 'a::len word option"
  assumes pk: "\<And>u. pk u = le_bytes n (u :: 'a word)"
    and unp: "\<And>bs rest. length bs = n \<Longrightarrow> unp (bs @ rest) = Some (le_word bs)"
    and short: "\<And>b. length b < n \<Longrightarrow> unp b = None"
    and n: "8 * n \<le> LENGTH('a)"
  shows "fixed_codec pk unp n (\<lambda>u. take_bit (8 * n) u = u)"
proof
  show "length (pk v) = n" for v by (simp add: pk)
  show "unp (pk v @ rest) = Some v" if "take_bit (8 * n) v = v" for v rest
    using unp [of "pk v" rest] that by (simp add: pk le_word_le_bytes)
  show "\<exists>v. take_bit (8 * n) v = v \<and> pk v = bs" if "length bs = n" for bs
  proof -
    have "pk (le_word bs :: 'a word) = bs"
      using le_bytes_le_word [of bs] that n by (auto simp: pk)
    moreover have "take_bit (8 * n) (le_word bs :: 'a word) = le_word bs"
      using le_word_le_bytes [of n "le_word bs :: 'a word"] calculation by (simp add: pk)
    ultimately show ?thesis by blast
  qed
  show "unp b = None" if "length b < n" for b using that by (rule short)
qed

interpretation upak16: fixed_codec upak16_pack upak16_unpack 2 "\<lambda>u. take_bit (8 * 2) u = u"
proof (rule le_codec)
  show "upak16_pack u = le_bytes 2 u" for u by (rule upak16_pack_le)
  show "upak16_unpack (bs @ rest) = Some (le_word bs)" if "length bs = 2" for bs rest
    using that by (auto simp: numeral_2_eq_2 length_Suc_conv upak16_unpack_le)
  show "upak16_unpack b = None" if "length b < 2" for b
    using that by (simp add: upak16_unpack_def)
qed simp

interpretation upak24: fixed_codec upak24_pack upak24_unpack 3 "\<lambda>u. take_bit (8 * 3) u = u"
proof (rule le_codec)
  show "upak24_pack u = le_bytes 3 u" for u by (rule upak24_pack_le)
  show "upak24_unpack (bs @ rest) = Some (le_word bs)" if "length bs = 3" for bs rest
    using that by (auto simp: numeral_3_eq_3 length_Suc_conv upak24_unpack_le)
  show "upak24_unpack b = None" if "length b < 3" for b
    using that by (simp add: upak24_unpack_def)
qed simp

interpretation upak32: fixed_codec upak32_pack upak32_unpack 4 "\<lambda>u. take_bit (8 * 4) u = u"
proof (rule le_codec)
  show "upak32_pack u = le_bytes 4 u" for u by (rule upak32_pack_le)
  show "upak32_unpack (bs @ rest) = Some (le_word bs)" if "length bs = 4" for bs rest
    using that by (auto simp: eval_nat_numeral length_Suc_conv upak32_unpack_le)
  show "upak32_unpack b = None" if "length b < 4" for b
    using that by (simp add: upak32_unpack_def)
qed simp

interpretation upak64: fixed_codec upak64_pack upak64_unpack 8 "\<lambda>u. take_bit (8 * 8) u = u"
proof (rule le_codec)
  show "upak64_pack u = le_bytes 8 u" for u by (rule upak64_pack_le)
  show "upak64_unpack (bs @ rest) = Some (le_word bs)" if "length bs = 8" for bs rest
    using that by (auto simp: eval_nat_numeral length_Suc_conv upak64_unpack_le)
  show "upak64_unpack b = None" if "length b < 8" for b
    using that by (simp add: upak64_unpack_def)
qed simp

lemmas upak_lengths [simp] =
  upak16.pack_length upak24.pack_length upak32.pack_length upak64.pack_length

section \<open>The variadic codec\<close>

text \<open>The value a format character gives its argument, and the bytes of a value.\<close>

fun arg_val :: "char \<Rightarrow> vararg \<Rightarrow> uval option" where
  "arg_val p (VInt i) =
     (if p = CHR ''b'' \<or> p = CHR ''c'' then Some (V8 (ucast i))
      else if p = CHR ''s'' then Some (V16 (ucast i)) else None)"
| "arg_val p (VU32 u) = (if p = CHR ''d'' then Some (V32 u) else None)"
| "arg_val p (VU64 u) = (if p = CHR ''L'' then Some (V64 u) else None)"

fun fmt_vals :: "string \<Rightarrow> vararg list \<Rightarrow> uval list option" where
  "fmt_vals [] args = Some []"
| "fmt_vals (p # fmt) [] = None"
| "fmt_vals (p # fmt) (a # args) = do {
     v \<leftarrow> arg_val p a;
     vs \<leftarrow> fmt_vals fmt args;
     Some (v # vs) }"

fun val_bytes :: "uval \<Rightarrow> u8 list" where
  "val_bytes (V8 x) = [x]"
| "val_bytes (V16 x) = upak16_pack x"
| "val_bytes (V32 x) = upak32_pack x"
| "val_bytes (V64 x) = upak64_pack x"

lemma upak_pack_step:
  assumes "arg_val p a = Some v"
  shows "upak_pack (p # fmt) (a # args) b = upak_pack fmt args (b @ val_bytes v)"
  using assms
  by (cases a) (auto simp: upak16_pack_def upak32_pack_def upak64_pack_def Let_def split: if_splits)

lemma upak_pack_bytes:
  "fmt_vals fmt args = Some vs \<Longrightarrow>
   upak_pack fmt args b =
     Some (b @ concat (map val_bytes vs), int (length (b @ concat (map val_bytes vs))))"
proof (induction fmt args arbitrary: vs b rule: fmt_vals.induct)
  case (3 p fmt a args)
  then obtain v vs' where "arg_val p a = Some v" "fmt_vals fmt args = Some vs'" "vs = v # vs'"
    by (auto split: Option.bind_splits)
  with 3 show ?case by (simp only: upak_pack_step) simp
qed auto

lemma upak_unpack_step:
  assumes "arg_val p a = Some v"
  shows "upak_unpack (pre @ val_bytes v @ rest) (p # fmt) (True # ptrs) (length pre) out =
         upak_unpack (pre @ val_bytes v @ rest) fmt ptrs (length pre + length (val_bytes v)) (out @ [v])"
  using assms
  by (cases a)
    (auto simp: fetch_def upak16.unpack_pack upak32.unpack_pack upak64.unpack_pack split: if_splits)

lemma upak_unpack_bytes:
  "fmt_vals fmt args = Some vs \<Longrightarrow>
   upak_unpack (pre @ concat (map val_bytes vs) @ rest) fmt (replicate (length fmt) True) (length pre) out =
     Some (out @ vs, int (length pre + length (concat (map val_bytes vs))))"
proof (induction fmt args arbitrary: vs pre out rule: fmt_vals.induct)
  case (3 p fmt a args)
  then obtain v vs' where v: "arg_val p a = Some v" and vs': "fmt_vals fmt args = Some vs'"
    and vs: "vs = v # vs'"
    by (auto split: Option.bind_splits)
  have IH: "upak_unpack ((pre @ val_bytes v) @ concat (map val_bytes vs') @ rest) fmt
      (replicate (length fmt) True) (length (pre @ val_bytes v)) (out @ [v]) =
      Some ((out @ [v]) @ vs', int (length (pre @ val_bytes v) + length (concat (map val_bytes vs'))))"
    using 3 v vs' by blast
  have "upak_unpack (pre @ val_bytes v @ concat (map val_bytes vs') @ rest) (p # fmt)
      (True # replicate (length fmt) True) (length pre) out =
      upak_unpack (pre @ val_bytes v @ concat (map val_bytes vs') @ rest) fmt
      (replicate (length fmt) True) (length pre + length (val_bytes v)) (out @ [v])"
    by (rule upak_unpack_step [OF v])
  with IH show ?case by (simp add: vs del: upak_unpack.simps)
qed auto

end
