(* ===== verification/Tain.thy ===== *)
theory Tain
  imports Upak
begin

text \<open>
  Time stamps (\<open>src/lasagna/tain\<close>): TAI64N values of 64-bit seconds and 32-bit
  nanoseconds, their arithmetic, comparison and external formats.  \<open>tain_val\<close> reads
  a stamp as a number of nanoseconds; a stamp is normal (\<open>tain_ok\<close>) when its
  nanoseconds are below one billion.  Arithmetic is shown to be arithmetic on
  nanoseconds modulo the range of the type, and the comparison to be the order of the
  values, which makes stamps a linear order.  \<open>gettimeofday\<close> is the argument of
  \<open>tain_now\<close>.
\<close>

section \<open>Definitions\<close>

datatype tain = Tain (sec: u64) (nsec: u32)

definition TAIN_UTC_OFFSET :: u64 where
  "TAIN_UTC_OFFSET = 4611686018427387914"

definition TAIN_PACK_SIZE :: nat where
  "TAIN_PACK_SIZE = 12"

definition tain_load :: "u64 \<Rightarrow> u32 \<Rightarrow> tain" where
  "tain_load s n = Tain s n"

definition tain_assign :: "tain \<Rightarrow> tain" where
  "tain_assign t2 = Tain (sec t2) (nsec t2)"

definition tain_iszero :: "tain \<Rightarrow> bool" where
  "tain_iszero t \<longleftrightarrow> sec t = 0 \<and> nsec t = 0"

definition tain_less :: "tain \<Rightarrow> tain \<Rightarrow> bool" where
  "tain_less t1 t2 \<longleftrightarrow> (if sec t1 \<noteq> sec t2 then sec t1 < sec t2 else nsec t1 < nsec t2)"

definition tain_load_utc :: "u64 \<Rightarrow> tain" where
  "tain_load_utc u = Tain (TAIN_UTC_OFFSET + u) 0"

definition tain_to_utc :: "tain \<Rightarrow> u64" where
  "tain_to_utc t = sec t - TAIN_UTC_OFFSET"

text \<open>\<open>struct timeval\<close>: seconds and microseconds, as \<open>gettimeofday\<close> stores them.\<close>

type_synonym timeval = "u64 \<times> u64"

definition tain_now :: "timeval \<Rightarrow> tain" where
  "tain_now now = (let t = tain_load_utc (fst now) in Tain (sec t) (ucast (1000 * snd now + 500)))"

definition tain_load_msecs :: "u64 \<Rightarrow> tain" where
  "tain_load_msecs msecs = Tain (msecs div 1000) (ucast ((msecs mod 1000) * 1000000))"

definition tain_to_msecs :: "tain \<Rightarrow> u64" where
  "tain_to_msecs t = sec t * 1000 + ucast (nsec t) div 1000000"

definition tain_plus :: "tain \<Rightarrow> tain \<Rightarrow> tain" where
  "tain_plus a b =
     (let s = sec a + sec b; n = nsec a + nsec b
      in if n > 999999999 then Tain (s + 1) (n - 1000000000) else Tain s n)"

definition tain_minus :: "tain \<Rightarrow> tain \<Rightarrow> tain" where
  "tain_minus a b =
     (let s = sec a - sec b
      in if nsec a \<ge> nsec b then Tain s (nsec a - nsec b)
         else Tain (s - 1) ((1000000000 + nsec a) - nsec b))"

definition tain_uptime :: "tain \<Rightarrow> tain \<Rightarrow> u64" where
  "tain_uptime now when =
     (let temp = (if tain_less when now then tain_minus now when else tain_minus when now)
      in if nsec temp > 500000000 then sec temp + 1 else sec temp)"

definition tain_tai_pack :: "tain \<Rightarrow> u8 list" where
  "tain_tai_pack t =
     (let x = sec t;
          b7 = ucast (x AND 255); x = drop_bit 8 x;
          b6 = ucast (x AND 255); x = drop_bit 8 x;
          b5 = ucast (x AND 255); x = drop_bit 8 x;
          b4 = ucast (x AND 255); x = drop_bit 8 x;
          b3 = ucast (x AND 255); x = drop_bit 8 x;
          b2 = ucast (x AND 255); x = drop_bit 8 x;
          b1 = ucast (x AND 255); x = drop_bit 8 x;
          b0 = ucast x
      in [b0, b1, b2, b3, b4, b5, b6, b7])"

text \<open>\<open>tain_tai_unpack\<close> stores the seconds and leaves the nanoseconds of \<open>t\<close>.\<close>

definition tain_tai_unpack :: "tain \<Rightarrow> buffer \<Rightarrow> tain option" where
  "tain_tai_unpack t buf = do {
     b0 \<leftarrow> rd buf 0;
     let x = ucast b0;
     b1 \<leftarrow> rd buf 1;
     let x = push_bit 8 x + ucast b1;
     b2 \<leftarrow> rd buf 2;
     let x = push_bit 8 x + ucast b2;
     b3 \<leftarrow> rd buf 3;
     let x = push_bit 8 x + ucast b3;
     b4 \<leftarrow> rd buf 4;
     let x = push_bit 8 x + ucast b4;
     b5 \<leftarrow> rd buf 5;
     let x = push_bit 8 x + ucast b5;
     b6 \<leftarrow> rd buf 6;
     let x = push_bit 8 x + ucast b6;
     b7 \<leftarrow> rd buf 7;
     let x = push_bit 8 x + ucast b7;
     Some (Tain x (nsec t)) }"

definition tain_pack :: "tain \<Rightarrow> u8 list" where
  "tain_pack t =
     (let x = nsec t;
          b3 = ucast (x AND 255); x = drop_bit 8 x;
          b2 = ucast (x AND 255); x = drop_bit 8 x;
          b1 = ucast (x AND 255); x = drop_bit 8 x;
          b0 = ucast x
      in tain_tai_pack t @ [b0, b1, b2, b3])"

definition tain_unpack :: "tain \<Rightarrow> buffer \<Rightarrow> tain option" where
  "tain_unpack t buf = do {
     t \<leftarrow> tain_tai_unpack t buf;
     b0 \<leftarrow> rd buf 8;
     let x = ucast b0;
     b1 \<leftarrow> rd buf 9;
     let x = push_bit 8 x + ucast b1;
     b2 \<leftarrow> rd buf 10;
     let x = push_bit 8 x + ucast b2;
     b3 \<leftarrow> rd buf 11;
     let x = push_bit 8 x + ucast b3;
     Some (Tain (sec t) x) }"

definition hex :: "u8 list" where
  "hex = bytes ''0123456789abcdef''"

definition tain_packhex :: "tain \<Rightarrow> u8 list" where
  "tain_packhex t =
     (let tpack = tain_pack t
      in concat (map (\<lambda>i. [hex ! unat (drop_bit 4 (tpack ! i) AND 15), hex ! unat (tpack ! i AND 15)])
                     [0..<TAIN_PACK_SIZE]) @ [0])"

text \<open>One hexadecimal digit as \<open>tain_unpackhex\<close> reads it, on \<open>uchar_t\<close>.\<close>

definition unhex_digit :: "u8 \<Rightarrow> u8" where
  "unhex_digit u = (if u \<ge> 65 then ((u AND 0xdf) - 65) + 10 else u - 48)"

definition tain_unpackhex_byte :: "buffer \<Rightarrow> nat \<Rightarrow> u8 option" where
  "tain_unpackhex_byte s i = do {
     u \<leftarrow> rd s i;
     let tp = push_bit 4 (unhex_digit u);
     u \<leftarrow> rd s (i + 1);
     Some (tp + unhex_digit u) }"

fun tain_unpackhex_loop :: "buffer \<Rightarrow> nat list \<Rightarrow> u8 list \<Rightarrow> u8 list option" where
  "tain_unpackhex_loop s [] tpack = Some tpack"
| "tain_unpackhex_loop s (i # is) tpack = do {
     c \<leftarrow> tain_unpackhex_byte s i;
     tain_unpackhex_loop s is (tpack @ [c]) }"

definition tain_unpackhex :: "tain \<Rightarrow> buffer \<Rightarrow> tain option" where
  "tain_unpackhex t s = do {
     tpack \<leftarrow> tain_unpackhex_loop s [0..<TAIN_PACK_SIZE] [];
     tain_unpack t tpack }"

text \<open>The value of a stamp in nanoseconds, normal stamps, and the size of the range.\<close>

definition tain_val :: "tain \<Rightarrow> int" where
  "tain_val t = uint (sec t) * 1000000000 + uint (nsec t)"

definition tain_ok :: "tain \<Rightarrow> bool" where
  "tain_ok t \<longleftrightarrow> nsec t < 1000000000"

definition tain_range :: int where
  "tain_range = 2 ^ 64 * 1000000000"

section \<open>Order\<close>

instantiation tain :: linorder
begin

definition less_tain :: "tain \<Rightarrow> tain \<Rightarrow> bool" where
  "less_tain a b = tain_less a b"

definition less_eq_tain :: "tain \<Rightarrow> tain \<Rightarrow> bool" where
  "less_eq_tain a b = (\<not> tain_less b a)"

instance
proof
  fix x y z :: tain
  show "x < y \<longleftrightarrow> x \<le> y \<and> \<not> y \<le> x"
    by (auto simp: less_tain_def less_eq_tain_def tain_less_def)
  show "x \<le> x" by (simp add: less_eq_tain_def tain_less_def)
  show "x \<le> y \<Longrightarrow> y \<le> z \<Longrightarrow> x \<le> z"
    by (auto simp: less_eq_tain_def tain_less_def not_less split: if_splits)
  show "x \<le> y \<Longrightarrow> y \<le> x \<Longrightarrow> x = y"
    by (auto simp: less_eq_tain_def tain_less_def tain.expand split: if_splits)
  show "x \<le> y \<or> y \<le> x" by (auto simp: less_eq_tain_def tain_less_def)
qed

end

lemma radix_less:
  fixes s t m n :: int
  assumes "0 \<le> m" "m < 1000000000" "0 \<le> n" "n < 1000000000"
  shows "s * 1000000000 + m < t * 1000000000 + n \<longleftrightarrow> s < t \<or> s = t \<and> m < n"
  using assms by linarith

lemma tain_ok_bounds: "tain_ok t \<Longrightarrow> 0 \<le> uint (nsec t) \<and> uint (nsec t) < 1000000000"
  by (simp add: tain_ok_def word_less_def)

lemma tain_less_val:
  assumes "tain_ok a" "tain_ok b"
  shows "tain_less a b \<longleftrightarrow> tain_val a < tain_val b"
  using radix_less [of "uint (nsec a)" "uint (nsec b)" "uint (sec a)" "uint (sec b)"]
    tain_ok_bounds [OF assms(1)] tain_ok_bounds [OF assms(2)]
  by (auto simp: tain_less_def tain_val_def word_less_def word_uint_eq_iff)

lemma tain_val_inj: "tain_ok a \<Longrightarrow> tain_ok b \<Longrightarrow> tain_val a = tain_val b \<Longrightarrow> a = b"
proof -
  assume ok: "tain_ok a" "tain_ok b" and "tain_val a = tain_val b"
  then have "\<not> tain_less a b" "\<not> tain_less b a" by (simp_all add: tain_less_val)
  then show "a = b" by (metis less_tain_def neqE)
qed

section \<open>Arithmetic\<close>

lemma tain_val_bounds: "tain_ok t \<Longrightarrow> 0 \<le> tain_val t \<and> tain_val t < tain_range"
proof -
  assume "tain_ok t"
  then have n: "0 \<le> uint (nsec t)" "uint (nsec t) < 1000000000" by (auto dest: tain_ok_bounds)
  have s: "0 \<le> uint (sec t)" "uint (sec t) < 2 ^ 64"
    using uint_bounded [of "sec t"] by simp_all
  show ?thesis using n s by (simp add: tain_val_def tain_range_def)
qed

lemma radix_mod:
  fixes x r :: int
  assumes "0 \<le> r" "r < 1000000000"
  shows "(x mod 2 ^ 64) * 1000000000 + r = (x * 1000000000 + r) mod tain_range"
proof -
  obtain q m where x: "x = 2 ^ 64 * q + m" and m: "m = x mod 2 ^ 64" "0 \<le> m" "m < 2 ^ 64"
    by (metis mult_div_mod_eq pos_mod_bound pos_mod_sign zero_less_numeral zero_less_power)
  have "x * 1000000000 + r = (m * 1000000000 + r) + tain_range * q"
    by (simp add: x tain_range_def algebra_simps)
  then have "(x * 1000000000 + r) mod tain_range = (m * 1000000000 + r) mod tain_range"
    by (simp only: mod_mult_self2)
  also have "\<dots> = m * 1000000000 + r"
    using assms m(2,3) by (intro mod_pos_pos_trivial) (simp_all add: tain_range_def)
  finally show ?thesis by (simp only: m(1))
qed

text \<open>Addition and subtraction of normal stamps are exact modulo the range.\<close>

lemma tain_plus_val:
  assumes "tain_ok a" "tain_ok b"
  shows "tain_ok (tain_plus a b)"
    and "tain_val (tain_plus a b) = (tain_val a + tain_val b) mod tain_range"
proof -
  let ?n = "uint (nsec a) + uint (nsec b)"
  let ?s = "uint (sec a) + uint (sec b)"
  have ba: "0 \<le> uint (nsec a)" "uint (nsec a) < 1000000000"
    and bb: "0 \<le> uint (nsec b)" "uint (nsec b) < 1000000000"
    using assms by (auto dest: tain_ok_bounds)
  have n: "uint (nsec a + nsec b) = ?n"
    using ba bb by (simp add: uint_word_ariths)
  have s: "uint (sec a + sec b) = ?s mod 2 ^ 64" "uint (sec a + sec b + 1) = (?s + 1) mod 2 ^ 64"
    by (simp_all add: uint_word_ariths mod_simps)
  have sum: "tain_val a + tain_val b = ?s * 1000000000 + ?n"
    by (simp add: tain_val_def algebra_simps)
  have "tain_ok (tain_plus a b) \<and>
    tain_val (tain_plus a b) = (tain_val a + tain_val b) mod tain_range"
  proof (cases "?n > 999999999")
    case True
    have n': "uint (nsec a + nsec b - 1000000000) = ?n - 1000000000"
      using True ba bb n by (simp add: uint_word_ariths)
    have "tain_plus a b = Tain (sec a + sec b + 1) (nsec a + nsec b - 1000000000)"
      using True n by (simp add: tain_plus_def word_less_def)
    then have "tain_ok (tain_plus a b)"
      and "tain_val (tain_plus a b) = ((?s + 1) mod 2 ^ 64) * 1000000000 + (?n - 1000000000)"
      using ba bb n' s by (simp_all add: tain_ok_def word_less_def tain_val_def)
    moreover have "((?s + 1) mod 2 ^ 64) * 1000000000 + (?n - 1000000000) =
        ((?s + 1) * 1000000000 + (?n - 1000000000)) mod tain_range"
      using True ba bb by (intro radix_mod) auto
    ultimately show ?thesis by (simp add: sum algebra_simps)
  next
    case False
    have "tain_plus a b = Tain (sec a + sec b) (nsec a + nsec b)"
      using False n by (simp add: tain_plus_def word_less_def)
    then have "tain_ok (tain_plus a b)"
      and "tain_val (tain_plus a b) = (?s mod 2 ^ 64) * 1000000000 + ?n"
      using False n s by (simp_all add: tain_ok_def word_less_def tain_val_def)
    moreover have "(?s mod 2 ^ 64) * 1000000000 + ?n = (?s * 1000000000 + ?n) mod tain_range"
      using False ba bb by (intro radix_mod) auto
    ultimately show ?thesis by (simp add: sum)
  qed
  then show "tain_ok (tain_plus a b)"
    and "tain_val (tain_plus a b) = (tain_val a + tain_val b) mod tain_range" by auto
qed

lemma tain_minus_val:
  assumes "tain_ok a" "tain_ok b"
  shows "tain_ok (tain_minus a b)"
    and "tain_val (tain_minus a b) = (tain_val a - tain_val b) mod tain_range"
proof -
  let ?n = "uint (nsec a) - uint (nsec b)"
  let ?s = "uint (sec a) - uint (sec b)"
  have ba: "0 \<le> uint (nsec a)" "uint (nsec a) < 1000000000"
    and bb: "0 \<le> uint (nsec b)" "uint (nsec b) < 1000000000"
    using assms by (auto dest: tain_ok_bounds)
  have s: "uint (sec a - sec b) = ?s mod 2 ^ 64" "uint (sec a - sec b - 1) = (?s - 1) mod 2 ^ 64"
    by (simp_all add: uint_word_ariths mod_simps)
  have diff: "tain_val a - tain_val b = ?s * 1000000000 + ?n"
    by (simp add: tain_val_def algebra_simps)
  have "tain_ok (tain_minus a b) \<and>
    tain_val (tain_minus a b) = (tain_val a - tain_val b) mod tain_range"
  proof (cases "uint (nsec b) \<le> uint (nsec a)")
    case True
    have "uint (nsec a - nsec b) = ?n"
      using True ba bb by (simp add: uint_sub_if')
    moreover have "tain_minus a b = Tain (sec a - sec b) (nsec a - nsec b)"
      using True by (simp add: tain_minus_def word_le_def)
    moreover have "?n < 1000000000" using ba bb by linarith
    ultimately have "tain_ok (tain_minus a b)"
      and "tain_val (tain_minus a b) = (?s mod 2 ^ 64) * 1000000000 + ?n"
      using s by (simp_all add: tain_ok_def word_less_def tain_val_def)
    moreover have "(?s mod 2 ^ 64) * 1000000000 + ?n = (?s * 1000000000 + ?n) mod tain_range"
      using True bb \<open>?n < 1000000000\<close> by (intro radix_mod) linarith+
    ultimately show ?thesis by (simp add: diff)
  next
    case False
    have p: "uint (1000000000 + nsec a) = 1000000000 + uint (nsec a)"
      using ba by (simp add: uint_word_ariths)
    moreover have "uint (nsec b) \<le> 1000000000 + uint (nsec a)" using ba bb by linarith
    ultimately have "uint (1000000000 + nsec a - nsec b) = ?n + 1000000000"
      by (simp add: uint_sub_if')
    moreover have "tain_minus a b = Tain (sec a - sec b - 1) (1000000000 + nsec a - nsec b)"
      using False by (simp add: tain_minus_def word_le_def)
    ultimately have "tain_ok (tain_minus a b)"
      and "tain_val (tain_minus a b) = ((?s - 1) mod 2 ^ 64) * 1000000000 + (?n + 1000000000)"
      using False ba bb s by (simp_all add: tain_ok_def word_less_def tain_val_def)
    moreover have "((?s - 1) mod 2 ^ 64) * 1000000000 + (?n + 1000000000) =
        ((?s - 1) * 1000000000 + (?n + 1000000000)) mod tain_range"
      using False ba bb by (intro radix_mod) linarith+
    ultimately show ?thesis by (simp add: diff algebra_simps)
  qed
  then show "tain_ok (tain_minus a b)"
    and "tain_val (tain_minus a b) = (tain_val a - tain_val b) mod tain_range" by auto
qed

text \<open>
  The contract of a time scale: an order and a difference that are those of the values.
  The respawn governor and the staleness check of connections rest on it.
\<close>

locale time_scale =
  fixes less :: "'t \<Rightarrow> 't \<Rightarrow> bool" and plus :: "'t \<Rightarrow> 't \<Rightarrow> 't" and minus :: "'t \<Rightarrow> 't \<Rightarrow> 't"
    and val :: "'t \<Rightarrow> int" and ok :: "'t \<Rightarrow> bool" and range :: int
  assumes less_val: "ok a \<Longrightarrow> ok b \<Longrightarrow> less a b \<longleftrightarrow> val a < val b"
    and plus_ok: "ok a \<Longrightarrow> ok b \<Longrightarrow> ok (plus a b)"
    and minus_ok: "ok a \<Longrightarrow> ok b \<Longrightarrow> ok (minus a b)"
    and plus_val: "ok a \<Longrightarrow> ok b \<Longrightarrow> val (plus a b) = (val a + val b) mod range"
    and minus_val: "ok a \<Longrightarrow> ok b \<Longrightarrow> val (minus a b) = (val a - val b) mod range"
    and val_bounds: "ok a \<Longrightarrow> 0 \<le> val a \<and> val a < range"
begin

lemma minus_exact: "ok a \<Longrightarrow> ok b \<Longrightarrow> \<not> less a b \<Longrightarrow> val (minus a b) = val a - val b"
  using val_bounds [of a] val_bounds [of b] by (simp add: minus_val less_val)

lemma plus_exact: "ok a \<Longrightarrow> ok b \<Longrightarrow> val a + val b < range \<Longrightarrow> val (plus a b) = val a + val b"
  using val_bounds [of a] val_bounds [of b] by (simp add: plus_val)

text \<open>More than \<open>d\<close> has passed from \<open>s\<close> to \<open>n\<close>.\<close>

lemma elapsed_more:
  assumes "ok s" "ok n" "ok d" "less s n"
  shows "less d (minus n s) \<longleftrightarrow> val s + val d < val n"
proof -
  have "val (minus n s) = val n - val s"
    using assms by (intro minus_exact) (auto simp: less_val)
  then show ?thesis using assms by (simp add: less_val minus_ok) linarith
qed

text \<open>Waiting out the difference reaches exactly the later stamp.\<close>

lemma wait_reaches:
  assumes "ok now" "ok w" "less now w"
  shows "val (plus now (minus w now)) = val w"
proof -
  have "val (minus w now) = val w - val now"
    using assms by (intro minus_exact) (auto simp: less_val)
  then show ?thesis
    using assms val_bounds [of w] by (simp add: plus_val minus_ok)
qed

end

interpretation tain: time_scale tain_less tain_plus tain_minus tain_val tain_ok tain_range
  by unfold_locales
    (auto simp: tain_less_val tain_plus_val tain_minus_val dest: tain_val_bounds)

section \<open>External formats\<close>

lemma tain_tai_pack_be: "tain_tai_pack t = rev (le_bytes 8 (sec t))"
  by (simp add: tain_tai_pack_def Let_def eval_nat_numeral)

lemma tain_pack_be: "tain_pack t = rev (le_bytes 8 (sec t)) @ rev (le_bytes 4 (nsec t))"
  by (simp add: tain_pack_def tain_tai_pack_be Let_def eval_nat_numeral)

lemma tain_tai_unpack_be:
  "length bs = 8 \<Longrightarrow> tain_tai_unpack t (rev bs @ rest) = Some (Tain (le_word bs) (nsec t))"
  by (auto simp: tain_tai_unpack_def Let_def eval_nat_numeral length_Suc_conv)

lemma tain_unpack_be:
  assumes "length bs = 8" "length ns = 4"
  shows "tain_unpack t (rev bs @ rev ns @ rest) = Some (Tain (le_word bs) (le_word ns))"
proof -
  obtain b0 b1 b2 b3 b4 b5 b6 b7 where bs: "bs = [b0, b1, b2, b3, b4, b5, b6, b7]"
    using assms(1) by (auto simp: eval_nat_numeral length_Suc_conv)
  obtain n0 n1 n2 n3 where ns: "ns = [n0, n1, n2, n3]"
    using assms(2) by (auto simp: eval_nat_numeral length_Suc_conv)
  have "rd (rev bs @ rev ns @ rest) 8 = Some n3" "rd (rev bs @ rev ns @ rest) 9 = Some n2"
    "rd (rev bs @ rev ns @ rest) 10 = Some n1" "rd (rev bs @ rev ns @ rest) 11 = Some n0"
    by (simp_all add: bs ns rd_def nth_append)
  then show ?thesis
    using tain_tai_unpack_be [OF assms(1), of t "rev ns @ rest"]
    by (simp add: tain_unpack_def ns Let_def)
qed

interpretation tain_label: fixed_codec tain_pack "tain_unpack t0" 12 "\<lambda>_. True"
  for t0
proof
  show "length (tain_pack v) = 12" for v by (simp add: tain_pack_be)
  show "tain_unpack t0 (tain_pack v @ rest) = Some v" for v rest
    using tain_unpack_be [of "le_bytes 8 (sec v)" "le_bytes 4 (nsec v)" t0 rest]
    by (simp add: tain_pack_be le_word_le_bytes)
  show "\<exists>v. True \<and> tain_pack v = bs" if "length bs = 12" for bs
  proof -
    let ?v = "Tain (le_word (rev (take 8 bs))) (le_word (rev (drop 8 bs)))"
    have "le_bytes (length (rev (take 8 bs))) (le_word (rev (take 8 bs)) :: u64) = rev (take 8 bs)"
      and "le_bytes (length (rev (drop 8 bs))) (le_word (rev (drop 8 bs)) :: u32) = rev (drop 8 bs)"
      using that by (intro le_bytes_le_word; simp)+
    then have "tain_pack ?v = bs" using that by (simp add: tain_pack_be)
    then show ?thesis by blast
  qed
  show "tain_unpack t0 b = None" if "length b < 12" for b
  proof -
    have "rd b 11 = None" using that by simp
    then show ?thesis by (simp add: tain_unpack_def Option.bind_eq_None_conv)
  qed
qed

lemma tain_unpackhex_byte_take:
  "i < n \<Longrightarrow> take (Suc n) s = take (Suc n) s' \<Longrightarrow> tain_unpackhex_byte s i = tain_unpackhex_byte s' i"
proof -
  assume i: "i < n" and eq: "take (Suc n) s = take (Suc n) s'"
  have rd_eq: "rd s j = rd s' j" if "j < Suc n" for j
  proof -
    have "rd (take (Suc n) s) j = rd (take (Suc n) s') j" by (simp add: eq)
    then show ?thesis using that by (simp add: rd_def split: if_splits)
  qed
  show ?thesis using i by (simp add: tain_unpackhex_byte_def rd_eq)
qed

lemma tain_unpackhex_loop_take:
  "\<forall>i \<in> set is. i < n \<Longrightarrow> take (Suc n) s = take (Suc n) s' \<Longrightarrow>
   tain_unpackhex_loop s is acc = tain_unpackhex_loop s' is acc"
proof (induction "is" arbitrary: acc)
  case (Cons i "is")
  then have "tain_unpackhex_byte s i = tain_unpackhex_byte s' i"
    by (auto intro: tain_unpackhex_byte_take)
  with Cons show ?case by simp
qed simp

lemma tain_now_ok:
  assumes "usec < 1000000"
  shows "tain_ok (tain_now (s, usec))"
proof -
  have u: "uint usec < 1000000" using assms by (simp add: word_less_def)
  then have "uint (1000 * usec + 500) = 1000 * uint usec + 500"
    by (simp add: uint_word_ariths)
  then have "uint (ucast (1000 * usec + 500) :: u32) = 1000 * uint usec + 500"
    using u by (simp add: uint_up_ucast unsigned_ucast_eq take_bit_int_eq_self)
  then show ?thesis
    using u by (simp add: tain_ok_def tain_now_def tain_load_utc_def word_less_def)
qed

section \<open>Properties\<close>

text \<open>C36: on normal stamps, addition and subtraction are arithmetic on nanoseconds modulo the
  range of the type, give normal stamps again, and subtracting what was added gives the stamp
  back, even when the seconds wrap; and one stamp is less than another exactly if it counts fewer nanoseconds.\<close>

theorem tain_arith:
  assumes "tain_ok a" and "tain_ok b"
  shows "tain_ok (tain_plus a b) \<and> tain_ok (tain_minus a b) \<and>
    tain_val (tain_plus a b) = (tain_val a + tain_val b) mod tain_range \<and>
    tain_val (tain_minus a b) = (tain_val a - tain_val b) mod tain_range \<and>
    tain_minus (tain_plus a b) b = a \<and>
    (tain_less a b \<longleftrightarrow> tain_val a < tain_val b)"
proof -
  have "tain_val (tain_minus (tain_plus a b) b) = tain_val a mod tain_range"
    using assms by (simp add: tain.minus_val tain.plus_val tain.plus_ok mod_diff_left_eq)
  then have "tain_minus (tain_plus a b) b = a"
    using assms tain_val_bounds [OF assms(1)]
    by (intro tain_val_inj) (auto simp: tain.minus_ok tain.plus_ok)
  with assms show ?thesis by (simp add: tain.minus_val tain.plus_val tain.plus_ok tain.minus_ok tain.less_val)
qed

theorem tain_arith_witness:
  "tain_ok (Tain 5 900000000) \<and> tain_ok (Tain 18446744073709551615 200000000) \<and>
   tain_plus (Tain 5 900000000) (Tain 18446744073709551615 200000000) = Tain 5 100000000 \<and>
   tain_minus (Tain 5 100000000) (Tain 18446744073709551615 200000000) = Tain 5 900000000 \<and>
   tain_val (Tain 5 900000000) < tain_val (Tain 18446744073709551615 200000000)"
proof -
  have ok: "tain_ok (Tain 5 900000000)" "tain_ok (Tain 18446744073709551615 200000000)"
    by (simp_all add: tain_ok_def)
  have p: "tain_plus (Tain 5 900000000) (Tain 18446744073709551615 200000000) = Tain 5 100000000"
    by (simp add: tain_plus_def)
  have l: "tain_less (Tain 5 900000000) (Tain 18446744073709551615 200000000)" by (simp add: tain_less_def)
  show ?thesis using tain_arith [OF ok] ok p l by simp
qed

text \<open>The uptime of two normal stamps is their distance in seconds, whichever comes first,
  with fractions above one half rounded up.\<close>

theorem tain_uptime_rounds:
  assumes "tain_ok now" and "tain_ok since"
  shows "uint (tain_uptime now since) =
    ((\<bar>tain_val now - tain_val since\<bar> + 499999999) div 1000000000) mod 2 ^ 64"
proof -
  define temp where
    "temp = (if tain_less since now then tain_minus now since else tain_minus since now)"
  have ok: "tain_ok temp" and v: "tain_val temp = \<bar>tain_val now - tain_val since\<bar>"
    using assms tain.minus_exact [of now since] tain.minus_exact [of since now]
    by (auto simp: temp_def tain.minus_ok tain.less_val)
  have up: "uint (tain_uptime now since) =
      (uint (sec temp) + (if uint (nsec temp) > 500000000 then 1 else 0)) mod 2 ^ 64"
    using uint_bounded [of "sec temp"]
    by (simp add: tain_uptime_def temp_def [symmetric] Let_def word_less_def uint_word_ariths)
  have "\<bar>tain_val now - tain_val since\<bar> + 499999999 =
      uint (sec temp) * 1000000000 + (uint (nsec temp) + 499999999)"
    using v by (simp add: tain_val_def [of temp])
  then have "(\<bar>tain_val now - tain_val since\<bar> + 499999999) div 1000000000 =
      uint (sec temp) + (uint (nsec temp) + 499999999) div 1000000000"
    by simp
  moreover have "(uint (nsec temp) + 499999999) div 1000000000 =
      (if uint (nsec temp) > 500000000 then 1 else 0)"
    using tain_ok_bounds [OF ok] by auto
  ultimately show ?thesis by (simp add: up)
qed

theorem tain_uptime_rounds_witness:
  "tain_ok (Tain 10 0) \<and> tain_ok (Tain 17 500000001) \<and>
   tain_uptime (Tain 10 0) (Tain 17 500000001) = 8 \<and>
   uint (tain_uptime (Tain 10 0) (Tain 17 500000001)) =
     ((\<bar>tain_val (Tain 10 0) - tain_val (Tain 17 500000001)\<bar> + 499999999) div 1000000000) mod 2 ^ 64"
proof -
  have ok: "tain_ok (Tain 10 0)" "tain_ok (Tain 17 500000001)" by (simp_all add: tain_ok_def)
  have "tain_uptime (Tain 10 0) (Tain 17 500000001) = 8"
    by (simp add: tain_uptime_def tain_less_def tain_minus_def)
  then show ?thesis using tain_uptime_rounds [OF ok] ok by simp
qed

text \<open>A label packed by \<open>tain_pack\<close> is 12 bytes long and unpacks to the same stamp,
  and every 12 bytes are the label of exactly one stamp.\<close>

theorem tain_pack_roundtrip:
  "length (tain_pack t) = TAIN_PACK_SIZE \<and> tain_unpack t0 (tain_pack t @ rest) = Some t \<and>
   (length bs = TAIN_PACK_SIZE \<longrightarrow> (\<exists>!t. tain_pack t = bs))"
  using tain_label.pack_length tain_label.unpack_pack tain_label.pack_inj tain_label.unpack_surj
  unfolding TAIN_PACK_SIZE_def by blast

theorem tain_pack_roundtrip_witness:
  "length (replicate 12 (7 :: u8)) = TAIN_PACK_SIZE \<and> (\<exists>!t. tain_pack t = replicate 12 7)"
  using tain_pack_roundtrip [of undefined undefined undefined "replicate 12 7"]
  by (simp add: TAIN_PACK_SIZE_def)

text \<open>The hexadecimal decoder reads only the first 13 characters of its 24-character
  input (it steps through the digits by one where a byte takes two), so it is not the inverse of
  \<open>tain_packhex\<close>: the stamp of 1 second and 1 nanosecond comes back as zero.\<close>

theorem tain_unpackhex_not_inverse:
  "(take 13 s = take 13 s' \<longrightarrow> tain_unpackhex t s = tain_unpackhex t s') \<and>
   tain_unpackhex t (tain_packhex (Tain 1 1)) = Some (Tain 0 0)"
proof
  show "take 13 s = take 13 s' \<longrightarrow> tain_unpackhex t s = tain_unpackhex t s'"
  proof
    assume eq: "take 13 s = take 13 s'"
    have "tain_unpackhex_loop s [0..<12] [] = tain_unpackhex_loop s' [0..<12] []"
      using eq by (intro tain_unpackhex_loop_take [where n = 12]) auto
    then show "tain_unpackhex t s = tain_unpackhex t s'"
      by (simp add: tain_unpackhex_def TAIN_PACK_SIZE_def)
  qed
  have "tain_unpackhex_loop (tain_packhex (Tain 1 1)) [0..<TAIN_PACK_SIZE] [] =
      Some (replicate 12 0)"
    by code_simp
  moreover have "tain_unpack t (replicate 12 0) = Some (Tain 0 0)"
    by (simp add: tain_unpack_def tain_tai_unpack_def Let_def)
  ultimately show "tain_unpackhex t (tain_packhex (Tain 1 1)) = Some (Tain 0 0)"
    by (simp add: tain_unpackhex_def)
qed

theorem tain_unpackhex_not_inverse_witness:
  "take 13 (tain_packhex (Tain 0 5)) = take 13 (tain_packhex (Tain 0 6)) \<and>
   tain_unpackhex (Tain 0 0) (tain_packhex (Tain 0 5)) = tain_unpackhex (Tain 0 0) (tain_packhex (Tain 0 6))"
proof -
  have "take 13 (tain_packhex (Tain 0 5)) = take 13 (tain_packhex (Tain 0 6))"
    by code_simp
  then show ?thesis using tain_unpackhex_not_inverse by blast
qed

end
