(* ===== verification/Nfmt.thy ===== *)
theory Nfmt
  imports Perp_Prelude
begin

text \<open>
  Numbers to text and back: \<open>src/lasagna/nfmt\<close> (decimal, octal and hexadecimal formatting,
  plain and padded) and \<open>src/lasagna/nuscan\<close> (scanning).  The functions whose names end
  in an underscore in the source, which do not terminate the string and accept a NULL buffer,
  have the suffix \<open>_raw\<close>.  A buffer argument is an object and an index; the digits are stored
  from the end backwards, and a store before the start of the object is a fault.
\<close>

section \<open>Definitions\<close>

text \<open>\<open>while (q > b - 1) { ++len; q /= b; }\<close> for the bases 10 and 8.\<close>

function nfmt_len :: "'a::len word \<Rightarrow> 'a word \<Rightarrow> nat \<Rightarrow> nat" where
  "nfmt_len b q len =
     (if b > 1 \<and> q > b - 1 then nfmt_len b (q div b) (len + 1) else len)"
  by pat_completeness auto
termination
proof (relation "measure (\<lambda>(b, q, len). unat q)")
  fix b q :: "'a word" and len :: nat
  assume a: "1 < b \<and> b - 1 < q"
  then have "0 < unat q" by (metis unat_gt_0 word_not_simps(1))
  moreover have "1 < unat b" using a by (metis unat_1 word_less_nat_alt)
  ultimately show "((b, q div b, len + 1), b, q, len) \<in> measure (\<lambda>(b, q, len). unat q)"
    by (simp add: unat_div)
qed simp

text \<open>\<open>do { *--s = '0' + (n % b); n /= b; } while(n);\<close>, with \<open>s\<close> at index \<open>p\<close>.\<close>

function nfmt_put :: "'a::len word \<Rightarrow> buffer \<Rightarrow> nat \<Rightarrow> 'a word \<Rightarrow> buffer option" where
  "nfmt_put b s p n =
     (if p = 0 then None
      else do {
        s \<leftarrow> wr s (p - 1) (48 + ucast (n mod b));
        let n = n div b;
        if n \<noteq> 0 then nfmt_put b s (p - 1) n else Some s })"
  by pat_completeness auto
termination
  by (relation "measure (\<lambda>(b, s, p, n). p)") auto

declare nfmt_len.simps [simp del] nfmt_put.simps [simp del]

text \<open>The common text of \<open>nfmt_uint32_\<close>, \<open>nfmt_uint64_\<close> and \<open>nfmt_uint32o_\<close>.\<close>

definition nfmt_raw :: "'a::len word \<Rightarrow> buffer option \<Rightarrow> nat \<Rightarrow> 'a word \<Rightarrow> (buffer option \<times> nat) option" where
  "nfmt_raw b s i n =
     (let len = nfmt_len b n 1
      in case s of
           None \<Rightarrow> Some (None, len)
         | Some s \<Rightarrow> do { s \<leftarrow> nfmt_put b s (i + len) n; Some (Some s, len) })"

definition nfmt_uint32_raw :: "buffer option \<Rightarrow> nat \<Rightarrow> u32 \<Rightarrow> (buffer option \<times> nat) option" where
  "nfmt_uint32_raw s i n = nfmt_raw 10 s i n"

definition nfmt_uint64_raw :: "buffer option \<Rightarrow> nat \<Rightarrow> u64 \<Rightarrow> (buffer option \<times> nat) option" where
  "nfmt_uint64_raw s i n = nfmt_raw 10 s i n"

definition nfmt_uint32o_raw :: "buffer option \<Rightarrow> nat \<Rightarrow> u32 \<Rightarrow> (buffer option \<times> nat) option" where
  "nfmt_uint32o_raw s i n = nfmt_raw 8 s i n"

text \<open>Hexadecimal: the length loop tests \<open>q > 16\<close>.\<close>

definition NFMT_HEXIFY :: "u32 \<Rightarrow> u8" where
  "NFMT_HEXIFY x = (if x < 10 then ucast (x + 48) else ucast (x - 10 + 97))"

lemma unat_drop_bit_4: "unat (drop_bit 4 (q :: u32)) = unat q div 16"
  by (simp add: drop_bit_eq_div unat_div)

function nfmt_lenx :: "u32 \<Rightarrow> nat \<Rightarrow> nat" where
  "nfmt_lenx q len = (if q > 16 then nfmt_lenx (drop_bit 4 q) (len + 1) else len)"
  by pat_completeness auto
termination
proof (relation "measure (\<lambda>(q, len). unat q)")
  fix q :: u32 and len :: nat
  assume "q > 16"
  then have "16 < unat q" by (simp add: word_less_nat_alt)
  then show "((drop_bit 4 q, len + 1), q, len) \<in> measure (\<lambda>(q, len). unat q)"
    by (simp add: unat_drop_bit_4)
qed simp

function nfmt_putx :: "buffer \<Rightarrow> nat \<Rightarrow> u32 \<Rightarrow> buffer option" where
  "nfmt_putx s p n =
     (if p = 0 then None
      else do {
        s \<leftarrow> wr s (p - 1) (NFMT_HEXIFY (n AND 15));
        let n = drop_bit 4 n;
        if n \<noteq> 0 then nfmt_putx s (p - 1) n else Some s })"
  by pat_completeness auto
termination
  by (relation "measure (\<lambda>(s, p, n). p)") auto

declare nfmt_lenx.simps [simp del] nfmt_putx.simps [simp del]

definition nfmt_uint32x_raw :: "buffer option \<Rightarrow> nat \<Rightarrow> u32 \<Rightarrow> (buffer option \<times> nat) option" where
  "nfmt_uint32x_raw s i n =
     (let len = nfmt_lenx n 1
      in case s of
           None \<Rightarrow> Some (None, len)
         | Some s \<Rightarrow> do { s \<leftarrow> nfmt_putx s (i + len) n; Some (Some s, len) })"

text \<open>\<open>s[raw(s, n)] = 0;\<close>, shared by the terminating variants.\<close>

definition nfmt_nul ::
  "(buffer option \<Rightarrow> nat \<Rightarrow> 'n \<Rightarrow> (buffer option \<times> nat) option) \<Rightarrow> buffer \<Rightarrow> nat \<Rightarrow> 'n \<Rightarrow> buffer option" where
  "nfmt_nul raw s i n = do {
     (s, len) \<leftarrow> raw (Some s) i n;
     s \<leftarrow> s;
     wr s (i + len) 0 }"

definition nfmt_uint32 :: "buffer \<Rightarrow> nat \<Rightarrow> u32 \<Rightarrow> buffer option" where
  "nfmt_uint32 s i n = nfmt_nul nfmt_uint32_raw s i n"

definition nfmt_uint64 :: "buffer \<Rightarrow> nat \<Rightarrow> u64 \<Rightarrow> buffer option" where
  "nfmt_uint64 s i n = nfmt_nul nfmt_uint64_raw s i n"

definition nfmt_uint32o :: "buffer \<Rightarrow> nat \<Rightarrow> u32 \<Rightarrow> buffer option" where
  "nfmt_uint32o s i n = nfmt_nul nfmt_uint32o_raw s i n"

definition nfmt_uint32x :: "buffer \<Rightarrow> nat \<Rightarrow> u32 \<Rightarrow> buffer option" where
  "nfmt_uint32x s i n = nfmt_nul nfmt_uint32x_raw s i n"

text \<open>\<open>while(len < w){ *s = c; ++s; ++len; }\<close>: the padding loop of the padded variants.\<close>

function nfmt_fill :: "u8 \<Rightarrow> buffer \<Rightarrow> nat \<Rightarrow> nat \<Rightarrow> nat \<Rightarrow> (buffer \<times> nat \<times> nat) option" where
  "nfmt_fill c s i len w =
     (if len < w then do { s \<leftarrow> wr s i c; nfmt_fill c s (i + 1) (len + 1) w }
      else Some (s, i, len))"
  by pat_completeness auto
termination
  by (relation "measure (\<lambda>(c, s, i, len, w). w - len)") auto

declare nfmt_fill.simps [simp del]

definition nfmt_pad ::
  "u8 \<Rightarrow> (buffer option \<Rightarrow> nat \<Rightarrow> 'n \<Rightarrow> (buffer option \<times> nat) option) \<Rightarrow> buffer \<Rightarrow> nat \<Rightarrow> 'n \<Rightarrow> nat \<Rightarrow> buffer option" where
  "nfmt_pad c raw s i n w = do {
     (_, len) \<leftarrow> raw None 0 n;
     (s, i, len) \<leftarrow> nfmt_fill c s i len w;
     nfmt_nul raw s i n }"

text \<open>The variant with underscore: no NUL, NULL buffer accepted, the length is returned.\<close>

definition nfmt_pad_raw ::
  "u8 \<Rightarrow> (buffer option \<Rightarrow> nat \<Rightarrow> 'n \<Rightarrow> (buffer option \<times> nat) option) \<Rightarrow> buffer option \<Rightarrow> nat \<Rightarrow> 'n \<Rightarrow> nat \<Rightarrow>
   (buffer option \<times> nat) option" where
  "nfmt_pad_raw c raw s i n w = do {
     (_, len) \<leftarrow> raw None 0 n;
     case s of
       None \<Rightarrow> Some (None, max len w)
     | Some s \<Rightarrow> do {
         (s, i, len) \<leftarrow> nfmt_fill c s i len w;
         (s, _) \<leftarrow> raw (Some s) i n;
         Some (s, len) } }"

definition nfmt_uint32_pad :: "buffer \<Rightarrow> nat \<Rightarrow> u32 \<Rightarrow> nat \<Rightarrow> buffer option" where
  "nfmt_uint32_pad s i n w = nfmt_pad 32 nfmt_uint32_raw s i n w"
definition nfmt_uint32_pad0 :: "buffer \<Rightarrow> nat \<Rightarrow> u32 \<Rightarrow> nat \<Rightarrow> buffer option" where
  "nfmt_uint32_pad0 s i n w = nfmt_pad 48 nfmt_uint32_raw s i n w"
definition nfmt_uint64_pad :: "buffer \<Rightarrow> nat \<Rightarrow> u64 \<Rightarrow> nat \<Rightarrow> buffer option" where
  "nfmt_uint64_pad s i n w = nfmt_pad 32 nfmt_uint64_raw s i n w"
definition nfmt_uint64_pad0 :: "buffer \<Rightarrow> nat \<Rightarrow> u64 \<Rightarrow> nat \<Rightarrow> buffer option" where
  "nfmt_uint64_pad0 s i n w = nfmt_pad 48 nfmt_uint64_raw s i n w"
definition nfmt_uint32o_pad0 :: "buffer \<Rightarrow> nat \<Rightarrow> u32 \<Rightarrow> nat \<Rightarrow> buffer option" where
  "nfmt_uint32o_pad0 s i n w = nfmt_pad 48 nfmt_uint32o_raw s i n w"
definition nfmt_uint32x_pad :: "buffer \<Rightarrow> nat \<Rightarrow> u32 \<Rightarrow> nat \<Rightarrow> buffer option" where
  "nfmt_uint32x_pad s i n w = nfmt_pad 32 nfmt_uint32x_raw s i n w"
definition nfmt_uint32x_pad0 :: "buffer \<Rightarrow> nat \<Rightarrow> u32 \<Rightarrow> nat \<Rightarrow> buffer option" where
  "nfmt_uint32x_pad0 s i n w = nfmt_pad 48 nfmt_uint32x_raw s i n w"
definition nfmt_uint32_pad_raw :: "buffer option \<Rightarrow> nat \<Rightarrow> u32 \<Rightarrow> nat \<Rightarrow> (buffer option \<times> nat) option" where
  "nfmt_uint32_pad_raw s i n w = nfmt_pad_raw 32 nfmt_uint32_raw s i n w"
definition nfmt_uint32_pad0_raw :: "buffer option \<Rightarrow> nat \<Rightarrow> u32 \<Rightarrow> nat \<Rightarrow> (buffer option \<times> nat) option" where
  "nfmt_uint32_pad0_raw s i n w = nfmt_pad_raw 48 nfmt_uint32_raw s i n w"
definition nfmt_uint64_pad_raw :: "buffer option \<Rightarrow> nat \<Rightarrow> u64 \<Rightarrow> nat \<Rightarrow> (buffer option \<times> nat) option" where
  "nfmt_uint64_pad_raw s i n w = nfmt_pad_raw 32 nfmt_uint64_raw s i n w"
definition nfmt_uint64_pad0_raw :: "buffer option \<Rightarrow> nat \<Rightarrow> u64 \<Rightarrow> nat \<Rightarrow> (buffer option \<times> nat) option" where
  "nfmt_uint64_pad0_raw s i n w = nfmt_pad_raw 48 nfmt_uint64_raw s i n w"
definition nfmt_uint32o_pad0_raw :: "buffer option \<Rightarrow> nat \<Rightarrow> u32 \<Rightarrow> nat \<Rightarrow> (buffer option \<times> nat) option" where
  "nfmt_uint32o_pad0_raw s i n w = nfmt_pad_raw 48 nfmt_uint32o_raw s i n w"
definition nfmt_uint32x_pad_raw :: "buffer option \<Rightarrow> nat \<Rightarrow> u32 \<Rightarrow> nat \<Rightarrow> (buffer option \<times> nat) option" where
  "nfmt_uint32x_pad_raw s i n w = nfmt_pad_raw 32 nfmt_uint32x_raw s i n w"
definition nfmt_uint32x_pad0_raw :: "buffer option \<Rightarrow> nat \<Rightarrow> u32 \<Rightarrow> nat \<Rightarrow> (buffer option \<times> nat) option" where
  "nfmt_uint32x_pad0_raw s i n w = nfmt_pad_raw 48 nfmt_uint32x_raw s i n w"

text \<open>
  The scanning loop of \<open>nuscan_uint32\<close> and \<open>nuscan_uint32o\<close>, which differ in the base.  The
  digit value is \<open>*s - '0'\<close> of a signed \<open>char\<close> converted to \<open>uint32_t\<close>.
\<close>

function nuscan_loop :: "u32 \<Rightarrow> buffer \<Rightarrow> nat \<Rightarrow> u32 \<Rightarrow> (u32 \<times> nat) option" where
  "nuscan_loop base b s r = do {
     c \<leftarrow> rd b s;
     let n = (scast c :: u32) - 48;
     if n < base then
       (let n = r * base + n
        in if n < r then Some (r, s) else nuscan_loop base b (s + 1) n)
     else Some (r, s) }"
  by pat_completeness auto
termination
  by (relation "measure (\<lambda>(base, b, s, r). length b - s)") (auto simp: mem_simps)

declare nuscan_loop.simps [simp del]

definition nuscan_uint32 :: "buffer \<Rightarrow> nat \<Rightarrow> (u32 \<times> nat) option" where
  "nuscan_uint32 b s = nuscan_loop 10 b s 0"

definition nuscan_uint32o :: "buffer \<Rightarrow> nat \<Rightarrow> (u32 \<times> nat) option" where
  "nuscan_uint32o b s = nuscan_loop 8 b s 0"

text \<open>The digits of a number in base \<open>b\<close>, and the value of a list of digits.\<close>

function digits :: "nat \<Rightarrow> nat \<Rightarrow> nat list" where
  "digits b n = (if n < b \<or> b < 2 then [n] else digits b (n div b) @ [n mod b])"
  by pat_completeness auto
termination
  by (relation "measure (\<lambda>(b, n). n)") auto

declare digits.simps [simp del]

definition digits_val :: "nat \<Rightarrow> nat list \<Rightarrow> nat" where
  "digits_val b ds = foldl (\<lambda>v d. v * b + d) 0 ds"

text \<open>The text of a digit list: the bytes \<open>'0' + d\<close>.\<close>

definition digit_text :: "nat list \<Rightarrow> u8 list" where
  "digit_text ds = map (\<lambda>d. 48 + word_of_nat d) ds"

definition hex_text :: "nat list \<Rightarrow> u8 list" where
  "hex_text ds = map (\<lambda>d. NFMT_HEXIFY (word_of_nat d)) ds"

text \<open>Whether the hexadecimal numeral begins with the digits one and zero.\<close>

definition lead_10 :: "nat list \<Rightarrow> nat" where
  "lead_10 ds = (if take 2 ds = [1, 0] then 1 else 0)"

section \<open>Digits\<close>

lemma digits_small: "2 \<le> b \<Longrightarrow> d \<in> set (digits b n) \<Longrightarrow> d < b"
proof (induction b n rule: digits.induct)
  case (1 b n)
  then show ?case by (cases "n < b") (auto simp: digits.simps [of b n])
qed

lemma digits_nonempty [simp]: "digits b n \<noteq> []"
  by (subst digits.simps) simp

lemma digits_val_snoc [simp]: "digits_val b (ds @ [d]) = digits_val b ds * b + d"
  by (simp add: digits_val_def)

lemma digits_val_digits: "2 \<le> b \<Longrightarrow> digits_val b (digits b n) = n"
proof (induction b n rule: digits.induct)
  case (1 b n)
  show ?case
  proof (cases "n < b")
    case True
    then show ?thesis by (simp add: digits.simps [of b n] digits_val_def)
  next
    case False
    with 1 show ?thesis by (simp add: digits.simps [of b n])
  qed
qed

lemma length_digit_text [simp]: "length (digit_text ds) = length ds"
  by (simp add: digit_text_def)

lemma nfmt_len_digits:
  assumes "2 \<le> unat b"
  shows "nfmt_len b q len = len + length (digits (unat b) (unat q)) - 1"
  using assms
proof (induction b q len rule: nfmt_len.induct)
  case (1 b q len)
  have b1: "1 < b" using 1(2) by (metis One_nat_def less_eq_Suc_le numeral_2_eq_2 unat_1 word_less_nat_alt)
  have ub: "unat (b - 1) = unat b - 1"
    using b1 by (intro unat_minus_one) auto
  show ?case
  proof (cases "q > b - 1")
    case True
    then have n: "\<not> unat q < unat b" using ub by (simp add: word_less_nat_alt)
    have "digits (unat b) (unat q) = digits (unat b) (unat q div unat b) @ [unat q mod unat b]"
      using n 1(2) by (subst digits.simps) simp
    moreover have "nfmt_len b q len = nfmt_len b (q div b) (len + 1)"
      using True b1 by (subst nfmt_len.simps) simp
    moreover have "length (digits (unat b) (unat q div unat b)) > 0" by simp
    ultimately show ?thesis using 1 True b1 by (simp add: unat_div)
  next
    case False
    then have n: "unat q < unat b" using ub 1(2) by (simp add: word_less_nat_alt)
    then have "digits (unat b) (unat q) = [unat q]" by (subst digits.simps) simp
    moreover have "nfmt_len b q len = len" using False by (subst nfmt_len.simps) simp
    ultimately show ?thesis by simp
  qed
qed

lemma ucast_mod_digit: "ucast (n mod b :: 'a::len word) = (word_of_nat (unat n mod unat b) :: u8)"
  by (simp add: of_nat_unat flip: unat_mod)

text \<open>The digits fill the bytes just before index \<open>p\<close>; with too little room the stores run off
  the start of the object.\<close>

lemma nfmt_put_digits:
  fixes n :: "'a::len word"
  assumes "2 \<le> unat b" and "p \<le> length s"
  shows "nfmt_put b s p n =
    (let ds = digits (unat b) (unat n) in
     if length ds \<le> p then Some (take (p - length ds) s @ digit_text ds @ drop p s) else None)"
  using assms
proof (induction p arbitrary: s n)
  case 0
  then show ?case by (subst nfmt_put.simps) (simp add: Let_def)
next
  case (Suc p)
  let ?c = "48 + ucast (n mod b) :: u8"
  have c: "?c = 48 + word_of_nat (unat n mod unat b)" by (simp add: ucast_mod_digit)
  have step: "nfmt_put b s (Suc p) n =
      (if n div b \<noteq> 0 then nfmt_put b (s[p := ?c]) p (n div b) else Some (s[p := ?c]))"
    using Suc.prems by (subst nfmt_put.simps) (simp add: Let_def)
  have z: "n div b = 0 \<longleftrightarrow> unat n < unat b"
    using Suc.prems by (simp add: unat_eq_zero [symmetric] unat_div div_eq_0_iff)
  have up: "s[p := ?c] = take p s @ ?c # drop (Suc p) s"
    using Suc.prems by (simp add: upd_conv_take_nth_drop)
  show ?case
  proof (cases "unat n < unat b")
    case True
    then have "digits (unat b) (unat n) = [unat n]" by (subst digits.simps) simp
    with True step z up c show ?thesis by (simp add: digit_text_def)
  next
    case False
    have ds: "digits (unat b) (unat n) = digits (unat b) (unat (n div b)) @ [unat n mod unat b]"
      using False Suc.prems by (subst digits.simps) (simp add: unat_div)
    have "nfmt_put b (s[p := ?c]) p (n div b) =
        (let ds = digits (unat b) (unat (n div b)) in
         if length ds \<le> p then Some (take (p - length ds) (s[p := ?c]) @ digit_text ds @ drop p (s[p := ?c]))
         else None)"
      using Suc.prems by (intro Suc.IH) auto
    with False z ds step up c Suc.prems show ?thesis
      by (auto simp: Let_def digit_text_def)
  qed
qed


text \<open>All terminating variants in a base up to ten write the digits and a NUL.\<close>

lemma nfmt_nul_digits:
  fixes n :: "'a::len word"
  assumes "2 \<le> unat b" and "i + length (digits (unat b) (unat n)) < length s"
  shows "nfmt_nul (nfmt_raw b) s i n =
    (let ds = digits (unat b) (unat n) in
     Some (take i s @ digit_text ds @ 0 # drop (i + length ds + 1) s))"
proof -
  let ?ds = "digits (unat b) (unat n)"
  have len: "nfmt_len b n 1 = length ?ds"
    using assms(1) by (simp add: nfmt_len_digits)
  have put: "nfmt_put b s (i + length ?ds) n = Some (take i s @ digit_text ?ds @ drop (i + length ?ds) s)"
    using assms by (subst nfmt_put_digits) (auto simp: Let_def)
  have dr: "drop (i + length ?ds) s = s ! (i + length ?ds) # drop (i + length ?ds + 1) s"
    using assms(2) Cons_nth_drop_Suc [of "i + length ?ds" s] by simp
  have "(take i s @ digit_text ?ds @ drop (i + length ?ds) s)[i + length ?ds := 0] =
      take i s @ digit_text ?ds @ 0 # drop (i + length ?ds + 1) s"
    unfolding dr using assms(2) by (simp add: list_update_append)
  then show ?thesis
    using assms(2) len put by (simp add: nfmt_nul_def nfmt_raw_def Let_def)
qed

section \<open>Scanning digits\<close>

lemma digit_value:
  assumes "d < 10"
  shows "(scast (48 + word_of_nat d :: u8) :: u32) - 48 = word_of_nat d"
proof -
  have "d \<in> {0, 1, 2, 3, 4, 5, 6, 7, 8, 9}" using assms by auto
  then show ?thesis by auto
qed

lemma digit_not_nul:
  assumes "d < 10"
  shows "(48 + word_of_nat d :: u8) \<noteq> 0"
proof -
  have "d \<in> {0, 1, 2, 3, 4, 5, 6, 7, 8, 9}" using assms by auto
  then show ?thesis by auto
qed

lemma digit_text_not_nul: "\<forall>d \<in> set ds. d < 10 \<Longrightarrow> 0 \<notin> set (digit_text ds)"
  using digit_not_nul by (fastforce simp: digit_text_def)

lemma foldl_digits_mono: "0 < b \<Longrightarrow> v \<le> foldl (\<lambda>v d. v * b + d) v (ds :: nat list)"
proof (induction ds arbitrary: v)
  case (Cons d ds)
  have "v \<le> v * b + d" using Cons.prems by (simp add: trans_le_add1)
  also have "\<dots> \<le> foldl (\<lambda>v d. v * b + d) (v * b + d) ds" using Cons by simp
  finally show ?case by simp
qed simp

text \<open>One step of the loop on a digit whose value still fits.\<close>

lemma nuscan_step:
  assumes "s < length b" and "b ! s = 48 + word_of_nat d" and "d < base" and "base \<le> 10"
    and "v * base + d < 2 ^ 32" and "0 < base"
  shows "nuscan_loop (word_of_nat base) b s (word_of_nat v) =
    nuscan_loop (word_of_nat base) b (s + 1) (word_of_nat (v * base + d))"
proof -
  have dv: "(scast (b ! s) :: u32) - 48 = word_of_nat d"
    using assms digit_value [of d] by simp
  have lt: "(word_of_nat d :: u32) < word_of_nat base"
    using assms by (simp add: word_less_nat_alt unat_of_nat take_bit_nat_eq_self_iff)
  have vle: "v \<le> v * base + d" using assms(6) by (simp add: trans_le_add1)
  have v: "v < 2 ^ 32" using vle assms(5) by (rule le_less_trans)
  have eq: "(word_of_nat v * word_of_nat base + word_of_nat d :: u32) = word_of_nat (v * base + d)"
    by simp
  have "\<not> (word_of_nat (v * base + d) :: u32) < word_of_nat v"
    using v vle assms(5) by (simp add: word_less_nat_alt unat_of_nat take_bit_nat_eq_self_iff del: of_nat_add of_nat_mult)
  then show ?thesis
    by (subst nuscan_loop.simps)
      (simp only: rd_in [OF assms(1)] Option.bind.simps Let_def dv lt eq if_True if_False)
qed

lemma nuscan_digits:
  assumes "take (length ds) (drop s b) = digit_text ds" and "s + length ds < length b"
    and "\<forall>d \<in> set ds. d < base" and "0 < base" and "base \<le> 10"
    and "foldl (\<lambda>v d. v * base + d) v ds < 2 ^ 32"
    and "\<not> (scast (b ! (s + length ds)) :: u32) - 48 < word_of_nat base"
  shows "nuscan_loop (word_of_nat base) b s (word_of_nat v) =
    Some (word_of_nat (foldl (\<lambda>v d. v * base + d) v ds), s + length ds)"
  using assms
proof (induction ds arbitrary: s v)
  case Nil
  then show ?case by (subst nuscan_loop.simps) (simp add: Let_def)
next
  case (Cons d ds)
  have sl: "s < length b" using Cons.prems(2) by simp
  have hd: "b ! s = 48 + word_of_nat d"
    and tl: "take (length ds) (drop (s + 1) b) = digit_text ds"
    using Cons.prems(1) Cons_nth_drop_Suc [OF sl, symmetric] by (simp_all add: digit_text_def)
  have fits: "v * base + d < 2 ^ 32"
    using Cons.prems(4,6) foldl_digits_mono [of base "v * base + d" ds] by simp
  have "nuscan_loop (word_of_nat base) b s (word_of_nat v) =
      nuscan_loop (word_of_nat base) b (s + 1) (word_of_nat (v * base + d))"
    using sl hd fits Cons.prems by (intro nuscan_step) auto
  also have "\<dots> = Some (word_of_nat (foldl (\<lambda>v d. v * base + d) (v * base + d) ds), s + 1 + length ds)"
    using tl Cons.prems by (intro Cons.IH) auto
  finally show ?case by simp
qed


section \<open>Properties\<close>

lemma nul_stops: "base \<le> 10 \<Longrightarrow> \<not> (scast (0 :: u8) :: u32) - 48 < word_of_nat base"
  by (simp add: word_less_nat_alt unat_of_nat take_bit_nat_eq_self_iff)

lemma nfmt_nuscan_base:
  fixes n :: u32
  assumes "2 \<le> base" and "base \<le> 10" and "i + length (digits base (unat n)) < length s"
  shows "\<exists>s'. nfmt_nul (nfmt_raw (word_of_nat base)) s i n = Some s' \<and> length s' = length s \<and>
    cstr_at s' i (digit_text (digits base (unat n))) \<and>
    nuscan_loop (word_of_nat base) s' i 0 = Some (n, i + length (digits base (unat n)))"
proof -
  let ?ds = "digits base (unat n)"
  let ?s = "take i s @ digit_text ?ds @ 0 # drop (i + length ?ds + 1) s"
  have ub: "unat (word_of_nat base :: u32) = base"
    using assms(2) by (simp add: unat_of_nat take_bit_nat_eq_self_iff)
  have small: "\<forall>d \<in> set ?ds. d < base" using digits_small assms(1) by blast
  have len: "length (take i s) = i" using assms(3) by simp
  have fold: "foldl (\<lambda>v d. v * base + d) 0 ?ds = unat n"
    using digits_val_digits [OF assms(1), of "unat n"] by (simp add: digits_val_def)
  have scan: "nuscan_loop (word_of_nat base) ?s i (word_of_nat 0) =
      Some (word_of_nat (foldl (\<lambda>v d. v * base + d) 0 ?ds), i + length ?ds)"
    using assms small len nul_stops [OF assms(2)]
    by (intro nuscan_digits) (auto simp: fold nth_append intro: unsigned_less [of n, simplified])
  have tx: "cstr_at ?s i (digit_text ?ds)"
    using cstr_at_append [of "digit_text ?ds" "take i s"] digit_text_not_nul [of ?ds] small assms(2) len
    by fastforce
  have fmt: "nfmt_nul (nfmt_raw (word_of_nat base :: u32)) s i n = Some ?s"
    using assms ub by (subst nfmt_nul_digits) (auto simp: Let_def)
  show ?thesis
    using fmt scan tx fold assms(3) by (intro exI [of _ ?s]) simp
qed

text \<open>C39: formatting and scanning are inverse.  For every 32-bit value and a buffer with room for
  its digits and a NUL, \<open>nfmt_uint32\<close> leaves the decimal numeral of the value, most significant
  digit first and with no leading zero, as a C string in the buffer, and \<open>nuscan_uint32\<close> reads the
  value back and stops at the NUL; likewise \<open>nfmt_uint32o\<close> and \<open>nuscan_uint32o\<close> in octal.\<close>

theorem nfmt_nuscan_roundtrip:
  assumes "i + length (digits 10 (unat n)) < length s" and "j + length (digits 8 (unat n)) < length t"
  shows "(\<exists>s'. nfmt_uint32 s i n = Some s' \<and> length s' = length s \<and>
      cstr_at s' i (digit_text (digits 10 (unat n))) \<and>
      nuscan_uint32 s' i = Some (n, i + length (digits 10 (unat n)))) \<and>
    (\<exists>t'. nfmt_uint32o t j n = Some t' \<and> length t' = length t \<and>
      cstr_at t' j (digit_text (digits 8 (unat n))) \<and>
      nuscan_uint32o t' j = Some (n, j + length (digits 8 (unat n))))"
proof -
  have raw: "nfmt_uint32_raw = nfmt_raw 10" "nfmt_uint32o_raw = nfmt_raw 8"
    by (rule ext, rule ext, rule ext, simp add: nfmt_uint32_raw_def nfmt_uint32o_raw_def)+
  show ?thesis
    using nfmt_nuscan_base [of 10 i n s] nfmt_nuscan_base [of 8 j n t] assms
    by (simp add: nfmt_uint32_def nfmt_uint32o_def nuscan_uint32_def nuscan_uint32o_def raw)
qed

lemma digits_150: "digits 10 150 = [1, 5, 0]" "digits 8 150 = [2, 2, 6]"
  by (simp_all add: digits.simps)

theorem nfmt_nuscan_roundtrip_witness:
  "\<exists>s'. nfmt_uint32 (replicate 8 0) 2 150 = Some s' \<and> nuscan_uint32 s' 2 = Some (150, 5)"
  using nfmt_nuscan_roundtrip [of 2 150 "replicate 8 0" 2 "replicate 8 0"]
  by (auto simp: digits_150)

text \<open>What \<open>nuscan_uint32\<close> returns on a numeral, and the limit of its overflow test.  On a run of
  decimal digits followed by a byte that is no digit, whose value is below \<open>2^32\<close>, the result is that value and
  the position of the first byte that is not a digit.  Above that range the test \<open>n < r\<close> does not always notice
  the overflow: the numeral \<open>10000000000\<close> is accepted whole, with the value \<open>1410065408\<close>.\<close>

theorem nuscan_uint32_value:
  "(\<forall>b s ds. take (length ds) (drop s b) = digit_text ds \<longrightarrow> s + length ds < length b \<longrightarrow>
      (\<forall>d \<in> set ds. d < 10) \<longrightarrow> digits_val 10 ds < 2 ^ 32 \<longrightarrow>
      \<not> (scast (b ! (s + length ds)) :: u32) - 48 < 10 \<longrightarrow>
      nuscan_uint32 b s = Some (word_of_nat (digits_val 10 ds), s + length ds)) \<and>
   nuscan_uint32 (bytes ''10000000000'' @ [0]) 0 = Some (1410065408, 11)"
proof (intro conjI allI impI)
  fix b :: buffer and s :: nat and ds
  assume "take (length ds) (drop s b) = digit_text ds" "s + length ds < length b" "\<forall>d \<in> set ds. d < 10"
    "digits_val 10 ds < 2 ^ 32" "\<not> (scast (b ! (s + length ds)) :: u32) - 48 < 10"
  then show "nuscan_uint32 b s = Some (word_of_nat (digits_val 10 ds), s + length ds)"
    using nuscan_digits [of ds s b 10 0] by (simp add: nuscan_uint32_def digits_val_def)
next
  show "nuscan_uint32 (bytes ''10000000000'' @ [0]) 0 = Some (1410065408, 11)" by code_simp
qed

theorem nuscan_uint32_value_witness:
  "nuscan_uint32 (bytes ''42;'') 0 = Some (42, 2)"
proof -
  have "nuscan_uint32 (bytes ''42;'') 0 = Some (word_of_nat (digits_val 10 [4, 2]), 0 + length [4, 2::nat])"
    by (rule nuscan_uint32_value [THEN conjunct1, rule_format])
      (auto simp: bytes_def digit_text_def digits_val_def)
  then show ?thesis by (simp add: digits_val_def)
qed


section \<open>Hexadecimal\<close>

lemma nfmt_lenx_digits: "nfmt_lenx q len + lead_10 (digits 16 (unat q)) + 1 = len + length (digits 16 (unat q))"
proof (induction q len rule: nfmt_lenx.induct)
  case (1 q len)
  let ?n = "unat q"
  have gt: "q > 16 \<longleftrightarrow> 16 < ?n" by (simp add: word_less_nat_alt)
  consider "?n < 16" | "?n = 16" | "16 < ?n" "?n div 16 < 16" | "16 < ?n" "16 \<le> ?n div 16" by linarith
  then show ?case
  proof cases
    case 1
    then have "digits 16 ?n = [?n]" by (subst digits.simps) simp
    then show ?thesis using 1 gt by (subst nfmt_lenx.simps) (simp add: lead_10_def)
  next
    case 2
    then have "digits 16 ?n = [1, 0]" by (simp add: digits.simps)
    then show ?thesis using 2 gt by (subst nfmt_lenx.simps) (simp add: lead_10_def)
  next
    case 3
    then have "digits 16 ?n = [?n div 16, ?n mod 16]" by (simp add: digits.simps)
    moreover have "nfmt_lenx (drop_bit 4 q) (len + 1) = len + 1"
      using 3 by (subst nfmt_lenx.simps) (simp add: word_less_nat_alt unat_drop_bit_4)
    moreover have "\<not> (?n div 16 = 1 \<and> ?n mod 16 = 0)"
      using 3 div_mult_mod_eq [of ?n 16] by linarith
    ultimately show ?thesis using 3 gt by (subst nfmt_lenx.simps) (auto simp: lead_10_def)
  next
    case 4
    let ?m = "?n div 16"
    have d: "digits 16 ?n = digits 16 ?m @ [?n mod 16]" using 4 by (subst digits.simps) simp
    have "digits 16 ?m = digits 16 (?m div 16) @ [?m mod 16]" using 4 by (subst digits.simps) simp
    then have "2 \<le> length (digits 16 ?m)"
      by (metis One_nat_def Suc_1 Suc_leI length_append_singleton length_greater_0_conv digits_nonempty not_less_eq_eq)
    then have "lead_10 (digits 16 ?n) = lead_10 (digits 16 ?m)"
      unfolding d by (simp add: lead_10_def)
    then show ?thesis
      using 1 4 gt d by (subst nfmt_lenx.simps) (simp add: unat_drop_bit_4)
  qed
qed

lemma and_15_digit: "(n :: u32) AND 15 = word_of_nat (unat n mod 16)"
proof -
  have "n AND 15 = take_bit 4 n"
    by (simp add: take_bit_eq_mask mask_eq_exp_minus_1)
  also have "\<dots> = n mod 16" by (simp add: take_bit_eq_mod)
  also have "\<dots> = word_of_nat (unat (n mod 16))" by simp
  finally show ?thesis by (simp add: unat_mod)
qed

lemma nfmt_putx_digits:
  assumes "p \<le> length s"
  shows "nfmt_putx s p n =
    (let ds = digits 16 (unat n) in
     if length ds \<le> p then Some (take (p - length ds) s @ hex_text ds @ drop p s) else None)"
  using assms
proof (induction p arbitrary: s n)
  case 0
  then show ?case by (subst nfmt_putx.simps) (simp add: Let_def)
next
  case (Suc p)
  let ?c = "NFMT_HEXIFY (word_of_nat (unat n mod 16))"
  have step: "nfmt_putx s (Suc p) n =
      (if drop_bit 4 n \<noteq> 0 then nfmt_putx (s[p := ?c]) p (drop_bit 4 n) else Some (s[p := ?c]))"
    using Suc.prems by (subst nfmt_putx.simps) (simp add: Let_def and_15_digit)
  have z: "drop_bit 4 n = 0 \<longleftrightarrow> unat n < 16"
    by (simp add: unat_eq_zero [symmetric] unat_drop_bit_4 div_eq_0_iff)
  have up: "s[p := ?c] = take p s @ ?c # drop (Suc p) s"
    using Suc.prems by (simp add: upd_conv_take_nth_drop)
  show ?case
  proof (cases "unat n < 16")
    case True
    then have "digits 16 (unat n) = [unat n]" by (subst digits.simps) simp
    with True step z up show ?thesis by (simp add: hex_text_def)
  next
    case False
    have ds: "digits 16 (unat n) = digits 16 (unat (drop_bit 4 n)) @ [unat n mod 16]"
      using False by (subst digits.simps) (simp add: unat_drop_bit_4)
    have "nfmt_putx (s[p := ?c]) p (drop_bit 4 n) =
        (let ds = digits 16 (unat (drop_bit 4 n)) in
         if length ds \<le> p then Some (take (p - length ds) (s[p := ?c]) @ hex_text ds @ drop p (s[p := ?c]))
         else None)"
      using Suc.prems by (intro Suc.IH) auto
    with False z ds step up Suc.prems show ?thesis
      by (auto simp: Let_def hex_text_def)
  qed
qed

text \<open>\<open>nfmt_uint32x\<close> writes the hexadecimal numeral of its argument and a NUL.  The length loop tests
  \<open>q > 16\<close> where the digit loop needs \<open>q > 15\<close>: for a numeral that begins with the digits \<open>10\<close> (such as
  \<open>0x10\<close> or \<open>0x10ff\<close>) the length is one too small, the text starts one byte \<^emph>\<open>before\<close> the given position
  and at the start of an object this store is out of bounds.  For every other value the text starts at the given position.\<close>

theorem nfmt_uint32x_writes:
  assumes "i + length (digits 16 (unat n)) < length s"
  shows "nfmt_uint32x s i n =
    (let ds = digits 16 (unat n); short = lead_10 ds
     in if i < short then None
        else Some (take (i - short) s @ hex_text ds @ 0 # drop (i - short + length ds + 1) s))"
proof -
  let ?ds = "digits 16 (unat n)" and ?short = "lead_10 (digits 16 (unat n))"
  let ?p = "i + nfmt_lenx n 1"
  have len: "nfmt_lenx n 1 + ?short = length ?ds" using nfmt_lenx_digits [of n 1] by simp
  have le: "length ?ds \<le> ?p \<longleftrightarrow> \<not> i < ?short" using len by linarith
  have put: "nfmt_putx s ?p n =
      (if length ?ds \<le> ?p then Some (take (?p - length ?ds) s @ hex_text ?ds @ drop ?p s) else None)"
    using len assms by (subst nfmt_putx_digits) (auto simp: Let_def)
  show ?thesis
  proof (cases "i < ?short")
    case True
    with put le show ?thesis
      by (simp add: nfmt_uint32x_def nfmt_nul_def nfmt_uint32x_raw_def Let_def)
  next
    case False
    have p: "?p - length ?ds = i - ?short" "?p = i - ?short + length ?ds" using len False by linarith+
    have dr: "drop ?p s = s ! ?p # drop (?p + 1) s"
      using assms len Cons_nth_drop_Suc [of ?p s] by simp
    have "(take (i - ?short) s @ hex_text ?ds @ drop ?p s)[?p := 0] =
        take (i - ?short) s @ hex_text ?ds @ 0 # drop (?p + 1) s"
    proof -
      have "?p = length (take (i - ?short) s @ hex_text ?ds)" using assms p by (simp add: hex_text_def)
      then show ?thesis unfolding dr by (metis append_assoc list_update_length)
    qed
    then show ?thesis
      using False put le p assms len
      by (simp add: nfmt_uint32x_def nfmt_nul_def nfmt_uint32x_raw_def Let_def hex_text_def)
  qed
qed

theorem nfmt_uint32x_writes_witness:
  "nfmt_uint32x (replicate 8 7) 0 0x10 = None \<and>
   nfmt_uint32x (replicate 4 7) 0 0x2f = Some (bytes ''2f'' @ [0, 7])"
proof -
  have d: "digits 16 16 = [1, 0]" "digits 16 47 = [2, 15]" by (simp_all add: digits.simps)
  show ?thesis
    using nfmt_uint32x_writes [of 0 "0x10" "replicate 8 7"] nfmt_uint32x_writes [of 0 "0x2f" "replicate 4 7"]
    by (simp add: d lead_10_def hex_text_def NFMT_HEXIFY_def bytes_def)
qed

end
