(* ===== verification/Sysstr.thy ===== *)
theory Sysstr
  imports Perp_Prelude
begin

text \<open>
  Names of error and signal numbers: \<open>src/lasagna/sysstr\<close>.  The tables are generated when the library is
  built (\<open>mksysstr\<close>), so a table is a parameter: a list of entries sorted by number.  The bounds of the binary
  search are of type \<open>size_t\<close> and are kept as 64-bit words, because the search relies on their subtraction.
\<close>

section \<open>Definitions\<close>

record sysno_def =
  sys_n :: int
  sys_name :: "u8 list option"
  sys_mesg :: "u8 list option"

definition int_compare :: "int \<Rightarrow> int \<Rightarrow> int" where
  "int_compare k1 k2 = (if k1 < k2 then -1 else if k1 = k2 then 0 else 1)"

text \<open>
  The loop of \<open>sysno_lookup\<close>: \<open>Some None\<close> is the NULL result, \<open>None\<close> a read outside the table.
\<close>

partial_function (option) sysno_search ::
  "sysno_def list \<Rightarrow> int \<Rightarrow> u64 \<Rightarrow> u64 \<Rightarrow> sysno_def option option" where
  "sysno_search defs key low high =
     (if low \<le> high then do {
        let mid = drop_bit 1 (low + high);
        d \<leftarrow> rd defs (unat mid);
        let cmp = int_compare key (sys_n d);
        if cmp < 0 then sysno_search defs key low (mid - 1)
        else if cmp > 0 then sysno_search defs key (mid + 1) high
        else Some (Some d) }
      else Some None)"

definition sysno_lookup :: "sysno_def list \<Rightarrow> int \<Rightarrow> sysno_def option option" where
  "sysno_lookup defs n = sysno_search defs n 0 (word_of_nat (length defs) - 1)"

definition sysstr_errno :: "sysno_def list \<Rightarrow> int \<Rightarrow> u8 list option option" where
  "sysstr_errno errno_defs errno_num = do {
     d \<leftarrow> sysno_lookup errno_defs errno_num;
     Some (case d of Some d \<Rightarrow> sys_name d | None \<Rightarrow> None) }"

definition sysstr_errno_mesg :: "sysno_def list \<Rightarrow> int \<Rightarrow> u8 list option option" where
  "sysstr_errno_mesg errno_defs errno_num = do {
     d \<leftarrow> sysno_lookup errno_defs errno_num;
     Some (case d of Some d \<Rightarrow> sys_mesg d | None \<Rightarrow> None) }"

definition sysstr_signal :: "sysno_def list \<Rightarrow> int \<Rightarrow> u8 list option option" where
  "sysstr_signal signo_defs signo_num = do {
     d \<leftarrow> sysno_lookup signo_defs signo_num;
     Some (case d of Some d \<Rightarrow> sys_name d | None \<Rightarrow> None) }"

definition sysstr_signal_mesg :: "sysno_def list \<Rightarrow> int \<Rightarrow> u8 list option option" where
  "sysstr_signal_mesg signo_defs signo_num = do {
     d \<leftarrow> sysno_lookup signo_defs signo_num;
     Some (case d of Some d \<Rightarrow> sys_mesg d | None \<Rightarrow> None) }"

section \<open>Lemmas\<close>

lemma mid_unat:
  fixes low high :: u64
  assumes "unat low + unat high < 2 ^ 64"
  shows "unat (drop_bit 1 (low + high)) = (unat low + unat high) div 2"
proof -
  have "unat (low + high) = unat low + unat high" using assms by (simp add: unat_word_ariths)
  then show ?thesis by (simp add: drop_bit_eq_div unat_div)
qed

text \<open>
  The search on a window \<open>low .. high\<close> of a sorted table whose entries before the window are smaller and
  after it larger than the key, when an entry at or below the key keeps the lower end from wrapping.
\<close>

lemma sysno_search_spec:
  assumes "sorted (map sys_n defs)" and "length defs < 2 ^ 31"
    and "unat high < length defs" and "unat low \<le> unat high + 1"
    and "\<forall>i < unat low. sys_n (defs ! i) < key" and "\<forall>i < length defs. unat high < i \<longrightarrow> key < sys_n (defs ! i)"
    and "sys_n (defs ! 0) \<le> key"
  shows "\<exists>r. sysno_search defs key low high = Some r \<and>
    (case r of Some d \<Rightarrow> d \<in> set defs \<and> sys_n d = key | None \<Rightarrow> key \<notin> sys_n ` set defs)"
  using assms
proof (induction "unat high + 1 - unat low" arbitrary: low high rule: less_induct)
  case less
  show ?case
  proof (cases "low \<le> high")
    case False
    then have lt: "unat high < unat low" by (simp add: word_le_nat_alt)
    have "sys_n (defs ! i) \<noteq> key" if "i < length defs" for i
      using less.prems(5,6) lt that by (cases "i < unat low") fastforce+
    then have "key \<notin> sys_n ` set defs" by (fastforce simp: in_set_conv_nth)
    with False show ?thesis by (subst sysno_search.simps) simp
  next
    case True
    define mid where "mid = drop_bit 1 (low + high)"
    have le: "unat low \<le> unat high" using True by (simp add: word_le_nat_alt)
    have um: "unat mid = (unat low + unat high) div 2"
      unfolding mid_def using less.prems(2,3) le by (intro mid_unat) simp
    then have bnd: "unat low \<le> unat mid" "unat mid \<le> unat high" "unat mid < length defs"
      using le less.prems(3) by auto
    let ?d = "defs ! unat mid"
    have sorted: "sys_n (defs ! i) \<le> sys_n (defs ! j)" if "i \<le> j" "j < length defs" for i j
      using sorted_nth_mono [OF less.prems(1), of i j] that by simp
    have step: "sysno_search defs key low high =
        (if key < sys_n ?d then sysno_search defs key low (mid - 1)
         else if sys_n ?d < key then sysno_search defs key (mid + 1) high else Some (Some ?d))"
      using True bnd by (subst sysno_search.simps) (simp add: int_compare_def Let_def mid_def)
    consider "key < sys_n ?d" | "sys_n ?d < key" | "sys_n ?d = key" by linarith
    then show ?thesis
    proof cases
      case 1
      have nz: "0 < unat mid" using 1 less.prems(7) by (metis gr0I linorder_not_less)
      then have um1: "unat (mid - 1) = unat mid - 1" by (intro unat_minus_one) auto
      have "\<exists>r. sysno_search defs key low (mid - 1) = Some r \<and>
          (case r of Some d \<Rightarrow> d \<in> set defs \<and> sys_n d = key | None \<Rightarrow> key \<notin> sys_n ` set defs)"
      proof (rule less.hyps)
        show "unat (mid - 1) + 1 - unat low < unat high + 1 - unat low" using um1 nz bnd by simp
        show "\<forall>i < length defs. unat (mid - 1) < i \<longrightarrow> key < sys_n (defs ! i)"
          using um1 nz 1 sorted [of "unat mid"] by (auto intro: less_le_trans)
      qed (use less.prems um1 bnd nz in auto)
      then show ?thesis using step 1 by simp
    next
      case 2
      have um1: "unat (mid + 1) = unat mid + 1"
        using bnd less.prems(2) by (simp add: unat_word_ariths)
      have "\<exists>r. sysno_search defs key (mid + 1) high = Some r \<and>
          (case r of Some d \<Rightarrow> d \<in> set defs \<and> sys_n d = key | None \<Rightarrow> key \<notin> sys_n ` set defs)"
      proof (rule less.hyps)
        show "unat high + 1 - unat (mid + 1) < unat high + 1 - unat low" using um1 bnd by simp
        show "\<forall>i < unat (mid + 1). sys_n (defs ! i) < key"
          using um1 2 sorted [of _ "unat mid"] bnd by (auto simp: less_Suc_eq_le intro: le_less_trans)
      qed (use less.prems um1 bnd in auto)
      then show ?thesis using step 2 by simp
    next
      case 3
      then show ?thesis using step bnd by simp
    qed
  qed
qed

text \<open>A key below the first entry drives \<open>high\<close> through zero.\<close>

lemma sysno_search_wraps:
  assumes "sorted (map sys_n defs)" and "length defs < 2 ^ 31" and "unat high < length defs"
    and "key < sys_n (defs ! 0)"
  shows "sysno_search defs key 0 high = None"
  using assms
proof (induction "unat high" arbitrary: high rule: less_induct)
  case less
  define mid where "mid = drop_bit 1 high"
  have um: "unat mid = unat high div 2"
    unfolding mid_def using mid_unat [of 0 high] less.prems by simp
  have bnd: "unat mid < length defs" using um less.prems by simp
  have "sys_n (defs ! 0) \<le> sys_n (defs ! unat mid)"
    using sorted_nth_mono [OF less.prems(1), of 0 "unat mid"] bnd nth_map [of 0 defs sys_n] by fastforce
  then have lt: "key < sys_n (defs ! unat mid)" using less.prems by simp
  have step: "sysno_search defs key 0 high = sysno_search defs key 0 (mid - 1)"
    using bnd lt by (subst sysno_search.simps) (simp add: int_compare_def Let_def mid_def)
  show ?case
  proof (cases "unat mid = 0")
    case True
    then have m: "mid = 0" by (simp add: unat_eq_zero)
    have "unat (drop_bit 1 (- 1 :: u64)) = 9223372036854775807" by (simp add: mask_eq_exp_minus_1)
    then have "sysno_search defs key 0 (- 1) = None"
      using less.prems by (subst sysno_search.simps) (simp add: Let_def)
    then show ?thesis using step m by simp
  next
    case False
    then have um1: "unat (mid - 1) = unat mid - 1" by (intro unat_minus_one) auto
    have "sysno_search defs key 0 (mid - 1) = None"
      using False um um1 less.prems by (intro less.hyps) auto
    then show ?thesis using step by simp
  qed
qed

section \<open>Properties\<close>

text \<open>C40: \<open>sysno_lookup\<close> on a sorted table of at least one entry.  For a number not below the first entry the binary
  search ends inside the table and answers exactly: an entry with that number if there is one, NULL if there is none.
  For a number below the first entry the unsigned bound \<open>high\<close> wraps around and the search reads outside the table.
  The signal table starts above zero, so \<open>sysstr_signal(0)\<close> is such a call.\<close>

theorem sysno_lookup_correct:
  assumes "sorted (map sys_n defs)" and "0 < length defs" and "length defs < 2 ^ 31"
  shows "if key < sys_n (defs ! 0) then sysno_lookup defs key = None
    else \<exists>r. sysno_lookup defs key = Some r \<and>
      (case r of Some d \<Rightarrow> d \<in> set defs \<and> sys_n d = key | None \<Rightarrow> key \<notin> sys_n ` set defs)"
proof -
  let ?high = "word_of_nat (length defs) - 1 :: u64"
  have "unat (word_of_nat (length defs) :: u64) = length defs"
    using assms by (simp add: unat_of_nat take_bit_nat_eq_self_iff)
  moreover have "(word_of_nat (length defs) :: u64) \<noteq> 0"
    using calculation assms(2) by (metis less_irrefl unat_0)
  ultimately have h: "unat ?high = length defs - 1" by (simp add: unat_minus_one)
  then have last: "\<forall>i < length defs. unat ?high < i \<longrightarrow> key < sys_n (defs ! i)" by auto
  show ?thesis
    unfolding sysno_lookup_def
    using sysno_search_wraps [of defs ?high key] sysno_search_spec [of defs ?high 0 key, OF _ _ _ _ _ last] assms h
    by auto
qed

theorem sysno_lookup_correct_witness:
  "sysno_lookup [\<lparr>sys_n = 1, sys_name = Some (bytes ''SIGHUP''), sys_mesg = None\<rparr>] 0 = None"
  using sysno_lookup_correct [of "[\<lparr>sys_n = 1, sys_name = Some (bytes ''SIGHUP''), sys_mesg = None\<rparr>]" 0]
  by simp

end
