(* ===== verification/Posix.thy ===== *)
theory Posix
  imports Perp_Prelude
begin

text \<open>
  What the sources use of the C library's headers: error numbers, signal numbers, the wait status macros
  and the file mode tests, with the values of Linux.
\<close>

definition EPERM :: int where "EPERM = 1"
definition ENOENT :: int where "ENOENT = 2"
definition EINTR :: int where "EINTR = 4"
definition EAGAIN :: int where "EAGAIN = 11"
definition EBUSY :: int where "EBUSY = 16"
definition ENOTDIR :: int where "ENOTDIR = 20"
definition EINVAL :: int where "EINVAL = 22"
definition ERANGE :: int where "ERANGE = 34"
definition EPROTO :: int where "EPROTO = 71"
definition ENOTSUP :: int where "ENOTSUP = 95"

lemmas errno_defs = EPERM_def ENOENT_def EINTR_def EAGAIN_def EBUSY_def ENOTDIR_def EINVAL_def ERANGE_def
  EPROTO_def ENOTSUP_def

definition SIGHUP :: int where "SIGHUP = 1"
definition SIGINT :: int where "SIGINT = 2"
definition SIGQUIT :: int where "SIGQUIT = 3"
definition SIGKILL :: int where "SIGKILL = 9"
definition SIGUSR1 :: int where "SIGUSR1 = 10"
definition SIGUSR2 :: int where "SIGUSR2 = 12"
definition SIGPIPE :: int where "SIGPIPE = 13"
definition SIGALRM :: int where "SIGALRM = 14"
definition SIGTERM :: int where "SIGTERM = 15"
definition SIGCHLD :: int where "SIGCHLD = 17"
definition SIGCONT :: int where "SIGCONT = 18"
definition SIGSTOP :: int where "SIGSTOP = 19"
definition SIGWINCH :: int where "SIGWINCH = 28"

lemmas signal_defs = SIGHUP_def SIGINT_def SIGQUIT_def SIGKILL_def SIGUSR1_def SIGUSR2_def SIGPIPE_def
  SIGALRM_def SIGTERM_def SIGCHLD_def SIGCONT_def SIGSTOP_def SIGWINCH_def

text \<open>The status word of \<open>waitpid\<close>.\<close>

definition WTERMSIG :: "int \<Rightarrow> int" where "WTERMSIG st = st mod 128"
definition WIFEXITED :: "int \<Rightarrow> bool" where "WIFEXITED st \<longleftrightarrow> WTERMSIG st = 0"
definition WEXITSTATUS :: "int \<Rightarrow> int" where "WEXITSTATUS st = (st div 256) mod 256"
definition WIFSIGNALED :: "int \<Rightarrow> bool" where "WIFSIGNALED st \<longleftrightarrow> 0 < WTERMSIG st \<and> WTERMSIG st < 127"
definition WSTOPSIG :: "int \<Rightarrow> int" where "WSTOPSIG st = WEXITSTATUS st"

text \<open>The parts of \<open>struct stat\<close> the sources read.\<close>

record stat =
  st_dev :: u64
  st_ino :: u64
  st_mode :: nat

definition S_ISDIR :: "nat \<Rightarrow> bool" where "S_ISDIR m \<longleftrightarrow> (m div 0x1000) mod 16 = 4"
definition S_ISVTX :: "nat \<Rightarrow> bool" where "S_ISVTX m \<longleftrightarrow> odd (m div 0x200)"
definition S_IXUSR :: "nat \<Rightarrow> bool" where "S_IXUSR m \<longleftrightarrow> odd (m div 0x40)"

end
