(* ===== verification/Perpd_State.thy ===== *)
theory Perpd_State
  imports Tain Cstr Nfmt Sysstr Posix
begin

text \<open>
  The data of perpd (\<open>src/perp/perpd.h\<close>, \<open>src/perp/perp_common.h\<close> and the variables of \<open>src/perp/perpd.c\<close>):
  the flags, a subservice, a service definition, and the part of the daemon's state that the subroutines on
  services and connections share.

  The operating system.  The results of \<open>fork()\<close> in the parent and the clock readings are sequences in the state
  with a cursor each; the signals sent, descriptors closed, processes forked and pauses made are recorded in
  \<open>trace\<close> in the order in which they happen.  The state holds everything else the source keeps in variables.
\<close>

section \<open>Constants\<close>

definition PERP_MAX :: nat where "PERP_MAX = 200"
definition PERPD_CONNMAX :: nat where "PERPD_CONNMAX = 20"
definition PERPD_CONNSECS :: u64 where "PERPD_CONNSECS = 8"
definition EPAUSE :: u32 where "EPAUSE = 555444321"

definition SVDEF_FLAG_ACTIVE :: u8 where "SVDEF_FLAG_ACTIVE = 0x01"
definition SVDEF_FLAG_HASLOG :: u8 where "SVDEF_FLAG_HASLOG = 0x02"
definition SVDEF_FLAG_CULL :: u8 where "SVDEF_FLAG_CULL = 0x04"
definition SVDEF_FLAG_CYCLE :: u8 where "SVDEF_FLAG_CYCLE = 0x08"
definition SVDEF_FLAG_DOWN :: u8 where "SVDEF_FLAG_DOWN = 0x10"
definition SVDEF_FLAG_ONCE :: u8 where "SVDEF_FLAG_ONCE = 0x20"

definition SUBSV_FLAG_ISLOG :: u8 where "SUBSV_FLAG_ISLOG = 0x01"
definition SUBSV_FLAG_ISRESET :: u8 where "SUBSV_FLAG_ISRESET = 0x02"
definition SUBSV_FLAG_ISONCE :: u8 where "SUBSV_FLAG_ISONCE = 0x04"
definition SUBSV_FLAG_ISPAUSED :: u8 where "SUBSV_FLAG_ISPAUSED = 0x08"
definition SUBSV_FLAG_WANTDOWN :: u8 where "SUBSV_FLAG_WANTDOWN = 0x10"
definition SUBSV_FLAG_FAILING :: u8 where "SUBSV_FLAG_FAILING = 0x20"

definition SVCMD_FLAG_LOG :: u8 where "SVCMD_FLAG_LOG = 0x01"
definition SVCMD_FLAG_KILLPG :: u8 where "SVCMD_FLAG_KILLPG = 0x02"

lemmas svflag_defs = SVDEF_FLAG_ACTIVE_def SVDEF_FLAG_HASLOG_def SVDEF_FLAG_CULL_def SVDEF_FLAG_CYCLE_def
  SVDEF_FLAG_DOWN_def SVDEF_FLAG_ONCE_def
lemmas subflag_defs = SUBSV_FLAG_ISLOG_def SUBSV_FLAG_ISRESET_def SUBSV_FLAG_ISONCE_def SUBSV_FLAG_ISPAUSED_def
  SUBSV_FLAG_WANTDOWN_def SUBSV_FLAG_FAILING_def

section \<open>Services\<close>

datatype which = SUBSV_MAIN | SUBSV_LOG
datatype target = SVRUN_START | SVRUN_RESET

record subsv =
  pid :: int
  sub_bitflags :: u8
  sub_when :: tain
  when_ok :: tain
  wstat :: int

text \<open>\<open>svpair[SUBSV_MAIN]\<close> and \<open>svpair[SUBSV_LOG]\<close> are the fields \<open>sv_main\<close> and \<open>sv_log\<close>.\<close>

record svdef =
  dev :: u64
  ino :: u64
  fd_dir :: int
  svname :: buffer
  sv_when :: tain
  sv_bitflags :: u8
  logpipe :: "int \<times> int"
  sv_main :: subsv
  sv_log :: subsv

fun svpair :: "svdef \<Rightarrow> which \<Rightarrow> subsv" where
  "svpair sd SUBSV_MAIN = sv_main sd"
| "svpair sd SUBSV_LOG = sv_log sd"

fun set_svpair :: "which \<Rightarrow> (subsv \<Rightarrow> subsv) \<Rightarrow> svdef \<Rightarrow> svdef" where
  "set_svpair SUBSV_MAIN f sd = sd\<lparr>sv_main := f (sv_main sd)\<rparr>"
| "set_svpair SUBSV_LOG f sd = sd\<lparr>sv_log := f (sv_log sd)\<rparr>"

abbreviation sv_has :: "svdef \<Rightarrow> u8 \<Rightarrow> bool" where "sv_has sd f \<equiv> has_flag (sv_bitflags sd) f"
abbreviation sub_has :: "subsv \<Rightarrow> u8 \<Rightarrow> bool" where "sub_has ss f \<equiv> has_flag (sub_bitflags ss) f"

definition sv_set :: "u8 \<Rightarrow> svdef \<Rightarrow> svdef" where "sv_set f sd = sd\<lparr>sv_bitflags := set_flag (sv_bitflags sd) f\<rparr>"
definition sv_clr :: "u8 \<Rightarrow> svdef \<Rightarrow> svdef" where "sv_clr f sd = sd\<lparr>sv_bitflags := clr_flag (sv_bitflags sd) f\<rparr>"
definition sub_set :: "u8 \<Rightarrow> subsv \<Rightarrow> subsv" where "sub_set f ss = ss\<lparr>sub_bitflags := set_flag (sub_bitflags ss) f\<rparr>"
definition sub_clr :: "u8 \<Rightarrow> subsv \<Rightarrow> subsv" where "sub_clr f ss = ss\<lparr>sub_bitflags := clr_flag (sub_bitflags ss) f\<rparr>"

section \<open>The process\<close>

text \<open>The argument vector of a forked child is \<open>None\<close> when building it would read out of bounds.\<close>

datatype sysact =
    Ping
  | Kill int int
  | Close int
  | Cloexec int
  | Pause tain
  | Drain
  | Fork "u8 list list option" tain

record sys =
  flag_chld :: nat
  flag_hup :: nat
  flag_term :: nat
  flag_failing :: nat
  flag_terminating :: bool
  my_pid :: int
  my_when :: tain
  signo_defs :: "sysno_def list"
  os_fork :: "nat \<Rightarrow> int"
  forks :: nat
  os_time :: "nat \<Rightarrow> timeval"
  ticks :: nat
  trace :: "sysact list"

definition emit :: "sysact \<Rightarrow> sys \<Rightarrow> sys" where
  "emit a s = s\<lparr>trace := trace s @ [a]\<rparr>"

text \<open>\<open>tain_now(&t)\<close> and \<open>fork()\<close> with their effect on the cursors.\<close>

definition now :: "sys \<Rightarrow> sys \<times> tain" where
  "now s = (s\<lparr>ticks := ticks s + 1\<rparr>, tain_now (os_time s (ticks s)))"

definition fork :: "u8 list list option \<Rightarrow> tain \<Rightarrow> sys \<Rightarrow> sys \<times> int" where
  "fork prog towait s =
     (emit (Fork prog towait) (s\<lparr>forks := forks s + 1\<rparr>), os_fork s (forks s))"

text \<open>\<open>selfpipe_ping\<close> restarts its \<open>write()\<close> until it is not interrupted and ignores its result.\<close>

definition selfpipe_ping :: "sys \<Rightarrow> sys" where
  "selfpipe_ping s = emit Ping s"

definition sig_trap :: "int \<Rightarrow> sys \<Rightarrow> sys" where
  "sig_trap sig s =
     (let s = (if sig = SIGCHLD then s\<lparr>flag_chld := flag_chld s + 1\<rparr>
               else if sig = SIGHUP then s\<lparr>flag_hup := flag_hup s + 1\<rparr>
               else if sig = SIGINT \<or> sig = SIGTERM then s\<lparr>flag_term := flag_term s + 1\<rparr>
               else s);
          s = (if flag_terminating s then s\<lparr>flag_term := 0, flag_hup := 0\<rparr> else s)
      in selfpipe_ping s)"

definition perpd_trigger_scan :: "sys \<Rightarrow> sys" where
  "perpd_trigger_scan s =
     (if \<not> flag_terminating s then selfpipe_ping (s\<lparr>flag_hup := flag_hup s + 1\<rparr>) else s)"

definition perpd_trigger_fail :: "sys \<Rightarrow> sys" where
  "perpd_trigger_fail s =
     (if \<not> flag_terminating s then selfpipe_ping (s\<lparr>flag_failing := flag_failing s + 1\<rparr>) else s)"

section \<open>Assumptions on the operating system\<close>

text \<open>\<open>fork()\<close> fails with \<open>-1\<close> or returns a positive process number to the parent, and \<open>gettimeofday()\<close>
  returns fewer than a million microseconds.\<close>

definition os_ok :: "sys \<Rightarrow> bool" where
  "os_ok s \<longleftrightarrow> (\<forall>i. os_fork s i = -1 \<or> 0 < os_fork s i) \<and> (\<forall>i. snd (os_time s i) < 1000000)"

text \<open>Two states of one process between two polls: the environment is the same, time has not run backwards, no byte has been read from the
  self-pipe, and the flags for a scan and for a failure have been raised only together with a byte written to it, and never while perpd
  is terminating.\<close>

definition later :: "sys \<Rightarrow> sys \<Rightarrow> bool" where
  "later s s' \<longleftrightarrow> os_fork s' = os_fork s \<and> os_time s' = os_time s \<and> signo_defs s' = signo_defs s \<and>
     my_pid s' = my_pid s \<and> my_when s' = my_when s \<and> flag_terminating s' = flag_terminating s \<and>
     forks s \<le> forks s' \<and> ticks s \<le> ticks s' \<and> flag_chld s' = flag_chld s \<and> flag_term s' = flag_term s \<and>
     (flag_terminating s \<longrightarrow> flag_hup s' = flag_hup s \<and> flag_failing s' = flag_failing s) \<and>
     (\<exists>acts. trace s' = trace s @ acts \<and> Drain \<notin> set acts \<and>
        (flag_hup s' = flag_hup s \<and> flag_failing s' = flag_failing s \<or> Ping \<in> set acts))"

lemma emit_trace [simp]: "trace (emit a s) = trace s @ [a]"
  by (simp add: emit_def)

lemma later_refl [simp, intro]: "later s s"
  by (simp add: later_def)

lemma later_trans [trans]: "later s s' \<Longrightarrow> later s' s'' \<Longrightarrow> later s s''"
  by (auto simp: later_def)

lemma later_os_ok: "later s s' \<Longrightarrow> os_ok s \<Longrightarrow> os_ok s'"
  by (simp add: later_def os_ok_def)

lemma later_trace: "later s s' \<Longrightarrow> \<exists>acts. trace s' = trace s @ acts"
  by (auto simp: later_def)

lemma later_emit [simp, intro]: "a \<noteq> Drain \<Longrightarrow> later s (emit a s)"
  by (simp add: later_def emit_def)

lemma later_trigger [simp, intro]: "later s (perpd_trigger_fail s)" "later s (perpd_trigger_scan s)"
  by (simp_all add: later_def perpd_trigger_fail_def perpd_trigger_scan_def selfpipe_ping_def emit_def)

lemma later_fork: "later s (fst (fork prog towait s))"
  by (auto simp: later_def fork_def emit_def)

lemma later_now: "later s (fst (now s))"
  by (auto simp: later_def now_def)

lemma svpair_set [simp]: "svpair (set_svpair w f sd) w' = (if w' = w then f (svpair sd w) else svpair sd w')"
  by (cases w; cases w') auto

lemma set_svpair_fields [simp]:
  "dev (set_svpair w f sd) = dev sd" "ino (set_svpair w f sd) = ino sd" "fd_dir (set_svpair w f sd) = fd_dir sd"
  "svname (set_svpair w f sd) = svname sd" "sv_bitflags (set_svpair w f sd) = sv_bitflags sd"
  "logpipe (set_svpair w f sd) = logpipe sd" "sv_when (set_svpair w f sd) = sv_when sd"
  by (cases w; simp)+

text \<open>The flag tests after an update; the flags are pairwise disjoint bits.\<close>

lemma svflag_table [flag_simps]:
  "has_flag SVDEF_FLAG_ACTIVE SVDEF_FLAG_ACTIVE" "\<not> has_flag SVDEF_FLAG_ACTIVE SVDEF_FLAG_HASLOG" "\<not> has_flag SVDEF_FLAG_ACTIVE SVDEF_FLAG_CULL" "\<not> has_flag SVDEF_FLAG_ACTIVE SVDEF_FLAG_CYCLE" "\<not> has_flag SVDEF_FLAG_ACTIVE SVDEF_FLAG_DOWN" "\<not> has_flag SVDEF_FLAG_ACTIVE SVDEF_FLAG_ONCE"
  "\<not> has_flag SVDEF_FLAG_HASLOG SVDEF_FLAG_ACTIVE" "has_flag SVDEF_FLAG_HASLOG SVDEF_FLAG_HASLOG" "\<not> has_flag SVDEF_FLAG_HASLOG SVDEF_FLAG_CULL" "\<not> has_flag SVDEF_FLAG_HASLOG SVDEF_FLAG_CYCLE" "\<not> has_flag SVDEF_FLAG_HASLOG SVDEF_FLAG_DOWN" "\<not> has_flag SVDEF_FLAG_HASLOG SVDEF_FLAG_ONCE"
  "\<not> has_flag SVDEF_FLAG_CULL SVDEF_FLAG_ACTIVE" "\<not> has_flag SVDEF_FLAG_CULL SVDEF_FLAG_HASLOG" "has_flag SVDEF_FLAG_CULL SVDEF_FLAG_CULL" "\<not> has_flag SVDEF_FLAG_CULL SVDEF_FLAG_CYCLE" "\<not> has_flag SVDEF_FLAG_CULL SVDEF_FLAG_DOWN" "\<not> has_flag SVDEF_FLAG_CULL SVDEF_FLAG_ONCE"
  "\<not> has_flag SVDEF_FLAG_CYCLE SVDEF_FLAG_ACTIVE" "\<not> has_flag SVDEF_FLAG_CYCLE SVDEF_FLAG_HASLOG" "\<not> has_flag SVDEF_FLAG_CYCLE SVDEF_FLAG_CULL" "has_flag SVDEF_FLAG_CYCLE SVDEF_FLAG_CYCLE" "\<not> has_flag SVDEF_FLAG_CYCLE SVDEF_FLAG_DOWN" "\<not> has_flag SVDEF_FLAG_CYCLE SVDEF_FLAG_ONCE"
  "\<not> has_flag SVDEF_FLAG_DOWN SVDEF_FLAG_ACTIVE" "\<not> has_flag SVDEF_FLAG_DOWN SVDEF_FLAG_HASLOG" "\<not> has_flag SVDEF_FLAG_DOWN SVDEF_FLAG_CULL" "\<not> has_flag SVDEF_FLAG_DOWN SVDEF_FLAG_CYCLE" "has_flag SVDEF_FLAG_DOWN SVDEF_FLAG_DOWN" "\<not> has_flag SVDEF_FLAG_DOWN SVDEF_FLAG_ONCE"
  "\<not> has_flag SVDEF_FLAG_ONCE SVDEF_FLAG_ACTIVE" "\<not> has_flag SVDEF_FLAG_ONCE SVDEF_FLAG_HASLOG" "\<not> has_flag SVDEF_FLAG_ONCE SVDEF_FLAG_CULL" "\<not> has_flag SVDEF_FLAG_ONCE SVDEF_FLAG_CYCLE" "\<not> has_flag SVDEF_FLAG_ONCE SVDEF_FLAG_DOWN" "has_flag SVDEF_FLAG_ONCE SVDEF_FLAG_ONCE"
  by (simp_all add: has_flag_def svflag_defs)

lemma svflag_disjoint [flag_simps]:
  "SVDEF_FLAG_ACTIVE AND SVDEF_FLAG_HASLOG = 0" "SVDEF_FLAG_ACTIVE AND SVDEF_FLAG_CULL = 0" "SVDEF_FLAG_ACTIVE AND SVDEF_FLAG_CYCLE = 0" "SVDEF_FLAG_ACTIVE AND SVDEF_FLAG_DOWN = 0" "SVDEF_FLAG_ACTIVE AND SVDEF_FLAG_ONCE = 0"
  "SVDEF_FLAG_HASLOG AND SVDEF_FLAG_ACTIVE = 0" "SVDEF_FLAG_HASLOG AND SVDEF_FLAG_CULL = 0" "SVDEF_FLAG_HASLOG AND SVDEF_FLAG_CYCLE = 0" "SVDEF_FLAG_HASLOG AND SVDEF_FLAG_DOWN = 0" "SVDEF_FLAG_HASLOG AND SVDEF_FLAG_ONCE = 0"
  "SVDEF_FLAG_CULL AND SVDEF_FLAG_ACTIVE = 0" "SVDEF_FLAG_CULL AND SVDEF_FLAG_HASLOG = 0" "SVDEF_FLAG_CULL AND SVDEF_FLAG_CYCLE = 0" "SVDEF_FLAG_CULL AND SVDEF_FLAG_DOWN = 0" "SVDEF_FLAG_CULL AND SVDEF_FLAG_ONCE = 0"
  "SVDEF_FLAG_CYCLE AND SVDEF_FLAG_ACTIVE = 0" "SVDEF_FLAG_CYCLE AND SVDEF_FLAG_HASLOG = 0" "SVDEF_FLAG_CYCLE AND SVDEF_FLAG_CULL = 0" "SVDEF_FLAG_CYCLE AND SVDEF_FLAG_DOWN = 0" "SVDEF_FLAG_CYCLE AND SVDEF_FLAG_ONCE = 0"
  "SVDEF_FLAG_DOWN AND SVDEF_FLAG_ACTIVE = 0" "SVDEF_FLAG_DOWN AND SVDEF_FLAG_HASLOG = 0" "SVDEF_FLAG_DOWN AND SVDEF_FLAG_CULL = 0" "SVDEF_FLAG_DOWN AND SVDEF_FLAG_CYCLE = 0" "SVDEF_FLAG_DOWN AND SVDEF_FLAG_ONCE = 0"
  "SVDEF_FLAG_ONCE AND SVDEF_FLAG_ACTIVE = 0" "SVDEF_FLAG_ONCE AND SVDEF_FLAG_HASLOG = 0" "SVDEF_FLAG_ONCE AND SVDEF_FLAG_CULL = 0" "SVDEF_FLAG_ONCE AND SVDEF_FLAG_CYCLE = 0" "SVDEF_FLAG_ONCE AND SVDEF_FLAG_DOWN = 0"
  by (simp_all add: svflag_defs)

lemma svflag_distinct [flag_simps]:
  "SVDEF_FLAG_ACTIVE \<noteq> SVDEF_FLAG_HASLOG" "SVDEF_FLAG_ACTIVE \<noteq> SVDEF_FLAG_CULL" "SVDEF_FLAG_ACTIVE \<noteq> SVDEF_FLAG_CYCLE" "SVDEF_FLAG_ACTIVE \<noteq> SVDEF_FLAG_DOWN" "SVDEF_FLAG_ACTIVE \<noteq> SVDEF_FLAG_ONCE"
  "SVDEF_FLAG_HASLOG \<noteq> SVDEF_FLAG_ACTIVE" "SVDEF_FLAG_HASLOG \<noteq> SVDEF_FLAG_CULL" "SVDEF_FLAG_HASLOG \<noteq> SVDEF_FLAG_CYCLE" "SVDEF_FLAG_HASLOG \<noteq> SVDEF_FLAG_DOWN" "SVDEF_FLAG_HASLOG \<noteq> SVDEF_FLAG_ONCE"
  "SVDEF_FLAG_CULL \<noteq> SVDEF_FLAG_ACTIVE" "SVDEF_FLAG_CULL \<noteq> SVDEF_FLAG_HASLOG" "SVDEF_FLAG_CULL \<noteq> SVDEF_FLAG_CYCLE" "SVDEF_FLAG_CULL \<noteq> SVDEF_FLAG_DOWN" "SVDEF_FLAG_CULL \<noteq> SVDEF_FLAG_ONCE"
  "SVDEF_FLAG_CYCLE \<noteq> SVDEF_FLAG_ACTIVE" "SVDEF_FLAG_CYCLE \<noteq> SVDEF_FLAG_HASLOG" "SVDEF_FLAG_CYCLE \<noteq> SVDEF_FLAG_CULL" "SVDEF_FLAG_CYCLE \<noteq> SVDEF_FLAG_DOWN" "SVDEF_FLAG_CYCLE \<noteq> SVDEF_FLAG_ONCE"
  "SVDEF_FLAG_DOWN \<noteq> SVDEF_FLAG_ACTIVE" "SVDEF_FLAG_DOWN \<noteq> SVDEF_FLAG_HASLOG" "SVDEF_FLAG_DOWN \<noteq> SVDEF_FLAG_CULL" "SVDEF_FLAG_DOWN \<noteq> SVDEF_FLAG_CYCLE" "SVDEF_FLAG_DOWN \<noteq> SVDEF_FLAG_ONCE"
  "SVDEF_FLAG_ONCE \<noteq> SVDEF_FLAG_ACTIVE" "SVDEF_FLAG_ONCE \<noteq> SVDEF_FLAG_HASLOG" "SVDEF_FLAG_ONCE \<noteq> SVDEF_FLAG_CULL" "SVDEF_FLAG_ONCE \<noteq> SVDEF_FLAG_CYCLE" "SVDEF_FLAG_ONCE \<noteq> SVDEF_FLAG_DOWN"
  by (simp_all add: svflag_defs)

lemma subflag_table [flag_simps]:
  "has_flag SUBSV_FLAG_ISLOG SUBSV_FLAG_ISLOG" "\<not> has_flag SUBSV_FLAG_ISLOG SUBSV_FLAG_ISRESET" "\<not> has_flag SUBSV_FLAG_ISLOG SUBSV_FLAG_ISONCE" "\<not> has_flag SUBSV_FLAG_ISLOG SUBSV_FLAG_ISPAUSED" "\<not> has_flag SUBSV_FLAG_ISLOG SUBSV_FLAG_WANTDOWN" "\<not> has_flag SUBSV_FLAG_ISLOG SUBSV_FLAG_FAILING"
  "\<not> has_flag SUBSV_FLAG_ISRESET SUBSV_FLAG_ISLOG" "has_flag SUBSV_FLAG_ISRESET SUBSV_FLAG_ISRESET" "\<not> has_flag SUBSV_FLAG_ISRESET SUBSV_FLAG_ISONCE" "\<not> has_flag SUBSV_FLAG_ISRESET SUBSV_FLAG_ISPAUSED" "\<not> has_flag SUBSV_FLAG_ISRESET SUBSV_FLAG_WANTDOWN" "\<not> has_flag SUBSV_FLAG_ISRESET SUBSV_FLAG_FAILING"
  "\<not> has_flag SUBSV_FLAG_ISONCE SUBSV_FLAG_ISLOG" "\<not> has_flag SUBSV_FLAG_ISONCE SUBSV_FLAG_ISRESET" "has_flag SUBSV_FLAG_ISONCE SUBSV_FLAG_ISONCE" "\<not> has_flag SUBSV_FLAG_ISONCE SUBSV_FLAG_ISPAUSED" "\<not> has_flag SUBSV_FLAG_ISONCE SUBSV_FLAG_WANTDOWN" "\<not> has_flag SUBSV_FLAG_ISONCE SUBSV_FLAG_FAILING"
  "\<not> has_flag SUBSV_FLAG_ISPAUSED SUBSV_FLAG_ISLOG" "\<not> has_flag SUBSV_FLAG_ISPAUSED SUBSV_FLAG_ISRESET" "\<not> has_flag SUBSV_FLAG_ISPAUSED SUBSV_FLAG_ISONCE" "has_flag SUBSV_FLAG_ISPAUSED SUBSV_FLAG_ISPAUSED" "\<not> has_flag SUBSV_FLAG_ISPAUSED SUBSV_FLAG_WANTDOWN" "\<not> has_flag SUBSV_FLAG_ISPAUSED SUBSV_FLAG_FAILING"
  "\<not> has_flag SUBSV_FLAG_WANTDOWN SUBSV_FLAG_ISLOG" "\<not> has_flag SUBSV_FLAG_WANTDOWN SUBSV_FLAG_ISRESET" "\<not> has_flag SUBSV_FLAG_WANTDOWN SUBSV_FLAG_ISONCE" "\<not> has_flag SUBSV_FLAG_WANTDOWN SUBSV_FLAG_ISPAUSED" "has_flag SUBSV_FLAG_WANTDOWN SUBSV_FLAG_WANTDOWN" "\<not> has_flag SUBSV_FLAG_WANTDOWN SUBSV_FLAG_FAILING"
  "\<not> has_flag SUBSV_FLAG_FAILING SUBSV_FLAG_ISLOG" "\<not> has_flag SUBSV_FLAG_FAILING SUBSV_FLAG_ISRESET" "\<not> has_flag SUBSV_FLAG_FAILING SUBSV_FLAG_ISONCE" "\<not> has_flag SUBSV_FLAG_FAILING SUBSV_FLAG_ISPAUSED" "\<not> has_flag SUBSV_FLAG_FAILING SUBSV_FLAG_WANTDOWN" "has_flag SUBSV_FLAG_FAILING SUBSV_FLAG_FAILING"
  by (simp_all add: has_flag_def subflag_defs)

lemma subflag_disjoint [flag_simps]:
  "SUBSV_FLAG_ISLOG AND SUBSV_FLAG_ISRESET = 0" "SUBSV_FLAG_ISLOG AND SUBSV_FLAG_ISONCE = 0" "SUBSV_FLAG_ISLOG AND SUBSV_FLAG_ISPAUSED = 0" "SUBSV_FLAG_ISLOG AND SUBSV_FLAG_WANTDOWN = 0" "SUBSV_FLAG_ISLOG AND SUBSV_FLAG_FAILING = 0"
  "SUBSV_FLAG_ISRESET AND SUBSV_FLAG_ISLOG = 0" "SUBSV_FLAG_ISRESET AND SUBSV_FLAG_ISONCE = 0" "SUBSV_FLAG_ISRESET AND SUBSV_FLAG_ISPAUSED = 0" "SUBSV_FLAG_ISRESET AND SUBSV_FLAG_WANTDOWN = 0" "SUBSV_FLAG_ISRESET AND SUBSV_FLAG_FAILING = 0"
  "SUBSV_FLAG_ISONCE AND SUBSV_FLAG_ISLOG = 0" "SUBSV_FLAG_ISONCE AND SUBSV_FLAG_ISRESET = 0" "SUBSV_FLAG_ISONCE AND SUBSV_FLAG_ISPAUSED = 0" "SUBSV_FLAG_ISONCE AND SUBSV_FLAG_WANTDOWN = 0" "SUBSV_FLAG_ISONCE AND SUBSV_FLAG_FAILING = 0"
  "SUBSV_FLAG_ISPAUSED AND SUBSV_FLAG_ISLOG = 0" "SUBSV_FLAG_ISPAUSED AND SUBSV_FLAG_ISRESET = 0" "SUBSV_FLAG_ISPAUSED AND SUBSV_FLAG_ISONCE = 0" "SUBSV_FLAG_ISPAUSED AND SUBSV_FLAG_WANTDOWN = 0" "SUBSV_FLAG_ISPAUSED AND SUBSV_FLAG_FAILING = 0"
  "SUBSV_FLAG_WANTDOWN AND SUBSV_FLAG_ISLOG = 0" "SUBSV_FLAG_WANTDOWN AND SUBSV_FLAG_ISRESET = 0" "SUBSV_FLAG_WANTDOWN AND SUBSV_FLAG_ISONCE = 0" "SUBSV_FLAG_WANTDOWN AND SUBSV_FLAG_ISPAUSED = 0" "SUBSV_FLAG_WANTDOWN AND SUBSV_FLAG_FAILING = 0"
  "SUBSV_FLAG_FAILING AND SUBSV_FLAG_ISLOG = 0" "SUBSV_FLAG_FAILING AND SUBSV_FLAG_ISRESET = 0" "SUBSV_FLAG_FAILING AND SUBSV_FLAG_ISONCE = 0" "SUBSV_FLAG_FAILING AND SUBSV_FLAG_ISPAUSED = 0" "SUBSV_FLAG_FAILING AND SUBSV_FLAG_WANTDOWN = 0"
  by (simp_all add: subflag_defs)

lemma subflag_distinct [flag_simps]:
  "SUBSV_FLAG_ISLOG \<noteq> SUBSV_FLAG_ISRESET" "SUBSV_FLAG_ISLOG \<noteq> SUBSV_FLAG_ISONCE" "SUBSV_FLAG_ISLOG \<noteq> SUBSV_FLAG_ISPAUSED" "SUBSV_FLAG_ISLOG \<noteq> SUBSV_FLAG_WANTDOWN" "SUBSV_FLAG_ISLOG \<noteq> SUBSV_FLAG_FAILING"
  "SUBSV_FLAG_ISRESET \<noteq> SUBSV_FLAG_ISLOG" "SUBSV_FLAG_ISRESET \<noteq> SUBSV_FLAG_ISONCE" "SUBSV_FLAG_ISRESET \<noteq> SUBSV_FLAG_ISPAUSED" "SUBSV_FLAG_ISRESET \<noteq> SUBSV_FLAG_WANTDOWN" "SUBSV_FLAG_ISRESET \<noteq> SUBSV_FLAG_FAILING"
  "SUBSV_FLAG_ISONCE \<noteq> SUBSV_FLAG_ISLOG" "SUBSV_FLAG_ISONCE \<noteq> SUBSV_FLAG_ISRESET" "SUBSV_FLAG_ISONCE \<noteq> SUBSV_FLAG_ISPAUSED" "SUBSV_FLAG_ISONCE \<noteq> SUBSV_FLAG_WANTDOWN" "SUBSV_FLAG_ISONCE \<noteq> SUBSV_FLAG_FAILING"
  "SUBSV_FLAG_ISPAUSED \<noteq> SUBSV_FLAG_ISLOG" "SUBSV_FLAG_ISPAUSED \<noteq> SUBSV_FLAG_ISRESET" "SUBSV_FLAG_ISPAUSED \<noteq> SUBSV_FLAG_ISONCE" "SUBSV_FLAG_ISPAUSED \<noteq> SUBSV_FLAG_WANTDOWN" "SUBSV_FLAG_ISPAUSED \<noteq> SUBSV_FLAG_FAILING"
  "SUBSV_FLAG_WANTDOWN \<noteq> SUBSV_FLAG_ISLOG" "SUBSV_FLAG_WANTDOWN \<noteq> SUBSV_FLAG_ISRESET" "SUBSV_FLAG_WANTDOWN \<noteq> SUBSV_FLAG_ISONCE" "SUBSV_FLAG_WANTDOWN \<noteq> SUBSV_FLAG_ISPAUSED" "SUBSV_FLAG_WANTDOWN \<noteq> SUBSV_FLAG_FAILING"
  "SUBSV_FLAG_FAILING \<noteq> SUBSV_FLAG_ISLOG" "SUBSV_FLAG_FAILING \<noteq> SUBSV_FLAG_ISRESET" "SUBSV_FLAG_FAILING \<noteq> SUBSV_FLAG_ISONCE" "SUBSV_FLAG_FAILING \<noteq> SUBSV_FLAG_ISPAUSED" "SUBSV_FLAG_FAILING \<noteq> SUBSV_FLAG_WANTDOWN"
  by (simp_all add: subflag_defs)

lemma sv_set_has [flag_simps]: "sv_has (sv_set f sd) g \<longleftrightarrow> sv_has sd g \<or> has_flag f g"
  by (simp add: sv_set_def flag_simps)

lemma sub_set_has [flag_simps]: "sub_has (sub_set f ss) g \<longleftrightarrow> sub_has ss g \<or> has_flag f g"
  by (simp add: sub_set_def flag_simps)

lemma sub_clr_has [flag_simps]: "sub_has (sub_clr f ss) g \<longleftrightarrow> (if f = g then False else has_flag (clr_flag (sub_bitflags ss) f) g)"
  by (simp add: sub_clr_def flag_simps)

lemma sv_clr_has [flag_simps]: "sv_has (sv_clr f sd) g \<longleftrightarrow> (if f = g then False else has_flag (clr_flag (sv_bitflags sd) f) g)"
  by (simp add: sv_clr_def flag_simps)

lemma flags_simp [simp]:
  "sub_bitflags (sub_set f ss) = set_flag (sub_bitflags ss) f" "sub_bitflags (sub_clr f ss) = clr_flag (sub_bitflags ss) f"
  "pid (sub_set f ss) = pid ss" "pid (sub_clr f ss) = pid ss"
  "when_ok (sub_set f ss) = when_ok ss" "when_ok (sub_clr f ss) = when_ok ss"
  "wstat (sub_set f ss) = wstat ss" "wstat (sub_clr f ss) = wstat ss"
  "sub_when (sub_set f ss) = sub_when ss" "sub_when (sub_clr f ss) = sub_when ss"
  "sv_bitflags (sv_set f sd) = set_flag (sv_bitflags sd) f" "sv_bitflags (sv_clr f sd) = clr_flag (sv_bitflags sd) f"
  "svpair (sv_set f sd) w = svpair sd w" "svpair (sv_clr f sd) w = svpair sd w"
  "dev (sv_set f sd) = dev sd" "dev (sv_clr f sd) = dev sd" "ino (sv_set f sd) = ino sd" "ino (sv_clr f sd) = ino sd"
  "svname (sv_set f sd) = svname sd" "svname (sv_clr f sd) = svname sd"
  "fd_dir (sv_set f sd) = fd_dir sd" "fd_dir (sv_clr f sd) = fd_dir sd"
  "logpipe (sv_set f sd) = logpipe sd" "logpipe (sv_clr f sd) = logpipe sd"
  by (cases w; simp add: sub_set_def sub_clr_def sv_set_def sv_clr_def)+

lemma svpair_flags [simp]:
  "sv_main (sv_set f sd) = sv_main sd" "sv_log (sv_set f sd) = sv_log sd"
  "sv_main (sv_clr f sd) = sv_main sd" "sv_log (sv_clr f sd) = sv_log sd"
  by (simp_all add: sv_set_def sv_clr_def)

end
