(* ===== verification/Perpd_Svdef.thy ===== *)
theory Perpd_Svdef
  imports Perpd_State
begin

text \<open>
  Operations on service definitions: \<open>src/perp/perpd_svdef.c\<close>.  Each takes the process state and the definition and
  returns both, with the function's result.  The invariant of a definition, the contract that every operation keeps
  it, what each operation does on every branch, the respawn governor and the shutdown protocol of a
  main and log pair follow the definitions.
\<close>

section \<open>Operations\<close>

definition subsv_zero :: subsv where
  "subsv_zero = \<lparr>pid = 0, sub_bitflags = 0, sub_when = Tain 0 0, when_ok = Tain 0 0, wstat = 0\<rparr>"

definition perpd_svdef_clear :: "svdef \<Rightarrow> svdef" where
  "perpd_svdef_clear sd =
     \<lparr>dev = 0, ino = 0, fd_dir = 0, svname = replicate 32 0, sv_when = Tain 0 0, sv_bitflags = 0,
      logpipe = (0, 0), sv_main = subsv_zero, sv_log = subsv_zero\<rparr>"

definition perpd_svdef_close :: "sys \<Rightarrow> svdef \<Rightarrow> sys" where
  "perpd_svdef_close s sd = emit (Close (fd_dir sd)) s"

text \<open>A C string argument: its bytes and the terminating NUL.\<close>

abbreviation cstring :: "u8 list \<Rightarrow> buffer" where "cstring z \<equiv> z @ [0]"

text \<open>The C string at the start of an array.\<close>

definition cstr_of :: "buffer \<Rightarrow> u8 list" where
  "cstr_of b = takeWhile (\<lambda>c. c \<noteq> 0) b"

text \<open>\<open>nfmt_uint32(nstr, n)\<close> into an array of \<open>NFMT_SIZE\<close> bytes.\<close>

definition NFMT_SIZE :: nat where "NFMT_SIZE = 40"

definition nstr :: "u32 \<Rightarrow> u8 list option" where
  "nstr n = do { b \<leftarrow> nfmt_uint32 (replicate NFMT_SIZE 0) 0 n; Some (cstr_of b) }"

text \<open>Building \<open>prog[]\<close> from a wait status.\<close>

definition svrun_prog :: "sysno_def list \<Rightarrow> which \<Rightarrow> target \<Rightarrow> u8 list \<Rightarrow> int \<Rightarrow> u8 list list option" where
  "svrun_prog signo wh tgt name st =
     (let prog = [bytes (if wh = SUBSV_LOG then ''./rc.log'' else ''./rc.main''),
                  bytes (if tgt = SVRUN_START then ''start'' else ''reset''),
                  name]
      in if tgt = SVRUN_RESET then
           (if WIFEXITED st then do {
              n \<leftarrow> nstr (word_of_int (WEXITSTATUS st));
              Some (prog @ [bytes ''exit'', n]) }
            else do {
              let n = (if WIFSIGNALED st then WTERMSIG st else WSTOPSIG st);
              z \<leftarrow> sysstr_signal signo n;
              num \<leftarrow> nstr (word_of_int n);
              Some (prog @ [bytes (if WIFSIGNALED st then ''signal'' else ''stopped''), num,
                            (case z of Some z \<Rightarrow> z | None \<Rightarrow> bytes ''SIGUNKNOWN'')]) })
         else Some prog)"

definition perpd_svdef_run :: "sys \<Rightarrow> svdef \<Rightarrow> which \<Rightarrow> target \<Rightarrow> sys \<times> svdef \<times> int" where
  "perpd_svdef_run s sd wh tgt =
     (if wh = SUBSV_LOG \<and> \<not> sv_has sd SVDEF_FLAG_HASLOG then (s, sd, 0)
      else if pid (svpair sd wh) > 0 then (s, sd, 0)
      else
        (let sd = set_svpair wh
               (case tgt of SVRUN_RESET \<Rightarrow> sub_set SUBSV_FLAG_ISRESET | SVRUN_START \<Rightarrow> sub_clr SUBSV_FLAG_ISRESET) sd;
             sd = set_svpair wh (\<lambda>ss. ss\<lparr>pid := 0, wstat := 0\<rparr>) sd;
             sd = set_svpair wh (sub_clr SUBSV_FLAG_FAILING) sd;
             prog = svrun_prog (signo_defs s) wh tgt (cstr_of (svname sd)) (wstat (svpair sd wh));
             (s, t) = now s;
             ok = tain_assign (when_ok (svpair sd wh));
             towait = (if tgt = SVRUN_START \<and> tain_less t ok then tain_minus ok t else Tain 0 0);
             (s, r) = fork prog towait s
         in if r = -1 then
              (let sd = set_svpair wh (\<lambda>ss. sub_set SUBSV_FLAG_FAILING (ss\<lparr>pid := 0\<rparr>)) sd
               in (perpd_trigger_fail s, sd, -1))
            else
              (let sd = set_svpair wh (\<lambda>ss. ss\<lparr>pid := r, sub_when := tain_assign t\<rparr>) sd;
                   ok = tain_plus (tain_plus t (tain_load 1 0)) towait;
                   sd = (if tgt = SVRUN_START then set_svpair wh (\<lambda>ss. ss\<lparr>when_ok := tain_assign ok\<rparr>) sd else sd)
               in (s, sd, 0))))"

text \<open>
  The child between \<open>fork()\<close> and \<open>execve()\<close>: the system calls it makes, given the results of those that can fail.
\<close>

datatype child_act =
    C_setsid | C_fchdir int | C_close int | C_dup2 int int | C_setenv "u8 list" "u8 list" | C_pause tain
  | C_uncatch int | C_unblock | C_exec "u8 list list option" | C_die int

record child_env =
  c_fchdir :: int
  c_dup2 :: int
  c_newenv :: int

definition svdef_child ::
  "child_env \<Rightarrow> u8 list \<Rightarrow> svdef \<Rightarrow> which \<Rightarrow> target \<Rightarrow> u8 list list option \<Rightarrow> tain \<Rightarrow> child_act list" where
  "svdef_child env basedir sd wh tgt prog towait =
     (let haslog = sv_has sd SVDEF_FLAG_HASLOG;
          pre = [C_setsid, C_fchdir (fd_dir sd)];
          main_log = haslog \<and> wh = SUBSV_MAIN;
          log_in = haslog \<and> wh = SUBSV_LOG \<and> tgt = SVRUN_START;
          out = (if main_log then [C_close 1, C_dup2 (snd (logpipe sd)) 1] else []);
          inp = (if log_in then [C_close 0, C_dup2 (fst (logpipe sd)) 0] else []);
          pipes = (if haslog then [C_close (fst (logpipe sd)), C_close (snd (logpipe sd))] else []);
          closes = map (\<lambda>i. C_close (int i)) [3..<1024];
          setbase = [C_setenv (bytes ''PERP_BASE'') basedir]
      in if c_fchdir env = -1 then pre @ [C_die 111]
         else if main_log \<and> c_dup2 env \<noteq> 1 then pre @ out @ [C_die 111]
         else if log_in \<and> c_dup2 env \<noteq> 0 then pre @ inp @ [C_die 111]
         else if c_newenv env = -1 then pre @ out @ inp @ pipes @ closes @ setbase @ [C_die 111]
         else pre @ out @ inp @ pipes @ closes @ setbase @
              (if tgt = SVRUN_START \<and> \<not> tain_iszero towait then [C_pause towait] else []) @
              map C_uncatch [SIGCHLD, SIGHUP, SIGINT, SIGTERM, SIGPIPE] @
              [C_unblock, C_exec prog, C_die 111])"

text \<open>
  What \<open>perpd_svdef_activate\<close> learns from the file system: the descriptor or \<open>-1\<close>, the mode of
  a file or a failure, and the two ends of a pipe or a failure.
\<close>

record svdir_env =
  env_open :: "u8 list \<Rightarrow> int"
  env_stat :: "u8 list \<Rightarrow> nat option"
  env_pipe :: "(int \<times> int) option"

text \<open>\<open>cstr_vcopy(path_buf, ...)\<close> into an array of 256 bytes.\<close>

definition path_buf :: "u8 list list \<Rightarrow> u8 list" where
  "path_buf parts =
     (case cstr_vcopy (replicate 256 0) 0 (map (\<lambda>p. (cstring p, 0)) parts) of
        Some (b, _) \<Rightarrow> cstr_of b | None \<Rightarrow> [])"

text \<open>\<open>cstr_lcpy(svdef->name, svdir, sizeof svdef->name)\<close>.\<close>

definition set_name :: "u8 list \<Rightarrow> svdef \<Rightarrow> svdef" where
  "set_name svdir sd =
     (case cstr_lcpy (svname sd) 0 (cstring svdir) 0 32 of Some (b, _) \<Rightarrow> sd\<lparr>svname := b\<rparr> | None \<Rightarrow> sd)"

definition name_too_long :: "u8 list \<Rightarrow> bool" where
  "name_too_long svdir = (case cstr_len (cstring svdir) 0 of Some n \<Rightarrow> n > 240 | None \<Rightarrow> True)"

text \<open>Inspection of the directory: the flags DOWN, ONCE and HASLOG.\<close>

definition inspect_svdir :: "svdir_env \<Rightarrow> u8 list \<Rightarrow> svdef \<Rightarrow> svdef" where
  "inspect_svdir env svdir sd =
     (let sd = (if env_stat env (path_buf [bytes ''./'', svdir, bytes ''/flag.down'']) \<noteq> None
                then sv_set SVDEF_FLAG_DOWN sd else sd);
          sd = (if env_stat env (path_buf [bytes ''./'', svdir, bytes ''/flag.once'']) \<noteq> None
                then sv_set SVDEF_FLAG_ONCE sd else sd)
      in case env_stat env (path_buf [bytes ''./'', svdir, bytes ''/rc.log'']) of
           Some m \<Rightarrow> if S_IXUSR m then sv_set SVDEF_FLAG_HASLOG sd else sd
         | None \<Rightarrow> sd)"

text \<open>First startup, from line 136 on.\<close>

definition activate_start :: "sys \<Rightarrow> svdef \<Rightarrow> sys \<times> svdef" where
  "activate_start s sd =
     (let (s, sd) = (if sv_has sd SVDEF_FLAG_HASLOG then
                       (let (s, sd, _) = perpd_svdef_run s (set_svpair SUBSV_LOG (sub_set SUBSV_FLAG_ISLOG) sd)
                                           SUBSV_LOG SVRUN_START
                        in (s, sd))
                     else (s, sd))
      in if \<not> sv_has sd SVDEF_FLAG_DOWN then
           (let sd = (if sv_has sd SVDEF_FLAG_ONCE then set_svpair SUBSV_MAIN (sub_set SUBSV_FLAG_ISONCE) sd else sd);
                (s, sd, _) = perpd_svdef_run s sd SUBSV_MAIN SVRUN_START
            in (s, sd))
         else (s, set_svpair SUBSV_MAIN (sub_set SUBSV_FLAG_WANTDOWN) sd))"

definition perpd_svdef_activate :: "svdir_env \<Rightarrow> sys \<Rightarrow> svdef \<Rightarrow> u8 list \<Rightarrow> stat \<Rightarrow> sys \<times> svdef \<times> int" where
  "perpd_svdef_activate env s sd svdir st =
     (let sd = perpd_svdef_clear sd
      in if name_too_long svdir then (s, sd, -1)
         else
           (let sd = set_name svdir (sd\<lparr>dev := st_dev st, ino := st_ino st\<rparr>);
                (s, t) = now s;
                sd = sv_set SVDEF_FLAG_ACTIVE (sd\<lparr>sv_when := t\<rparr>);
                fd = env_open env (path_buf [bytes ''./'', svdir])
            in if fd = -1 then (s, sd, -1)
               else
                 (let s = emit (Cloexec fd) s;
                      sd = inspect_svdir env svdir (sd\<lparr>fd_dir := fd\<rparr>)
                  in if sv_has sd SVDEF_FLAG_HASLOG then
                       (case env_pipe env of
                          None \<Rightarrow> (emit (Close fd) s, sd, -1)
                        | Some (p0, p1) \<Rightarrow>
                            (let s = emit (Cloexec p1) (emit (Cloexec p0) s);
                                 (s, sd) = activate_start s (sd\<lparr>logpipe := (p0, p1)\<rparr>)
                             in (s, sd, 0)))
                     else (let (s, sd) = activate_start s sd in (s, sd, 0)))))"

definition perpd_svdef_keep :: "svdef \<Rightarrow> u8 list \<Rightarrow> svdef" where
  "perpd_svdef_keep sd svdir = set_name svdir (sv_set SVDEF_FLAG_ACTIVE sd)"

text \<open>The target of the last attempt, retried when it failed.\<close>

definition retry_target :: "subsv \<Rightarrow> target" where
  "retry_target ss = (if sub_has ss SUBSV_FLAG_ISRESET then SVRUN_RESET else SVRUN_START)"

definition perpd_svdef_checkfail :: "sys \<Rightarrow> svdef \<Rightarrow> sys \<times> svdef" where
  "perpd_svdef_checkfail s sd =
     (if \<not> sv_has sd SVDEF_FLAG_ACTIVE then (s, sd)
      else
        (let (s, sd) = (if sv_has sd SVDEF_FLAG_HASLOG \<and> sub_has (svpair sd SUBSV_LOG) SUBSV_FLAG_FAILING
                        then (let (s, sd, r) = perpd_svdef_run s sd SUBSV_LOG (retry_target (svpair sd SUBSV_LOG))
                              in (s, sd))
                        else (s, sd))
         in if sub_has (svpair sd SUBSV_MAIN) SUBSV_FLAG_FAILING
            then (let (s, sd, r) = perpd_svdef_run s sd SUBSV_MAIN (retry_target (svpair sd SUBSV_MAIN))
                  in (s, sd))
            else (s, sd)))"

definition perpd_svdef_wantcull :: "sys \<Rightarrow> svdef \<Rightarrow> sys \<times> svdef \<times> int" where
  "perpd_svdef_wantcull s sd =
     (let sd = sv_set SVDEF_FLAG_CULL sd;
          sd = set_svpair SUBSV_MAIN (sub_set SUBSV_FLAG_WANTDOWN) sd;
          sd = (if sv_has sd SVDEF_FLAG_HASLOG then set_svpair SUBSV_LOG (sub_set SUBSV_FLAG_WANTDOWN) sd else sd);
          ss = svpair sd SUBSV_MAIN
      in if pid ss > 0 then
           (let s = (if \<not> sub_has ss SUBSV_FLAG_ISRESET then emit (Kill (pid ss) SIGTERM) s else s);
                sd = set_svpair SUBSV_MAIN (sub_clr SUBSV_FLAG_ISPAUSED) sd
            in (emit (Kill (pid ss) SIGCONT) s, sd, 0))
         else
           (let ss = svpair sd SUBSV_LOG
            in if sv_has sd SVDEF_FLAG_HASLOG \<and> pid ss > 0 then
                 (let s = (if \<not> sub_has ss SUBSV_FLAG_ISRESET
                           then emit (Kill (pid ss) SIGTERM)
                                  (emit (Close (fst (logpipe sd))) (emit (Close (snd (logpipe sd))) s))
                           else s);
                      sd = set_svpair SUBSV_LOG (sub_clr SUBSV_FLAG_ISPAUSED) sd
                  in (emit (Kill (pid ss) SIGCONT) s, sd, 0))
               else (s, sd, 1)))"

definition perpd_svdef_cullok :: "svdef \<Rightarrow> bool" where
  "perpd_svdef_cullok sd =
     (if \<not> sv_has sd SVDEF_FLAG_CULL then False
      else if pid (svpair sd SUBSV_MAIN) > 0 then False
      else if sv_has sd SVDEF_FLAG_HASLOG \<and> pid (svpair sd SUBSV_LOG) > 0 then False
      else True)"


text \<open>The invariant of a service definition.\<close>

definition subsv_ok :: "subsv \<Rightarrow> bool" where
  "subsv_ok ss \<longleftrightarrow> 0 \<le> pid ss \<and> (sub_has ss SUBSV_FLAG_FAILING \<longrightarrow> pid ss = 0) \<and>
     tain_ok (sub_when ss) \<and> tain_ok (when_ok ss)"

definition svdef_ok :: "svdef \<Rightarrow> bool" where
  "svdef_ok sd \<longleftrightarrow>
     length (svname sd) = 32 \<and> 0 \<in> set (svname sd) \<and>
     subsv_ok (sv_main sd) \<and> subsv_ok (sv_log sd) \<and>
     (\<not> sv_has sd SVDEF_FLAG_HASLOG \<longrightarrow> pid (sv_log sd) = 0) \<and>
     (sv_has sd SVDEF_FLAG_CULL \<longrightarrow>
        sub_has (sv_main sd) SUBSV_FLAG_WANTDOWN \<and>
        (sv_has sd SVDEF_FLAG_HASLOG \<longrightarrow> sub_has (sv_log sd) SUBSV_FLAG_WANTDOWN))"

definition ident :: "svdef \<Rightarrow> u64 \<times> u64" where
  "ident sd = (dev sd, ino sd)"

section \<open>Running a service\<close>

lemma set_svpair_comp [simp]: "set_svpair w f (set_svpair w g sd) = set_svpair w (\<lambda>ss. f (g ss)) sd"
  by (cases w) simp_all

lemma set_svpair_id [simp]: "set_svpair w (\<lambda>ss. ss) sd = sd"
  by (cases w) simp_all

lemma set_svpair_cong: "f (svpair sd w) = g (svpair sd w) \<Longrightarrow> set_svpair w f sd = set_svpair w g sd"
  by (cases w) simp_all

text \<open>The condition under which \<open>perpd_svdef_run\<close> does nothing.\<close>

definition run_skips :: "svdef \<Rightarrow> which \<Rightarrow> bool" where
  "run_skips sd wh \<longleftrightarrow> (wh = SUBSV_LOG \<and> \<not> sv_has sd SVDEF_FLAG_HASLOG) \<or> 0 < pid (svpair sd wh)"

definition run_wait :: "target \<Rightarrow> tain \<Rightarrow> tain \<Rightarrow> tain" where
  "run_wait tgt t ok = (if tgt = SVRUN_START \<and> tain_less t ok then tain_minus ok t else Tain 0 0)"

definition target_flags :: "target \<Rightarrow> u8 \<Rightarrow> u8" where
  "target_flags tgt fl =
     clr_flag (case tgt of SVRUN_RESET \<Rightarrow> set_flag fl SUBSV_FLAG_ISRESET | SVRUN_START \<Rightarrow> clr_flag fl SUBSV_FLAG_ISRESET)
       SUBSV_FLAG_FAILING"

definition run_failed :: "target \<Rightarrow> subsv \<Rightarrow> subsv" where
  "run_failed tgt ss = ss\<lparr>pid := 0, wstat := 0,
     sub_bitflags := set_flag (target_flags tgt (sub_bitflags ss)) SUBSV_FLAG_FAILING\<rparr>"

definition run_started :: "target \<Rightarrow> tain \<Rightarrow> int \<Rightarrow> subsv \<Rightarrow> subsv" where
  "run_started tgt t r ss = ss\<lparr>pid := r, wstat := 0, sub_bitflags := target_flags tgt (sub_bitflags ss), sub_when := t,
     when_ok := (if tgt = SVRUN_START then tain_plus (tain_plus t (Tain 1 0)) (run_wait tgt t (when_ok ss)) else when_ok ss)\<rparr>"

lemma tain_assign_id [simp]: "tain_assign t = t"
  by (simp add: tain_assign_def)

lemma svdef_run_skip: "run_skips sd wh \<Longrightarrow> perpd_svdef_run s sd wh tgt = (s, sd, 0)"
  by (auto simp: run_skips_def perpd_svdef_run_def)

lemma svdef_run_go:
  assumes "\<not> run_skips sd wh"
  shows "perpd_svdef_run s sd wh tgt =
    (let t = tain_now (os_time s (ticks s)); r = os_fork s (forks s); w = run_wait tgt t (when_ok (svpair sd wh));
         prog = svrun_prog (signo_defs s) wh tgt (cstr_of (svname sd)) 0;
         s' = fst (fork prog w (fst (now s)))
     in if r = -1 then (perpd_trigger_fail s', set_svpair wh (run_failed tgt) sd, -1)
        else (s', set_svpair wh (run_started tgt t r) sd, 0))"
proof -
  note defs = perpd_svdef_run_def run_skips_def run_failed_def run_started_def run_wait_def target_flags_def now_def fork_def
    Let_def tain_load_def
  show ?thesis
    using assms
    by (cases tgt; cases "os_fork s (forks s) = -1"; simp add: defs del: set_svpair.simps)
      (auto intro!: set_svpair_cong subsv.equality simp: defs simp del: set_svpair.simps)
qed

lemma svdef_run_cases:
  assumes "perpd_svdef_run s sd wh tgt = (s', sd', r)"
  obtains (skip) "run_skips sd wh" "s' = s" "sd' = sd" "r = 0"
  | (failed) "\<not> run_skips sd wh" "os_fork s (forks s) = -1" "sd' = set_svpair wh (run_failed tgt) sd" "r = -1" "later s s'"
  | (started) t p where "\<not> run_skips sd wh" "p = os_fork s (forks s)" "p \<noteq> -1" "t = tain_now (os_time s (ticks s))"
      "sd' = set_svpair wh (run_started tgt t p) sd" "r = 0" "later s s'"
proof (cases "run_skips sd wh")
  case True
  then show ?thesis using assms by (intro skip) (simp_all add: svdef_run_skip)
next
  case False
  have l: "later s (fst (fork prog w (fst (now s))))" for prog w
    by (rule later_trans [OF later_now later_fork])
  show ?thesis
  proof (cases "os_fork s (forks s) = -1")
    case True
    then show ?thesis
      using assms False l by (intro failed) (auto simp: svdef_run_go Let_def intro: later_trans [OF l later_trigger(1)])
  next
    case f: False
    then show ?thesis
      using assms False l by (intro started) (auto simp: svdef_run_go Let_def)
  qed
qed

lemma target_flags_has [flag_simps]:
  "has_flag (target_flags tgt fl) SUBSV_FLAG_ISRESET \<longleftrightarrow> tgt = SVRUN_RESET"
  "\<not> has_flag (target_flags tgt fl) SUBSV_FLAG_FAILING"
  "has_flag (target_flags tgt fl) SUBSV_FLAG_WANTDOWN = has_flag fl SUBSV_FLAG_WANTDOWN"
  "has_flag (target_flags tgt fl) SUBSV_FLAG_ISPAUSED = has_flag fl SUBSV_FLAG_ISPAUSED"
  "has_flag (target_flags tgt fl) SUBSV_FLAG_ISONCE = has_flag fl SUBSV_FLAG_ISONCE"
  by (cases tgt; simp add: target_flags_def flag_simps)+

lemma tain_small_ok [simp]: "tain_ok (Tain u 0)"
  by (simp add: tain_ok_def)

lemma run_wait_ok: "tain_ok t \<Longrightarrow> tain_ok ok \<Longrightarrow> tain_ok (run_wait tgt t ok)"
  by (auto simp: run_wait_def tain.minus_ok)

lemma now_ok: "os_ok s \<Longrightarrow> tain_ok (tain_now (os_time s i))"
  using tain_now_ok [of "snd (os_time s i)" "fst (os_time s i)"] by (simp add: os_ok_def)

lemma run_failed_ok: "subsv_ok ss \<Longrightarrow> subsv_ok (run_failed tgt ss)"
  by (simp add: subsv_ok_def run_failed_def)

lemma run_started_ok: "subsv_ok ss \<Longrightarrow> tain_ok t \<Longrightarrow> 0 < p \<Longrightarrow> subsv_ok (run_started tgt t p ss)"
  by (auto simp: subsv_ok_def run_started_def flag_simps tain.plus_ok run_wait_ok)

lemma run_wantdown [flag_simps]:
  "sub_has (run_failed tgt ss) SUBSV_FLAG_WANTDOWN = sub_has ss SUBSV_FLAG_WANTDOWN"
  "sub_has (run_started tgt t p ss) SUBSV_FLAG_WANTDOWN = sub_has ss SUBSV_FLAG_WANTDOWN"
  by (simp_all add: run_failed_def run_started_def flag_simps)

lemma svdef_okI_update:
  assumes "svdef_ok sd" and "subsv_ok (f (svpair sd wh))"
    and "sub_has (svpair sd wh) SUBSV_FLAG_WANTDOWN \<Longrightarrow> sub_has (f (svpair sd wh)) SUBSV_FLAG_WANTDOWN"
    and "wh = SUBSV_LOG \<Longrightarrow> \<not> sv_has sd SVDEF_FLAG_HASLOG \<Longrightarrow> pid (f (svpair sd wh)) = 0"
  shows "svdef_ok (set_svpair wh f sd)"
  using assms by (cases wh) (auto simp: svdef_ok_def)

lemma svdef_run_keeps:
  assumes "perpd_svdef_run s sd wh tgt = (s', sd', r)" and "os_ok s" and "svdef_ok sd"
  shows "svdef_ok sd'" and "ident sd' = ident sd" and "later s s'" and "sv_bitflags sd' = sv_bitflags sd"
proof -
  have sub: "subsv_ok (svpair sd wh)" using assms(3) by (cases wh) (auto simp: svdef_ok_def)
  show "svdef_ok sd'"
    using assms(1)
  proof (cases rule: svdef_run_cases)
    case failed
    then show ?thesis
      using assms(3) sub by (auto intro!: svdef_okI_update run_failed_ok simp: flag_simps run_skips_def)
  next
    case (started t p)
    then have "0 < p" "tain_ok t" using assms(2) now_ok by (auto simp: os_ok_def)
    with started show ?thesis
      using assms(3) sub by (auto intro!: svdef_okI_update run_started_ok simp: flag_simps run_skips_def)
  qed (use assms in simp)
  show "ident sd' = ident sd" "later s s'" "sv_bitflags sd' = sv_bitflags sd"
    using assms(1) by (cases rule: svdef_run_cases; simp add: ident_def)+
qed


section \<open>The contract of the operations\<close>

lemma cstr_of_store: "0 \<notin> set z \<Longrightarrow> cstr_of (store_cstr b 0 z) = z"
proof -
  assume "0 \<notin> set z"
  then have "takeWhile (\<lambda>c. c \<noteq> 0) (z @ 0 # r) = z" for r
    by (subst takeWhile_append2) auto
  then show ?thesis by (simp add: cstr_of_def store_cstr_def)
qed

lemma set_name_spec:
  assumes "length (svname sd) = 32" and "0 \<notin> set svdir"
  shows "set_name svdir sd = sd\<lparr>svname := store_cstr (svname sd) 0 (take 31 svdir)\<rparr>"
proof -
  have "cstr_at (cstring svdir) 0 svdir" using assms(2) by (rule cstr_at_zero)
  then have "cstr_lcpy (svname sd) 0 (cstring svdir) 0 32 =
      Some (store_cstr (svname sd) 0 (take (32 - 1) svdir), length svdir)"
    using assms(1) by (intro cstr_lcpy_spec) auto
  then show ?thesis by (simp add: set_name_def)
qed

lemma store_name_ok: "length b = 32 \<Longrightarrow> length (store_cstr b 0 (take 31 z)) = 32 \<and> 0 \<in> set (store_cstr b 0 (take 31 z))"
  by (simp add: store_cstr_def)

lemma path_buf_spec:
  assumes "\<forall>p \<in> set parts. 0 \<notin> set p" and "length (concat parts) < 256" and "parts \<noteq> []"
  shows "path_buf parts = concat parts"
proof -
  have "args_at (map (\<lambda>p. (cstring p, 0)) parts) parts"
    using assms(1) by (auto simp: args_at_def list_all2_conv_all_nth intro!: cstr_at_zero)
  then have "cstr_vcopy_loop (replicate 256 0) 0 (map (\<lambda>p. (cstring p, 0)) parts) =
      Some (store_cstr (replicate 256 0) 0 (concat parts), length (concat parts))"
    using assms cstr_vcopy_loop_spec [of "map (\<lambda>p. (cstring p, 0)) parts" parts 0 "replicate 256 0"] by simp
  then show ?thesis
    using assms(1,3) by (auto simp: path_buf_def cstr_vcopy_def cstr_of_store split: list.split)
qed


lemma svdef_keep_ok:
  assumes "svdef_ok sd" and "0 \<notin> set svdir"
  shows "svdef_ok (perpd_svdef_keep sd svdir) \<and> ident (perpd_svdef_keep sd svdir) = ident sd \<and>
    sv_has (perpd_svdef_keep sd svdir) SVDEF_FLAG_ACTIVE"
proof -
  have "perpd_svdef_keep sd svdir =
      (sv_set SVDEF_FLAG_ACTIVE sd)\<lparr>svname := store_cstr (svname sd) 0 (take 31 svdir)\<rparr>"
    using assms by (simp add: perpd_svdef_keep_def set_name_spec svdef_ok_def)
  moreover have "length (svname sd) = 32" using assms(1) by (simp add: svdef_ok_def)
  ultimately show ?thesis
    using assms(1) store_name_ok [of "svname sd" svdir] by (simp add: svdef_ok_def ident_def flag_simps)
qed

lemma svdef_checkfail_keeps:
  assumes "perpd_svdef_checkfail s sd = (s', sd')" and "os_ok s" and "svdef_ok sd"
  shows "later s s'" and "svdef_ok sd'" and "ident sd' = ident sd" and "sv_bitflags sd' = sv_bitflags sd"
proof -
  obtain s1 sd1 where l: "(if sv_has sd SVDEF_FLAG_HASLOG \<and> sub_has (svpair sd SUBSV_LOG) SUBSV_FLAG_FAILING
      then (let (s, sd, r) = perpd_svdef_run s sd SUBSV_LOG (retry_target (svpair sd SUBSV_LOG)) in (s, sd))
      else (s, sd)) = (s1, sd1)"
    by (rule prod.exhaust)
  have k1: "later s s1 \<and> svdef_ok sd1 \<and> ident sd1 = ident sd \<and> sv_bitflags sd1 = sv_bitflags sd"
    using l assms(2,3) svdef_run_keeps by (auto split: if_splits prod.splits)
  then have "os_ok s1" using assms(2) later_os_ok by blast
  then have k2: "later s1 s2 \<and> svdef_ok sd2 \<and> ident sd2 = ident sd1 \<and> sv_bitflags sd2 = sv_bitflags sd1"
    if "perpd_svdef_run s1 sd1 SUBSV_MAIN tgt = (s2, sd2, r)" for s2 sd2 tgt r
    using svdef_run_keeps [OF that] k1 by blast
  have "later s s' \<and> svdef_ok sd' \<and> ident sd' = ident sd \<and> sv_bitflags sd' = sv_bitflags sd"
    using assms(1,3) k1 k2 later_trans unfolding perpd_svdef_checkfail_def l
    by (fastforce split: if_splits prod.splits)
  then show "later s s'" "svdef_ok sd'" "ident sd' = ident sd" "sv_bitflags sd' = sv_bitflags sd" by auto
qed

text \<open>The definition that \<open>perpd_svdef_wantcull\<close> leaves behind, apart from the pause flag.\<close>

lemma subsv_ok_flags:
  "subsv_ok ss \<Longrightarrow> subsv_ok (sub_set SUBSV_FLAG_WANTDOWN ss)"
  "subsv_ok ss \<Longrightarrow> subsv_ok (sub_clr SUBSV_FLAG_ISPAUSED ss)"
  "subsv_ok ss \<Longrightarrow> subsv_ok (sub_clr SUBSV_FLAG_WANTDOWN ss)"
  "subsv_ok ss \<Longrightarrow> subsv_ok (sub_clr SUBSV_FLAG_ISONCE ss)"
  "subsv_ok ss \<Longrightarrow> subsv_ok (sub_set SUBSV_FLAG_ISONCE ss)"
  "subsv_ok ss \<Longrightarrow> subsv_ok (sub_set SUBSV_FLAG_ISPAUSED ss)"
  "subsv_ok ss \<Longrightarrow> subsv_ok (sub_set SUBSV_FLAG_ISLOG ss)"
  by (auto simp: subsv_ok_def flag_simps)

lemma later_emit_trans: "a \<noteq> Drain \<Longrightarrow> later s s' \<Longrightarrow> later s (emit a s')"
  using later_trans later_emit by blast

lemma svdef_wantcull_keeps:
  assumes "perpd_svdef_wantcull s sd = (s', sd', r)" and "svdef_ok sd"
  shows "later s s'" and "svdef_ok sd'" and "ident sd' = ident sd"
    and "sv_bitflags sd' = set_flag (sv_bitflags sd) SVDEF_FLAG_CULL"
    and "pid (svpair sd' w) = pid (svpair sd w)"
    and "sub_has (svpair sd' w) SUBSV_FLAG_ISRESET = sub_has (svpair sd w) SUBSV_FLAG_ISRESET"
proof -
  show "later s s'"
    using assms(1) by (auto simp: perpd_svdef_wantcull_def Let_def later_emit_trans split: if_splits)
  show "svdef_ok sd'"
    using assms by (auto simp: perpd_svdef_wantcull_def svdef_ok_def Let_def flag_simps subsv_ok_flags split: if_splits)
  show "ident sd' = ident sd" "sv_bitflags sd' = set_flag (sv_bitflags sd) SVDEF_FLAG_CULL"
    using assms(1) by (auto simp: perpd_svdef_wantcull_def ident_def Let_def split: if_splits)
  show "pid (svpair sd' w) = pid (svpair sd w)"
    "sub_has (svpair sd' w) SUBSV_FLAG_ISRESET = sub_has (svpair sd w) SUBSV_FLAG_ISRESET"
    using assms(1)
    by (cases w; auto simp: perpd_svdef_wantcull_def Let_def flag_simps split: if_splits)+
qed

lemma wantcull_ready:
  assumes "perpd_svdef_wantcull s sd = (s', sd', r)" and "svdef_ok sd"
  shows "sv_has sd' SVDEF_FLAG_CULL" and "r = 0 \<or> r = 1" and "r = 1 \<longleftrightarrow> perpd_svdef_cullok sd'"
proof -
  show "sv_has sd' SVDEF_FLAG_CULL" using svdef_wantcull_keeps(4) [OF assms] by (simp add: flag_simps)
  show "r = 0 \<or> r = 1" "r = 1 \<longleftrightarrow> perpd_svdef_cullok sd'"
    using assms(1) by (auto simp: perpd_svdef_wantcull_def perpd_svdef_cullok_def Let_def flag_simps split: if_splits)
qed

interpretation checkfail: entry_op os_ok later svdef_ok ident perpd_svdef_checkfail
  by unfold_locales (auto intro: later_trans later_os_ok dest: svdef_checkfail_keeps)

text \<open>The shutdown loop of the main loop counts the services that are down already.\<close>

definition cull_step :: "sys \<times> nat \<Rightarrow> svdef \<Rightarrow> (sys \<times> nat) \<times> svdef" where
  "cull_step sg sd =
     (let (s, sd, r) = perpd_svdef_wantcull (fst sg) sd
      in ((s, if r = 1 then snd sg + 1 else snd sg), sd))"

definition later_count :: "sys \<times> nat \<Rightarrow> sys \<times> nat \<Rightarrow> bool" where
  "later_count a b \<longleftrightarrow> later (fst a) (fst b) \<and> snd a \<le> snd b"

interpretation wantcull: entry_op "\<lambda>sg. os_ok (fst sg)" later_count svdef_ok ident cull_step
proof
  fix sg :: "sys \<times> nat" and sd sg' sd'
  assume a: "svdef_ok sd" "cull_step sg sd = (sg', sd')"
  then obtain r where r: "perpd_svdef_wantcull (fst sg) sd = (fst sg', sd', r)" "snd sg \<le> snd sg'"
    by (auto simp: cull_step_def split: prod.splits if_splits)
  show "later_count sg sg'" "svdef_ok sd'" "ident sd' = ident sd"
    using svdef_wantcull_keeps [OF r(1) a(1)] r(2) by (auto simp: later_count_def)
qed (auto simp: later_count_def intro: later_trans later_os_ok)


section \<open>Activation\<close>

lemma svdef_ok_subflag:
  assumes "svdef_ok sd" and "f \<in> {SUBSV_FLAG_ISLOG, SUBSV_FLAG_ISONCE, SUBSV_FLAG_WANTDOWN, SUBSV_FLAG_ISPAUSED}"
  shows "svdef_ok (set_svpair wh (sub_set f) sd)"
  using assms by (cases wh) (auto simp: svdef_ok_def flag_simps subsv_ok_flags)

lemma activate_start_keeps:
  assumes "activate_start s sd = (s', sd')" and "os_ok s" and "svdef_ok sd"
  shows "later s s' \<and> svdef_ok sd' \<and> ident sd' = ident sd \<and> sv_bitflags sd' = sv_bitflags sd"
proof -
  let ?sl = "set_svpair SUBSV_LOG (sub_set SUBSV_FLAG_ISLOG) sd"
  obtain s1 sd1 where l: "(if sv_has sd SVDEF_FLAG_HASLOG
      then (let (s, sd, _) = perpd_svdef_run s ?sl SUBSV_LOG SVRUN_START in (s, sd))
      else (s, sd)) = (s1, sd1)"
    by (rule prod.exhaust)
  have "svdef_ok ?sl" using assms(3) by (intro svdef_ok_subflag) auto
  then have k1: "later s s1 \<and> svdef_ok sd1 \<and> ident sd1 = ident sd \<and> sv_bitflags sd1 = sv_bitflags sd"
  proof (cases "sv_has sd SVDEF_FLAG_HASLOG")
    case True
    then obtain r where "perpd_svdef_run s ?sl SUBSV_LOG SVRUN_START = (s1, sd1, r)"
      using l by (auto split: prod.splits)
    from svdef_run_keeps [OF this assms(2) \<open>svdef_ok ?sl\<close>] show ?thesis by (simp add: ident_def)
  qed (use l assms(3) in simp)
  then have os: "os_ok s1" using assms(2) later_os_ok by blast
  have flag: "svdef_ok (set_svpair SUBSV_MAIN (sub_set SUBSV_FLAG_WANTDOWN) sd1)"
    "svdef_ok (set_svpair SUBSV_MAIN (sub_set SUBSV_FLAG_ISONCE) sd1)"
    using k1 by (simp_all add: svdef_ok_subflag del: set_svpair.simps)
  have main: "later s1 s2 \<and> svdef_ok sd2 \<and> ident sd2 = ident sdm \<and> sv_bitflags sd2 = sv_bitflags sdm"
    if "perpd_svdef_run s1 sdm SUBSV_MAIN SVRUN_START = (s2, sd2, r)" "svdef_ok sdm" for s2 sd2 sdm r
    using svdef_run_keeps [OF that(1) os that(2)] by blast
  show ?thesis
  proof (cases "sv_has sd1 SVDEF_FLAG_DOWN")
    case True
    then show ?thesis
      using assms(1) k1 flag(1) unfolding activate_start_def l by (auto simp: ident_def)
  next
    case False
    define sdm where "sdm = (if sv_has sd1 SVDEF_FLAG_ONCE then set_svpair SUBSV_MAIN (sub_set SUBSV_FLAG_ISONCE) sd1 else sd1)"
    obtain r where "perpd_svdef_run s1 sdm SUBSV_MAIN SVRUN_START = (s', sd', r)"
      using assms(1) False unfolding activate_start_def l sdm_def by (auto simp: Let_def split: prod.splits)
    moreover have "svdef_ok sdm" "ident sdm = ident sd1" "sv_bitflags sdm = sv_bitflags sd1"
      using k1 flag(2) by (auto simp: sdm_def ident_def)
    ultimately show ?thesis using main k1 later_trans by metis
  qed
qed

lemma inspect_svdir_flags:
  "sv_has (inspect_svdir env svdir sd) SVDEF_FLAG_CULL = sv_has sd SVDEF_FLAG_CULL"
  "sv_has (inspect_svdir env svdir sd) SVDEF_FLAG_ACTIVE = sv_has sd SVDEF_FLAG_ACTIVE"
  "sv_main (inspect_svdir env svdir sd) = sv_main sd" "sv_log (inspect_svdir env svdir sd) = sv_log sd"
  "svname (inspect_svdir env svdir sd) = svname sd" "dev (inspect_svdir env svdir sd) = dev sd"
  "ino (inspect_svdir env svdir sd) = ino sd" "fd_dir (inspect_svdir env svdir sd) = fd_dir sd"
  by (auto simp: inspect_svdir_def Let_def flag_simps ident_def split: option.split)

lemma subsv_zero_simps [simp]: "subsv_ok subsv_zero" "pid subsv_zero = 0"
  by (auto simp: subsv_ok_def subsv_zero_def flag_simps)

lemma fresh_ok:
  assumes "svname sd = store_cstr (replicate 32 0) 0 (take 31 svdir)" and "sv_main sd = subsv_zero" and "sv_log sd = subsv_zero"
    and "\<not> sv_has sd SVDEF_FLAG_CULL"
  shows "svdef_ok sd"
  using assms store_name_ok [of "replicate 32 0" svdir] by (simp add: svdef_ok_def)

lemma name_too_long_iff: "0 \<notin> set svdir \<Longrightarrow> name_too_long svdir \<longleftrightarrow> 240 < length svdir"
  using cstr_len_spec [OF cstr_at_zero, of svdir "[]"] by (simp add: name_too_long_def)

lemma path_buf_svdir:
  assumes "0 \<notin> set svdir" and "length svdir \<le> 240" and "0 \<notin> set f" and "length f \<le> 10"
  shows "path_buf [bytes ''./'', svdir, f] = bytes ''./'' @ svdir @ f"
    and "path_buf [bytes ''./'', svdir] = bytes ''./'' @ svdir"
  using path_buf_spec [of "[bytes ''./'', svdir, f]"] path_buf_spec [of "[bytes ''./'', svdir]"] assms
  by (simp_all add: bytes_def)

text \<open>The facts of the file system that activation reads.\<close>

definition svfile :: "svdir_env \<Rightarrow> u8 list \<Rightarrow> string \<Rightarrow> nat option" where
  "svfile env svdir f = env_stat env (bytes ''./'' @ svdir @ bytes f)"

definition haslog :: "svdir_env \<Rightarrow> u8 list \<Rightarrow> bool" where
  "haslog env svdir = (case svfile env svdir ''/rc.log'' of Some m \<Rightarrow> S_IXUSR m | None \<Rightarrow> False)"

lemma inspect_svdir_finds:
  assumes "0 \<notin> set svdir" and "length svdir \<le> 240" and "\<not> sv_has sd SVDEF_FLAG_HASLOG" and "\<not> sv_has sd SVDEF_FLAG_DOWN" and "\<not> sv_has sd SVDEF_FLAG_ONCE"
  shows "sv_has (inspect_svdir env svdir sd) SVDEF_FLAG_HASLOG \<longleftrightarrow> haslog env svdir"
    and "sv_has (inspect_svdir env svdir sd) SVDEF_FLAG_DOWN \<longleftrightarrow> svfile env svdir ''/flag.down'' \<noteq> None"
    and "sv_has (inspect_svdir env svdir sd) SVDEF_FLAG_ONCE \<longleftrightarrow> svfile env svdir ''/flag.once'' \<noteq> None"
proof -
  have p: "path_buf [bytes ''./'', svdir, bytes ''/rc.log''] = bytes ''./'' @ svdir @ bytes ''/rc.log''"
    "path_buf [bytes ''./'', svdir, bytes ''/flag.down''] = bytes ''./'' @ svdir @ bytes ''/flag.down''"
    "path_buf [bytes ''./'', svdir, bytes ''/flag.once''] = bytes ''./'' @ svdir @ bytes ''/flag.once''"
    by (rule path_buf_svdir; use assms in \<open>simp add: bytes_def\<close>)+
  show "sv_has (inspect_svdir env svdir sd) SVDEF_FLAG_HASLOG \<longleftrightarrow> haslog env svdir"
    "sv_has (inspect_svdir env svdir sd) SVDEF_FLAG_DOWN \<longleftrightarrow> svfile env svdir ''/flag.down'' \<noteq> None"
    "sv_has (inspect_svdir env svdir sd) SVDEF_FLAG_ONCE \<longleftrightarrow> svfile env svdir ''/flag.once'' \<noteq> None"
    using assms(3-5)
    by (auto simp: inspect_svdir_def Let_def p haslog_def svfile_def flag_simps split: option.splits)
qed

text \<open>A process whose start was attempted with the flags \<open>fl\<close>: it runs, or it is marked for a retry.\<close>

definition attempted :: "u8 \<Rightarrow> subsv \<Rightarrow> bool" where
  "attempted fl ss \<longleftrightarrow> (0 < pid ss \<and> sub_bitflags ss = fl) \<or> (pid ss = 0 \<and> sub_bitflags ss = set_flag fl SUBSV_FLAG_FAILING)"

lemma target_flags_start: "fl \<in> {0, SUBSV_FLAG_ISLOG, SUBSV_FLAG_ISONCE} \<Longrightarrow> target_flags SVRUN_START fl = fl"
  by (auto simp: target_flags_def clr_flag_def subflag_defs)

lemma run_attempted:
  assumes "perpd_svdef_run s sd wh SVRUN_START = (s', sd', r)" and "os_ok s" and "\<not> run_skips sd wh"
    and "sub_bitflags (svpair sd wh) = fl" and "fl \<in> {0, SUBSV_FLAG_ISLOG, SUBSV_FLAG_ISONCE}"
  shows "attempted fl (svpair sd' wh) \<and> (\<forall>w. w \<noteq> wh \<longrightarrow> svpair sd' w = svpair sd w) \<and> sv_bitflags sd' = sv_bitflags sd \<and> later s s' \<and>
    logpipe sd' = logpipe sd \<and> fd_dir sd' = fd_dir sd \<and> svname sd' = svname sd"
proof -
  have "0 < pid ss \<and> sub_bitflags ss = fl \<Longrightarrow> attempted fl ss" "pid ss = 0 \<and> sub_bitflags ss = set_flag fl SUBSV_FLAG_FAILING \<Longrightarrow> attempted fl ss" for ss
    by (simp_all add: attempted_def)
  with assms(1) show ?thesis
    by (cases rule: svdef_run_cases)
      (use assms(2-4) target_flags_start [OF assms(5)] in \<open>auto simp: run_failed_def run_started_def os_ok_def set_svpair_fields\<close>)
qed

lemma activate_start_main:
  assumes "activate_start s sd = (s', sd')" and "os_ok s" and "sv_main sd = subsv_zero" and "sv_log sd = subsv_zero"
  shows "svname sd' = svname sd \<and> fd_dir sd' = fd_dir sd \<and> logpipe sd' = logpipe sd \<and>
    (if sv_has sd SVDEF_FLAG_HASLOG then attempted SUBSV_FLAG_ISLOG (sv_log sd') else sv_log sd' = subsv_zero) \<and>
    (if sv_has sd SVDEF_FLAG_DOWN then sv_main sd' = subsv_zero\<lparr>sub_bitflags := SUBSV_FLAG_WANTDOWN\<rparr>
     else attempted (if sv_has sd SVDEF_FLAG_ONCE then SUBSV_FLAG_ISONCE else 0) (sv_main sd'))"
proof -
  let ?sl = "set_svpair SUBSV_LOG (sub_set SUBSV_FLAG_ISLOG) sd"
  obtain s1 sd1 where l: "(if sv_has sd SVDEF_FLAG_HASLOG
      then (let (s, sd, _) = perpd_svdef_run s ?sl SUBSV_LOG SVRUN_START in (s, sd))
      else (s, sd)) = (s1, sd1)"
    by (rule prod.exhaust)
  have z: "set_flag 0 fl = fl" "sub_bitflags subsv_zero = 0" for fl :: u8 by (simp_all add: set_flag_def subsv_zero_def)
  have k1: "svname sd1 = svname sd \<and> fd_dir sd1 = fd_dir sd \<and> logpipe sd1 = logpipe sd \<and> sv_main sd1 = subsv_zero \<and> sv_bitflags sd1 = sv_bitflags sd \<and> later s s1 \<and>
      (if sv_has sd SVDEF_FLAG_HASLOG then attempted SUBSV_FLAG_ISLOG (sv_log sd1) else sv_log sd1 = subsv_zero)"
  proof (cases "sv_has sd SVDEF_FLAG_HASLOG")
    case True
    then obtain r where r: "perpd_svdef_run s ?sl SUBSV_LOG SVRUN_START = (s1, sd1, r)"
      using l by (auto split: prod.splits)
    have ns: "\<not> run_skips ?sl SUBSV_LOG" using True assms(4) by (simp add: run_skips_def sub_set_def)
    have fl: "sub_bitflags (svpair ?sl SUBSV_LOG) = SUBSV_FLAG_ISLOG" using assms(4) z by (simp add: sub_set_def)
    have "attempted SUBSV_FLAG_ISLOG (svpair sd1 SUBSV_LOG) \<and> (\<forall>w. w \<noteq> SUBSV_LOG \<longrightarrow> svpair sd1 w = svpair ?sl w) \<and> sv_bitflags sd1 = sv_bitflags ?sl \<and> later s s1 \<and>
        logpipe sd1 = logpipe ?sl \<and> fd_dir sd1 = fd_dir ?sl \<and> svname sd1 = svname ?sl"
      by (rule run_attempted [OF r assms(2) ns fl]) simp
    then show ?thesis using True assms(3) by (auto dest: spec [of _ SUBSV_MAIN])
  qed (use l assms in simp)
  define sdm where "sdm = (if sv_has sd1 SVDEF_FLAG_ONCE then set_svpair SUBSV_MAIN (sub_set SUBSV_FLAG_ISONCE) sd1 else sd1)"
  have sdm: "svname sdm = svname sd" "fd_dir sdm = fd_dir sd" "logpipe sdm = logpipe sd" "sv_log sdm = sv_log sd1"
      "sub_bitflags (svpair sdm SUBSV_MAIN) = (if sv_has sd SVDEF_FLAG_ONCE then SUBSV_FLAG_ISONCE else 0)" "\<not> run_skips sdm SUBSV_MAIN"
    using k1 z by (auto simp: sdm_def sub_set_def run_skips_def)
  have os1: "os_ok s1" using k1 assms(2) later_os_ok by blast
  show ?thesis
  proof (cases "sv_has sd1 SVDEF_FLAG_DOWN")
    case True
    then show ?thesis using assms(1) k1 z unfolding activate_start_def l by (auto simp: sub_set_def)
  next
    case False
    obtain r where r: "perpd_svdef_run s1 sdm SUBSV_MAIN SVRUN_START = (s', sd', r)"
      using assms(1) False unfolding activate_start_def l sdm_def by (auto simp: Let_def split: prod.splits)
    let ?fl = "if sv_has sd SVDEF_FLAG_ONCE then SUBSV_FLAG_ISONCE else 0"
    have "attempted ?fl (svpair sd' SUBSV_MAIN) \<and> (\<forall>w. w \<noteq> SUBSV_MAIN \<longrightarrow> svpair sd' w = svpair sdm w) \<and> sv_bitflags sd' = sv_bitflags sdm \<and> later s1 s' \<and>
        logpipe sd' = logpipe sdm \<and> fd_dir sd' = fd_dir sdm \<and> svname sd' = svname sdm"
      by (rule run_attempted [OF r os1 sdm(6,5)]) simp
    then show ?thesis using k1 sdm(1-4) False by (auto dest: spec [of _ SUBSV_LOG])
  qed
qed

lemma activate_cases:
  assumes "perpd_svdef_activate env s sd svdir st = (s', sd', r)" and "0 \<notin> set svdir"
  obtains (failed) "r = -1" "later s s'"
      "240 < length svdir \<or> env_open env (bytes ''./'' @ svdir) = -1 \<or> (haslog env svdir \<and> env_pipe env = None)"
  | (activated) s1 sd1 where "r = 0" "length svdir \<le> 240" "env_open env (bytes ''./'' @ svdir) \<noteq> -1"
      "haslog env svdir \<longrightarrow> env_pipe env \<noteq> None" "later s s1" "activate_start s1 sd1 = (s', sd')" "svdef_ok sd1"
      "sv_has sd1 SVDEF_FLAG_ACTIVE" "\<not> sv_has sd1 SVDEF_FLAG_CULL" "ident sd1 = (st_dev st, st_ino st)"
      "sv_main sd1 = subsv_zero" "cstr_of (svname sd1) = take 31 svdir"
      "sv_has sd1 SVDEF_FLAG_HASLOG \<longleftrightarrow> haslog env svdir"
      "sv_has sd1 SVDEF_FLAG_DOWN \<longleftrightarrow> svfile env svdir ''/flag.down'' \<noteq> None"
      "sv_has sd1 SVDEF_FLAG_ONCE \<longleftrightarrow> svfile env svdir ''/flag.once'' \<noteq> None"
      "sv_log sd1 = subsv_zero" "fd_dir sd1 = env_open env (bytes ''./'' @ svdir)" "haslog env svdir \<longrightarrow> env_pipe env = Some (logpipe sd1)"
proof (cases "length svdir \<le> 240")
  case False
  then show ?thesis
    using assms by (intro failed) (auto simp: perpd_svdef_activate_def name_too_long_iff Let_def)
next
  case True
  let ?sd0 = "set_name svdir ((perpd_svdef_clear sd)\<lparr>dev := st_dev st, ino := st_ino st\<rparr>)"
  define s1 where "s1 = fst (now s)"
  define fd where "fd = env_open env (bytes ''./'' @ svdir)"
  define sd1 where "sd1 = sv_set SVDEF_FLAG_ACTIVE (?sd0\<lparr>sv_when := snd (now s)\<rparr>)"
  define sd2 where "sd2 = inspect_svdir env svdir (sd1\<lparr>fd_dir := fd\<rparr>)"
  have sd0: "?sd0 = (perpd_svdef_clear sd)\<lparr>dev := st_dev st, ino := st_ino st,
      svname := store_cstr (replicate 32 0) 0 (take 31 svdir)\<rparr>"
    using assms(2) by (subst set_name_spec) (auto simp: perpd_svdef_clear_def)
  have f: "sv_has sd2 SVDEF_FLAG_ACTIVE" "\<not> sv_has sd2 SVDEF_FLAG_CULL" "ident sd2 = (st_dev st, st_ino st)"
    "sv_main sd2 = subsv_zero" "sv_log sd2 = subsv_zero" "svname sd2 = store_cstr (replicate 32 0) 0 (take 31 svdir)"
    "fd_dir sd2 = fd"
    unfolding sd2_def sd1_def sd0
    by (auto simp: inspect_svdir_flags flag_simps perpd_svdef_clear_def ident_def)
  have n: "cstr_of (svname sd2) = take 31 svdir"
    using f assms(2) by (simp add: cstr_of_store) (metis cstr_of_store in_set_takeD)
  have g: "sv_has sd2 SVDEF_FLAG_HASLOG \<longleftrightarrow> haslog env svdir"
    "sv_has sd2 SVDEF_FLAG_DOWN \<longleftrightarrow> svfile env svdir ''/flag.down'' \<noteq> None"
    "sv_has sd2 SVDEF_FLAG_ONCE \<longleftrightarrow> svfile env svdir ''/flag.once'' \<noteq> None"
  proof -
    have "\<not> sv_has (sd1\<lparr>fd_dir := fd\<rparr>) SVDEF_FLAG_HASLOG" "\<not> sv_has (sd1\<lparr>fd_dir := fd\<rparr>) SVDEF_FLAG_DOWN" "\<not> sv_has (sd1\<lparr>fd_dir := fd\<rparr>) SVDEF_FLAG_ONCE"
      unfolding sd1_def sd0 by (simp_all add: perpd_svdef_clear_def flag_simps)
    from inspect_svdir_finds [OF assms(2) True this, of env]
    show "sv_has sd2 SVDEF_FLAG_HASLOG \<longleftrightarrow> haslog env svdir"
      "sv_has sd2 SVDEF_FLAG_DOWN \<longleftrightarrow> svfile env svdir ''/flag.down'' \<noteq> None"
      "sv_has sd2 SVDEF_FLAG_ONCE \<longleftrightarrow> svfile env svdir ''/flag.once'' \<noteq> None"
      by (simp_all add: sd2_def)
  qed
  have ok2: "svdef_ok sd2" "svdef_ok (sd2\<lparr>logpipe := lp\<rparr>)" for lp
    using f fresh_ok [of sd2 svdir] fresh_ok [of "sd2\<lparr>logpipe := lp\<rparr>" svdir] by auto
  have l1: "later s s1" unfolding s1_def by (rule later_now)
  have le: "a \<noteq> Drain \<Longrightarrow> later s (emit a s1)" "a \<noteq> Drain \<Longrightarrow> b \<noteq> Drain \<Longrightarrow> later s (emit a (emit b s1))"
    "a \<noteq> Drain \<Longrightarrow> b \<noteq> Drain \<Longrightarrow> c \<noteq> Drain \<Longrightarrow> later s (emit a (emit b (emit c s1)))" for a b c
    using l1 by (simp_all add: later_emit_trans)
  have unf: "perpd_svdef_activate env s sd svdir st =
     (if fd = -1 then (s1, sd1, -1)
      else if haslog env svdir then
        (case env_pipe env of
           None \<Rightarrow> (emit (Close fd) (emit (Cloexec fd) s1), sd2, -1)
         | Some (p0, p1) \<Rightarrow>
             (let (s, sd) = activate_start (emit (Cloexec p1) (emit (Cloexec p0) (emit (Cloexec fd) s1))) (sd2\<lparr>logpipe := (p0, p1)\<rparr>)
              in (s, sd, 0)))
      else (let (s, sd) = activate_start (emit (Cloexec fd) s1) sd2 in (s, sd, 0)))"
    using True assms(2) unfolding g(1) [symmetric]
    by (simp add: perpd_svdef_activate_def name_too_long_iff path_buf_svdir(2) [of svdir "[]"]
        Let_def s1_def sd1_def sd2_def fd_def case_prod_beta split: option.split)
  show ?thesis
  proof (cases "fd = -1 \<or> (haslog env svdir \<and> env_pipe env = None)")
    case bad: True
    then show ?thesis
      using assms(1) l1 le unfolding unf by (intro failed) (auto simp: fd_def split: if_splits)
  next
    case good: False
    show ?thesis
    proof (cases "haslog env svdir")
      case log: True
      then obtain p0 p1 where p: "env_pipe env = Some (p0, p1)" using good by auto
      show ?thesis
        by (rule activated [of "emit (Cloexec p1) (emit (Cloexec p0) (emit (Cloexec fd) s1))" "sd2\<lparr>logpipe := (p0, p1)\<rparr>"])
          (use assms(1) good log p le ok2 f g n True in \<open>auto simp: unf ident_def fd_def split: prod.splits\<close>)
    next
      case nolog: False
      show ?thesis
        by (rule activated [of "emit (Cloexec fd) s1" sd2])
          (use assms(1) good nolog le ok2 f g n True in \<open>auto simp: unf fd_def split: prod.splits\<close>)
    qed
  qed
qed

lemma activate_ok:
  assumes "perpd_svdef_activate env s sd svdir st = (s', sd', r)" and "os_ok s" and "0 \<notin> set svdir"
  shows "later s s'" and "r = 0 \<or> r = -1"
    and "r = 0 \<Longrightarrow> svdef_ok sd' \<and> ident sd' = (st_dev st, st_ino st) \<and> sv_has sd' SVDEF_FLAG_ACTIVE \<and>
      \<not> sv_has sd' SVDEF_FLAG_CULL"
proof -
  have "later s s' \<and> (r = 0 \<or> r = -1) \<and> (r = 0 \<longrightarrow> svdef_ok sd' \<and> ident sd' = (st_dev st, st_ino st) \<and>
      sv_has sd' SVDEF_FLAG_ACTIVE \<and> \<not> sv_has sd' SVDEF_FLAG_CULL)"
    using assms(1,3)
  proof (cases rule: activate_cases)
    case (activated s1 sd1)
    then show ?thesis
      using activate_start_keeps [OF activated(6) later_os_ok [OF activated(5) assms(2)] activated(7)] later_trans by auto
  qed simp
  then show "later s s'" "r = 0 \<or> r = -1" "r = 0 \<Longrightarrow> svdef_ok sd' \<and> ident sd' = (st_dev st, st_ino st) \<and>
      sv_has sd' SVDEF_FLAG_ACTIVE \<and> \<not> sv_has sd' SVDEF_FLAG_CULL" by auto
qed

section \<open>Properties\<close>

text \<open>The argument vector that a runscript receives.\<close>

definition run_argv :: "which \<Rightarrow> target \<Rightarrow> u8 list \<Rightarrow> u8 list list" where
  "run_argv wh tgt name =
     [bytes (if wh = SUBSV_LOG then ''./rc.log'' else ''./rc.main''),
      bytes (if tgt = SVRUN_START then ''start'' else ''reset''), name] @
     (if tgt = SVRUN_RESET then [bytes ''exit'', bytes ''0''] else [])"

lemma nstr_zero: "nstr 0 = Some (bytes ''0'')"
  by code_simp

lemma svrun_prog_zero: "svrun_prog signo wh tgt name 0 = Some (run_argv wh tgt name)"
  by (cases tgt) (simp_all add: svrun_prog_def run_argv_def WIFEXITED_def WTERMSIG_def WEXITSTATUS_def nstr_zero)

lemma run_fork_trace:
  "trace (fst (fork prog w (fst (now s)))) = trace s @ [Fork prog w]"
  "flag_failing (fst (fork prog w (fst (now s)))) = flag_failing s"
  "flag_terminating (fst (fork prog w (fst (now s)))) = flag_terminating s"
  by (simp_all add: fork_def now_def emit_def)

text \<open>C10: \<open>perpd_svdef_run\<close> on every branch.  It does nothing for a missing logger or a subservice that is running.
  Otherwise it forks exactly one child.  If the fork fails, the subservice has no process and is marked FAILING with the
  attempted target, and unless perpd is terminating the failure is counted and the main loop pinged; if it succeeds, the
  child's number and start time are recorded, FAILING is cleared and ISRESET tells the target.  The other subservice and the
  flags of the definition do not change.  The child's arguments are the script, the target and the service name, and a
  \<open>reset\<close> is always told \<open>exit 0\<close>, however the service ended: the wait status is cleared before it is read.\<close>

theorem perpd_svdef_run_spec:
  assumes "os_ok s" and "perpd_svdef_run s sd wh tgt = (s', sd', r)"
  shows "if (wh = SUBSV_LOG \<and> \<not> sv_has sd SVDEF_FLAG_HASLOG) \<or> 0 < pid (svpair sd wh)
    then s' = s \<and> sd' = sd \<and> r = 0
    else (\<exists>towait. trace s' = trace s @ Fork (Some (run_argv wh tgt (cstr_of (svname sd)))) towait #
            (if r = -1 \<and> \<not> flag_terminating s then [Ping] else [])) \<and>
      (\<forall>w. w \<noteq> wh \<longrightarrow> svpair sd' w = svpair sd w) \<and> sv_bitflags sd' = sv_bitflags sd \<and>
      (sub_has (svpair sd' wh) SUBSV_FLAG_ISRESET \<longleftrightarrow> tgt = SVRUN_RESET) \<and>
      (sub_has (svpair sd' wh) SUBSV_FLAG_FAILING \<longleftrightarrow> r = -1) \<and>
      (if os_fork s (forks s) = -1
       then r = -1 \<and> pid (svpair sd' wh) = 0 \<and>
         flag_failing s' = flag_failing s + (if flag_terminating s then 0 else 1)
       else r = 0 \<and> pid (svpair sd' wh) = os_fork s (forks s) \<and> 0 < pid (svpair sd' wh) \<and>
         sub_when (svpair sd' wh) = tain_now (os_time s (ticks s)) \<and> flag_failing s' = flag_failing s)"
proof (cases "run_skips sd wh")
  case True
  then show ?thesis using assms(2) by (auto simp: svdef_run_skip run_skips_def)
next
  case False
  have skip: "((wh = SUBSV_LOG \<and> \<not> sv_has sd SVDEF_FLAG_HASLOG) \<or> 0 < pid (svpair sd wh)) = False"
    using False by (simp add: run_skips_def)
  have pos: "os_fork s (forks s) \<noteq> -1 \<Longrightarrow> 0 < os_fork s (forks s)" using assms(1) by (auto simp: os_ok_def)
  show ?thesis
    unfolding skip if_False
    using assms(2) pos
    by (cases "os_fork s (forks s) = -1")
      (auto simp: svdef_run_go [OF False] Let_def svrun_prog_zero run_fork_trace perpd_trigger_fail_def selfpipe_ping_def
        emit_def run_failed_def run_started_def flag_simps)
qed

definition sys0 :: "(nat \<Rightarrow> int) \<Rightarrow> sys" where
  "sys0 fs = \<lparr>flag_chld = 0, flag_hup = 0, flag_term = 0, flag_failing = 0, flag_terminating = False, my_pid = 1,
     my_when = Tain 0 0, signo_defs = [], os_fork = fs, forks = 0, os_time = (\<lambda>i. (word_of_nat i, 0)), ticks = 0, trace = []\<rparr>"

definition svdef0 :: svdef where
  "svdef0 = perpd_svdef_clear \<lparr>dev = 0, ino = 0, fd_dir = 0, svname = [], sv_when = Tain 0 0, sv_bitflags = 0, logpipe = (0, 0),
     sv_main = subsv_zero, sv_log = subsv_zero\<rparr>"

lemma sys0_ok: "(\<And>i. f i = -1 \<or> 0 < f i) \<Longrightarrow> os_ok (sys0 f)"
  by (simp add: os_ok_def sys0_def)

lemma svdef0_simps [simp]:
  "svdef_ok svdef0" "sv_main svdef0 = subsv_zero" "sv_log svdef0 = subsv_zero" "svpair svdef0 w = subsv_zero" "sv_bitflags svdef0 = 0" "svname svdef0 = replicate 32 0"
  by (cases w; simp add: svdef_ok_def svdef0_def perpd_svdef_clear_def flag_simps)+

theorem perpd_svdef_run_spec_witness:
  "\<exists>s' sd'. perpd_svdef_run (sys0 (\<lambda>i. 77)) svdef0 SUBSV_MAIN SVRUN_START = (s', sd', 0) \<and> pid (sv_main sd') = 77"
proof -
  obtain s' sd' r where run: "perpd_svdef_run (sys0 (\<lambda>i. 77)) svdef0 SUBSV_MAIN SVRUN_START = (s', sd', r)"
    using prod_cases3 by blast
  have os: "os_ok (sys0 (\<lambda>i. 77))" by (auto intro: sys0_ok)
  have f: "os_fork (sys0 (\<lambda>i. 77)) i = 77" for i by (simp add: sys0_def)
  show ?thesis
    using perpd_svdef_run_spec [OF os run] run by (auto simp: f)
qed

lemma run_wait_reaches:
  assumes "tain_ok t" and "tain_ok ok"
  shows "tain_val t + tain_val (run_wait SVRUN_START t ok) = max (tain_val t) (tain_val ok)"
proof (cases "tain_less t ok")
  case True
  then have "tain_val (tain_minus ok t) = tain_val ok - tain_val t"
    using assms by (intro tain.minus_exact) (auto simp: tain.less_val)
  with True assms show ?thesis by (simp add: run_wait_def tain.less_val)
next
  case False
  with assms show ?thesis by (simp add: run_wait_def tain.less_val tain_val_def)
qed

lemma run_start_launch:
  assumes "\<not> run_skips sd wh" and "perpd_svdef_run s sd wh SVRUN_START = (s', sd', 0)"
  shows "trace s' = trace s @ [Fork (Some (run_argv wh SVRUN_START (cstr_of (svname sd))))
        (run_wait SVRUN_START (tain_now (os_time s (ticks s))) (when_ok (svpair sd wh)))] \<and>
      when_ok (svpair sd' wh) = tain_plus (tain_plus (tain_now (os_time s (ticks s))) (Tain 1 0))
        (run_wait SVRUN_START (tain_now (os_time s (ticks s))) (when_ok (svpair sd wh)))"
  using assms(2) unfolding svdef_run_go [OF assms(1)]
  by (auto simp: Let_def svrun_prog_zero run_fork_trace run_started_def split: if_splits)

text \<open>C11: the respawn governor.  When \<open>start\<close> is launched at clock reading \<open>t\<close>, the child waits for the time recorded in
  \<open>when_ok\<close>, so that it executes at \<open>max t when_ok\<close>, and \<open>when_ok\<close> becomes one second more than that.  A later start of
  the same subservice, whatever its clock reading, therefore executes at least one second after this one.  (The bound says
  that the stamps stay below the 64-bit range of seconds.)\<close>

theorem svrun_governor:
  assumes "os_ok s" and "svdef_ok sd" and "\<not> run_skips sd wh"
    and "perpd_svdef_run s sd wh SVRUN_START = (s', sd', 0)"
    and "tain_val (tain_now (os_time s (ticks s))) + 1000000000 < tain_range"
    and "tain_val (when_ok (svpair sd wh)) + 1000000000 < tain_range"
    and "os_ok s2" and "svdef_ok sd2" and "\<not> run_skips sd2 wh" and "when_ok (svpair sd2 wh) = when_ok (svpair sd' wh)"
    and "perpd_svdef_run s2 sd2 wh SVRUN_START = (s2', sd2', 0)"
  shows "\<exists>argv wait argv2 wait2.
    trace s' = trace s @ [Fork argv wait] \<and> trace s2' = trace s2 @ [Fork argv2 wait2] \<and>
    tain_val (tain_now (os_time s (ticks s))) + tain_val wait =
      max (tain_val (tain_now (os_time s (ticks s)))) (tain_val (when_ok (svpair sd wh))) \<and>
    tain_val (when_ok (svpair sd' wh)) = tain_val (tain_now (os_time s (ticks s))) + tain_val wait + 1000000000 \<and>
    tain_val (tain_now (os_time s2 (ticks s2))) + tain_val wait2 \<ge>
      tain_val (tain_now (os_time s (ticks s))) + tain_val wait + 1000000000"
proof -
  let ?t = "tain_now (os_time s (ticks s))" and ?ok = "when_ok (svpair sd wh)"
  let ?w = "run_wait SVRUN_START ?t ?ok"
  let ?t2 = "tain_now (os_time s2 (ticks s2))" and ?ok2 = "when_ok (svpair sd2 wh)"
  have ok: "tain_ok ?ok" "tain_ok ?ok2" using assms(2,8) by (cases wh; auto simp: svdef_ok_def subsv_ok_def)+
  have t: "tain_ok ?t" "tain_ok ?t2" using assms(1,7) now_ok by auto
  have w: "tain_ok ?w" using t ok by (simp add: run_wait_ok)
  have one: "tain_val (tain_plus ?t (Tain 1 0)) = tain_val ?t + 1000000000"
    using tain.plus_exact [of ?t "Tain 1 0"] t assms(5) by (simp add: tain_val_def)
  have "tain_val ?t + 1000000000 + tain_val ?w < tain_range" using run_wait_reaches [OF t(1) ok(1)] assms(5,6) by linarith
  then have new: "tain_val (tain_plus (tain_plus ?t (Tain 1 0)) ?w) = tain_val ?t + tain_val ?w + 1000000000"
    using tain.plus_exact [of "tain_plus ?t (Tain 1 0)" ?w] one t w by (simp add: tain.plus_ok)
  have l1: "trace s' = trace s @ [Fork (Some (run_argv wh SVRUN_START (cstr_of (svname sd)))) ?w]"
      "when_ok (svpair sd' wh) = tain_plus (tain_plus ?t (Tain 1 0)) ?w"
    using run_start_launch [OF assms(3,4)] by auto
  have l2: "trace s2' = trace s2 @ [Fork (Some (run_argv wh SVRUN_START (cstr_of (svname sd2)))) (run_wait SVRUN_START ?t2 ?ok2)]"
    using run_start_launch [OF assms(9,11)] by auto
  have "tain_val ?t2 + tain_val (run_wait SVRUN_START ?t2 ?ok2) \<ge> tain_val ?t + tain_val ?w + 1000000000"
    using run_wait_reaches [OF t(2) ok(2)] new l1(2) assms(10) by simp
  then show ?thesis using l1 l2 new run_wait_reaches [OF t(1) ok(1)] by (intro exI conjI) auto
qed


theorem svrun_governor_witness:
  "\<exists>s' sd' s2' sd2' argv wait argv2 wait2.
     perpd_svdef_run (sys0 (\<lambda>i. 77)) svdef0 SUBSV_MAIN SVRUN_START = (s', sd', 0) \<and>
     perpd_svdef_run (sys0 (\<lambda>i. 78)) (sd'\<lparr>sv_main := (sv_main sd')\<lparr>pid := 0\<rparr>\<rparr>) SUBSV_MAIN SVRUN_START = (s2', sd2', 0) \<and>
     trace s' = [Fork argv wait] \<and> trace s2' = [Fork argv2 wait2] \<and>
     tain_val (tain_now (0, 0)) + tain_val wait2 \<ge> tain_val (tain_now (0, 0)) + tain_val wait + 1000000000"
proof -
  let ?s = "sys0 (\<lambda>i. 77)" and ?s2 = "sys0 (\<lambda>i. 78)"
  obtain s' sd' r where run: "perpd_svdef_run ?s svdef0 SUBSV_MAIN SVRUN_START = (s', sd', r)"
    using prod_cases3 by blast
  let ?sd2 = "sd'\<lparr>sv_main := (sv_main sd')\<lparr>pid := 0\<rparr>\<rparr>"
  obtain s2' sd2' r2 where run2: "perpd_svdef_run ?s2 ?sd2 SUBSV_MAIN SVRUN_START = (s2', sd2', r2)"
    using prod_cases3 by blast
  have ns: "\<not> run_skips svdef0 SUBSV_MAIN" "\<not> run_skips ?sd2 SUBSV_MAIN" by (simp_all add: run_skips_def)
  have r: "r = 0" "r2 = 0"
    using run run2 by (auto simp: svdef_run_go [OF ns(1)] svdef_run_go [OF ns(2)] Let_def sys0_def)
  have os: "os_ok ?s" "os_ok ?s2" by (auto intro: sys0_ok)
  have ok: "svdef_ok sd'" using svdef_run_keeps(1) [OF run os(1)] by simp
  then have ok2: "svdef_ok ?sd2" by (simp add: svdef_ok_def subsv_ok_def)
  have t: "tain_val (tain_now (0, 0)) + 1000000000 < tain_range"
    by (simp add: tain_now_def tain_load_utc_def TAIN_UTC_OFFSET_def tain_val_def tain_range_def)
  have z: "tain_val (when_ok subsv_zero) + 1000000000 < tain_range"
    by (simp add: subsv_zero_def tain_val_def tain_range_def)
  have os0: "os_time (sys0 f) (ticks (sys0 f)) = (0, 0)" "trace (sys0 f) = []" for f by (simp_all add: sys0_def)
  show ?thesis
    using svrun_governor [OF os(1) _ ns(1) run [unfolded r] _ _ os(2) ok2 ns(2) _ run2 [unfolded r]] run run2 r t z os0
    by (simp add: os0) blast
qed


text \<open>C13: initiating a cull.  \<open>perpd_svdef_wantcull\<close> keeps the invariant and marks the definition CULL with both
  subservices wanting down.  It answers 1 exactly when the definition is ready to be culled at once.  While the main
  process runs, nothing is sent to the logger and its pipe stays open; a process that is running its reset script is
  continued but never terminated.\<close>

theorem svdef_wantcull_orderly:
  assumes "svdef_ok sd" and "perpd_svdef_wantcull s sd = (s', sd', r)"
  shows "svdef_ok sd' \<and> sv_has sd' SVDEF_FLAG_CULL \<and> (r = 0 \<or> r = 1) \<and> (r = 1 \<longleftrightarrow> perpd_svdef_cullok sd') \<and>
    (\<exists>acts. trace s' = trace s @ acts \<and>
       (\<forall>fd. 0 < pid (sv_main sd) \<longrightarrow> Close fd \<notin> set acts) \<and>
       (\<forall>p sig. Kill p sig \<in> set acts \<longrightarrow>
          p = pid (if 0 < pid (sv_main sd) then sv_main sd else sv_log sd) \<and>
          (sig = SIGTERM \<longrightarrow> \<not> sub_has (if 0 < pid (sv_main sd) then sv_main sd else sv_log sd) SUBSV_FLAG_ISRESET)))"
proof -
  have sig: "SIGCONT \<noteq> SIGTERM" by (simp add: signal_defs)
  have "sv_has sd' SVDEF_FLAG_CULL" "(r = 0 \<or> r = 1) \<and> (r = 1 \<longleftrightarrow> perpd_svdef_cullok sd')"
    using wantcull_ready [OF assms(2,1)] by blast+
  moreover have "\<exists>acts. trace s' = trace s @ acts \<and>
       (\<forall>fd. 0 < pid (sv_main sd) \<longrightarrow> Close fd \<notin> set acts) \<and>
       (\<forall>p sig. Kill p sig \<in> set acts \<longrightarrow>
          p = pid (if 0 < pid (sv_main sd) then sv_main sd else sv_log sd) \<and>
          (sig = SIGTERM \<longrightarrow> \<not> sub_has (if 0 < pid (sv_main sd) then sv_main sd else sv_log sd) SUBSV_FLAG_ISRESET))"
    using assms(2) sig by (auto simp: perpd_svdef_wantcull_def Let_def emit_def flag_simps split: if_splits)
  ultimately show ?thesis using svdef_wantcull_keeps(2) [OF assms(2,1)] by blast
qed

theorem svdef_wantcull_orderly_witness:
  "\<exists>s' sd'. perpd_svdef_wantcull (sys0 (\<lambda>i. -1)) svdef0 = (s', sd', 1) \<and> perpd_svdef_cullok sd'"
proof -
  obtain s' sd' r where w: "perpd_svdef_wantcull (sys0 (\<lambda>i. -1)) svdef0 = (s', sd', r)"
    using prod_cases3 by blast
  moreover have "r = 1"
    using w by (simp add: perpd_svdef_wantcull_def Let_def flag_simps)
  ultimately show ?thesis using svdef_wantcull_orderly [OF _ w] by simp
qed


text \<open>C12: activation.  For a directory name without NUL, \<open>perpd_svdef_activate\<close> succeeds exactly when the name has at most 240 bytes,
  the directory opens, and, if there is an executable \<open>rc.log\<close>, the log pipe is made; the paths it builds then fit
  its buffer of 256 bytes.  On success the definition satisfies the invariant, is identified by the directory's device and
  inode, keeps the descriptor of the directory, holds the first 31 bytes of the name, is active and not being culled, and its flags for a logger, for \<open>flag.down\<close> and for
  \<open>flag.once\<close> are set exactly when \<open>rc.log\<close> is executable and when these files are there.  With a logger it has the log pipe, and the start of the logger was attempted:
  it runs or is marked FAILING for a retry, and is marked as a logger; without one the logger's entry is empty.  With \<open>flag.down\<close> the main service
  wants down and is not started; otherwise its start was attempted too, and it is marked to run once exactly if there is a \<open>flag.once\<close>.\<close>

theorem svdef_activate_spec:
  assumes "os_ok s" and "0 \<notin> set svdir" and "perpd_svdef_activate env s sd svdir st = (s', sd', r)"
  shows "(r = 0 \<or> r = -1) \<and>
    (r = 0 \<longleftrightarrow> length svdir \<le> 240 \<and> env_open env (bytes ''./'' @ svdir) \<noteq> -1 \<and>
       (haslog env svdir \<longrightarrow> env_pipe env \<noteq> None)) \<and>
    (r = 0 \<longrightarrow>
       svdef_ok sd' \<and> dev sd' = st_dev st \<and> ino sd' = st_ino st \<and> fd_dir sd' = env_open env (bytes ''./'' @ svdir) \<and> cstr_of (svname sd') = take 31 svdir \<and>
       sv_has sd' SVDEF_FLAG_ACTIVE \<and> \<not> sv_has sd' SVDEF_FLAG_CULL \<and>
       (sv_has sd' SVDEF_FLAG_HASLOG \<longleftrightarrow> haslog env svdir) \<and>
       (sv_has sd' SVDEF_FLAG_DOWN \<longleftrightarrow> svfile env svdir ''/flag.down'' \<noteq> None) \<and>
       (sv_has sd' SVDEF_FLAG_ONCE \<longleftrightarrow> svfile env svdir ''/flag.once'' \<noteq> None) \<and>
       (if haslog env svdir then env_pipe env = Some (logpipe sd') \<and> attempted SUBSV_FLAG_ISLOG (sv_log sd') else sv_log sd' = subsv_zero) \<and>
       (if svfile env svdir ''/flag.down'' \<noteq> None then sv_main sd' = subsv_zero\<lparr>sub_bitflags := SUBSV_FLAG_WANTDOWN\<rparr>
        else attempted (if svfile env svdir ''/flag.once'' \<noteq> None then SUBSV_FLAG_ISONCE else 0) (sv_main sd')))"
  using assms(3,2)
proof (cases rule: activate_cases)
  case (activated s1 sd1)
  have os1: "os_ok s1" using activated(5) assms(1) later_os_ok by blast
  have k: "svdef_ok sd'" "ident sd' = ident sd1" "sv_bitflags sd' = sv_bitflags sd1"
    using activate_start_keeps [OF activated(6) os1 activated(7)] by auto
  note m = activate_start_main [OF activated(6) os1 activated(11,16)]
  show ?thesis
    using activated k m by (auto simp: ident_def split: if_splits)
qed auto

theorem svdef_activate_spec_witness:
  "\<exists>s' sd'. perpd_svdef_activate \<lparr>env_open = (\<lambda>p. 5), env_stat = (\<lambda>p. None), env_pipe = None\<rparr> (sys0 (\<lambda>i. 77)) svdef0
      (bytes ''web'') \<lparr>st_dev = 8, st_ino = 9, st_mode = 0\<rparr> = (s', sd', 0) \<and> ino sd' = 9 \<and> attempted 0 (sv_main sd')"
proof -
  let ?env = "\<lparr>env_open = (\<lambda>p. 5), env_stat = (\<lambda>p. None), env_pipe = None\<rparr>"
  let ?st = "\<lparr>st_dev = 8, st_ino = 9, st_mode = 0\<rparr>"
  obtain s' sd' r where a: "perpd_svdef_activate ?env (sys0 (\<lambda>i. 77)) svdef0 (bytes ''web'') ?st = (s', sd', r)"
    using prod_cases3 by blast
  have z: "0 \<notin> set (bytes ''web'')" "length (bytes ''web'') \<le> 240" by (simp_all add: bytes_def)
  have os: "os_ok (sys0 (\<lambda>i. 77))" by (auto intro: sys0_ok)
  have h: "\<not> haslog ?env (bytes ''web'')" "svfile ?env (bytes ''web'') f = None" for f by (simp_all add: haslog_def svfile_def)
  show ?thesis using svdef_activate_spec [OF os z(1) a] a z h by auto
qed

end
