(* ===== verification/Perpd_Table.thy ===== *)
theory Perpd_Table
  imports Perpd_Svdef "HOL-Library.Multiset"
begin

text \<open>
  The table of services of \<open>src/perp/perpd.c\<close>: the array \<open>svdefs[]\<close> with its count \<open>nservices\<close>, the lookup by
  device and inode, the removal of culled services, the reaping of children (\<open>perpd_waitup\<close>) and the scan of the
  base directory (\<open>perpd_scan\<close>).  The results of \<open>waitpid()\<close>, \<open>opendir()\<close>, \<open>readdir()\<close> and \<open>stat()\<close> are arguments.
\<close>

section \<open>Definitions\<close>

record perpd =
  psys :: sys
  svdefs :: "svdef list"
  nservices :: nat
  arg_autoscan :: u32
  fd_listen :: int

text \<open>\<open>perpd_lookup\<close>: the index of the service, where the source returns its address.\<close>

function lookup_loop :: "svdef list \<Rightarrow> nat \<Rightarrow> u64 \<Rightarrow> u64 \<Rightarrow> nat \<Rightarrow> nat option" where
  "lookup_loop svs n d ino' i =
     (if i < n then
        (if ino (svs ! i) = ino' \<and> dev (svs ! i) = d then Some i else lookup_loop svs n d ino' (i + 1))
      else None)"
  by pat_completeness auto
termination by (relation "measure (\<lambda>(svs, n, d, ino', i). n - i)") auto

definition perpd_lookup :: "perpd \<Rightarrow> u64 \<Rightarrow> u64 \<Rightarrow> nat option" where
  "perpd_lookup p d ino' = lookup_loop (svdefs p) (nservices p) d ino' 0"

function cull_loop :: "sys \<Rightarrow> svdef list \<Rightarrow> nat \<Rightarrow> nat \<Rightarrow> sys \<times> svdef list \<times> nat" where
  "cull_loop s svs n i =
     (if i < n then
        (if perpd_svdef_cullok (svs ! i)
         then cull_loop (perpd_svdef_close s (svs ! i)) (svs[i := svs ! (n - 1)]) (n - 1) i
         else cull_loop s svs n (i + 1))
      else (s, svs, n))"
  by pat_completeness auto
termination by (relation "measure (\<lambda>(s, svs, n, i). n - i)") auto

declare lookup_loop.simps [simp del] cull_loop.simps [simp del]

definition perpd_cull :: "perpd \<Rightarrow> perpd" where
  "perpd_cull p =
     (let (s, svs, n) = cull_loop (psys p) (svdefs p) (nservices p) 0
      in p\<lparr>psys := s, svdefs := svs, nservices := n\<rparr>)"

text \<open>The search for a dead child: \<open>for(i = 0; i < nservices; ++i)\<close> in \<open>perpd_waitup\<close>.\<close>

function find_child :: "svdef list \<Rightarrow> nat \<Rightarrow> int \<Rightarrow> nat \<Rightarrow> (nat \<times> which) option" where
  "find_child svs n q i =
     (if i < n then
        (if q = pid (svpair (svs ! i) SUBSV_MAIN) then Some (i, SUBSV_MAIN)
         else if q = pid (svpair (svs ! i) SUBSV_LOG) then Some (i, SUBSV_LOG)
         else find_child svs n q (i + 1))
      else None)"
  by pat_completeness auto
termination by (relation "measure (\<lambda>(svs, n, q, i). n - i)") auto

declare find_child.simps [simp del]

text \<open>The exit is noted: no process, its status, and after a run \<open>once\<close> the wish to stay down.\<close>

definition noted :: "svdef \<Rightarrow> which \<Rightarrow> int \<Rightarrow> svdef" where
  "noted sd wh st =
     (let sd = set_svpair wh (\<lambda>ss. ss\<lparr>pid := 0, wstat := st\<rparr>) sd
      in if sub_has (svpair sd wh) SUBSV_FLAG_ISONCE then set_svpair wh (sub_set SUBSV_FLAG_WANTDOWN) sd else sd)"

text \<open>One dead child of a service: the state, the definition, and what is added to \<open>got_cull\<close> and \<open>got_cycle\<close>.\<close>

definition waitup_svdef :: "sys \<Rightarrow> svdef \<Rightarrow> which \<Rightarrow> int \<Rightarrow> sys \<times> svdef \<times> nat \<times> nat" where
  "waitup_svdef s sd wh st =
     (let sd = noted sd wh st
      in if \<not> sub_has (svpair sd wh) SUBSV_FLAG_ISRESET then
           (let (s, sd, _) = perpd_svdef_run s sd wh SVRUN_RESET in (s, sd, 0, 0))
         else if \<not> sub_has (svpair sd wh) SUBSV_FLAG_WANTDOWN then
           (let (s, sd, _) = perpd_svdef_run s sd wh SVRUN_START in (s, sd, 0, 0))
         else if wh = SUBSV_MAIN \<and> sv_has sd SVDEF_FLAG_HASLOG \<and>
             sub_has (svpair sd SUBSV_LOG) SUBSV_FLAG_WANTDOWN \<and> pid (svpair sd SUBSV_LOG) > 0 then
           (let ss = svpair sd SUBSV_LOG;
                s = (if \<not> sub_has ss SUBSV_FLAG_ISRESET
                     then emit (Kill (pid ss) SIGTERM)
                            (emit (Close (fst (logpipe sd))) (emit (Close (snd (logpipe sd))) s))
                     else s);
                s = emit (Kill (pid ss) SIGCONT) s
            in (s, set_svpair SUBSV_LOG (sub_clr SUBSV_FLAG_ISPAUSED) sd, 0, 0))
         else (s, sd, if perpd_svdef_cullok sd then 1 else 0, if sv_has sd SVDEF_FLAG_CYCLE then 1 else 0))"

text \<open>The loop of \<open>perpd_waitup\<close> over the results of \<open>waitpid()\<close>, up to the first that is not positive.\<close>

fun waitup_loop :: "perpd \<Rightarrow> (int \<times> int) list \<Rightarrow> nat \<Rightarrow> nat \<Rightarrow> perpd \<times> nat \<times> nat" where
  "waitup_loop p [] got_cull got_cycle = (p, got_cull, got_cycle)"
| "waitup_loop p ((q, st) # evs) got_cull got_cycle =
     (if q > 0 then
        (case find_child (svdefs p) (nservices p) q 0 of
           None \<Rightarrow> waitup_loop p evs got_cull got_cycle
         | Some (i, wh) \<Rightarrow>
             (let (s, sd, c, y) = waitup_svdef (psys p) (svdefs p ! i) wh st
              in waitup_loop (p\<lparr>psys := s, svdefs := (svdefs p)[i := sd]\<rparr>) evs (got_cull + c) (got_cycle + y)))
      else (p, got_cull, got_cycle))"

definition perpd_waitup :: "(int \<times> int) list \<Rightarrow> perpd \<Rightarrow> perpd" where
  "perpd_waitup evs p =
     (let (p, got_cull, got_cycle) = waitup_loop p evs 0 0;
          p = (if got_cull > 0 then perpd_cull p else p)
      in if got_cycle > 0 then p\<lparr>psys := perpd_trigger_scan (psys p)\<rparr> else p)"

text \<open>A directory entry: its name, what \<open>stat()\<close> says of it, and what activation would find.\<close>

record dirent =
  d_name :: "u8 list"
  d_stat :: "stat option"
  d_env :: svdir_env

definition perpd_svdir_stat :: "dirent \<Rightarrow> stat option" where
  "perpd_svdir_stat d =
     (if hd (cstring (d_name d)) = of_char CHR ''.'' then None
      else case d_stat d of
             None \<Rightarrow> None
           | Some st \<Rightarrow> if \<not> (S_ISDIR (st_mode st) \<and> S_ISVTX (st_mode st)) then None else Some st)"

text \<open>One round of the scan loop, with \<open>got_fail\<close>.\<close>

definition scan_entry :: "perpd \<times> nat \<Rightarrow> dirent \<Rightarrow> perpd \<times> nat" where
  "scan_entry pg d =
     (let (p, got_fail) = pg
      in case perpd_svdir_stat d of
           None \<Rightarrow> (p, got_fail)
         | Some st \<Rightarrow>
             (case perpd_lookup p (st_dev st) (st_ino st) of
                Some i \<Rightarrow>
                  (let sd = perpd_svdef_keep (svdefs p ! i) (d_name d);
                       sd = (if sv_has sd SVDEF_FLAG_CULL then sv_set SVDEF_FLAG_CYCLE sd else sd)
                   in (p\<lparr>svdefs := (svdefs p)[i := sd]\<rparr>, got_fail))
              | None \<Rightarrow>
                  if \<not> nservices p < PERP_MAX then (p, got_fail + 1)
                  else
                    (let n = nservices p;
                         (s, sd, r) = perpd_svdef_activate (d_env d) (psys p) (svdefs p ! n) (d_name d) st
                     in if r = -1 then (p\<lparr>psys := s, svdefs := (svdefs p)[n := sd]\<rparr>, got_fail + 1)
                        else (p\<lparr>psys := s, svdefs := (svdefs p)[n := sv_set SVDEF_FLAG_ACTIVE sd], nservices := n + 1\<rparr>,
                              got_fail))))"

text \<open>The two loops over the services: \<open>unflag\<close> before the scan, \<open>scan_cull\<close> after it, with \<open>got_cull\<close>.\<close>

definition unflag :: "sys \<Rightarrow> svdef \<Rightarrow> sys \<times> svdef" where
  "unflag s sd = (s, sv_clr SVDEF_FLAG_ACTIVE sd)"

definition scan_cull :: "sys \<times> nat \<Rightarrow> svdef \<Rightarrow> (sys \<times> nat) \<times> svdef" where
  "scan_cull sg sd =
     (if \<not> sv_has sd SVDEF_FLAG_ACTIVE then
        (if \<not> sv_has sd SVDEF_FLAG_CULL then cull_step sg sd
         else
           (let sd = sv_clr SVDEF_FLAG_CYCLE sd
            in ((fst sg, if perpd_svdef_cullok sd then snd sg + 1 else snd sg), sd)))
      else (sg, sd))"

record scan_env =
  opendir_ok :: bool
  dirents :: "dirent list"
  readdir_errno :: int

definition perpd_scan :: "scan_env \<Rightarrow> perpd \<Rightarrow> perpd" where
  "perpd_scan env p =
     (if \<not> opendir_ok env then p
      else
        (let (s, svs) = for_first unflag (nservices p) (psys p) (svdefs p);
             (p, got_fail) = foldl scan_entry (p\<lparr>psys := s, svdefs := svs\<rparr>, 0) (dirents env);
             pause = (\<lambda>p. p\<lparr>psys := perpd_trigger_scan (emit (Pause (Tain 0 EPAUSE)) (psys p))\<rparr>)
         in if readdir_errno env \<noteq> 0 then pause p
            else
              (let ((s, got_cull), svs) = for_first scan_cull (nservices p) (psys p, 0) (svdefs p);
                   p = p\<lparr>psys := s, svdefs := svs\<rparr>;
                   p = (if got_cull > 0 then perpd_cull p else p)
               in if got_fail > 0 then pause p else p)))"

text \<open>The invariant of the daemon's table.\<close>

definition active :: "perpd \<Rightarrow> svdef list" where
  "active p = take (nservices p) (svdefs p)"

definition perpd_ok :: "perpd \<Rightarrow> bool" where
  "perpd_ok p \<longleftrightarrow> os_ok (psys p) \<and> length (svdefs p) = PERP_MAX \<and> nservices p \<le> PERP_MAX \<and>
     (\<forall>sd \<in> set (active p). svdef_ok sd) \<and> distinct (map ident (active p))"

section \<open>Lookup\<close>

lemma lookup_loop_find: "lookup_loop svs n d k i = find (\<lambda>j. ident (svs ! j) = (d, k)) [i..<n]"
proof (induction svs n d k i rule: lookup_loop.induct)
  case (1 svs n d k i)
  then show ?case by (subst lookup_loop.simps) (auto simp: ident_def upt_conv_Cons)
qed

lemma lookup_Some:
  assumes "perpd_lookup p d k = Some j"
  shows "j < nservices p" and "ident (svdefs p ! j) = (d, k)"
  using assms by (auto simp: perpd_lookup_def lookup_loop_find find_Some_iff)

lemma lookup_None:
  assumes "perpd_lookup p d k = None" and "nservices p \<le> length (svdefs p)"
  shows "(d, k) \<notin> ident ` set (active p)"
  using assms by (fastforce simp: perpd_lookup_def lookup_loop_find find_None_iff active_def in_set_conv_nth)

section \<open>Culling\<close>

lemma mset_swap_last:
  assumes "i < n" and "n \<le> length svs"
  shows "mset (take (n - 1) (svs[i := svs ! (n - 1)])) = mset (take n svs) - {#svs ! i#}"
proof -
  have tk: "take n svs = take (n - 1) svs @ [svs ! (n - 1)]"
    using assms take_Suc_conv_app_nth [of "n - 1" svs] by simp
  show ?thesis
  proof (cases "i = n - 1")
    case True
    then show ?thesis using tk by simp
  next
    case False
    then have "i < length (take (n - 1) svs)" "take (n - 1) svs ! i = svs ! i" using assms by auto
    moreover from this have "svs ! i \<in># mset (take (n - 1) svs)" by (metis nth_mem set_mset_mset)
    ultimately show ?thesis
      using tk mset_update [of i "take (n - 1) svs" "svs ! (n - 1)"]
      by (simp add: take_update_swap diff_union_swap2)
  qed
qed


lemma cull_loop_spec:
  assumes "cull_loop s svs n i = (s', svs', n')" and "n \<le> length svs" and "i \<le> n"
    and "\<forall>j < i. \<not> perpd_svdef_cullok (svs ! j)"
  shows "mset (take n' svs') = filter_mset (\<lambda>sd. \<not> perpd_svdef_cullok sd) (mset (take n svs)) \<and>
    length svs' = length svs \<and> n' \<le> n \<and> later s s' \<and>
    (\<exists>acts. trace s' = trace s @ acts \<and>
       mset acts = image_mset (\<lambda>sd. Close (fd_dir sd)) (filter_mset perpd_svdef_cullok (mset (take n svs))))"
  using assms
proof (induction s svs n i rule: cull_loop.induct)
  case (1 s svs n i)
  show ?case
  proof (cases "i < n \<and> perpd_svdef_cullok (svs ! i)")
    case True
    let ?svs = "svs[i := svs ! (n - 1)]" and ?s = "perpd_svdef_close s (svs ! i)"
    have run: "cull_loop ?s ?svs (n - 1) i = (s', svs', n')"
      using True "1.prems"(1) by (subst (asm) cull_loop.simps) simp
    have IH: "mset (take n' svs') = filter_mset (\<lambda>sd. \<not> perpd_svdef_cullok sd) (mset (take (n - 1) ?svs)) \<and>
        length svs' = length ?svs \<and> n' \<le> n - 1 \<and> later ?s s' \<and>
        (\<exists>acts. trace s' = trace ?s @ acts \<and>
           mset acts = image_mset (\<lambda>sd. Close (fd_dir sd)) (filter_mset perpd_svdef_cullok (mset (take (n - 1) ?svs))))"
      using True "1.prems" by (intro "1.IH"(1) [OF _ _ run]) auto
    have m: "mset (take (n - 1) ?svs) = mset (take n svs) - {#svs ! i#}"
      using True "1.prems"(2) by (intro mset_swap_last) auto
    have "svs ! i \<in> set (take n svs)" using True "1.prems"(2) by (auto simp: in_set_conv_nth)
    then have "svs ! i \<in># mset (take n svs)" by simp
    then obtain M where M: "mset (take n svs) = add_mset (svs ! i) M" by (metis insert_DiffM)
    have "trace ?s = trace s @ [Close (fd_dir (svs ! i))]" by (simp add: perpd_svdef_close_def emit_def)
    moreover have "later s ?s" by (simp add: perpd_svdef_close_def)
    ultimately show ?thesis
      using IH True later_trans unfolding m M by fastforce
  next
    case False
    show ?thesis
    proof (cases "i < n")
      case True
      then have "cull_loop s svs n (i + 1) = (s', svs', n')"
        using False "1.prems"(1) by (subst (asm) cull_loop.simps) simp
      then show ?thesis using "1.IH"(2) True False "1.prems" by (simp add: less_Suc_eq)
    next
      case ge: False
      then have eq: "s' = s" "svs' = svs" "n' = n" using "1.prems"(1) by (subst (asm) cull_loop.simps; simp)+
      have none: "\<forall>sd \<in> set (take n svs). \<not> perpd_svdef_cullok sd"
        using ge "1.prems" by (auto simp: in_set_conv_nth)
      then have "filter_mset (\<lambda>sd. \<not> perpd_svdef_cullok sd) (mset (take n svs)) = mset (take n svs)"
        "filter_mset perpd_svdef_cullok (mset (take n svs)) = {#}"
        by (auto simp flip: mset_filter)
      then show ?thesis using eq by simp
    qed
  qed
qed

lemma perpd_cull_spec:
  assumes "nservices p \<le> length (svdefs p)"
  shows "mset (active (perpd_cull p)) = filter_mset (\<lambda>sd. \<not> perpd_svdef_cullok sd) (mset (active p))"
    and "length (svdefs (perpd_cull p)) = length (svdefs p)" and "nservices (perpd_cull p) \<le> nservices p"
    and "later (psys p) (psys (perpd_cull p))"
    and "\<exists>acts. trace (psys (perpd_cull p)) = trace (psys p) @ acts \<and>
       mset acts = image_mset (\<lambda>sd. Close (fd_dir sd)) (filter_mset perpd_svdef_cullok (mset (active p)))"
proof -
  obtain s' svs' n' where c: "cull_loop (psys p) (svdefs p) (nservices p) 0 = (s', svs', n')"
    using prod_cases3 by blast
  have p: "perpd_cull p = p\<lparr>psys := s', svdefs := svs', nservices := n'\<rparr>"
    by (simp add: perpd_cull_def c)
  show "mset (active (perpd_cull p)) = filter_mset (\<lambda>sd. \<not> perpd_svdef_cullok sd) (mset (active p))"
    "length (svdefs (perpd_cull p)) = length (svdefs p)" "nservices (perpd_cull p) \<le> nservices p"
    "later (psys p) (psys (perpd_cull p))"
    "\<exists>acts. trace (psys (perpd_cull p)) = trace (psys p) @ acts \<and>
       mset acts = image_mset (\<lambda>sd. Close (fd_dir sd)) (filter_mset perpd_svdef_cullok (mset (active p)))"
    using cull_loop_spec [OF c assms] by (simp_all add: p active_def)
qed

lemma distinct_submset: "mset ys \<subseteq># mset xs \<Longrightarrow> distinct xs \<Longrightarrow> distinct ys"
proof -
  assume sub: "mset ys \<subseteq># mset xs" and d: "distinct xs"
  have "count (mset ys) a = (if a \<in> set ys then 1 else 0)" for a
  proof -
    have "count (mset ys) a \<le> count (mset xs) a" using sub by (rule mset_subset_eq_count)
    also have "\<dots> \<le> 1" using d by (simp add: distinct_count_atmost_1)
    finally have le: "count (mset ys) a \<le> 1" .
    show ?thesis
    proof (cases "a \<in> set ys")
      case True
      then have "0 < count (mset ys) a" by simp
      then have "count (mset ys) a = 1" using le by linarith
      with True show ?thesis by simp
    qed (simp add: count_eq_zero_iff)
  qed
  then show ?thesis by (simp add: distinct_count_atmost_1)
qed

lemma perpd_cull_ok: "perpd_ok p \<Longrightarrow> perpd_ok (perpd_cull p)"
proof -
  assume ok: "perpd_ok p"
  have n: "nservices p \<le> length (svdefs p)" using ok by (simp add: perpd_ok_def)
  note c = perpd_cull_spec [OF n]
  have sub: "mset (active (perpd_cull p)) \<subseteq># mset (active p)" using c(1) by simp
  have "set (active (perpd_cull p)) \<subseteq> set (active p)" using set_mset_mono [OF sub] by simp
  moreover have "distinct (map ident (active (perpd_cull p)))"
  proof -
    have "image_mset ident (mset (active (perpd_cull p))) \<subseteq># image_mset ident (mset (active p))"
      using sub by (rule image_mset_subseteq_mono)
    then show ?thesis
      using ok distinct_submset [of "map ident (active (perpd_cull p))" "map ident (active p)"] by (simp add: perpd_ok_def)
  qed
  ultimately show ?thesis
    using ok c later_os_ok by (auto simp: perpd_ok_def)
qed


section \<open>Reaping children\<close>

lemma find_child_find:
  "find_child svs n q i = map_option (\<lambda>j. (j, if q = pid (sv_main (svs ! j)) then SUBSV_MAIN else SUBSV_LOG))
     (find (\<lambda>j. q = pid (sv_main (svs ! j)) \<or> q = pid (sv_log (svs ! j))) [i..<n])"
proof (induction svs n q i rule: find_child.induct)
  case (1 svs n q i)
  then show ?case by (subst find_child.simps) (auto simp: upt_conv_Cons)
qed

lemma find_child_Some:
  assumes "find_child svs n q 0 = Some (i, wh)"
  shows "i < n" and "pid (svpair (svs ! i) wh) = q"
  using assms by (auto simp: find_child_find find_Some_iff split: if_splits)

lemma noted_simps:
  "pid (svpair (noted sd wh st) w) = (if w = wh then 0 else pid (svpair sd w))"
  "sub_has (svpair (noted sd wh st) w) SUBSV_FLAG_ISRESET = sub_has (svpair sd w) SUBSV_FLAG_ISRESET"
  "sub_has (svpair (noted sd wh st) w) SUBSV_FLAG_WANTDOWN \<longleftrightarrow>
     sub_has (svpair sd w) SUBSV_FLAG_WANTDOWN \<or> (w = wh \<and> sub_has (svpair sd w) SUBSV_FLAG_ISONCE)"
  "sv_bitflags (noted sd wh st) = sv_bitflags sd" "ident (noted sd wh st) = ident sd"
  "logpipe (noted sd wh st) = logpipe sd"
  by (auto simp: noted_def Let_def flag_simps ident_def)

lemma noted_log [simp]: "sv_log (noted sd SUBSV_MAIN st) = sv_log sd"
  by (simp add: noted_def Let_def)

lemma noted_ok: "svdef_ok sd \<Longrightarrow> svdef_ok (noted sd wh st)"
  by (cases wh) (auto simp: noted_def Let_def svdef_ok_def subsv_ok_def flag_simps)

lemma waitup_svdef_cases:
  assumes "waitup_svdef s sd wh st = (s', sd', c, y)"
  obtains (reset) r where "\<not> sub_has (svpair sd wh) SUBSV_FLAG_ISRESET"
      "perpd_svdef_run s (noted sd wh st) wh SVRUN_RESET = (s', sd', r)" "c = 0" "y = 0"
  | (restart) r where "sub_has (svpair sd wh) SUBSV_FLAG_ISRESET"
      "\<not> sub_has (svpair (noted sd wh st) wh) SUBSV_FLAG_WANTDOWN"
      "perpd_svdef_run s (noted sd wh st) wh SVRUN_START = (s', sd', r)" "c = 0" "y = 0"
  | (stoplog) "sub_has (svpair sd wh) SUBSV_FLAG_ISRESET" "sub_has (svpair (noted sd wh st) wh) SUBSV_FLAG_WANTDOWN"
      "wh = SUBSV_MAIN" "sv_has sd SVDEF_FLAG_HASLOG" "0 < pid (sv_log sd)" "later s s'"
      "sd' = set_svpair SUBSV_LOG (sub_clr SUBSV_FLAG_ISPAUSED) (noted sd wh st)" "c = 0" "y = 0"
      "trace s' = trace s @ (if sub_has (sv_log sd) SUBSV_FLAG_ISRESET then []
         else [Close (snd (logpipe sd)), Close (fst (logpipe sd)), Kill (pid (sv_log sd)) SIGTERM]) @
         [Kill (pid (sv_log sd)) SIGCONT]"
  | (down) "sub_has (svpair sd wh) SUBSV_FLAG_ISRESET" "sub_has (svpair (noted sd wh st) wh) SUBSV_FLAG_WANTDOWN"
      "s' = s" "sd' = noted sd wh st" "c = (if perpd_svdef_cullok sd' then 1 else 0)"
      "y = (if sv_has sd SVDEF_FLAG_CYCLE then 1 else 0)"
      "\<not> (wh = SUBSV_MAIN \<and> sv_has sd SVDEF_FLAG_HASLOG \<and> sub_has (sv_log sd) SUBSV_FLAG_WANTDOWN \<and> 0 < pid (sv_log sd))"
proof -
  define n where "n = noted sd wh st"
  have n: "sub_has (svpair n wh) SUBSV_FLAG_ISRESET = sub_has (svpair sd wh) SUBSV_FLAG_ISRESET"
    "sv_bitflags n = sv_bitflags sd" "logpipe n = logpipe sd"
    by (simp_all add: n_def noted_simps)
  note unf = waitup_svdef_def [of s sd wh st, folded n_def, unfolded Let_def n]
  let ?stop = "wh = SUBSV_MAIN \<and> sv_has sd SVDEF_FLAG_HASLOG \<and>
    sub_has (svpair n SUBSV_LOG) SUBSV_FLAG_WANTDOWN \<and> 0 < pid (svpair n SUBSV_LOG)"
  consider "\<not> sub_has (svpair sd wh) SUBSV_FLAG_ISRESET"
    | "sub_has (svpair sd wh) SUBSV_FLAG_ISRESET" "\<not> sub_has (svpair n wh) SUBSV_FLAG_WANTDOWN"
    | "sub_has (svpair sd wh) SUBSV_FLAG_ISRESET" "sub_has (svpair n wh) SUBSV_FLAG_WANTDOWN" "?stop"
    | "sub_has (svpair sd wh) SUBSV_FLAG_ISRESET" "sub_has (svpair n wh) SUBSV_FLAG_WANTDOWN" "\<not> ?stop"
    by blast
  then show ?thesis
  proof cases
    case 1
    obtain s2 sd2 r where "perpd_svdef_run s n wh SVRUN_RESET = (s2, sd2, r)" using prod_cases3 by blast
    then show ?thesis using 1 assms unfolding unf n_def by (intro reset) auto
  next
    case 2
    obtain s2 sd2 r where "perpd_svdef_run s n wh SVRUN_START = (s2, sd2, r)" using prod_cases3 by blast
    then show ?thesis using 2 assms unfolding unf n_def by (intro restart) auto
  next
    case 3
    show ?thesis
      using 3 assms unfolding unf n_def [symmetric]
      by (intro stoplog) (auto simp: emit_trace n_def later_emit_trans split: if_splits)
  next
    case 4
    have eq: "waitup_svdef s sd wh st =
        (s, n, if perpd_svdef_cullok n then 1 else 0, if sv_has sd SVDEF_FLAG_CYCLE then 1 else 0)"
      unfolding unf if_not_P [OF 4(3)] using 4(1,2) by simp
    show ?thesis
      using 4 assms unfolding eq by (intro down) (auto simp: n_def)
  qed
qed


lemma waitup_svdef_keeps:
  assumes "waitup_svdef s sd wh st = (s', sd', c, y)" and "os_ok s" and "svdef_ok sd"
  shows "svdef_ok sd'" and "ident sd' = ident sd" and "later s s'" and "sv_bitflags sd' = sv_bitflags sd"
proof -
  have n: "svdef_ok (noted sd wh st)" using assms(3) by (rule noted_ok)
  have "svdef_ok sd' \<and> ident sd' = ident sd \<and> later s s' \<and> sv_bitflags sd' = sv_bitflags sd"
    using assms(1)
  proof (cases rule: waitup_svdef_cases)
    case (reset r)
    then show ?thesis using svdef_run_keeps [OF reset(2) assms(2) n] by (simp add: noted_simps)
  next
    case (restart r)
    then show ?thesis using svdef_run_keeps [OF restart(3) assms(2) n] by (simp add: noted_simps)
  next
    case stoplog
    have "svdef_ok sd'"
      using n stoplog by (auto simp: svdef_ok_def subsv_ok_flags flag_simps)
    then show ?thesis using stoplog by (auto simp: noted_simps ident_def) (simp_all add: noted_def Let_def)
  qed (use n in \<open>auto simp: noted_simps\<close>)
  then show "svdef_ok sd'" "ident sd' = ident sd" "later s s'" "sv_bitflags sd' = sv_bitflags sd" by auto
qed

lemma perpd_ok_update:
  assumes "perpd_ok p" and "i < nservices p" and "svdef_ok sd" and "ident sd = ident (svdefs p ! i)" and "later (psys p) s"
  shows "perpd_ok (p\<lparr>psys := s, svdefs := (svdefs p)[i := sd]\<rparr>)"
proof -
  have l: "i < length (take (nservices p) (svdefs p))" using assms(1,2) by (simp add: perpd_ok_def)
  have "map ident ((active p)[i := sd]) = map ident (active p)"
    using assms(2,4) l by (simp add: map_update active_def list_update_same_conv)
  moreover have "set ((active p)[i := sd]) \<subseteq> insert sd (set (active p))" by (rule set_update_subset_insert)
  ultimately show ?thesis
    using assms later_os_ok by (auto simp: perpd_ok_def active_def take_update_swap)
qed

lemma waitup_loop_ok:
  "perpd_ok p \<Longrightarrow> waitup_loop p evs c y = (p', c', y') \<Longrightarrow>
   perpd_ok p' \<and> later (psys p) (psys p') \<and> map ident (active p') = map ident (active p)"
proof (induction p evs c y rule: waitup_loop.induct)
  case (2 p q st evs c y)
  show ?case
  proof (cases "q > 0 \<and> find_child (svdefs p) (nservices p) q 0 \<noteq> None")
    case True
    then obtain i wh where f: "find_child (svdefs p) (nservices p) q 0 = Some (i, wh)" by force
    obtain s sd a b where w: "waitup_svdef (psys p) (svdefs p ! i) wh st = (s, sd, a, b)" using prod_cases4 by blast
    let ?p = "p\<lparr>psys := s, svdefs := (svdefs p)[i := sd]\<rparr>"
    have i: "i < nservices p" using f by (rule find_child_Some)
    have "svdefs p ! i \<in> set (active p)"
      using i "2.prems"(1) by (auto simp: active_def in_set_conv_nth perpd_ok_def)
    then have k: "svdef_ok sd" "ident sd = ident (svdefs p ! i)" "later (psys p) s"
      using waitup_svdef_keeps [OF w] "2.prems"(1) by (auto simp: perpd_ok_def)
    have ok: "perpd_ok ?p" using "2.prems"(1) i k by (rule perpd_ok_update)
    have "map ident (active ?p) = map ident (active p)"
      using i k(2) "2.prems"(1) by (simp add: active_def take_update_swap map_update list_update_same_conv perpd_ok_def)
    moreover have "waitup_loop ?p evs (c + a) (y + b) = (p', c', y')"
      using "2.prems"(2) True f w by simp
    ultimately show ?thesis
      using "2.IH"(2) [OF _ f refl w [symmetric] refl refl refl ok] True k(3) later_trans by simp
  next
    case False
    then show ?thesis using "2.prems" "2.IH"(1) by (auto split: if_splits option.splits)
  qed
qed auto

lemma perpd_trigger_ok: "perpd_ok p \<Longrightarrow> later (psys p) s \<Longrightarrow> perpd_ok (p\<lparr>psys := s\<rparr>)"
  using later_os_ok by (auto simp: perpd_ok_def active_def)

lemma perpd_waitup_ok:
  assumes "perpd_ok p"
  shows "perpd_ok (perpd_waitup evs p)"
proof -
  obtain p1 c y where w: "waitup_loop p evs 0 0 = (p1, c, y)" using prod_cases3 by blast
  have p1: "perpd_ok p1" using waitup_loop_ok [OF assms w] by simp
  then have "perpd_ok (if c > 0 then perpd_cull p1 else p1)" using perpd_cull_ok by simp
  then show ?thesis
    using perpd_trigger_ok [of "if c > 0 then perpd_cull p1 else p1"] by (simp add: perpd_waitup_def w Let_def)
qed


section \<open>Scanning\<close>

interpretation unflag: entry_op os_ok later svdef_ok ident unflag
  by unfold_locales
    (auto simp: unflag_def svdef_ok_def ident_def flag_simps intro: later_trans later_os_ok)

lemma scan_cull_cases:
  assumes "scan_cull sg sd = (sg', sd')"
  obtains (active) "sv_has sd SVDEF_FLAG_ACTIVE" "sg' = sg" "sd' = sd"
  | (start) "\<not> sv_has sd SVDEF_FLAG_ACTIVE" "\<not> sv_has sd SVDEF_FLAG_CULL" "cull_step sg sd = (sg', sd')"
  | (again) "\<not> sv_has sd SVDEF_FLAG_ACTIVE" "sv_has sd SVDEF_FLAG_CULL" "sd' = sv_clr SVDEF_FLAG_CYCLE sd" "fst sg' = fst sg"
      "snd sg \<le> snd sg'"
  using assms by (auto simp: scan_cull_def Let_def split: if_splits)

interpretation scan_cull: entry_op "\<lambda>sg. os_ok (fst sg)" later_count svdef_ok ident scan_cull
proof
  fix sg :: "sys \<times> nat" and sd sg' sd'
  assume a: "os_ok (fst sg)" "svdef_ok sd" "scan_cull sg sd = (sg', sd')"
  have "later_count sg sg' \<and> svdef_ok sd' \<and> ident sd' = ident sd"
    using a(3)
  proof (cases rule: scan_cull_cases)
    case start
    then show ?thesis
      using wantcull.op_moves [OF a(1,2)] wantcull.op_inv [OF a(1,2)] wantcull.op_key [OF a(1,2)] by blast
  qed (use a in \<open>auto simp: later_count_def svdef_ok_def ident_def flag_simps\<close>)
  then show "later_count sg sg'" "svdef_ok sd'" "ident sd' = ident sd" by auto
qed (auto simp: later_count_def intro: later_trans later_os_ok)

lemma scan_cull_flags:
  assumes "scan_cull sg sd = (sg', sd')" and "svdef_ok sd"
  shows "sv_has sd' SVDEF_FLAG_ACTIVE = sv_has sd SVDEF_FLAG_ACTIVE"
    and "\<not> sv_has sd' SVDEF_FLAG_ACTIVE \<Longrightarrow> sv_has sd' SVDEF_FLAG_CULL"
    and "sv_has sd SVDEF_FLAG_ACTIVE \<Longrightarrow> sd' = sd"
proof -
  have "sv_has sd' SVDEF_FLAG_ACTIVE = sv_has sd SVDEF_FLAG_ACTIVE \<and>
      (\<not> sv_has sd' SVDEF_FLAG_ACTIVE \<longrightarrow> sv_has sd' SVDEF_FLAG_CULL) \<and> (sv_has sd SVDEF_FLAG_ACTIVE \<longrightarrow> sd' = sd)"
    using assms(1)
  proof (cases rule: scan_cull_cases)
    case start
    then obtain s' r where "perpd_svdef_wantcull (fst sg) sd = (s', sd', r)"
      by (auto simp: cull_step_def split: prod.splits)
    then show ?thesis using svdef_wantcull_keeps(4) assms(2) start by (auto simp: flag_simps)
  qed (auto simp: flag_simps)
  then show "sv_has sd' SVDEF_FLAG_ACTIVE = sv_has sd SVDEF_FLAG_ACTIVE"
    "\<not> sv_has sd' SVDEF_FLAG_ACTIVE \<Longrightarrow> sv_has sd' SVDEF_FLAG_CULL" "sv_has sd SVDEF_FLAG_ACTIVE \<Longrightarrow> sd' = sd"
    by auto
qed

text \<open>What one directory entry can do to the table.\<close>

lemma scan_entry_cases:
  assumes "scan_entry (p, g) d = (p', g')"
  obtains (ignored) "perpd_svdir_stat d = None" "p' = p" "g' = g"
  | (kept) st i sd where "perpd_svdir_stat d = Some st" "perpd_lookup p (st_dev st) (st_ino st) = Some i" "g' = g"
      "p' = p\<lparr>svdefs := (svdefs p)[i := sd]\<rparr>"
      "sd = (let sd = perpd_svdef_keep (svdefs p ! i) (d_name d)
             in if sv_has sd SVDEF_FLAG_CULL then sv_set SVDEF_FLAG_CYCLE sd else sd)"
  | (full) st where "perpd_svdir_stat d = Some st" "perpd_lookup p (st_dev st) (st_ino st) = None" "p' = p" "g' = g + 1"
  | (failed) st s sd where "perpd_svdir_stat d = Some st" "perpd_lookup p (st_dev st) (st_ino st) = None"
      "nservices p < PERP_MAX"
      "perpd_svdef_activate (d_env d) (psys p) (svdefs p ! nservices p) (d_name d) st = (s, sd, -1)"
      "p' = p\<lparr>psys := s, svdefs := (svdefs p)[nservices p := sd]\<rparr>" "g' = g + 1"
  | (added) st s sd r where "perpd_svdir_stat d = Some st" "perpd_lookup p (st_dev st) (st_ino st) = None"
      "nservices p < PERP_MAX" "r \<noteq> -1" "g' = g"
      "perpd_svdef_activate (d_env d) (psys p) (svdefs p ! nservices p) (d_name d) st = (s, sd, r)"
      "p' = p\<lparr>psys := s, svdefs := (svdefs p)[nservices p := sv_set SVDEF_FLAG_ACTIVE sd], nservices := nservices p + 1\<rparr>"
proof (cases "perpd_svdir_stat d")
  case None
  then show ?thesis using assms by (intro ignored) (auto simp: scan_entry_def)
next
  case (Some st)
  show ?thesis
  proof (cases "perpd_lookup p (st_dev st) (st_ino st)")
    case (Some i)
    then show ?thesis using assms \<open>perpd_svdir_stat d = Some st\<close>
      by (intro kept [of st i]) (auto simp: scan_entry_def Let_def)
  next
    case None
    show ?thesis
    proof (cases "nservices p < PERP_MAX")
      case False
      then show ?thesis using assms Some None by (intro full [of st]) (auto simp: scan_entry_def)
    next
      case True
      obtain s sd r where a: "perpd_svdef_activate (d_env d) (psys p) (svdefs p ! nservices p) (d_name d) st = (s, sd, r)"
        using prod_cases3 by blast
      have eq: "scan_entry (p, g) d = (if r = -1 then (p\<lparr>psys := s, svdefs := (svdefs p)[nservices p := sd]\<rparr>, g + 1)
          else (p\<lparr>psys := s, svdefs := (svdefs p)[nservices p := sv_set SVDEF_FLAG_ACTIVE sd], nservices := nservices p + 1\<rparr>, g))"
        using Some None True a by (simp add: scan_entry_def Let_def)
      show ?thesis
      proof (cases "r = -1")
        case r: True
        then show ?thesis using assms Some None True a unfolding eq by (intro failed [of st s sd]) auto
      next
        case r: False
        then show ?thesis using assms Some None True a unfolding eq by (intro added [of st r s sd]) auto
      qed
    qed
  qed
qed


text \<open>The identities of the service directories among the entries.\<close>

definition valid_dirs :: "dirent list \<Rightarrow> (u64 \<times> u64) set" where
  "valid_dirs ds = {(st_dev st, st_ino st) | d st. d \<in> set ds \<and> perpd_svdir_stat d = Some st}"

text \<open>
  The state of the scan loop after the entries \<open>ds\<close>, started from table \<open>p0\<close> with all services unflagged: the active
  services are those seen, each directory seen has its service unless an activation failed, and a service that is
  being culled was so before.
\<close>

definition scan_inv :: "perpd \<Rightarrow> dirent list \<Rightarrow> perpd \<Rightarrow> nat \<Rightarrow> bool" where
  "scan_inv p0 ds p g \<longleftrightarrow>
     perpd_ok p \<and> later (psys p0) (psys p) \<and>
     (\<forall>sd \<in> set (active p). (sv_has sd SVDEF_FLAG_ACTIVE \<longleftrightarrow> ident sd \<in> valid_dirs ds) \<and>
        (sv_has sd SVDEF_FLAG_CULL \<longrightarrow> (\<exists>sd0 \<in> set (active p0). ident sd0 = ident sd \<and> sv_has sd0 SVDEF_FLAG_CULL))) \<and>
     (g = 0 \<longrightarrow> valid_dirs ds \<subseteq> ident ` set (active p))"

lemma valid_dirs_snoc:
  "valid_dirs (ds @ [d]) = (case perpd_svdir_stat d of Some st \<Rightarrow> insert (st_dev st, st_ino st) (valid_dirs ds) | None \<Rightarrow> valid_dirs ds)"
  by (auto simp: valid_dirs_def split: option.split)

lemma active_update: "i < nservices p \<Longrightarrow> active (p\<lparr>svdefs := (svdefs p)[i := sd]\<rparr>) = (active p)[i := sd]"
  by (simp add: active_def take_update_swap)

lemma active_beyond: "active (p\<lparr>psys := s, svdefs := (svdefs p)[nservices p := sd]\<rparr>) = active p"
  by (simp add: active_def)

lemma active_append:
  "nservices p < length (svdefs p) \<Longrightarrow>
   active (p\<lparr>psys := s, svdefs := (svdefs p)[nservices p := sd], nservices := nservices p + 1\<rparr>) = active p @ [sd]"
  by (simp add: active_def take_Suc_conv_app_nth)

lemma scan_entry_kept:
  assumes "scan_inv p0 ds p g" and "perpd_svdir_stat d = Some st" and "perpd_lookup p (st_dev st) (st_ino st) = Some i"
    and "0 \<notin> set (d_name d)"
    and "sd = (let sd = perpd_svdef_keep (svdefs p ! i) (d_name d)
             in if sv_has sd SVDEF_FLAG_CULL then sv_set SVDEF_FLAG_CYCLE sd else sd)"
  shows "scan_inv p0 (ds @ [d]) (p\<lparr>svdefs := (svdefs p)[i := sd]\<rparr>) g"
proof -
  let ?p = "p\<lparr>svdefs := (svdefs p)[i := sd]\<rparr>"
  have ok: "perpd_ok p" using assms(1) by (simp add: scan_inv_def)
  have i: "i < nservices p" "ident (svdefs p ! i) = (st_dev st, st_ino st)" using lookup_Some [OF assms(3)] by auto
  have old: "svdefs p ! i = active p ! i" "i < length (active p)" using i ok by (auto simp: active_def perpd_ok_def)
  then have mem: "svdefs p ! i \<in> set (active p)" by simp
  then have o: "svdef_ok (svdefs p ! i)" using ok by (simp add: perpd_ok_def)
  have k: "svdef_ok sd" "ident sd = ident (svdefs p ! i)" "sv_has sd SVDEF_FLAG_ACTIVE"
    "sv_has sd SVDEF_FLAG_CULL = sv_has (svdefs p ! i) SVDEF_FLAG_CULL"
    using svdef_keep_ok [OF o assms(4)] o assms(4) unfolding assms(5)
    by (auto simp: Let_def svdef_ok_def ident_def flag_simps perpd_svdef_keep_def set_name_spec)
  have "p\<lparr>psys := psys p, svdefs := (svdefs p)[i := sd]\<rparr> = ?p" by simp
  then have pok: "perpd_ok ?p" using perpd_ok_update [OF ok i(1) k(1,2)] later_refl by metis
  have act: "active ?p = (active p)[i := sd]" using i(1) by (rule active_update)
  have others: "x = sd \<or> (x \<in> set (active p) \<and> ident x \<noteq> ident sd)" if x: "x \<in> set (active ?p)" for x
  proof -
    obtain j where j: "j < length (active p)" "x = (active p)[i := sd] ! j"
      using x unfolding act by (auto simp: in_set_conv_nth)
    show ?thesis
    proof (cases "j = i")
      case False
      then have "map ident (active p) ! j \<noteq> map ident (active p) ! i"
        using ok j old by (simp add: perpd_ok_def nth_eq_iff_index_eq del: nth_map)
      then show ?thesis using j old False k(2) by auto
    qed (use j old in simp)
  qed
  have "ident ` set (active ?p) = ident ` set (active p)"
    using old k(2) unfolding act by (metis list.set_map map_update list_update_id nth_map)
  moreover have "(st_dev st, st_ino st) \<in> ident ` set (active p)" using mem i(2) by (metis image_eqI)
  moreover have "\<forall>x \<in> set (active ?p). (sv_has x SVDEF_FLAG_ACTIVE \<longleftrightarrow> ident x \<in> valid_dirs (ds @ [d])) \<and>
      (sv_has x SVDEF_FLAG_CULL \<longrightarrow> (\<exists>sd0 \<in> set (active p0). ident sd0 = ident x \<and> sv_has sd0 SVDEF_FLAG_CULL))"
  proof
    fix x
    assume x: "x \<in> set (active ?p)"
    have inv: "(sv_has y SVDEF_FLAG_ACTIVE \<longleftrightarrow> ident y \<in> valid_dirs ds) \<and>
        (sv_has y SVDEF_FLAG_CULL \<longrightarrow> (\<exists>sd0 \<in> set (active p0). ident sd0 = ident y \<and> sv_has sd0 SVDEF_FLAG_CULL))"
      if "y \<in> set (active p)" for y
      using assms(1) that by (simp add: scan_inv_def)
    show "(sv_has x SVDEF_FLAG_ACTIVE \<longleftrightarrow> ident x \<in> valid_dirs (ds @ [d])) \<and>
      (sv_has x SVDEF_FLAG_CULL \<longrightarrow> (\<exists>sd0 \<in> set (active p0). ident sd0 = ident x \<and> sv_has sd0 SVDEF_FLAG_CULL))"
    proof (cases "x = sd")
      case True
      then show ?thesis using k i(2) inv [OF mem] assms(2) by (simp add: valid_dirs_snoc)
    next
      case False
      then have "x \<in> set (active p)" "ident x \<noteq> (st_dev st, st_ino st)" using others [OF x] k(2) i(2) by auto
      then show ?thesis using inv assms(2) by (simp add: valid_dirs_snoc)
    qed
  qed
  ultimately show ?thesis
    using assms(1,2) pok by (auto simp: scan_inv_def valid_dirs_snoc)
qed


lemma scan_entry_added:
  assumes "scan_inv p0 ds p g" and "perpd_svdir_stat d = Some st" and "perpd_lookup p (st_dev st) (st_ino st) = None"
    and "nservices p < PERP_MAX" and "r \<noteq> -1" and "0 \<notin> set (d_name d)"
    and "perpd_svdef_activate (d_env d) (psys p) (svdefs p ! nservices p) (d_name d) st = (s, sd, r)"
  shows "scan_inv p0 (ds @ [d])
    (p\<lparr>psys := s, svdefs := (svdefs p)[nservices p := sv_set SVDEF_FLAG_ACTIVE sd], nservices := nservices p + 1\<rparr>) g"
proof -
  let ?sd = "sv_set SVDEF_FLAG_ACTIVE sd"
  let ?p = "p\<lparr>psys := s, svdefs := (svdefs p)[nservices p := ?sd], nservices := nservices p + 1\<rparr>"
  have ok: "perpd_ok p" and os: "os_ok (psys p)" and l0: "later (psys p0) (psys p)"
    using assms(1) by (auto simp: scan_inv_def perpd_ok_def)
  have n: "nservices p < length (svdefs p)" "nservices p \<le> length (svdefs p)" using ok assms(4) by (auto simp: perpd_ok_def)
  note a = activate_ok [OF assms(7) os assms(6)]
  have r0: "r = 0" using a(2) assms(5) by simp
  have sd: "svdef_ok ?sd" "ident ?sd = (st_dev st, st_ino st)" "\<not> sv_has ?sd SVDEF_FLAG_CULL" "sv_has ?sd SVDEF_FLAG_ACTIVE"
    using a(3) [OF r0] by (auto simp: svdef_ok_def ident_def flag_simps)
  have act: "active ?p = active p @ [?sd]" using n(1) by (rule active_append)
  have new: "(st_dev st, st_ino st) \<notin> ident ` set (active p)" using lookup_None [OF assms(3) n(2)] .
  have "os_ok s" using later_os_ok [OF a(1) os] .
  then have "perpd_ok ?p"
    using ok assms(4) sd(1,2) new unfolding perpd_ok_def act by auto
  moreover have "\<forall>x \<in> set (active ?p). (sv_has x SVDEF_FLAG_ACTIVE \<longleftrightarrow> ident x \<in> valid_dirs (ds @ [d])) \<and>
      (sv_has x SVDEF_FLAG_CULL \<longrightarrow> (\<exists>sd0 \<in> set (active p0). ident sd0 = ident x \<and> sv_has sd0 SVDEF_FLAG_CULL))"
  proof
    fix x
    assume "x \<in> set (active ?p)"
    then consider "x = ?sd" | "x \<in> set (active p)" unfolding act by auto
    then show "(sv_has x SVDEF_FLAG_ACTIVE \<longleftrightarrow> ident x \<in> valid_dirs (ds @ [d])) \<and>
      (sv_has x SVDEF_FLAG_CULL \<longrightarrow> (\<exists>sd0 \<in> set (active p0). ident sd0 = ident x \<and> sv_has sd0 SVDEF_FLAG_CULL))"
    proof cases
      case 1
      then show ?thesis using sd assms(2) by (simp add: valid_dirs_snoc)
    next
      case 2
      then have "ident x \<noteq> (st_dev st, st_ino st)" using new by force
      then show ?thesis using 2 assms(1,2) by (auto simp: scan_inv_def valid_dirs_snoc)
    qed
  qed
  moreover have "g = 0 \<longrightarrow> valid_dirs (ds @ [d]) \<subseteq> ident ` set (active ?p)"
    using assms(1,2) sd(2) unfolding act by (auto simp: scan_inv_def valid_dirs_snoc)
  ultimately show ?thesis using later_trans [OF l0 a(1)] by (simp add: scan_inv_def)
qed

lemma scan_inv_fail:
  assumes "scan_inv p0 ds p g" and "perpd_svdir_stat d = Some st" and "perpd_lookup p (st_dev st) (st_ino st) = None"
    and "later (psys p) (psys p')" and "active p' = active p" and "perpd_ok p'"
  shows "scan_inv p0 (ds @ [d]) p' (g + 1)"
proof -
  have "(st_dev st, st_ino st) \<notin> ident ` set (active p)"
    using lookup_None [OF assms(3)] assms(1) by (simp add: scan_inv_def perpd_ok_def)
  then have "\<forall>x \<in> set (active p). ident x \<noteq> (st_dev st, st_ino st)" by force
  then show ?thesis
    using assms later_trans by (auto simp: scan_inv_def valid_dirs_snoc)
qed

lemma scan_entry_inv:
  assumes "scan_inv p0 ds p g" and "scan_entry (p, g) d = (p', g')" and "0 \<notin> set (d_name d)"
  shows "scan_inv p0 (ds @ [d]) p' g'"
  using assms(2)
proof (cases rule: scan_entry_cases)
  case ignored
  then show ?thesis using assms(1) by (simp add: scan_inv_def valid_dirs_snoc)
next
  case (kept st i sd)
  then show ?thesis using scan_entry_kept [OF assms(1) kept(1,2) assms(3)] by simp
next
  case (full st)
  then show ?thesis using scan_inv_fail [OF assms(1) full(1,2), of p] assms(1) by (simp add: scan_inv_def)
next
  case (failed st s sd)
  have os: "os_ok (psys p)" using assms(1) by (simp add: scan_inv_def perpd_ok_def)
  have l: "later (psys p) s" using activate_ok(1) [OF failed(4) os assms(3)] .
  have act: "active p' = active p" unfolding failed(5) by (rule active_beyond)
  have "perpd_ok p'"
    using assms(1) l later_os_ok act unfolding failed(5) by (auto simp: scan_inv_def perpd_ok_def)
  then show ?thesis
    using scan_inv_fail [OF assms(1) failed(1,2), of p'] l act failed(5,6) by simp
next
  case (added st s sd r)
  then show ?thesis using scan_entry_added [OF assms(1) added(1-4) assms(3) added(6)] by simp
qed

lemma scan_fold_inv:
  "scan_inv p0 ds p g \<Longrightarrow> \<forall>d \<in> set es. 0 \<notin> set (d_name d) \<Longrightarrow> foldl scan_entry (p, g) es = (p', g') \<Longrightarrow>
   scan_inv p0 (ds @ es) p' g'"
proof (induction es arbitrary: ds p g)
  case (Cons d es)
  obtain p1 g1 where e: "scan_entry (p, g) d = (p1, g1)" by force
  have "scan_inv p0 (ds @ [d]) p1 g1" using scan_entry_inv [OF Cons.prems(1) e] Cons.prems(2) by simp
  from Cons.IH [OF this] show ?case using Cons.prems(2,3) e by simp
qed simp

text \<open>The table before the directory is read: everything as it was, but no service flagged active.\<close>

lemma scan_start:
  assumes "perpd_ok p" and "for_first unflag (nservices p) (psys p) (svdefs p) = (s, svs)"
  shows "scan_inv p [] (p\<lparr>psys := s, svdefs := svs\<rparr>) 0"
proof -
  let ?p = "p\<lparr>psys := s, svdefs := svs\<rparr>"
  have ok: "os_ok (psys p)" "\<forall>sd \<in> set (take (nservices p) (svdefs p)). svdef_ok sd"
    using assms(1) by (auto simp: perpd_ok_def active_def)
  note k = unflag.for_first_keeps [OF ok assms(2)]
  have pok: "perpd_ok ?p" using assms(1) k by (simp add: perpd_ok_def active_def)
  have "\<not> sv_has sd SVDEF_FLAG_ACTIVE \<and>
      (sv_has sd SVDEF_FLAG_CULL \<longrightarrow> (\<exists>sd0 \<in> set (active p). ident sd0 = ident sd \<and> sv_has sd0 SVDEF_FLAG_CULL))"
    if x: "sd \<in> set (active ?p)" for sd
  proof -
    obtain i where i: "i < nservices p" "i < length (svdefs p)" "sd = svs ! i"
      using x k by (auto simp: active_def in_set_conv_nth)
    obtain t t' where "unflag t (svdefs p ! i) = (t', svs ! i)"
      using unflag.for_first_nth [OF ok assms(2) i(1,2)] by blast
    then have sd: "sd = sv_clr SVDEF_FLAG_ACTIVE (svdefs p ! i)" using i by (simp add: unflag_def)
    moreover have "svdefs p ! i \<in> set (active p)" using i by (auto simp: active_def in_set_conv_nth)
    ultimately show ?thesis by (auto simp: flag_simps ident_def)
  qed
  then show ?thesis using pok k by (auto simp: scan_inv_def valid_dirs_def)
qed


text \<open>The table after a complete scan, before and after the harvest of culled services.\<close>

definition scanned :: "perpd \<Rightarrow> dirent list \<Rightarrow> perpd \<Rightarrow> nat \<Rightarrow> bool" where
  "scanned p0 ds p g \<longleftrightarrow> scan_inv p0 ds p g \<and>
     (\<forall>sd \<in> set (active p). \<not> sv_has sd SVDEF_FLAG_ACTIVE \<longrightarrow> sv_has sd SVDEF_FLAG_CULL)"

definition seen_or_culled :: "perpd \<Rightarrow> dirent list \<Rightarrow> perpd \<Rightarrow> bool" where
  "seen_or_culled p0 ds p \<longleftrightarrow> (\<forall>k \<in> valid_dirs ds. (\<exists>sd \<in> set (active p). ident sd = k \<and> sv_has sd SVDEF_FLAG_ACTIVE) \<or>
     (\<exists>sd0 \<in> set (active p0). ident sd0 = k \<and> sv_has sd0 SVDEF_FLAG_CULL))"

lemma scan_cull_loop:
  assumes "scan_inv p0 ds p g" and "for_first scan_cull (nservices p) (psys p, 0) (svdefs p) = ((s, c), svs)"
  shows "perpd_ok (p\<lparr>psys := s, svdefs := svs\<rparr>) \<and> later (psys p0) s \<and>
    (\<forall>sd \<in> set (active (p\<lparr>psys := s, svdefs := svs\<rparr>)).
       (sv_has sd SVDEF_FLAG_ACTIVE \<longleftrightarrow> ident sd \<in> valid_dirs ds) \<and> (sv_has sd SVDEF_FLAG_ACTIVE \<longrightarrow> sd \<in> set (active p)) \<and>
       (\<not> sv_has sd SVDEF_FLAG_ACTIVE \<longrightarrow> sv_has sd SVDEF_FLAG_CULL)) \<and>
    (\<forall>sd \<in> set (active p). sv_has sd SVDEF_FLAG_ACTIVE \<longrightarrow> sd \<in> set (active (p\<lparr>psys := s, svdefs := svs\<rparr>)))"
proof -
  let ?p = "p\<lparr>psys := s, svdefs := svs\<rparr>"
  have pok: "perpd_ok p" and l0: "later (psys p0) (psys p)" using assms(1) by (auto simp: scan_inv_def)
  have ok: "os_ok (fst (psys p, 0))" "\<forall>sd \<in> set (take (nservices p) (svdefs p)). svdef_ok sd"
    using pok by (auto simp: perpd_ok_def active_def)
  note k = scan_cull.for_first_keeps [OF ok assms(2)]
  have l: "later (psys p) s" using k by (simp add: later_count_def)
  have pok': "perpd_ok ?p" using pok k by (simp add: perpd_ok_def active_def)
  have at: "\<exists>sg sg'. scan_cull sg (svdefs p ! i) = (sg', svs ! i)" "svdefs p ! i \<in> set (active p)" "svs ! i \<in> set (active ?p)"
      "svdef_ok (svdefs p ! i)" "ident (svs ! i) = ident (svdefs p ! i)"
    if i: "i < nservices p" "i < length (svdefs p)" for i
  proof -
    show "\<exists>sg sg'. scan_cull sg (svdefs p ! i) = (sg', svs ! i)"
      using scan_cull.for_first_nth [OF ok assms(2) i] by blast
    show m: "svdefs p ! i \<in> set (active p)" "svs ! i \<in> set (active ?p)"
      using i k by (auto simp: active_def in_set_conv_nth)
    then show "svdef_ok (svdefs p ! i)" using pok by (simp add: perpd_ok_def)
    have len: "length svs = length (svdefs p)" using k by simp
    have "map ident (take (nservices p) svs) ! i = ident (svs ! i)"
      "map ident (take (nservices p) (svdefs p)) ! i = ident (svdefs p ! i)" using i len by simp_all
    then show "ident (svs ! i) = ident (svdefs p ! i)" using k by simp
  qed
  have fwd: "(sv_has sd SVDEF_FLAG_ACTIVE \<longleftrightarrow> ident sd \<in> valid_dirs ds) \<and> (sv_has sd SVDEF_FLAG_ACTIVE \<longrightarrow> sd \<in> set (active p)) \<and>
       (\<not> sv_has sd SVDEF_FLAG_ACTIVE \<longrightarrow> sv_has sd SVDEF_FLAG_CULL)" if x: "sd \<in> set (active ?p)" for sd
  proof -
    obtain i where i: "i < nservices p" "i < length (svdefs p)" "sd = svs ! i"
      using x k by (auto simp: active_def in_set_conv_nth)
    obtain sg sg' where sc: "scan_cull sg (svdefs p ! i) = (sg', sd)" using at(1) i by blast
    show ?thesis
      using scan_cull_flags [OF sc at(4)] at(2,5) i assms(1) by (auto simp: scan_inv_def)
  qed
  have bwd: "sd \<in> set (active ?p)" if x: "sd \<in> set (active p)" "sv_has sd SVDEF_FLAG_ACTIVE" for sd
  proof -
    obtain i where i: "i < nservices p" "i < length (svdefs p)" "sd = svdefs p ! i"
      using x by (auto simp: active_def in_set_conv_nth)
    obtain sg sg' where sc: "scan_cull sg (svdefs p ! i) = (sg', svs ! i)" using at(1) i by blast
    have "svs ! i = sd" using scan_cull_flags(3) [OF sc at(4)] i x(2) by simp
    then show ?thesis using at(3) i by force
  qed
  show ?thesis using pok' fwd bwd later_trans [OF l0 l] by blast
qed

lemma perpd_scan_unfold:
  assumes "opendir_ok env" and "for_first unflag (nservices p) (psys p) (svdefs p) = (s, svs)"
    and "foldl scan_entry (p\<lparr>psys := s, svdefs := svs\<rparr>, 0) (dirents env) = (p1, g)"
    and "for_first scan_cull (nservices p1) (psys p1, 0) (svdefs p1) = ((s2, c), svs2)"
  defines "pause \<equiv> \<lambda>p. p\<lparr>psys := perpd_trigger_scan (emit (Pause (Tain 0 EPAUSE)) (psys p))\<rparr>"
    and "p2 \<equiv> p1\<lparr>psys := s2, svdefs := svs2\<rparr>"
  shows "perpd_scan env p =
    (if readdir_errno env \<noteq> 0 then pause p1
     else (let p3 = (if c > 0 then perpd_cull p2 else p2) in if g > 0 then pause p3 else p3))"
  using assms by (simp add: perpd_scan_def Let_def)

lemma later_pause: "later s (perpd_trigger_scan (emit (Pause t) s))"
  by (rule later_trans [OF later_emit later_trigger(2)]) simp

lemma perpd_scan_ok:
  assumes "perpd_ok p" and "\<forall>d \<in> set (dirents env). 0 \<notin> set (d_name d)"
  shows "perpd_ok (perpd_scan env p) \<and> later (psys p) (psys (perpd_scan env p))"
proof (cases "opendir_ok env")
  case False
  then show ?thesis using assms(1) by (simp add: perpd_scan_def)
next
  case True
  obtain s svs where u: "for_first unflag (nservices p) (psys p) (svdefs p) = (s, svs)" by force
  obtain p1 g where f: "foldl scan_entry (p\<lparr>psys := s, svdefs := svs\<rparr>, 0) (dirents env) = (p1, g)" by force
  obtain s2 c svs2 where c: "for_first scan_cull (nservices p1) (psys p1, 0) (svdefs p1) = ((s2, c), svs2)"
    by (metis prod.exhaust)
  let ?p2 = "p1\<lparr>psys := s2, svdefs := svs2\<rparr>"
  have inv: "scan_inv p (dirents env) p1 g" using scan_fold_inv [OF scan_start [OF assms(1) u] assms(2) f] by simp
  have p2: "perpd_ok ?p2" "later (psys p) s2" using scan_cull_loop [OF inv c] by auto
  have p3: "perpd_ok (perpd_cull ?p2)" "later (psys p) (psys (perpd_cull ?p2))"
    using perpd_cull_ok [OF p2(1)] perpd_cull_spec(4) [of ?p2] p2 later_trans by (auto simp: perpd_ok_def)
  have pause: "perpd_ok (q\<lparr>psys := perpd_trigger_scan (emit (Pause (Tain 0 EPAUSE)) (psys q))\<rparr>) \<and>
      later (psys p) (perpd_trigger_scan (emit (Pause (Tain 0 EPAUSE)) (psys q)))" if "perpd_ok q" "later (psys p) (psys q)" for q
    using perpd_trigger_ok [OF that(1) later_pause] later_trans [OF that(2) later_pause] by simp
  show ?thesis
    unfolding perpd_scan_unfold [OF True u f c]
    using inv p2 p3 pause [of p1] pause [of ?p2] pause [of "perpd_cull ?p2"] by (auto simp: Let_def scan_inv_def)
qed


section \<open>Shutting down\<close>

text \<open>The children that must still be reaped before a service is down: two for a subservice that runs its start
  script (that process and its reset script), one for a running reset script.\<close>

definition phase :: "subsv \<Rightarrow> nat" where
  "phase ss = (if 0 < pid ss then (if sub_has ss SUBSV_FLAG_ISRESET then 1 else 2) else 0)"

definition work :: "svdef \<Rightarrow> nat" where
  "work sd = phase (sv_main sd) + phase (sv_log sd)"

definition total :: "perpd \<Rightarrow> nat" where
  "total p = sum_list (map work (active p))"

definition shutting :: "perpd \<Rightarrow> bool" where
  "shutting p \<longleftrightarrow> (\<forall>sd \<in> set (active p). sv_has sd SVDEF_FLAG_CULL \<and> \<not> perpd_svdef_cullok sd)"

definition forks_ok :: "sys \<Rightarrow> bool" where
  "forks_ok s \<longleftrightarrow> os_ok s \<and> (\<forall>i. os_fork s i \<noteq> -1)"

lemma cullok_work: "svdef_ok sd \<Longrightarrow> sv_has sd SVDEF_FLAG_CULL \<Longrightarrow> perpd_svdef_cullok sd \<longleftrightarrow> work sd = 0"
  by (auto simp: perpd_svdef_cullok_def work_def phase_def svdef_ok_def)

lemma work_update:
  "work (set_svpair wh f sd) + phase (svpair sd wh) = work sd + phase (f (svpair sd wh))"
  by (cases wh) (auto simp: work_def)

lemma noted_work: "work (noted sd wh st) + phase (svpair sd wh) = work sd"
proof -
  have "phase (svpair (noted sd wh st) w) = (if w = wh then 0 else phase (svpair sd w))" for w
    by (simp add: phase_def noted_simps)
  from this [of SUBSV_MAIN] this [of SUBSV_LOG] show ?thesis by (cases wh) (auto simp: work_def)
qed

text \<open>Each child of a service in its cull brings the service one step closer, and the last one counts for the harvest.\<close>

lemma waitup_progress:
  assumes "waitup_svdef s sd wh st = (s', sd', c, y)" and "forks_ok s" and "svdef_ok sd" and "sv_has sd SVDEF_FLAG_CULL"
    and "0 < pid (svpair sd wh)"
  shows "work sd' + 1 = work sd" and "0 < c \<longleftrightarrow> work sd' = 0"
proof -
  have os: "os_ok s" using assms(2) by (simp add: forks_ok_def)
  have haslog: "wh = SUBSV_LOG \<Longrightarrow> sv_has sd SVDEF_FLAG_HASLOG" using assms(3,5) by (auto simp: svdef_ok_def)
  have want: "sub_has (svpair sd wh) SUBSV_FLAG_WANTDOWN" using assms(3,4) haslog by (cases wh) (auto simp: svdef_ok_def)
  note w = noted_work [of sd wh st]
  have n0: "phase (svpair (noted sd wh st) wh) = 0" by (simp add: phase_def noted_simps)
  have "work sd' + 1 = work sd \<and> (0 < c \<longleftrightarrow> work sd' = 0)"
    using assms(1)
  proof (cases rule: waitup_svdef_cases)
    case (reset r)
    have p2: "phase (svpair sd wh) = 2" using reset(1) assms(5) by (simp add: phase_def)
    have ns: "\<not> run_skips (noted sd wh st) wh" using haslog by (auto simp: run_skips_def noted_simps)
    from reset(2) obtain t q where q: "0 < q" "sd' = set_svpair wh (run_started SVRUN_RESET t q) (noted sd wh st)"
    proof (cases rule: svdef_run_cases)
      case failed
      then show ?thesis using assms(2) by (auto simp: forks_ok_def)
    next
      case (started t q)
      then show ?thesis using that os by (auto simp: os_ok_def)
    qed (use ns in simp)
    have "phase (run_started SVRUN_RESET t q ss) = 1" for ss
      using q(1) by (simp add: phase_def run_started_def flag_simps)
    then have "work sd' = work (noted sd wh st) + 1"
      using work_update [of wh "run_started SVRUN_RESET t q" "noted sd wh st"] n0 q(2) by simp
    then show ?thesis using w p2 reset(3) by simp
  next
    case (restart r)
    then show ?thesis using want by (simp add: noted_simps)
  next
    case stoplog
    have p1: "phase (svpair sd wh) = 1" using stoplog(1) assms(5) by (simp add: phase_def)
    have "phase (sub_clr SUBSV_FLAG_ISPAUSED ss) = phase ss" for ss by (simp add: phase_def flag_simps)
    then have "work sd' = work (noted sd wh st)"
      using work_update [of SUBSV_LOG "sub_clr SUBSV_FLAG_ISPAUSED" "noted sd wh st"] stoplog(7) by simp
    moreover have "0 < phase (sv_log (noted sd wh st))" using stoplog(3,5) by (simp add: phase_def)
    ultimately show ?thesis using w p1 stoplog(8) by (simp add: work_def)
  next
    case down
    have p1: "phase (svpair sd wh) = 1" using down(1) assms(5) by (simp add: phase_def)
    have "svdef_ok sd'" "sv_has sd' SVDEF_FLAG_CULL" using waitup_svdef_keeps [OF assms(1) os assms(3)] assms(4) by auto
    then show ?thesis using w p1 down(4,5) cullok_work by auto
  qed
  then show "work sd' + 1 = work sd" "0 < c \<longleftrightarrow> work sd' = 0" by auto
qed


lemma total_mset: "total p = sum_mset (image_mset work (mset (active p)))"
  by (simp add: total_def sum_mset_sum_list flip: mset_map)

lemma later_forks_ok: "later s s' \<Longrightarrow> forks_ok s \<Longrightarrow> forks_ok s'"
  using later_os_ok by (auto simp: forks_ok_def later_def)

lemma total_cull:
  assumes "perpd_ok p" and "\<forall>sd \<in> set (active p). sv_has sd SVDEF_FLAG_CULL"
  shows "total (perpd_cull p) = total p" and "shutting (perpd_cull p)"
proof -
  have n: "nservices p \<le> length (svdefs p)" using assms(1) by (simp add: perpd_ok_def)
  note c = perpd_cull_spec(1) [OF n]
  have z: "work sd = 0" if "sd \<in># filter_mset perpd_svdef_cullok (mset (active p))" for sd
    using that assms cullok_work by (auto simp: perpd_ok_def)
  have "mset (active p) = filter_mset perpd_svdef_cullok (mset (active p)) + mset (active (perpd_cull p))"
    unfolding c by (rule multiset_partition)
  then have "total p = sum_mset (image_mset work (filter_mset perpd_svdef_cullok (mset (active p)))) + total (perpd_cull p)"
    unfolding total_mset by (metis image_mset_union sum_mset.union)
  moreover have "sum_mset (image_mset work (filter_mset perpd_svdef_cullok (mset (active p)))) = 0"
    using z by (auto simp: sum_mset_0_iff)
  ultimately show "total (perpd_cull p) = total p" by simp
  have "set (active (perpd_cull p)) = {sd \<in> set (active p). \<not> perpd_svdef_cullok sd}"
    using arg_cong [OF c, of set_mset] by simp
  then show "shutting (perpd_cull p)" using assms(2) by (auto simp: shutting_def)
qed

lemma sum_list_replace:
  fixes xs :: "nat list"
  assumes "i < length xs" and "x + 1 = xs ! i"
  shows "sum_list (xs[i := x]) + 1 = sum_list xs"
  using assms elem_le_sum_list [of i xs] by (simp add: sum_list_update)

text \<open>One dead child of a service, when all services are in their cull.\<close>

lemma waitup_step:
  assumes "perpd_ok p" and "forks_ok (psys p)" and "\<forall>sd \<in> set (active p). sv_has sd SVDEF_FLAG_CULL" and "0 < q"
    and "find_child (svdefs p) (nservices p) q 0 = Some (i, wh)" and "waitup_svdef (psys p) (svdefs p ! i) wh st = (s, sd, c, y)"
  defines "p1 \<equiv> p\<lparr>psys := s, svdefs := (svdefs p)[i := sd]\<rparr>"
  shows "perpd_ok p1" and "later (psys p) s" and "\<forall>x \<in> set (active p1). sv_has x SVDEF_FLAG_CULL" and "total p1 + 1 = total p"
    and "x \<in> set (active p1) \<Longrightarrow> perpd_svdef_cullok x \<Longrightarrow> x \<in> set (active p) \<or> 0 < c"
proof -
  let ?sd = "svdefs p ! i"
  have i: "i < nservices p" and q: "pid (svpair ?sd wh) = q" using find_child_Some [OF assms(5)] by auto
  have ia: "i < length (active p)" "active p ! i = ?sd" using i assms(1) by (auto simp: active_def perpd_ok_def)
  then have mem: "?sd \<in> set (active p)" by (metis nth_mem)
  have old: "svdef_ok ?sd" "sv_has ?sd SVDEF_FLAG_CULL" using mem assms(1,3) by (auto simp: perpd_ok_def)
  have os: "os_ok (psys p)" using assms(1) by (simp add: perpd_ok_def)
  note k = waitup_svdef_keeps [OF assms(6) os old(1)]
  note pr = waitup_progress [OF assms(6,2) old, unfolded q, OF assms(4)]
  show "perpd_ok p1" unfolding p1_def using perpd_ok_update [OF assms(1) i k(1-3)] .
  show "later (psys p) s" by (rule k)
  have act: "active p1 = (active p)[i := sd]" using i by (simp add: p1_def active_def take_update_swap)
  show "total p1 + 1 = total p"
    unfolding total_def act map_update using ia pr(1) by (intro sum_list_replace) auto
  note sub = set_update_subset_insert [of "active p" i sd]
  show "\<forall>x \<in> set (active p1). sv_has x SVDEF_FLAG_CULL" using assms(3) k(4) old(2) sub unfolding act by auto
  show "x \<in> set (active p) \<or> 0 < c" if x: "x \<in> set (active p1)" "perpd_svdef_cullok x"
  proof (cases "x = sd")
    case True
    then have "work sd = 0" using cullok_work [OF k(1)] k(4) old(2) x(2) by simp
    then show ?thesis using pr(2) by simp
  next
    case False
    then show ?thesis using x(1) sub unfolding act by auto
  qed
qed

lemma waitup_loop_shutting:
  "waitup_loop p evs c y = (p', c', y') \<Longrightarrow> perpd_ok p \<Longrightarrow> forks_ok (psys p) \<Longrightarrow> \<forall>sd \<in> set (active p). sv_has sd SVDEF_FLAG_CULL \<Longrightarrow>
   \<forall>sd \<in> set (active p). perpd_svdef_cullok sd \<longrightarrow> 0 < c \<Longrightarrow>
   (\<forall>sd \<in> set (active p'). sv_has sd SVDEF_FLAG_CULL \<and> (perpd_svdef_cullok sd \<longrightarrow> 0 < c')) \<and> total p' \<le> total p \<and>
   (\<forall>q st r. evs = (q, st) # r \<longrightarrow> 0 < q \<longrightarrow> find_child (svdefs p) (nservices p) q 0 \<noteq> None \<longrightarrow> total p' < total p)"
proof (induction p evs c y rule: waitup_loop.induct)
  case (2 p q st evs c y)
  show ?case
  proof (cases "q > 0 \<and> find_child (svdefs p) (nservices p) q 0 \<noteq> None")
    case True
    then obtain i wh where f: "find_child (svdefs p) (nservices p) q 0 = Some (i, wh)" by force
    obtain s sd a b where w: "waitup_svdef (psys p) (svdefs p ! i) wh st = (s, sd, a, b)" using prod_cases4 by blast
    let ?p = "p\<lparr>psys := s, svdefs := (svdefs p)[i := sd]\<rparr>"
    note k = waitup_step [OF "2.prems"(2-4) _ f w]
    have r: "waitup_loop ?p evs (c + a) (y + b) = (p', c', y')" using "2.prems"(1) True f w by simp
    have fk: "forks_ok (psys ?p)" using later_forks_ok k(2) "2.prems"(3) True by simp
    have q: "\<forall>x \<in> set (active ?p). perpd_svdef_cullok x \<longrightarrow> 0 < c + a" using k(5) True "2.prems"(5) by auto
    from "2.IH"(2) [OF _ f refl w [symmetric] refl refl refl r _ fk _ q] k(1,3,4) True show ?thesis by auto
  next
    case False
    then show ?thesis using "2.prems" "2.IH"(1) by (auto split: if_splits option.splits)
  qed
qed auto

lemma waitup_shutting:
  assumes "perpd_ok p" and "forks_ok (psys p)" and "shutting p"
  shows "shutting (perpd_waitup evs p)" and "total (perpd_waitup evs p) \<le> total p"
    and "evs = (q, st) # r \<Longrightarrow> 0 < q \<Longrightarrow> find_child (svdefs p) (nservices p) q 0 \<noteq> None \<Longrightarrow> total (perpd_waitup evs p) < total p"
proof -
  obtain p1 c y where w: "waitup_loop p evs 0 0 = (p1, c, y)" using prod_cases3 by blast
  have p1: "perpd_ok p1" using waitup_loop_ok [OF assms(1) w] by simp
  have l: "(\<forall>sd \<in> set (active p1). sv_has sd SVDEF_FLAG_CULL \<and> (perpd_svdef_cullok sd \<longrightarrow> 0 < c)) \<and> total p1 \<le> total p \<and>
      (\<forall>q st r. evs = (q, st) # r \<longrightarrow> 0 < q \<longrightarrow> find_child (svdefs p) (nservices p) q 0 \<noteq> None \<longrightarrow> total p1 < total p)"
    using waitup_loop_shutting [OF w assms(1,2)] assms(3) by (auto simp: shutting_def)
  define p2 where "p2 = (if c > 0 then perpd_cull p1 else p1)"
  have p2: "shutting p2" "total p2 = total p1"
    using l total_cull [OF p1] by (auto simp: p2_def shutting_def)
  have "active (perpd_waitup evs p) = active p2" by (simp add: perpd_waitup_def w p2_def [symmetric] active_def)
  then have "shutting (perpd_waitup evs p)" "total (perpd_waitup evs p) = total p1" using p2 by (auto simp: shutting_def total_def)
  then show "shutting (perpd_waitup evs p)" "total (perpd_waitup evs p) \<le> total p"
    "evs = (q, st) # r \<Longrightarrow> 0 < q \<Longrightarrow> find_child (svdefs p) (nservices p) q 0 \<noteq> None \<Longrightarrow> total (perpd_waitup evs p) < total p"
    using l by auto
qed

lemma perpd_waitup_later: "perpd_ok p \<Longrightarrow> later (psys p) (psys (perpd_waitup evs p))"
proof -
  assume ok: "perpd_ok p"
  obtain p1 c y where w: "waitup_loop p evs 0 0 = (p1, c, y)" using prod_cases3 by blast
  have p1: "perpd_ok p1" "later (psys p) (psys p1)" using waitup_loop_ok [OF ok w] by simp_all
  then have "later (psys p) (psys (if c > 0 then perpd_cull p1 else p1))"
    using perpd_cull_spec(4) [of p1] later_trans by (auto simp: perpd_ok_def)
  then show ?thesis using later_trans [OF _ later_trigger(2)] by (auto simp: perpd_waitup_def w Let_def)
qed

lemma waitup_reaps_one:
  assumes "perpd_ok p" and "forks_ok (psys p)" and "shutting p" and "0 < q"
    and "find_child (svdefs p) (nservices p) q 0 = Some (i, wh)"
  shows "perpd_ok (perpd_waitup [(q, st)] p)" and "forks_ok (psys (perpd_waitup [(q, st)] p))"
    and "shutting (perpd_waitup [(q, st)] p)" and "total (perpd_waitup [(q, st)] p) + 1 = total p"
proof -
  have cl: "\<forall>sd \<in> set (active p). sv_has sd SVDEF_FLAG_CULL" using assms(3) by (simp add: shutting_def)
  obtain s sd c y where w: "waitup_svdef (psys p) (svdefs p ! i) wh st = (s, sd, c, y)" using prod_cases4 by blast
  let ?p1 = "p\<lparr>psys := s, svdefs := (svdefs p)[i := sd]\<rparr>"
  note k = waitup_step [OF assms(1,2) cl assms(4,5) w]
  have "total (if c > 0 then perpd_cull ?p1 else ?p1) = total ?p1" using total_cull [OF k(1,3)] by simp
  moreover have "active (perpd_waitup [(q, st)] p) = active (if c > 0 then perpd_cull ?p1 else ?p1)"
    using assms(4,5) w by (simp add: perpd_waitup_def Let_def active_def)
  ultimately show "total (perpd_waitup [(q, st)] p) + 1 = total p" using k(4) by (simp add: total_def)
  show "perpd_ok (perpd_waitup [(q, st)] p)" using assms(1) by (rule perpd_waitup_ok)
  show "forks_ok (psys (perpd_waitup [(q, st)] p))" using perpd_waitup_later [OF assms(1)] assms(2) by (rule later_forks_ok)
  show "shutting (perpd_waitup [(q, st)] p)" using waitup_shutting(1) [OF assms(1-3)] .
qed


section \<open>Properties\<close>

text \<open>A sequence of children each of which belongs to a service at the time it is reaped, and the table after it.\<close>

fun reaps :: "perpd \<Rightarrow> (int \<times> int) list \<Rightarrow> bool" where
  "reaps p [] \<longleftrightarrow> True"
| "reaps p (e # evs) \<longleftrightarrow>
     0 < fst e \<and> find_child (svdefs p) (nservices p) (fst e) 0 \<noteq> None \<and> reaps (perpd_waitup [e] p) evs"

definition reaped :: "perpd \<Rightarrow> (int \<times> int) list \<Rightarrow> perpd" where
  "reaped p evs = foldl (\<lambda>p e. perpd_waitup [e] p) p evs"

lemma reaped_total:
  "perpd_ok p \<Longrightarrow> forks_ok (psys p) \<Longrightarrow> shutting p \<Longrightarrow> reaps p evs \<Longrightarrow>
   perpd_ok (reaped p evs) \<and> shutting (reaped p evs) \<and> total (reaped p evs) + length evs = total p"
proof (induction evs arbitrary: p)
  case (Cons e evs)
  obtain q st where e: "e = (q, st)" by force
  obtain i wh where f: "find_child (svdefs p) (nservices p) q 0 = Some (i, wh)" "0 < q"
    using Cons.prems(4) e by force
  note w = waitup_reaps_one [OF Cons.prems(1-3) f(2,1), of st]
  have "reaps (perpd_waitup [e] p) evs" using Cons.prems(4) by simp
  from Cons.IH [OF w(1-3) [folded e] this] show ?case using w(4) e by (simp add: reaped_def)
qed (simp add: reaped_def)

lemma shutting_work:
  assumes "perpd_ok p" and "shutting p"
  shows "total p = 0 \<longleftrightarrow> nservices p = 0" and "0 < nservices p \<Longrightarrow> \<exists>q > 0. find_child (svdefs p) (nservices p) q 0 \<noteq> None"
proof -
  have len: "length (active p) = nservices p" using assms(1) by (simp add: active_def perpd_ok_def)
  have pos: "0 < work sd" if "sd \<in> set (active p)" for sd
    using assms that cullok_work [of sd] by (auto simp: perpd_ok_def shutting_def)
  show "total p = 0 \<longleftrightarrow> nservices p = 0"
    using pos len by (cases "active p") (auto simp: total_def)
  assume "0 < nservices p"
  then have "active p ! 0 \<in> set (active p)" using len by (intro nth_mem) simp
  moreover have "active p ! 0 = svdefs p ! 0" using \<open>0 < nservices p\<close> by (simp add: active_def)
  ultimately have "0 < work (svdefs p ! 0)" using pos by metis
  then have "0 < pid (sv_main (svdefs p ! 0)) \<or> 0 < pid (sv_log (svdefs p ! 0))"
    by (auto simp: work_def phase_def split: if_splits)
  then obtain wh where "0 < pid (svpair (svdefs p ! 0) wh)"
    using svpair.simps by metis
  then show "\<exists>q > 0. find_child (svdefs p) (nservices p) q 0 \<noteq> None"
    using \<open>0 < nservices p\<close>
    by (intro exI [of _ "pid (svpair (svdefs p ! 0) wh)"])
      (cases wh; auto simp: find_child_find find_None_iff)
qed

text \<open>C6: shutdown ends.  When every service is being culled and no fork fails, then as long as there is a service some child
  of a service is alive; each such child that is reaped brings the table one step closer to empty, and after exactly
  \<open>total p\<close> of them, and not before, no service is left, so that the main loop of a terminating perpd ends.  \<open>total\<close> counts
  two children for a running start script, its own process and that of its reset script, and one for a running reset.\<close>

theorem shutdown_completes:
  assumes "perpd_ok p" and "forks_ok (psys p)" and "shutting p" and "reaps p evs"
  shows "length evs \<le> total p \<and> (nservices (reaped p evs) = 0 \<longleftrightarrow> length evs = total p) \<and>
    (0 < nservices (reaped p evs) \<longrightarrow>
       (\<exists>q > 0. find_child (svdefs (reaped p evs)) (nservices (reaped p evs)) q 0 \<noteq> None))"
proof -
  have r: "perpd_ok (reaped p evs)" "shutting (reaped p evs)" "total (reaped p evs) + length evs = total p"
    using reaped_total [OF assms] by auto
  show ?thesis using shutting_work [OF r(1,2)] r(3) by auto
qed

definition one_service :: "subsv \<Rightarrow> sys \<Rightarrow> perpd" where
  "one_service ss s = \<lparr>psys = s,
     svdefs = (svdef0\<lparr>sv_bitflags := SVDEF_FLAG_CULL, sv_main := sub_set SUBSV_FLAG_WANTDOWN ss\<rparr>) # replicate 199 svdef0,
     nservices = 1, arg_autoscan = 0, fd_listen = -1\<rparr>"

lemma one_service_simps:
  "active (one_service ss s) = [svdef0\<lparr>sv_bitflags := SVDEF_FLAG_CULL, sv_main := sub_set SUBSV_FLAG_WANTDOWN ss\<rparr>]"
  "nservices (one_service ss s) = 1" "psys (one_service ss s) = s"
  by (simp_all add: one_service_def active_def)

lemma one_service_ok:
  assumes "os_ok s" and "subsv_ok ss"
  shows "perpd_ok (one_service ss s)"
proof -
  have "svdef_ok (svdef0\<lparr>sv_bitflags := SVDEF_FLAG_CULL, sv_main := sub_set SUBSV_FLAG_WANTDOWN ss\<rparr>)"
    using assms(2) svdef0_simps(1) by (simp add: svdef_ok_def flag_simps subsv_ok_flags del: svdef0_simps(1))
  then show ?thesis using assms(1) by (simp add: perpd_ok_def one_service_simps) (simp add: one_service_def PERP_MAX_def)
qed

theorem shutdown_completes_witness:
  "nservices (reaped (one_service (subsv_zero\<lparr>pid := 7\<rparr>) (sys0 (\<lambda>i. 8))) [(7, 0), (8, 0)]) = 0"
proof -
  let ?p = "one_service (subsv_zero\<lparr>pid := 7\<rparr>) (sys0 (\<lambda>i. 8))"
  have os: "os_ok (sys0 (\<lambda>i. 8))" by (auto intro: sys0_ok)
  have ss: "subsv_ok (subsv_zero\<lparr>pid := 7\<rparr>)" by (simp add: subsv_ok_def subsv_zero_def flag_simps)
  have ok: "perpd_ok ?p" using os ss by (rule one_service_ok)
  have fk: "forks_ok (psys ?p)" using os by (simp add: forks_ok_def one_service_simps) (simp add: sys0_def)
  have sh: "shutting ?p"
    by (simp add: shutting_def one_service_simps perpd_svdef_cullok_def flag_simps)
  have tot: "total ?p = 2"
    by (simp add: total_def one_service_simps work_def phase_def flag_simps subsv_zero_def)
  have r: "reaps ?p [(7, 0), (8, 0)]"
    by (simp add: one_service_def find_child_find perpd_waitup_def waitup_svdef_def noted_def perpd_svdef_run_def
        sys0_def now_def fork_def emit_def Let_def flag_simps subsv_zero_def svrun_prog_def)
  show ?thesis using shutdown_completes [OF ok fk sh r] tot by simp
qed

text \<open>A fork that fails during shutdown: the one service left, without logger and in its cull, stays in the table although it is ready to be culled, no child is left,
  and no flag is raised.\<close>

lemma waitup_fork_failure:
  assumes "active p = [sd]" and "nservices p = 1" and "flag_terminating (psys p)" and "os_fork (psys p) (forks (psys p)) = -1"
    and "svdef_ok sd" and "sv_has sd SVDEF_FLAG_CULL" and "\<not> sv_has sd SVDEF_FLAG_HASLOG"
    and "0 < pid (sv_main sd)" and "\<not> sub_has (sv_main sd) SUBSV_FLAG_ISRESET"
    and p'_def: "p' = perpd_waitup [(pid (sv_main sd), st)] p"
  shows "nservices p' = 1" and "perpd_svdef_cullok (svdefs p' ! 0)" and "\<And>q. 0 < q \<Longrightarrow> find_child (svdefs p') (nservices p') q 0 = None"
proof -
  let ?q = "pid (sv_main sd)"
  have sd: "svdefs p ! 0 = sd" "svdefs p \<noteq> []" using assms(1,2) by (cases "svdefs p"; simp add: active_def)+
  have f: "find_child (svdefs p) (nservices p) ?q 0 = Some (0, SUBSV_MAIN)"
    using sd assms(2) by (simp add: find_child_find)
  let ?n = "noted sd SUBSV_MAIN st"
  have ns: "\<not> run_skips ?n SUBSV_MAIN"
    using noted_simps(1) [of sd SUBSV_MAIN st SUBSV_MAIN] by (simp add: run_skips_def)
  define s' where "s' = fst (fork (Some (run_argv SUBSV_MAIN SVRUN_RESET (cstr_of (svname ?n))))
      (run_wait SVRUN_RESET (tain_now (os_time (psys p) (ticks (psys p)))) (when_ok (sv_main ?n))) (fst (now (psys p))))"
  have run: "perpd_svdef_run (psys p) ?n SUBSV_MAIN SVRUN_RESET = (s', set_svpair SUBSV_MAIN (run_failed SVRUN_RESET) ?n, -1)"
    using assms(3,4) by (simp add: svdef_run_go [OF ns] Let_def svrun_prog_zero s'_def perpd_trigger_fail_def run_fork_trace)
  let ?sd' = "set_svpair SUBSV_MAIN (run_failed SVRUN_RESET) ?n"
  have wup: "waitup_svdef (psys p) sd SUBSV_MAIN st = (s', ?sd', 0, 0)"
    using assms(9) run noted_simps(2) [of sd SUBSV_MAIN st SUBSV_MAIN] by (simp add: waitup_svdef_def Let_def)
  have p': "perpd_waitup [(?q, st)] p = p\<lparr>psys := s', svdefs := (svdefs p)[0 := ?sd']\<rparr>"
    using f wup assms(8) sd by (simp add: perpd_waitup_def)
  have c: "perpd_svdef_cullok ?sd'" "pid (sv_main ?sd') = 0" "pid (sv_log ?sd') = 0"
    using assms(5,6,7) noted_simps(4) [of sd SUBSV_MAIN st] noted_simps(1) [of sd SUBSV_MAIN st SUBSV_LOG]
    by (simp_all add: perpd_svdef_cullok_def run_failed_def svdef_ok_def)
  show "nservices p' = 1" "perpd_svdef_cullok (svdefs p' ! 0)" using sd assms(2) c(1) by (simp_all add: p'_def p')
  show "find_child (svdefs p') (nservices p') q 0 = None" if "0 < q" for q
    using sd assms(2) c(2,3) that by (simp add: p'_def p' find_child_find)
qed

text \<open>C9: \<open>perpd_cull\<close> removes exactly the services whose cull is complete and closes the directory descriptor of each once.  The
  services that stay are the same as before as a multiset (the last entry takes the place of a removed one), the array
  keeps its size, and the invariant of the table is kept.\<close>

theorem perpd_cull_removes:
  assumes "perpd_ok p"
  shows "perpd_ok (perpd_cull p) \<and>
    mset (active (perpd_cull p)) = filter_mset (\<lambda>sd. \<not> perpd_svdef_cullok sd) (mset (active p)) \<and>
    (\<exists>acts. trace (psys (perpd_cull p)) = trace (psys p) @ acts \<and>
       mset acts = image_mset (\<lambda>sd. Close (fd_dir sd)) (filter_mset perpd_svdef_cullok (mset (active p))))"
  using perpd_cull_ok [OF assms] perpd_cull_spec [of p] assms by (simp add: perpd_ok_def)

theorem perpd_cull_removes_witness:
  "active (perpd_cull (one_service subsv_zero (sys0 (\<lambda>i. 8)))) = []"
proof -
  have os: "os_ok (sys0 (\<lambda>i. 8))" by (auto intro: sys0_ok)
  have ok: "perpd_ok (one_service subsv_zero (sys0 (\<lambda>i. 8)))" by (rule one_service_ok [OF os]) simp
  show ?thesis
    using perpd_cull_removes [OF ok] by (simp add: one_service_simps perpd_svdef_cullok_def flag_simps)
qed

text \<open>C8: a scan makes the table reflect the base directory.  After a scan that reads the directory to its end, the services flagged
  active are exactly those in the table whose device and inode belong to a valid service directory (a sticky directory whose name does
  not start with a dot), every other service in the table is being culled, and the invariant of the table is kept.  Every valid
  directory has its active service, unless the service was already in a cull before, or the scan paused and triggered another
  one because an activation failed or the table was full.\<close>

theorem perpd_scan_reflects:
  assumes "perpd_ok p" and "\<forall>d \<in> set (dirents env). 0 \<notin> set (d_name d)" and "opendir_ok env" and "readdir_errno env = 0"
  shows "let p' = perpd_scan env p in
    perpd_ok p' \<and>
    (\<forall>sd \<in> set (active p'). (sv_has sd SVDEF_FLAG_ACTIVE \<longleftrightarrow> ident sd \<in> valid_dirs (dirents env)) \<and>
       (\<not> sv_has sd SVDEF_FLAG_ACTIVE \<longrightarrow> sv_has sd SVDEF_FLAG_CULL)) \<and>
    ((\<forall>k \<in> valid_dirs (dirents env). (\<exists>sd \<in> set (active p'). ident sd = k \<and> sv_has sd SVDEF_FLAG_ACTIVE) \<or>
        (\<exists>sd \<in> set (active p). ident sd = k \<and> sv_has sd SVDEF_FLAG_CULL)) \<or>
     (\<exists>s. psys p' = perpd_trigger_scan (emit (Pause (Tain 0 EPAUSE)) s)))"
proof -
  obtain s svs where u: "for_first unflag (nservices p) (psys p) (svdefs p) = (s, svs)" by force
  obtain p1 g where f: "foldl scan_entry (p\<lparr>psys := s, svdefs := svs\<rparr>, 0) (dirents env) = (p1, g)" by force
  obtain s2 c svs2 where c: "for_first scan_cull (nservices p1) (psys p1, 0) (svdefs p1) = ((s2, c), svs2)"
    by (metis prod.exhaust)
  let ?p2 = "p1\<lparr>psys := s2, svdefs := svs2\<rparr>"
  define p3 where "p3 = (if c > 0 then perpd_cull ?p2 else ?p2)"
  have inv: "scan_inv p (dirents env) p1 g" using scan_fold_inv [OF scan_start [OF assms(1) u] assms(2) f] by simp
  note l = scan_cull_loop [OF inv c]
  have "set (active (perpd_cull ?p2)) = {sd \<in> set (active ?p2). \<not> perpd_svdef_cullok sd}"
    using arg_cong [OF perpd_cull_spec(1) [of ?p2], of set_mset] l by (simp add: perpd_ok_def)
  then have sub: "set (active p3) \<subseteq> set (active ?p2)"
    and sup: "sd \<in> set (active ?p2) \<Longrightarrow> \<not> sv_has sd SVDEF_FLAG_CULL \<Longrightarrow> sd \<in> set (active p3)" for sd
    by (auto simp: p3_def perpd_svdef_cullok_def)
  have flags: "\<forall>sd \<in> set (active p3). (sv_has sd SVDEF_FLAG_ACTIVE \<longleftrightarrow> ident sd \<in> valid_dirs (dirents env)) \<and>
       (\<not> sv_has sd SVDEF_FLAG_ACTIVE \<longrightarrow> sv_has sd SVDEF_FLAG_CULL)" using l sub by blast
  have complete: "\<exists>sd \<in> set (active p3). ident sd = k \<and> sv_has sd SVDEF_FLAG_ACTIVE"
    if g: "g = 0" "k \<in> valid_dirs (dirents env)" "\<not> (\<exists>sd \<in> set (active p). ident sd = k \<and> sv_has sd SVDEF_FLAG_CULL)" for k
  proof -
    obtain sd where sd: "sd \<in> set (active p1)" "ident sd = k" using inv g by (auto simp: scan_inv_def)
    then have "sv_has sd SVDEF_FLAG_ACTIVE" "\<not> sv_has sd SVDEF_FLAG_CULL" using inv g by (auto simp: scan_inv_def)
    then show ?thesis using l sup sd by blast
  qed
  have eq: "perpd_scan env p =
      (if g > 0 then p3\<lparr>psys := perpd_trigger_scan (emit (Pause (Tain 0 EPAUSE)) (psys p3))\<rparr> else p3)"
    using perpd_scan_unfold [OF assms(3) u f c] assms(4) by (simp add: p3_def Let_def)
  have act: "active (perpd_scan env p) = active p3" by (simp add: eq active_def)
  show ?thesis
    unfolding Let_def act using perpd_scan_ok [OF assms(1,2)] flags complete by (cases "g = 0") (auto simp: eq)
qed

theorem perpd_scan_reflects_witness:
  "let p' = perpd_scan \<lparr>opendir_ok = True, dirents = [], readdir_errno = 0\<rparr> (one_service (subsv_zero\<lparr>pid := 7\<rparr>) (sys0 (\<lambda>i. 8))) in
     \<forall>sd \<in> set (active p'). sv_has sd SVDEF_FLAG_CULL"
proof -
  have os: "os_ok (sys0 (\<lambda>i. 8))" by (auto intro: sys0_ok)
  have ss: "subsv_ok (subsv_zero\<lparr>pid := 7\<rparr>)" by (simp add: subsv_ok_def subsv_zero_def flag_simps)
  show ?thesis
    using perpd_scan_reflects [OF one_service_ok [OF os ss], of "\<lparr>opendir_ok = True, dirents = [], readdir_errno = 0\<rparr>"]
    by (simp add: valid_dirs_def Let_def)
qed

lemma noted_run:
  assumes "forks_ok s" and "wh = SUBSV_LOG \<longrightarrow> sv_has sd SVDEF_FLAG_HASLOG"
    and "perpd_svdef_run s (noted sd wh st) wh tgt = (s', sd', r)"
  shows "\<exists>t q w. 0 < q \<and> sd' = set_svpair wh (run_started tgt t q) (noted sd wh st) \<and> later s s' \<and>
    trace s' = trace s @ [Fork (Some (run_argv wh tgt (cstr_of (svname sd)))) w]"
proof -
  have ns: "\<not> run_skips (noted sd wh st) wh" using assms(2) by (auto simp: run_skips_def noted_simps)
  have f: "os_fork s (forks s) \<noteq> -1" "0 < os_fork s (forks s)" using assms(1) by (auto simp: forks_ok_def os_ok_def)
  have name: "svname (noted sd wh st) = svname sd" by (simp add: noted_def Let_def)
  have "later s s'" using assms(3) by (cases rule: svdef_run_cases) auto
  moreover have "\<exists>w. trace s' = trace s @ [Fork (Some (run_argv wh tgt (cstr_of (svname sd)))) w]"
      "sd' = set_svpair wh (run_started tgt (tain_now (os_time s (ticks s))) (os_fork s (forks s))) (noted sd wh st)"
    using assms(3) f name by (auto simp: svdef_run_go [OF ns] Let_def svrun_prog_zero run_fork_trace)
  ultimately show ?thesis using f(2) by blast
qed

text \<open>C5: supervision.  When the process of a start script ends, its reset script is run; when that one ends in turn, the start script is
  run again, unless the subservice is wanted down or was to run just once: then it stays down, wanted down, and nothing is forked.
  This holds for the main process and the logger, for every way in which the processes end, as long as fork succeeds.\<close>

theorem supervision_cycle:
  assumes "forks_ok s" and "svdef_ok sd" and "0 < pid (svpair sd wh)" and "\<not> sub_has (svpair sd wh) SUBSV_FLAG_ISRESET"
    and "waitup_svdef s sd wh st1 = (s1, sd1, c1, y1)" and "waitup_svdef s1 sd1 wh st2 = (s2, sd2, c2, y2)"
  shows "0 < pid (svpair sd1 wh) \<and> sub_has (svpair sd1 wh) SUBSV_FLAG_ISRESET \<and>
    (\<exists>w. trace s1 = trace s @ [Fork (Some (run_argv wh SVRUN_RESET (cstr_of (svname sd)))) w]) \<and>
    (if sub_has (svpair sd wh) SUBSV_FLAG_WANTDOWN \<or> sub_has (svpair sd wh) SUBSV_FLAG_ISONCE
     then pid (svpair sd2 wh) = 0 \<and> sub_has (svpair sd2 wh) SUBSV_FLAG_WANTDOWN \<and>
       (\<exists>acts. trace s2 = trace s1 @ acts \<and> (\<forall>argv w. Fork argv w \<notin> set acts))
     else 0 < pid (svpair sd2 wh) \<and> \<not> sub_has (svpair sd2 wh) SUBSV_FLAG_ISRESET \<and>
       (\<exists>w. trace s2 = trace s1 @ [Fork (Some (run_argv wh SVRUN_START (cstr_of (svname sd)))) w]))"
proof -
  let ?n = "noted sd wh st1"
  have log: "wh = SUBSV_LOG \<longrightarrow> sv_has sd SVDEF_FLAG_HASLOG" using assms(2,3) by (auto simp: svdef_ok_def)
  obtain r where "perpd_svdef_run s ?n wh SVRUN_RESET = (s1, sd1, r)"
    using assms(5) by (cases rule: waitup_svdef_cases) (use assms(4) in auto)
  from noted_run [OF assms(1) log this] obtain t q w where 1: "0 < q" "sd1 = set_svpair wh (run_started SVRUN_RESET t q) ?n" "later s s1"
      "trace s1 = trace s @ [Fork (Some (run_argv wh SVRUN_RESET (cstr_of (svname sd)))) w]" by blast
  have sd1: "pid (svpair sd1 wh) = q" "sub_has (svpair sd1 wh) SUBSV_FLAG_ISRESET" "svname sd1 = svname sd" "sv_bitflags sd1 = sv_bitflags sd"
      "sub_has (svpair sd1 wh) SUBSV_FLAG_WANTDOWN \<longleftrightarrow>
        sub_has (svpair sd wh) SUBSV_FLAG_WANTDOWN \<or> sub_has (svpair sd wh) SUBSV_FLAG_ISONCE"
      "sub_has (svpair sd1 wh) SUBSV_FLAG_ISONCE \<longleftrightarrow> sub_has (svpair sd wh) SUBSV_FLAG_ISONCE"
    by (auto simp: 1(2) run_started_def flag_simps noted_simps noted_def Let_def)
  have fk: "forks_ok s1" using later_forks_ok [OF 1(3) assms(1)] .
  let ?m = "noted sd1 wh st2"
  have m: "sub_has (svpair ?m wh) SUBSV_FLAG_WANTDOWN \<longleftrightarrow>
      sub_has (svpair sd wh) SUBSV_FLAG_WANTDOWN \<or> sub_has (svpair sd wh) SUBSV_FLAG_ISONCE" "pid (svpair ?m wh) = 0"
    using sd1(5,6) by (auto simp: noted_simps)
  have "if sub_has (svpair sd wh) SUBSV_FLAG_WANTDOWN \<or> sub_has (svpair sd wh) SUBSV_FLAG_ISONCE
     then pid (svpair sd2 wh) = 0 \<and> sub_has (svpair sd2 wh) SUBSV_FLAG_WANTDOWN \<and>
       (\<exists>acts. trace s2 = trace s1 @ acts \<and> (\<forall>argv w. Fork argv w \<notin> set acts))
     else 0 < pid (svpair sd2 wh) \<and> \<not> sub_has (svpair sd2 wh) SUBSV_FLAG_ISRESET \<and>
       (\<exists>w. trace s2 = trace s1 @ [Fork (Some (run_argv wh SVRUN_START (cstr_of (svname sd)))) w])"
    using assms(6)
  proof (cases rule: waitup_svdef_cases)
    case (reset r)
    then show ?thesis using sd1(2) by simp
  next
    case (restart r)
    have "wh = SUBSV_LOG \<longrightarrow> sv_has sd1 SVDEF_FLAG_HASLOG" using log sd1(4) by simp
    from noted_run [OF fk this restart(3)] show ?thesis
      using restart(2) m sd1(3) by (auto simp: run_started_def flag_simps)
  next
    case stoplog
    then show ?thesis using m by (auto split: if_splits)
  next
    case down
    then show ?thesis using m by auto
  qed
  then show ?thesis using 1 sd1(1,2) by auto
qed

theorem supervision_cycle_witness:
  "let sd = svdef0\<lparr>sv_main := subsv_zero\<lparr>pid := 7\<rparr>\<rparr>; (s1, sd1, c1, y1) = waitup_svdef (sys0 (\<lambda>i. 8)) sd SUBSV_MAIN 0;
     (s2, sd2, c2, y2) = waitup_svdef s1 sd1 SUBSV_MAIN 0 in 0 < pid (sv_main sd2) \<and> \<not> sub_has (sv_main sd2) SUBSV_FLAG_ISRESET"
proof -
  let ?sd = "svdef0\<lparr>sv_main := subsv_zero\<lparr>pid := 7\<rparr>\<rparr>"
  have os: "forks_ok (sys0 (\<lambda>i. 8))" using sys0_ok [of "\<lambda>i. 8"] by (simp add: forks_ok_def) (simp add: sys0_def)
  have ok: "svdef_ok ?sd" using svdef0_simps(1) by (simp add: svdef_ok_def subsv_ok_def subsv_zero_def flag_simps del: svdef0_simps(1))
  obtain s1 sd1 c1 y1 where 1: "waitup_svdef (sys0 (\<lambda>i. 8)) ?sd SUBSV_MAIN 0 = (s1, sd1, c1, y1)" using prod_cases4 by blast
  obtain s2 sd2 c2 y2 where 2: "waitup_svdef s1 sd1 SUBSV_MAIN 0 = (s2, sd2, c2, y2)" using prod_cases4 by blast
  have "0 < pid (sv_main sd2) \<and> \<not> sub_has (sv_main sd2) SUBSV_FLAG_ISRESET"
    using supervision_cycle [OF os ok _ _ 1 2] by (simp add: subsv_zero_def flag_simps)
  then show ?thesis by (simp add: Let_def 1 2)
qed

end
