(* ===== verification/Buf.thy ===== *)
theory Buf
  imports Perp_Prelude
begin

text \<open>
  Byte buffers: \<open>src/lasagna/buf\<close>.  Each loop of the source is unrolled four times by hand;
  the recursion below has one byte per step.  \<open>buf_copy\<close> copies between two objects, and
  \<open>buf_copy_in\<close> and \<open>buf_rcopy_in\<close> are the same loops when both pointers point into one object,
  where the areas may overlap.
\<close>

section \<open>Definitions\<close>

fun buf_cmp :: "buffer \<Rightarrow> nat \<Rightarrow> buffer \<Rightarrow> nat \<Rightarrow> nat \<Rightarrow> int option" where
  "buf_cmp b1 p1 b2 p2 0 = Some 0"
| "buf_cmp b1 p1 b2 p2 (Suc n) = do {
     x \<leftarrow> rd b1 p1;
     y \<leftarrow> rd b2 p2;
     if x \<noteq> y then Some (uint x - uint y) else buf_cmp b1 (p1 + 1) b2 (p2 + 1) n }"

fun buf_fill :: "buffer \<Rightarrow> nat \<Rightarrow> nat \<Rightarrow> u8 \<Rightarrow> buffer option" where
  "buf_fill b p 0 c = Some b"
| "buf_fill b p (Suc n) c = do { b \<leftarrow> wr b p c; buf_fill b (p + 1) n c }"

fun buf_copy :: "buffer \<Rightarrow> nat \<Rightarrow> buffer \<Rightarrow> nat \<Rightarrow> nat \<Rightarrow> buffer option" where
  "buf_copy to p1 from p2 0 = Some to"
| "buf_copy to p1 from p2 (Suc n) = do {
     c \<leftarrow> rd from p2;
     to \<leftarrow> wr to p1 c;
     buf_copy to (p1 + 1) from (p2 + 1) n }"

fun buf_copy_in :: "buffer \<Rightarrow> nat \<Rightarrow> nat \<Rightarrow> nat \<Rightarrow> buffer option" where
  "buf_copy_in b p1 p2 0 = Some b"
| "buf_copy_in b p1 p2 (Suc n) = do {
     c \<leftarrow> rd b p2;
     b \<leftarrow> wr b p1 c;
     buf_copy_in b (p1 + 1) (p2 + 1) n }"

text \<open>\<open>*--p1 = *--p2\<close> from the ends of the areas; the \<open>n\<close> bytes before the pointers remain.\<close>

fun buf_rcopy_in :: "buffer \<Rightarrow> nat \<Rightarrow> nat \<Rightarrow> nat \<Rightarrow> buffer option" where
  "buf_rcopy_in b to from 0 = Some b"
| "buf_rcopy_in b to from (Suc n) = do {
     c \<leftarrow> rd b (from + n);
     b \<leftarrow> wr b (to + n) c;
     buf_rcopy_in b to from n }"

fun buf_ndx_loop :: "buffer \<Rightarrow> nat \<Rightarrow> nat \<Rightarrow> u8 \<Rightarrow> nat option" where
  "buf_ndx_loop b p 0 ch = Some p"
| "buf_ndx_loop b p (Suc n) ch = do {
     x \<leftarrow> rd b p;
     if x = ch then Some p else buf_ndx_loop b (p + 1) n ch }"

definition buf_ndx :: "buffer \<Rightarrow> nat \<Rightarrow> nat \<Rightarrow> u8 \<Rightarrow> nat option" where
  "buf_ndx b i n ch = do { p \<leftarrow> buf_ndx_loop b i n ch; Some (p - i) }"

fun buf_rndx_loop :: "buffer \<Rightarrow> nat \<Rightarrow> nat \<Rightarrow> u8 \<Rightarrow> nat option \<Rightarrow> (nat \<times> nat option) option" where
  "buf_rndx_loop b p 0 ch pN = Some (p, pN)"
| "buf_rndx_loop b p (Suc n) ch pN = do {
     x \<leftarrow> rd b p;
     buf_rndx_loop b (p + 1) n ch (if x = ch then Some p else pN) }"

definition buf_rndx :: "buffer \<Rightarrow> nat \<Rightarrow> nat \<Rightarrow> u8 \<Rightarrow> nat option" where
  "buf_rndx b i n ch = do {
     (p, pN) \<leftarrow> buf_rndx_loop b i n ch None;
     Some ((case pN of None \<Rightarrow> p | Some q \<Rightarrow> q) - i) }"

text \<open>The specification of a copy inside one object: the bytes as they were before it.\<close>

definition moved :: "buffer \<Rightarrow> nat \<Rightarrow> nat \<Rightarrow> nat \<Rightarrow> buffer" where
  "moved b to from n = take to b @ take n (drop from b) @ drop (to + n) b"

section \<open>Lemmas\<close>

lemma buf_copy_spec:
  "p1 + n \<le> length to \<Longrightarrow> p2 + n \<le> length from \<Longrightarrow>
   buf_copy to p1 from p2 n = Some (take p1 to @ take n (drop p2 from) @ drop (p1 + n) to)"
proof (induction n arbitrary: to p1 p2)
  case 0
  then show ?case by simp
next
  case (Suc n)
  have "take (Suc n) (drop p2 from) = from ! p2 # take n (drop (p2 + 1) from)"
    using Suc.prems Cons_nth_drop_Suc [of p2 "from"] by (simp flip: Cons_nth_drop_Suc)
  moreover have "take (p1 + 1) (to[p1 := from ! p2]) = take p1 to @ [from ! p2]"
    using Suc.prems by (simp add: take_Suc_conv_app_nth)
  ultimately show ?case using Suc by simp
qed

lemma buf_copy_length: "buf_copy to p1 from p2 n = Some to' \<Longrightarrow> length to' = length to"
  by (induction to p1 "from" p2 n rule: buf_copy.induct) (auto simp: mem_simps split: bind_splits)

lemma buf_fill_spec:
  "p + n \<le> length b \<Longrightarrow> buf_fill b p n c = Some (take p b @ replicate n c @ drop (p + n) b)"
proof (induction n arbitrary: b p)
  case (Suc n)
  have "take (p + 1) (b[p := c]) = take p b @ [c]"
    using Suc.prems by (simp add: take_Suc_conv_app_nth)
  then show ?case using Suc by simp
qed simp

lemma moved_nth:
  assumes "to + n \<le> length b" and "from + n \<le> length b" and "i < length b"
  shows "moved b to from n ! i = (if to \<le> i \<and> i < to + n then b ! (from + (i - to)) else b ! i)"
proof -
  have l: "length (take to b) = to" "length (take n (drop from b)) = n" using assms by auto
  consider "i < to" | "to \<le> i" "i < to + n" | "to + n \<le> i" by linarith
  then show ?thesis
    unfolding moved_def by cases (use assms l in \<open>auto simp: nth_append\<close>)
qed

lemma length_moved: "to + n \<le> length b \<Longrightarrow> from + n \<le> length b \<Longrightarrow> length (moved b to from n) = length b"
  by (simp add: moved_def)

lemma buf_copy_in_forward:
  assumes "to + n \<le> length b" and "from + n \<le> length b" and "to \<le> from \<or> from + n \<le> to"
  shows "buf_copy_in b to from n = Some (moved b to from n)"
  using assms
proof (induction n arbitrary: b to "from")
  case 0
  then show ?case by (simp add: moved_def)
next
  case (Suc n)
  let ?b = "b[to := b ! from]"
  have "buf_copy_in ?b (to + 1) (from + 1) n = Some (moved ?b (to + 1) (from + 1) n)"
    using Suc.prems by (intro Suc.IH) auto
  moreover have "moved ?b (to + 1) (from + 1) n = moved b to from (Suc n)"
    using Suc.prems
    by (intro nth_equalityI) (auto simp: length_moved moved_nth nth_list_update intro!: arg_cong [of _ _ "nth b"])
  ultimately show ?case using Suc.prems by simp
qed

lemma buf_rcopy_in_backward:
  assumes "to + n \<le> length b" and "from + n \<le> length b" and "from \<le> to \<or> to + n \<le> from"
  shows "buf_rcopy_in b to from n = Some (moved b to from n)"
  using assms
proof (induction n arbitrary: b)
  case 0
  then show ?case by (simp add: moved_def)
next
  case (Suc n)
  let ?b = "b[to + n := b ! (from + n)]"
  have "buf_rcopy_in ?b to from n = Some (moved ?b to from n)"
    using Suc.prems by (intro Suc.IH) auto
  moreover have "moved ?b to from n = moved b to from (Suc n)"
    using Suc.prems by (intro nth_equalityI) (auto simp: length_moved moved_nth nth_list_update less_Suc_eq)
  ultimately show ?case using Suc.prems by simp
qed

section \<open>Properties\<close>

text \<open>The two copy directions are complementary.  Inside one object, \<open>buf_copy\<close> moves the bytes as they
  were when the destination starts at or before the source or the areas are disjoint, \<open>buf_rcopy\<close> when it starts at
  or after the source or they are disjoint.  Against the header's note that the areas of \<open>buf_copy\<close> may overlap,
  copying one place upwards spreads the first byte over the area.\<close>

theorem buf_copy_overlap:
  "(\<forall>b to from n. to + n \<le> length b \<longrightarrow> from + n \<le> length b \<longrightarrow>
      (to \<le> from \<or> from + n \<le> to \<longrightarrow> buf_copy_in b to from n = Some (moved b to from n)) \<and>
      (from \<le> to \<or> to + n \<le> from \<longrightarrow> buf_rcopy_in b to from n = Some (moved b to from n))) \<and>
   buf_copy_in [1, 2, 3, 4] 1 0 3 = Some [1, 1, 1, 1] \<and> moved [1, 2, 3, 4] 1 0 3 = [1, 1, 2, 3]"
  using buf_copy_in_forward buf_rcopy_in_backward by (simp add: moved_def numeral_eq_Suc)

theorem buf_copy_overlap_witness:
  "buf_copy_in [1, 2, 3, 4] 0 1 3 = Some [2, 3, 4, 4] \<and> buf_rcopy_in [1, 2, 3, 4] 1 0 3 = Some [1, 1, 2, 3]"
proof -
  have "buf_copy_in [1, 2, 3, 4] 0 1 3 = Some (moved [1, 2, 3, 4] 0 1 3)"
    using buf_copy_overlap [THEN conjunct1, rule_format, of 0 3 "[1, 2, 3, 4]" 1] by simp
  moreover have "buf_rcopy_in [1, 2, 3, 4] 1 0 3 = Some (moved [1, 2, 3, 4] 1 0 3)"
    using buf_copy_overlap [THEN conjunct1, rule_format, of 1 3 "[1, 2, 3, 4]" 0] by simp
  ultimately show ?thesis by (simp add: moved_def)
qed

end
