(* ===== verification/Pkt.thy ===== *)
theory Pkt
  imports Buf Posix
begin

text \<open>
  The packet protocol: \<open>src/lasagna/pkt\<close>.  A packet is an object of 258 bytes.  The results of the
  successive \<open>read()\<close> and \<open>write()\<close> calls on the descriptor are a list of events; after the last event
  the calls fail with EAGAIN, as they do on the non-blocking sockets of perpd.
\<close>

section \<open>Definitions\<close>

definition PKT_HEADER :: nat where "PKT_HEADER = 3"
definition PKT_PAYLOAD :: nat where "PKT_PAYLOAD = 0xff"
definition PKT_SIZE :: nat where "PKT_SIZE = PKT_HEADER + PKT_PAYLOAD"

definition pkt_proto :: "buffer \<Rightarrow> u8" where "pkt_proto k = k ! 0"
definition pkt_type :: "buffer \<Rightarrow> u8" where "pkt_type k = k ! 1"
definition pkt_len :: "buffer \<Rightarrow> nat" where "pkt_len k = PKT_HEADER + unat (k ! 2)"
definition pkt_dlen :: "buffer \<Rightarrow> nat" where "pkt_dlen k = unat (k ! 2)"
definition pkt_data :: "buffer \<Rightarrow> buffer" where "pkt_data k = drop 3 k"

text \<open>\<open>pkt_load\<close>: the errno or the packet; \<open>None\<close> is a copy out of bounds.\<close>

definition pkt_load :: "buffer \<Rightarrow> u8 \<Rightarrow> u8 \<Rightarrow> buffer \<Rightarrow> nat \<Rightarrow> (int + buffer) option" where
  "pkt_load K P T b N =
     (if N > PKT_SIZE - 3 then Some (Inl ERANGE)
      else do {
        K \<leftarrow> wr K 0 P;
        K \<leftarrow> wr K 1 T;
        K \<leftarrow> wr K 2 (word_of_nat N);
        K \<leftarrow> buf_copy K 3 b 0 N;
        Some (Inr K) })"

text \<open>The result of one \<open>read()\<close>: bytes, end of file, or an error number.\<close>

datatype read_event = Rd_data "u8 list" | Rd_eof | Rd_err int

text \<open>The loop of \<open>pkt_read\<close>; the result is \<open>-1\<close> with errno (\<open>Inl\<close>) or a count (\<open>Inr\<close>).\<close>

fun pkt_read_loop :: "read_event list \<Rightarrow> buffer \<Rightarrow> nat \<Rightarrow> nat \<Rightarrow> buffer \<times> read_event list \<times> (int + nat)" where
  "pkt_read_loop evs pkt n offset =
     (let to_read = (if n < PKT_HEADER then PKT_HEADER else pkt_len pkt) in
      if n < to_read then
        (case evs of
           [] \<Rightarrow> (pkt, [], Inr (n - offset))
         | Rd_err e # evs \<Rightarrow>
             if e = EINTR then pkt_read_loop evs pkt n offset
             else if e = EAGAIN then (pkt, evs, Inr (n - offset))
             else (pkt, evs, Inl e)
         | Rd_eof # evs \<Rightarrow> (pkt, evs, Inr 0)
         | Rd_data bs # evs \<Rightarrow>
             (let bs = take (PKT_SIZE - n) bs; r = length bs in
              if r = 0 then (pkt, evs, Inr 0)
              else pkt_read_loop evs (take n pkt @ bs @ drop (n + r) pkt) (n + r) offset))
      else if n \<noteq> to_read then (pkt, evs, Inl EPROTO)
      else (pkt, evs, Inr (n - offset)))"

declare pkt_read_loop.simps [simp del]

definition pkt_read :: "read_event list \<Rightarrow> buffer \<Rightarrow> nat \<Rightarrow> buffer \<times> read_event list \<times> (int + nat)" where
  "pkt_read evs pkt offset =
     (if offset > PKT_SIZE then (pkt, evs, Inl EINVAL) else pkt_read_loop evs pkt offset offset)"

text \<open>The result of one \<open>write()\<close>: a count of bytes taken, or an error number.\<close>

datatype write_event = Wr_count nat | Wr_err int

fun pkt_write_loop :: "write_event list \<Rightarrow> nat \<Rightarrow> nat \<Rightarrow> write_event list \<times> (int + nat)" where
  "pkt_write_loop evs b to_write =
     (if to_write > 0 then
        (case evs of
           [] \<Rightarrow> ([], Inr b)
         | Wr_err e # evs \<Rightarrow>
             if e = EINTR then pkt_write_loop evs b to_write
             else if e = EAGAIN then (evs, Inr b)
             else (evs, Inl e)
         | Wr_count w # evs \<Rightarrow>
             (let w = min w to_write in pkt_write_loop evs (b + w) (to_write - w)))
      else (evs, Inr b))"

declare pkt_write_loop.simps [simp del]

text \<open>The count written, and with it the bytes that left: \<open>take count (drop offset pkt)\<close>.\<close>

definition pkt_write :: "write_event list \<Rightarrow> buffer \<Rightarrow> nat \<Rightarrow> write_event list \<times> (int + nat)" where
  "pkt_write evs pkt offset =
     (let to_write = pkt_len pkt in
      if offset > to_write then (evs, Inl EINVAL)
      else (case pkt_write_loop evs offset (to_write - offset) of
              (evs, Inl e) \<Rightarrow> (evs, Inl e)
            | (evs, Inr b) \<Rightarrow> (evs, Inr (b - offset))))"

text \<open>Transfers with no error other than EINTR, and the bytes they carry.\<close>

fun smooth_reads :: "read_event list \<Rightarrow> bool" where
  "smooth_reads [] \<longleftrightarrow> True"
| "smooth_reads (Rd_data bs # evs) \<longleftrightarrow> bs \<noteq> [] \<and> smooth_reads evs"
| "smooth_reads (Rd_eof # evs) \<longleftrightarrow> False"
| "smooth_reads (Rd_err e # evs) \<longleftrightarrow> e = EINTR \<and> smooth_reads evs"

fun read_bytes :: "read_event list \<Rightarrow> u8 list" where
  "read_bytes [] = []"
| "read_bytes (Rd_data bs # evs) = bs @ read_bytes evs"
| "read_bytes (e # evs) = read_bytes evs"

text \<open>\<open>holds k n p\<close>: the object \<open>p\<close> holds the first \<open>n\<close> bytes of packet \<open>k\<close>.\<close>

definition holds :: "buffer \<Rightarrow> nat \<Rightarrow> buffer \<Rightarrow> bool" where
  "holds k n p \<longleftrightarrow> length p = PKT_SIZE \<and> take n p = take n k"

section \<open>Lemmas\<close>

lemmas pkt_size_simps = PKT_SIZE_def PKT_HEADER_def PKT_PAYLOAD_def

lemma pkt_len_bound: "pkt_len k \<le> PKT_SIZE"
proof -
  have "unat (k ! 2) < 2 ^ LENGTH(8)" by (rule unsigned_less)
  then show ?thesis by (simp add: pkt_len_def pkt_size_simps)
qed

lemma pkt_len_ge: "PKT_HEADER \<le> pkt_len k"
  by (simp add: pkt_len_def)

lemma pkt_load_spec:
  assumes "length K = PKT_SIZE" and "N \<le> length b" and "N \<le> 255"
  shows "pkt_load K P T b N = Some (Inr (P # T # word_of_nat N # take N b @ drop (3 + N) K))"
proof -
  obtain k0 k1 k2 K' where K: "K = k0 # k1 # k2 # K'"
    using assms(1) by (auto simp: pkt_size_simps numeral_eq_Suc length_Suc_conv)
  show ?thesis
    using assms unfolding K pkt_load_def
    by (simp add: buf_copy_spec pkt_size_simps numeral_3_eq_3)
qed

lemma pkt_load_len: "N \<le> 255 \<Longrightarrow> pkt_len (P # T # word_of_nat N # rest) = 3 + N"
  by (simp add: pkt_len_def PKT_HEADER_def unat_of_nat take_bit_nat_eq_self_iff)

lemma pkt_read_loop_length:
  "length pkt = PKT_SIZE \<Longrightarrow> n \<le> PKT_SIZE \<Longrightarrow> length (fst (pkt_read_loop evs pkt n offset)) = PKT_SIZE"
proof (induction evs pkt n offset rule: pkt_read_loop.induct)
  case (1 evs pkt n offset)
  then show ?case
    by (subst pkt_read_loop.simps)
      (auto simp: Let_def pkt_size_simps split: list.split read_event.split)
qed

lemma pkt_read_length: "length pkt = PKT_SIZE \<Longrightarrow> length (fst (pkt_read evs pkt offset)) = PKT_SIZE"
  by (simp add: pkt_read_def pkt_read_loop_length)

lemma holds_len: "holds k n p \<Longrightarrow> PKT_HEADER \<le> n \<Longrightarrow> length k = PKT_SIZE \<Longrightarrow> pkt_len p = pkt_len k"
proof -
  assume "holds k n p" "PKT_HEADER \<le> n" "length k = PKT_SIZE"
  then have "take n p ! 2 = take n k ! 2" "2 < n" by (auto simp: holds_def PKT_HEADER_def)
  then show ?thesis by (simp add: pkt_len_def)
qed

lemma holds_extend:
  assumes "holds k n p" and "length k = PKT_SIZE" and "n \<le> PKT_SIZE" and "bs = take (length bs) (drop n k)"
  shows "holds k (n + length bs) (take n p @ bs @ drop (n + length bs) p)"
proof -
  have len: "n + length bs \<le> PKT_SIZE"
    using arg_cong [OF assms(4), of length] assms(2,3) by (auto simp: min_def split: if_splits)
  have "take (n + length bs) k = take n k @ bs"
    by (subst assms(4)) (simp add: take_add)
  then show ?thesis using assms len by (simp add: holds_def)
qed

lemma pkt_read_loop_smooth:
  assumes "holds k n p" and "length k = PKT_SIZE" and "n \<le> pkt_len k"
    and "smooth_reads evs" and "\<exists>rest. drop n (take (pkt_len k) k) = read_bytes evs @ rest"
  shows "\<exists>p' evs'. pkt_read_loop evs p n offset = (p', evs', Inr (n + length (read_bytes evs) - offset)) \<and>
    holds k (n + length (read_bytes evs)) p' \<and> read_bytes evs' = []"
  using assms
proof (induction evs arbitrary: p n)
  case Nil
  have "pkt_read_loop [] p n offset = (p, [], Inr (n - offset))"
  proof (cases "n < PKT_HEADER")
    case False
    then have "pkt_len p = pkt_len k" using holds_len Nil by simp
    with Nil show ?thesis by (subst pkt_read_loop.simps) (auto simp: Let_def)
  qed (subst pkt_read_loop.simps, simp add: Let_def)
  with Nil show ?case by simp
next
  case (Cons e evs)
  let ?to = "if n < PKT_HEADER then PKT_HEADER else pkt_len p"
  have to: "n < ?to \<longleftrightarrow> n < pkt_len k"
    using holds_len [OF Cons.prems(1) _ Cons.prems(2)] pkt_len_ge [of k] by auto
  have nsize: "n \<le> PKT_SIZE" using Cons.prems(3) pkt_len_bound [of k] by simp
  show ?case
  proof (cases e)
    case (Rd_data bs)
    obtain rest where rest: "drop n (take (pkt_len k) k) = bs @ read_bytes evs @ rest"
      using Cons.prems(5) Rd_data by auto
    have ne: "bs \<noteq> []" using Cons.prems(4) Rd_data by simp
    have lt: "n < pkt_len k" using rest ne by (metis Nil_is_append_conv drop_eq_Nil2 length_take min.cobounded2 not_le_imp_less order_trans)
    have len: "n + length bs \<le> pkt_len k"
      using arg_cong [OF rest, of length] Cons.prems(2) pkt_len_bound [of k] lt by simp
    have fit: "take (PKT_SIZE - n) bs = bs" using len pkt_len_bound [of k] by simp
    have pre: "bs = take (length bs) (drop n k)"
      using arg_cong [OF rest, of "take (length bs)"] len by (simp add: drop_take min_absorb1)
    let ?p = "take n p @ bs @ drop (n + length bs) p"
    have "pkt_read_loop (e # evs) p n offset = pkt_read_loop evs ?p (n + length bs) offset"
      using to lt ne fit by (subst pkt_read_loop.simps) (simp add: Rd_data Let_def)
    moreover have "holds k (n + length bs) ?p"
      using Cons.prems(1,2) nsize pre by (rule holds_extend)
    moreover have "drop (n + length bs) (take (pkt_len k) k) = read_bytes evs @ rest"
      using arg_cong [OF rest, of "drop (length bs)"] by (simp add: add.commute)
    ultimately show ?thesis
      using Cons.IH [of "n + length bs" ?p] Cons.prems len by (auto simp: Rd_data add.assoc)
  next
    case Rd_eof
    then show ?thesis using Cons.prems by simp
  next
    case (Rd_err c)
    then have c: "c = EINTR" using Cons.prems by simp
    show ?thesis
    proof (cases "n < pkt_len k")
      case True
      then have "pkt_read_loop (e # evs) p n offset = pkt_read_loop evs p n offset"
        using to c by (subst pkt_read_loop.simps) (simp add: Rd_err Let_def)
      then show ?thesis using Cons.IH [of n p] Cons.prems by (simp add: Rd_err)
    next
      case False
      then have n: "n = pkt_len k" using Cons.prems by simp
      then have "pkt_len p = pkt_len k" "\<not> n < PKT_HEADER"
        using holds_len Cons.prems pkt_len_ge [of k] by auto
      then have "pkt_read_loop (e # evs) p n offset = (p, e # evs, Inr (n - offset))"
        using n by (subst pkt_read_loop.simps) (simp add: Let_def)
      moreover have "read_bytes evs = []" using Cons.prems(5) n Rd_err by simp
      ultimately show ?thesis using Cons.prems Rd_err by simp
    qed
  qed
qed


lemma pkt_write_loop_bounds:
  "pkt_write_loop evs b w = (evs', Inr b') \<Longrightarrow> b \<le> b' \<and> b' \<le> b + w"
proof (induction evs arbitrary: b w)
  case Nil
  then show ?case by (simp add: pkt_write_loop.simps split: if_splits)
next
  case (Cons e evs)
  have step: "pkt_write_loop (e # evs) b w =
      (if w > 0 then
         (case e of
            Wr_err c \<Rightarrow> if c = EINTR then pkt_write_loop evs b w
              else if c = EAGAIN then (evs, Inr b) else (evs, Inl c)
          | Wr_count c \<Rightarrow> pkt_write_loop evs (b + min c w) (w - min c w))
       else (e # evs, Inr b))"
    by (subst pkt_write_loop.simps) (simp add: Let_def split: write_event.split)
  have "b + min c w + (w - min c w) = b + w" for c by simp
  then show ?case
    using Cons.prems Cons.IH unfolding step
    by (fastforce split: write_event.splits if_splits)
qed

lemma pkt_write_count: "pkt_write evs k off = (evs', Inr w) \<Longrightarrow> off + w \<le> pkt_len k"
  unfolding pkt_write_def
  by (auto simp: Let_def split: if_splits prod.splits sum.splits dest: pkt_write_loop_bounds)

section \<open>Properties\<close>

text \<open>C35: packets survive any fragmentation.  \<open>pkt_load\<close> builds a packet of the given protocol, type and payload; when
  it is sent and the receiver's \<open>pkt_read\<close> resumes at any offset with an object that holds the bytes received so far,
  then for every way in which the kernel cuts the next bytes of the packet into reads, with interruptions between them,
  \<open>pkt_read\<close> returns their number and the object holds that many more bytes of the packet, and no byte stays behind.\<close>

theorem pkt_load_read:
  assumes "length K = PKT_SIZE" and "N \<le> length b" and "N \<le> 255"
    and "pkt_load K P T b N = Some (Inr k)"
    and "off \<le> pkt_len k" and "holds k off p" and "smooth_reads evs"
    and "\<exists>rest. drop off (take (pkt_len k) k) = read_bytes evs @ rest"
  shows "pkt_proto k = P \<and> pkt_type k = T \<and> pkt_dlen k = N \<and> pkt_len k = 3 + N \<and> take N (pkt_data k) = take N b \<and>
    (\<exists>p' evs'. pkt_read evs p off = (p', evs', Inr (length (read_bytes evs))) \<and>
      holds k (off + length (read_bytes evs)) p' \<and> read_bytes evs' = [])"
proof -
  have k: "k = P # T # word_of_nat N # take N b @ drop (3 + N) K"
    using pkt_load_spec [OF assms(1-3), of P T] assms(4) by simp
  have len: "length k = PKT_SIZE" using assms(1-3) unfolding k by (simp add: pkt_size_simps)
  have "\<not> off > PKT_SIZE" using assms(5) pkt_len_bound [of k] by simp
  then have rd: "\<exists>p' evs'. pkt_read evs p off = (p', evs', Inr (length (read_bytes evs))) \<and>
      holds k (off + length (read_bytes evs)) p' \<and> read_bytes evs' = []"
    using pkt_read_loop_smooth [OF assms(6) len assms(5,7,8), of off] by (simp add: pkt_read_def)
  have l: "pkt_len k = 3 + N" unfolding k by (rule pkt_load_len [OF assms(3)])
  have d: "pkt_dlen k = N" using l by (simp add: pkt_dlen_def pkt_len_def PKT_HEADER_def)
  have "pkt_proto k = P" "pkt_type k = T" by (simp_all add: k pkt_proto_def pkt_type_def)
  moreover have "take N (pkt_data k) = take N b"
    using assms(2) by (simp add: k pkt_data_def numeral_3_eq_3)
  ultimately show ?thesis using rd l d by blast
qed

theorem pkt_load_read_witness:
  "\<exists>p' evs'. pkt_read [Rd_data [2, 69], Rd_err EINTR, Rd_data [2, 7], Rd_data [8]] (replicate 258 0) 0 = (p', evs', Inr 5) \<and>
     take 5 p' = [2, 69, 2, 7, 8]"
proof -
  let ?evs = "[Rd_data [2, 69], Rd_err EINTR, Rd_data [2, 7], Rd_data [8]]"
  let ?k = "2 # 69 # 2 # [7, 8] @ replicate 253 0 :: buffer"
  have l: "pkt_load (replicate 258 0) 2 69 [7, 8] 2 = Some (Inr ?k)"
    by (subst pkt_load_spec) (simp_all add: pkt_size_simps)
  have "\<exists>p' evs'. pkt_read ?evs (replicate 258 0) 0 = (p', evs', Inr (length (read_bytes ?evs))) \<and>
      holds ?k (0 + length (read_bytes ?evs)) p' \<and> read_bytes evs' = []"
    using pkt_load_read [of "replicate 258 0" 2 "[7, 8]" 2 69 ?k 0 "replicate 258 0" ?evs] l
    by (simp add: pkt_size_simps pkt_len_def holds_def)
  moreover have "length (read_bytes ?evs) = 5" "0 + length (read_bytes ?evs) = 5" by simp_all
  ultimately obtain p' evs' where r: "pkt_read ?evs (replicate 258 0) 0 = (p', evs', Inr 5)" "holds ?k 5 p'"
    by metis
  show ?thesis using r by (auto simp: holds_def)
qed

end
