(* ===== verification/Perpd_Conn.thy ===== *)
theory Perpd_Conn
  imports Perpd_Table Pkt
begin

text \<open>
  Client connections of perpd: \<open>src/perp/perpd_conn.c\<close>.  A client is a record with a packet buffer and two cursors; the
  results of the socket's \<open>read()\<close> and \<open>write()\<close> calls are event lists.  The control commands act on a service definition found
  by device and inode.
\<close>

section \<open>Definitions\<close>

text \<open>\<open>perpd_conn\<close>, with \<open>n\<close> and \<open>w\<close> as \<open>conn_n\<close> and \<open>conn_w\<close>.\<close>

record perpd_conn =
  connfd :: int
  stamp :: tain
  conn_state :: u8
  conn_pkt :: buffer
  conn_n :: nat
  conn_w :: nat

definition PERPD_CONN_CLOSED :: u8 where "PERPD_CONN_CLOSED = 0"
definition PERPD_CONN_READING :: u8 where "PERPD_CONN_READING = 1"
definition PERPD_CONN_WRITING :: u8 where "PERPD_CONN_WRITING = 2"

lemmas conn_state_defs = PERPD_CONN_CLOSED_def PERPD_CONN_READING_def PERPD_CONN_WRITING_def

definition perpd_pkt_check :: "buffer \<Rightarrow> nat \<Rightarrow> bool" where
  "perpd_pkt_check pkt n = (if n < PKT_HEADER \<or> n < pkt_len pkt then False else True)"

definition do_kill :: "sys \<Rightarrow> svdef \<Rightarrow> which \<Rightarrow> int \<Rightarrow> bool \<Rightarrow> sys" where
  "do_kill s sd wh sig is_killpg =
     (let ss = svpair sd wh; q = pid ss
      in if wh = SUBSV_LOG \<and> \<not> sv_has sd SVDEF_FLAG_HASLOG then s
         else if \<not> q > 0 then s
         else
           (let q = (if is_killpg then 0 - q else q)
            in if \<not> sub_has ss SUBSV_FLAG_ISRESET then emit (Kill q sig) s
               else if sig = SIGCONT \<or> sig = SIGKILL then emit (Kill q sig) s
               else s))"

text \<open>The commands are bytes; the nesting of the meta commands is bounded.\<close>

abbreviation cmd :: "char \<Rightarrow> u8" where "cmd c \<equiv> of_char c"

definition cmd_rank :: "u8 \<Rightarrow> nat" where
  "cmd_rank c = (if c = cmd CHR ''D'' \<or> c = cmd CHR ''U'' then 2 else if c = cmd CHR ''d'' then 1 else 0)"

function do_control :: "sys \<Rightarrow> svdef \<Rightarrow> which \<Rightarrow> u8 \<Rightarrow> bool \<Rightarrow> sys \<times> svdef \<times> int" where
  "do_control s sd wh c kpg =
     (let kill = (\<lambda>sig. (do_kill s sd wh sig kpg, sd, 0));
          start_if_down = (\<lambda>sd. if pid (svpair sd wh) = 0
                               then (let (s, sd, _) = perpd_svdef_run s sd wh SVRUN_START in (s, sd, 0))
                               else (s, sd, 0))
      in if c = cmd CHR ''D'' then
           (if wh = SUBSV_MAIN then
              (let (s, sd, _) = do_control s sd SUBSV_MAIN (cmd CHR ''d'') kpg;
                   (s, sd, _) = do_control s sd SUBSV_LOG (cmd CHR ''d'') kpg
               in (s, sd, 0))
            else (s, sd, 0))
         else if c = cmd CHR ''U'' then
           (if wh = SUBSV_MAIN then
              (let (s, sd, _) = do_control s sd SUBSV_LOG (cmd CHR ''u'') kpg;
                   (s, sd, _) = do_control s sd SUBSV_MAIN (cmd CHR ''u'') kpg
               in (s, sd, 0))
            else (s, sd, 0))
         else if c = cmd CHR ''a'' then kill SIGALRM
         else if c = cmd CHR ''c'' then
           (let sd = set_svpair wh (sub_clr SUBSV_FLAG_ISPAUSED) sd in (do_kill s sd wh SIGCONT kpg, sd, 0))
         else if c = cmd CHR ''d'' then
           (let sd = set_svpair wh (sub_set SUBSV_FLAG_WANTDOWN) sd
            in if pid (svpair sd wh) > 0 then
                 (let (s, sd, _) = do_control s sd wh (cmd CHR ''t'') kpg;
                      (s, sd, _) = do_control s sd wh (cmd CHR ''c'') kpg
                  in (s, sd, 0))
               else (s, sd, 0))
         else if c = cmd CHR ''h'' then kill SIGHUP
         else if c = cmd CHR ''i'' then kill SIGINT
         else if c = cmd CHR ''k'' then kill SIGKILL
         else if c = cmd CHR ''o'' then
           start_if_down (set_svpair wh (sub_clr SUBSV_FLAG_WANTDOWN) (set_svpair wh (sub_set SUBSV_FLAG_ISONCE) sd))
         else if c = cmd CHR ''p'' then
           (if pid (svpair sd wh) > 0 \<and> \<not> sub_has (svpair sd wh) SUBSV_FLAG_ISRESET then
              (let sd = set_svpair wh (sub_set SUBSV_FLAG_ISPAUSED) sd in (do_kill s sd wh SIGSTOP kpg, sd, 0))
            else (s, sd, 0))
         else if c = cmd CHR ''q'' then kill SIGQUIT
         else if c = cmd CHR ''t'' then kill SIGTERM
         else if c = cmd CHR ''u'' then
           start_if_down (set_svpair wh (sub_clr SUBSV_FLAG_WANTDOWN) (set_svpair wh (sub_clr SUBSV_FLAG_ISONCE) sd))
         else if c = cmd CHR ''w'' then kill SIGWINCH
         else if c = cmd CHR ''1'' then kill SIGUSR1
         else if c = cmd CHR ''2'' then kill SIGUSR2
         else (s, sd, -1))"
  by pat_completeness auto
termination
  by (relation "measure (\<lambda>(s, sd, wh, c, kpg). cmd_rank c)") (auto simp: cmd_rank_def)

declare do_control.simps [simp del]

text \<open>The error reply: \<open>upak32_pack(buf, err)\<close> loaded into the client's packet.\<close>

definition reply_pkt :: "u8 \<Rightarrow> buffer \<Rightarrow> nat \<Rightarrow> perpd_conn \<Rightarrow> perpd_conn" where
  "reply_pkt ty b len client =
     (let k = (case pkt_load (conn_pkt client) 2 ty b len of Some (Inr k) \<Rightarrow> k | _ \<Rightarrow> conn_pkt client)
      in client\<lparr>conn_pkt := k, conn_n := pkt_len k, conn_w := 0, conn_state := PERPD_CONN_WRITING\<rparr>)"

definition perpd_conn_exec_reply :: "perpd_conn \<Rightarrow> int \<Rightarrow> perpd_conn" where
  "perpd_conn_exec_reply client err =
     reply_pkt (cmd CHR ''E'') (upak32_pack (word_of_int err)) 4 client"

definition perpd_conn_exec_control :: "perpd \<Rightarrow> perpd_conn \<Rightarrow> perpd \<times> perpd_conn" where
  "perpd_conn_exec_control p client =
     (let payload = pkt_data (conn_pkt client)
      in case (upak64_unpack payload, upak64_unpack (drop 8 payload)) of
           (Some dv, Some ino') \<Rightarrow>
             (let c = payload ! 16; flags = payload ! 17
              in case perpd_lookup p dv ino' of
                   None \<Rightarrow> (p, perpd_conn_exec_reply client ENOENT)
                 | Some i \<Rightarrow>
                     if sv_has (svdefs p ! i) SVDEF_FLAG_CULL then (p, perpd_conn_exec_reply client EBUSY)
                     else
                       (let wh = (if has_flag flags SVCMD_FLAG_LOG then SUBSV_LOG else SUBSV_MAIN);
                            (s, sd, err) = do_control (psys p) (svdefs p ! i) wh c (has_flag flags SVCMD_FLAG_KILLPG)
                        in (p\<lparr>psys := s, svdefs := (svdefs p)[i := sd]\<rparr>,
                            perpd_conn_exec_reply client (if err \<noteq> 0 then EPROTO else 0))))
         | _ \<Rightarrow> (p, client))"

text \<open>The stores into the status payload, at their offsets.\<close>

fun put_fields :: "(nat \<times> u8 list) list \<Rightarrow> buffer \<Rightarrow> buffer option" where
  "put_fields [] b = Some b"
| "put_fields ((off, xs) # fs) b = do { b \<leftarrow> put_at b off xs; put_fields fs b }"

definition status_fields :: "sys \<Rightarrow> svdef \<Rightarrow> (nat \<times> u8 list) list" where
  "status_fields s sd =
     [(0, upak32_pack (word_of_int (my_pid s))), (4, tain_pack (my_when s)),
      (16, tain_pack (sv_when sd)), (28, [sv_bitflags sd]), (29, [0]),
      (30, upak32_pack (word_of_int (pid (svpair sd SUBSV_MAIN)))), (34, tain_pack (sub_when (svpair sd SUBSV_MAIN))),
      (46, [sub_bitflags (svpair sd SUBSV_MAIN)]), (47, [0])] @
     (if sv_has sd SVDEF_FLAG_HASLOG then
        [(48, upak32_pack (word_of_int (pid (svpair sd SUBSV_LOG)))), (52, tain_pack (sub_when (svpair sd SUBSV_LOG))),
         (64, [sub_bitflags (svpair sd SUBSV_LOG)]), (65, [0])]
      else [])"

definition perpd_conn_exec_query :: "perpd \<Rightarrow> perpd_conn \<Rightarrow> perpd_conn" where
  "perpd_conn_exec_query p client =
     (let input = pkt_data (conn_pkt client)
      in case (upak64_unpack input, upak64_unpack (drop 8 input)) of
           (Some dv, Some ino') \<Rightarrow>
             (case perpd_lookup p dv ino' of
                None \<Rightarrow> perpd_conn_exec_reply client ENOTDIR
              | Some i \<Rightarrow>
                  (case put_fields (status_fields (psys p) (svdefs p ! i)) (replicate 66 0) of
                     Some b \<Rightarrow> reply_pkt (cmd CHR ''S'') b 66 client
                   | None \<Rightarrow> client))
         | _ \<Rightarrow> client)"

definition perpd_conn_exec_pidyank :: "perpd_conn \<Rightarrow> perpd_conn" where
  "perpd_conn_exec_pidyank client = perpd_conn_exec_reply client ENOTSUP"

text \<open>As in the source, a bad header is answered and the dispatch continues with the packet just built.\<close>

definition perpd_conn_exec :: "perpd \<Rightarrow> perpd_conn \<Rightarrow> perpd \<times> perpd_conn" where
  "perpd_conn_exec p client =
     (let n = conn_n client;
          client = (if n < PKT_HEADER \<or> pkt_proto (conn_pkt client) \<noteq> 2 \<or> pkt_len (conn_pkt client) \<noteq> n
                    then perpd_conn_exec_reply client EPROTO else client);
          ty = pkt_type (conn_pkt client)
      in if ty = cmd CHR ''C'' then
           (if n \<noteq> 18 + 3 then (p, perpd_conn_exec_reply client EPROTO) else perpd_conn_exec_control p client)
         else if ty = cmd CHR ''Q'' then
           (if n \<noteq> 16 + 3 then (p, perpd_conn_exec_reply client EPROTO) else (p, perpd_conn_exec_query p client))
         else if ty = cmd CHR ''Y'' then (p, perpd_conn_exec_pidyank client)
         else (p, perpd_conn_exec_reply client EPROTO))"

definition perpd_conn_reset :: "perpd_conn \<Rightarrow> perpd_conn" where
  "perpd_conn_reset client = client\<lparr>connfd := -1, conn_state := PERPD_CONN_CLOSED, conn_n := 0, conn_w := 0\<rparr>"

definition perpd_conn_close :: "sys \<Rightarrow> perpd_conn \<Rightarrow> sys \<times> perpd_conn" where
  "perpd_conn_close s client =
     (if connfd client \<noteq> -1 then emit (Close (connfd client)) s else s, perpd_conn_reset client)"

definition perpd_conn_start :: "sys \<Rightarrow> perpd_conn \<Rightarrow> int \<Rightarrow> sys \<times> perpd_conn" where
  "perpd_conn_start s client fd =
     (let (s, t) = now s
      in (s, client\<lparr>connfd := fd, stamp := t, conn_state := PERPD_CONN_READING, conn_n := 0, conn_w := 0\<rparr>))"

definition perpd_conn_checkstale :: "sys \<Rightarrow> perpd_conn \<Rightarrow> tain \<Rightarrow> sys \<times> perpd_conn" where
  "perpd_conn_checkstale s client t =
     (if tain_less (stamp client) t \<and> tain_less (Tain PERPD_CONNSECS 0) (tain_minus t (stamp client))
      then perpd_conn_close s client else (s, client))"

definition perpd_conn_read :: "read_event list \<Rightarrow> perpd \<Rightarrow> perpd_conn \<Rightarrow> perpd \<times> perpd_conn" where
  "perpd_conn_read evs p client =
     (let (k, _, r) = pkt_read evs (conn_pkt client) (conn_n client);
          client = client\<lparr>conn_pkt := k\<rparr>;
          close = (\<lambda>client. let (s, client) = perpd_conn_close (psys p) client in (p\<lparr>psys := s\<rparr>, client))
      in case r of
           Inl e \<Rightarrow> close client
         | Inr r \<Rightarrow>
             if r = 0 then close client
             else
               (let client = client\<lparr>conn_n := conn_n client + r\<rparr>
                in if perpd_pkt_check (conn_pkt client) (conn_n client) then perpd_conn_exec p client else (p, client)))"

definition perpd_conn_write :: "write_event list \<Rightarrow> sys \<Rightarrow> perpd_conn \<Rightarrow> sys \<times> perpd_conn" where
  "perpd_conn_write evs s client =
     (let (_, r) = pkt_write evs (conn_pkt client) (conn_w client)
      in case r of
           Inl e \<Rightarrow> perpd_conn_close s client
         | Inr r \<Rightarrow>
             (let w = conn_w client + r
              in if w = conn_n client then perpd_conn_start s client (connfd client)
                 else (s, client\<lparr>conn_w := w\<rparr>)))"

text \<open>The invariant of a client.\<close>

definition conn_ok :: "perpd_conn \<Rightarrow> bool" where
  "conn_ok client \<longleftrightarrow> length (conn_pkt client) = PKT_SIZE \<and> tain_ok (stamp client) \<and>
     (if conn_state client = PERPD_CONN_CLOSED then connfd client = -1 \<and> conn_n client = 0 \<and> conn_w client = 0
      else if conn_state client = PERPD_CONN_READING then
        conn_w client = 0 \<and> conn_n client \<le> PKT_SIZE \<and> \<not> perpd_pkt_check (conn_pkt client) (conn_n client)
      else conn_state client = PERPD_CONN_WRITING \<and> conn_n client = pkt_len (conn_pkt client) \<and> conn_w client < conn_n client)"


section \<open>Control commands\<close>

lemmas do_control_unfold = do_control.simps [unfolded Let_def]

lemma control_t: "do_control s sd wh (cmd CHR ''t'') kpg = (do_kill s sd wh SIGTERM kpg, sd, 0)"
  by (subst do_control_unfold) simp

lemma control_c: "do_control s sd wh (cmd CHR ''c'') kpg =
    (do_kill s (set_svpair wh (sub_clr SUBSV_FLAG_ISPAUSED) sd) wh SIGCONT kpg, set_svpair wh (sub_clr SUBSV_FLAG_ISPAUSED) sd, 0)"
  by (subst do_control_unfold) (simp del: set_svpair.simps)

lemma control_d: "do_control s sd wh (cmd CHR ''d'') kpg =
    (let sd = set_svpair wh (sub_set SUBSV_FLAG_WANTDOWN) sd in
     if pid (svpair sd wh) > 0 then
       (let s = do_kill s sd wh SIGTERM kpg; sd = set_svpair wh (sub_clr SUBSV_FLAG_ISPAUSED) sd
        in (do_kill s sd wh SIGCONT kpg, sd, 0))
     else (s, sd, 0))"
  by (subst do_control_unfold) (simp add: control_t [simplified] control_c [simplified] Let_def del: set_svpair.simps)

definition lift_down :: "which \<Rightarrow> bool \<Rightarrow> svdef \<Rightarrow> svdef" where
  "lift_down wh once sd =
     set_svpair wh (sub_clr SUBSV_FLAG_WANTDOWN)
       (set_svpair wh (if once then sub_set SUBSV_FLAG_ISONCE else sub_clr SUBSV_FLAG_ISONCE) sd)"

definition bring_up :: "sys \<Rightarrow> svdef \<Rightarrow> which \<Rightarrow> sys \<times> svdef \<times> int" where
  "bring_up s sd wh =
     (if pid (svpair sd wh) = 0 then (let (s, sd, _) = perpd_svdef_run s sd wh SVRUN_START in (s, sd, 0)) else (s, sd, 0))"

lemma control_u: "do_control s sd wh (cmd CHR ''u'') kpg = bring_up s (lift_down wh False sd) wh"
  by (subst do_control_unfold) (simp add: lift_down_def bring_up_def del: set_svpair.simps)

lemma control_o: "do_control s sd wh (cmd CHR ''o'') kpg = bring_up s (lift_down wh True sd) wh"
  by (subst do_control_unfold) (simp add: lift_down_def bring_up_def del: set_svpair.simps)

lemma control_p: "do_control s sd wh (cmd CHR ''p'') kpg =
    (if pid (svpair sd wh) > 0 \<and> \<not> sub_has (svpair sd wh) SUBSV_FLAG_ISRESET then
       (let sd = set_svpair wh (sub_set SUBSV_FLAG_ISPAUSED) sd in (do_kill s sd wh SIGSTOP kpg, sd, 0))
     else (s, sd, 0))"
  by (subst do_control_unfold) (simp add: Let_def del: set_svpair.simps)

lemma control_D: "do_control s sd wh (cmd CHR ''D'') kpg =
    (if wh = SUBSV_MAIN then
       (let (s, sd, _) = do_control s sd SUBSV_MAIN (cmd CHR ''d'') kpg;
            (s, sd, _) = do_control s sd SUBSV_LOG (cmd CHR ''d'') kpg
        in (s, sd, 0))
     else (s, sd, 0))"
  by (subst do_control_unfold) simp

lemma control_U: "do_control s sd wh (cmd CHR ''U'') kpg =
    (if wh = SUBSV_MAIN then
       (let (s, sd, _) = do_control s sd SUBSV_LOG (cmd CHR ''u'') kpg;
            (s, sd, _) = do_control s sd SUBSV_MAIN (cmd CHR ''u'') kpg
        in (s, sd, 0))
     else (s, sd, 0))"
  by (subst do_control_unfold) simp

definition signal_of :: "u8 \<Rightarrow> int option" where
  "signal_of c = map_of [(cmd CHR ''a'', SIGALRM), (cmd CHR ''h'', SIGHUP), (cmd CHR ''i'', SIGINT), (cmd CHR ''k'', SIGKILL),
     (cmd CHR ''q'', SIGQUIT), (cmd CHR ''t'', SIGTERM), (cmd CHR ''w'', SIGWINCH), (cmd CHR ''1'', SIGUSR1), (cmd CHR ''2'', SIGUSR2)] c"

definition stateful :: "u8 list" where
  "stateful = [cmd CHR ''D'', cmd CHR ''U'', cmd CHR ''c'', cmd CHR ''d'', cmd CHR ''o'', cmd CHR ''p'', cmd CHR ''u'']"

lemma control_other:
  "c \<notin> set stateful \<Longrightarrow> do_control s sd wh c kpg =
     (case signal_of c of Some sig \<Rightarrow> (do_kill s sd wh sig kpg, sd, 0) | None \<Rightarrow> (s, sd, -1))"
  by (subst do_control_unfold) (auto simp: stateful_def signal_of_def)

lemma stateful_cases:
  obtains (D) "c = cmd CHR ''D''" | (U) "c = cmd CHR ''U''" | (cont) "c = cmd CHR ''c''" | (down) "c = cmd CHR ''d''"
  | (once) "c = cmd CHR ''o''" | (pause) "c = cmd CHR ''p''" | (up) "c = cmd CHR ''u''" | (other) "c \<notin> set stateful"
  by (auto simp: stateful_def)

text \<open>
  The contract of one command: the invariant, the identity and the flags of the definition are kept, and every signal goes to a running
  process of the service, or its group, and to a process that runs its reset script only if it continues or kills it.
\<close>

definition may_kill :: "svdef \<Rightarrow> bool \<Rightarrow> sysact \<Rightarrow> bool" where
  "may_kill sd kpg a = (case a of
     Kill q sig \<Rightarrow> \<exists>w. 0 < pid (svpair sd w) \<and> q = (if kpg then - pid (svpair sd w) else pid (svpair sd w)) \<and>
       (sub_has (svpair sd w) SUBSV_FLAG_ISRESET \<longrightarrow> sig = SIGCONT \<or> sig = SIGKILL)
   | Fork _ _ \<Rightarrow> True | Ping \<Rightarrow> True | _ \<Rightarrow> False)"

definition controlled :: "bool \<Rightarrow> sys \<Rightarrow> svdef \<Rightarrow> sys \<Rightarrow> svdef \<Rightarrow> bool" where
  "controlled kpg s sd s' sd' \<longleftrightarrow> svdef_ok sd' \<and> ident sd' = ident sd \<and> sv_bitflags sd' = sv_bitflags sd \<and> later s s' \<and>
     (\<exists>acts. trace s' = trace s @ acts \<and> (\<forall>a \<in> set acts. may_kill sd kpg a))"

text \<open>Definitions with the same processes in the same phase.\<close>

definition same_procs :: "svdef \<Rightarrow> svdef \<Rightarrow> bool" where
  "same_procs sd sd' \<longleftrightarrow> (\<forall>w. pid (svpair sd' w) = pid (svpair sd w) \<and>
     sub_has (svpair sd' w) SUBSV_FLAG_ISRESET = sub_has (svpair sd w) SUBSV_FLAG_ISRESET)"

lemma may_kill_same: "same_procs sd sd' \<Longrightarrow> may_kill sd' kpg a = may_kill sd kpg a"
  by (cases a) (auto simp: same_procs_def may_kill_def)

lemma same_procs_flags [simp]:
  "same_procs sd sd" "same_procs sd (set_svpair wh (sub_set SUBSV_FLAG_WANTDOWN) sd)"
  "same_procs sd (set_svpair wh (sub_clr SUBSV_FLAG_ISPAUSED) sd)" "same_procs sd (set_svpair wh (sub_set SUBSV_FLAG_ISPAUSED) sd)"
  "same_procs sd (lift_down wh once sd)"
  by (auto simp: same_procs_def lift_down_def flag_simps)

lemma same_procs_trans: "same_procs a b \<Longrightarrow> same_procs b c \<Longrightarrow> same_procs a c"
  by (simp add: same_procs_def)

lemma controlled_trans:
  assumes "controlled kpg s sd s1 sd1" and "controlled kpg s1 sd1 s2 sd2" and "same_procs sd sd1"
  shows "controlled kpg s sd s2 sd2"
proof -
  obtain a1 where a1: "trace s1 = trace s @ a1" "\<forall>a \<in> set a1. may_kill sd kpg a" using assms(1) by (auto simp: controlled_def)
  obtain a2 where a2: "trace s2 = trace s1 @ a2" "\<forall>a \<in> set a2. may_kill sd1 kpg a" using assms(2) by (auto simp: controlled_def)
  have "trace s2 = trace s @ (a1 @ a2)" "\<forall>a \<in> set (a1 @ a2). may_kill sd kpg a"
    using a1 a2 may_kill_same [OF assms(3)] by auto
  moreover have "later s s2" using assms(1,2) later_trans by (auto simp: controlled_def)
  ultimately show ?thesis using assms(1,2) unfolding controlled_def by auto
qed

lemma controlled_flag:
  assumes "svdef_ok sd" and "\<not> sv_has sd SVDEF_FLAG_CULL"
  shows "controlled kpg s sd s (set_svpair wh (sub_set SUBSV_FLAG_WANTDOWN) sd)"
    and "controlled kpg s sd s (set_svpair wh (sub_clr SUBSV_FLAG_ISPAUSED) sd)"
    and "controlled kpg s sd s (set_svpair wh (sub_set SUBSV_FLAG_ISPAUSED) sd)"
    and "controlled kpg s sd s (lift_down wh once sd)" and "controlled kpg s sd s sd"
  using assms
  by (cases wh; auto simp: controlled_def svdef_ok_def ident_def lift_down_def flag_simps subsv_ok_flags)+

lemma controlled_kill:
  assumes "svdef_ok sd"
  shows "controlled kpg s sd (do_kill s sd wh sig kpg) sd"
proof -
  have "later s (do_kill s sd wh sig kpg)" by (simp add: do_kill_def Let_def)
  moreover have "\<exists>acts. trace (do_kill s sd wh sig kpg) = trace s @ acts \<and> (\<forall>a \<in> set acts. may_kill sd kpg a)"
    by (auto simp: do_kill_def Let_def may_kill_def emit_def)
  ultimately show ?thesis using assms by (simp add: controlled_def)
qed

lemma controlled_bring_up:
  assumes "bring_up s sd wh = (s', sd', r)" and "os_ok s" and "svdef_ok sd"
  shows "controlled kpg s sd s' sd' \<and> r = 0"
proof (cases "pid (svpair sd wh) = 0")
  case True
  then obtain r' where run: "perpd_svdef_run s sd wh SVRUN_START = (s', sd', r')" and r: "r = 0"
    using assms(1) by (auto simp: bring_up_def split: prod.splits)
  have "\<exists>acts. trace s' = trace s @ acts \<and> (\<forall>a \<in> set acts. may_kill sd kpg a)"
  proof (cases "run_skips sd wh")
    case False
    then show ?thesis
      using run by (auto simp: svdef_run_go Let_def run_fork_trace perpd_trigger_fail_def selfpipe_ping_def emit_def may_kill_def split: if_splits)
  qed (use run in \<open>simp add: svdef_run_skip\<close>)
  then show ?thesis using svdef_run_keeps [OF run assms(2,3)] r by (simp add: controlled_def)
qed (use assms in \<open>simp add: bring_up_def controlled_def\<close>)

text \<open>A definition that is not in a cull stays out of it, so that the contract composes.\<close>

lemma controlled_down:
  assumes "do_control s sd wh (cmd CHR ''d'') kpg = (s', sd', r)" and "svdef_ok sd" and "\<not> sv_has sd SVDEF_FLAG_CULL"
  shows "controlled kpg s sd s' sd' \<and> same_procs sd sd' \<and> r = 0 \<and> sub_has (svpair sd' wh) SUBSV_FLAG_WANTDOWN"
proof -
  let ?a = "set_svpair wh (sub_set SUBSV_FLAG_WANTDOWN) sd"
  let ?b = "set_svpair wh (sub_clr SUBSV_FLAG_ISPAUSED) ?a"
  let ?t = "do_kill s ?a wh SIGTERM kpg"
  have a: "controlled kpg s sd s ?a" using assms(2,3) by (rule controlled_flag)
  then have aok: "svdef_ok ?a" "\<not> sv_has ?a SVDEF_FLAG_CULL" using assms(3) by (auto simp: controlled_def)
  have t: "controlled kpg s sd ?t ?a" by (rule controlled_trans [OF a controlled_kill [OF aok(1)]]) simp
  have b: "controlled kpg ?t ?a ?t ?b" using aok by (rule controlled_flag)
  then have bok: "svdef_ok ?b" by (simp add: controlled_def)
  have tb: "controlled kpg s sd ?t ?b" by (rule controlled_trans [OF t b]) simp
  have sb: "same_procs sd ?b" by (rule same_procs_trans [OF same_procs_flags(2) same_procs_flags(3)])
  have "controlled kpg s sd (do_kill ?t ?b wh SIGCONT kpg) ?b"
    by (rule controlled_trans [OF tb controlled_kill [OF bok] sb])
  then show ?thesis
    using assms(1) a sb unfolding control_d Let_def
    by (auto simp: flag_simps simp del: set_svpair.simps set_svpair_comp split: if_splits)
qed

lemma controlled_D:
  assumes "do_control s sd wh (cmd CHR ''D'') kpg = (s', sd', r)" and "svdef_ok sd" and "\<not> sv_has sd SVDEF_FLAG_CULL"
  shows "controlled kpg s sd s' sd' \<and> r = 0"
proof (cases "wh = SUBSV_MAIN")
  case True
  obtain s1 sd1 r1 where d1: "do_control s sd SUBSV_MAIN (cmd CHR ''d'') kpg = (s1, sd1, r1)" using prod_cases3 by blast
  obtain r2 where d2: "do_control s1 sd1 SUBSV_LOG (cmd CHR ''d'') kpg = (s', sd', r2)" and r: "r = 0"
    using assms(1) True unfolding control_D by (auto simp: d1 [simplified] split: prod.splits)
  note c1 = controlled_down [OF d1 assms(2,3)]
  have "svdef_ok sd1" "\<not> sv_has sd1 SVDEF_FLAG_CULL" using c1 assms(3) by (auto simp: controlled_def)
  from controlled_down [OF d2 this] show ?thesis using c1 r controlled_trans by blast
next
  case False
  then show ?thesis using assms by (simp add: control_D [simplified] controlled_def)
qed


lemma controlled_U:
  assumes "do_control s sd wh (cmd CHR ''U'') kpg = (s', sd', r)" and "os_ok s" and "svdef_ok sd" and "\<not> sv_has sd SVDEF_FLAG_CULL"
  shows "controlled kpg s sd s' sd' \<and> r = 0"
proof (cases "wh = SUBSV_MAIN")
  case True
  let ?l = "lift_down SUBSV_LOG False sd"
  obtain s1 sd1 r1 where u1: "bring_up s ?l SUBSV_LOG = (s1, sd1, r1)" using prod_cases3 by blast
  let ?m = "lift_down SUBSV_MAIN False sd1"
  obtain r2 where u2: "bring_up s1 ?m SUBSV_MAIN = (s', sd', r2)" and r: "r = 0"
    using assms(1) True unfolding control_U control_u by (auto simp: u1 split: prod.splits)
  have l: "svdef_ok ?l" "\<not> sv_has ?l SVDEF_FLAG_CULL" "same_procs sd ?l" "ident ?l = ident sd" "sv_bitflags ?l = sv_bitflags sd"
    using controlled_flag(4) [OF assms(3,4), of kpg s SUBSV_LOG False] assms(4) by (auto simp: controlled_def)
  have c1: "controlled kpg s ?l s1 sd1" using controlled_bring_up [OF u1 assms(2) l(1)] by blast
  then have ok1: "svdef_ok sd1" "\<not> sv_has sd1 SVDEF_FLAG_CULL" "os_ok s1"
    using l(2) assms(2) later_os_ok by (auto simp: controlled_def)
  have m: "svdef_ok ?m" "ident ?m = ident sd1" "sv_bitflags ?m = sv_bitflags sd1"
    using controlled_flag(4) [OF ok1(1,2), of kpg s1 SUBSV_MAIN False] by (auto simp: controlled_def)
  have c2: "controlled kpg s1 ?m s' sd'" using controlled_bring_up [OF u2 ok1(3) m(1)] by blast
  obtain a1 where a1: "trace s1 = trace s @ a1" "\<forall>a \<in> set a1. may_kill sd kpg a"
    using c1 may_kill_same [OF l(3)] by (auto simp: controlled_def)
  have nokill: "\<exists>a2. trace s' = trace s1 @ a2 \<and> (\<forall>a \<in> set a2. \<forall>x. may_kill x kpg a)"
  proof (cases "pid (svpair ?m SUBSV_MAIN) = 0 \<and> \<not> run_skips ?m SUBSV_MAIN")
    case True
    then show ?thesis
      using u2 by (auto simp: bring_up_def svdef_run_go Let_def run_fork_trace perpd_trigger_fail_def selfpipe_ping_def
          emit_def may_kill_def split: if_splits)
  next
    case False
    then show ?thesis using u2 by (auto simp: bring_up_def svdef_run_skip split: if_splits)
  qed
  then obtain a2 where a2: "trace s' = trace s1 @ a2" "\<forall>a \<in> set a2. may_kill sd kpg a" by blast
  have "later s s'" using c1 c2 later_trans by (auto simp: controlled_def)
  moreover have "trace s' = trace s @ (a1 @ a2)" "\<forall>a \<in> set (a1 @ a2). may_kill sd kpg a" using a1 a2 by auto
  ultimately show ?thesis using c1 c2 l m r unfolding controlled_def by auto
next
  case False
  then show ?thesis using assms by (simp add: control_U [simplified] controlled_def)
qed

lemma do_control_controlled:
  assumes "do_control s sd wh c kpg = (s', sd', r)" and "os_ok s" and "svdef_ok sd" and "\<not> sv_has sd SVDEF_FLAG_CULL"
  shows "controlled kpg s sd s' sd'"
proof (cases c rule: stateful_cases)
  case D
  then show ?thesis using controlled_D assms by blast
next
  case U
  then show ?thesis using controlled_U assms by blast
next
  case cont
  let ?b = "set_svpair wh (sub_clr SUBSV_FLAG_ISPAUSED) sd"
  have b: "controlled kpg s sd s ?b" using assms(3,4) by (rule controlled_flag)
  then have "controlled kpg s sd (do_kill s ?b wh SIGCONT kpg) ?b"
    using controlled_trans [OF b controlled_kill] by (simp add: controlled_def)
  then show ?thesis using assms(1) unfolding cont control_c by auto
next
  case down
  then show ?thesis using controlled_down assms by blast
next
  case once
  have l: "controlled kpg s sd s (lift_down wh True sd)" using assms(3,4) by (rule controlled_flag)
  have "svdef_ok (lift_down wh True sd)" using l by (simp add: controlled_def)
  from controlled_bring_up [OF assms(1) [unfolded once control_o] assms(2) this] l show ?thesis
    using controlled_trans same_procs_flags(5) by blast
next
  case pause
  let ?b = "set_svpair wh (sub_set SUBSV_FLAG_ISPAUSED) sd"
  have b: "controlled kpg s sd s ?b" using assms(3,4) by (rule controlled_flag)
  then have "controlled kpg s sd (do_kill s ?b wh SIGSTOP kpg) ?b"
    using controlled_trans [OF b controlled_kill] by (simp add: controlled_def)
  then show ?thesis
    using assms(1) controlled_flag(5) [OF assms(3,4)] unfolding pause control_p by (auto simp: Let_def split: if_splits)
next
  case up
  have l: "controlled kpg s sd s (lift_down wh False sd)" using assms(3,4) by (rule controlled_flag)
  have "svdef_ok (lift_down wh False sd)" using l by (simp add: controlled_def)
  from controlled_bring_up [OF assms(1) [unfolded up control_u] assms(2) this] l show ?thesis
    using controlled_trans same_procs_flags(5) by blast
next
  case other
  show ?thesis
    using assms(1) controlled_kill [OF assms(3)] controlled_flag(5) [OF assms(3,4)]
    unfolding control_other [OF other] by (auto split: option.splits)
qed


section \<open>Replies\<close>

lemma reply_pkt_spec:
  fixes ty :: u8
  assumes "length (conn_pkt client) = PKT_SIZE" and "len \<le> length b" and "len \<le> 255"
  defines "k \<equiv> 2 # ty # word_of_nat len # take len b @ drop (3 + len) (conn_pkt client)"
  shows "reply_pkt ty b len client = client\<lparr>conn_pkt := k, conn_n := 3 + len, conn_w := 0, conn_state := PERPD_CONN_WRITING\<rparr>"
    and "length k = PKT_SIZE" and "pkt_len k = 3 + len" and "pkt_proto k = 2" and "pkt_type k = ty" and "take len (pkt_data k) = take len b"
proof -
  have "pkt_load (conn_pkt client) 2 ty b len = Some (Inr k)" unfolding k_def using assms(1-3) by (rule pkt_load_spec)
  moreover show l: "pkt_len k = 3 + len" unfolding k_def using assms(3) by (rule pkt_load_len)
  ultimately show "reply_pkt ty b len client = client\<lparr>conn_pkt := k, conn_n := 3 + len, conn_w := 0, conn_state := PERPD_CONN_WRITING\<rparr>"
    by (simp add: reply_pkt_def)
  show "length k = PKT_SIZE" "pkt_proto k = 2" "pkt_type k = ty" "take len (pkt_data k) = take len b"
    using assms(1-3) by (simp_all add: k_def pkt_size_simps pkt_proto_def pkt_type_def pkt_data_def numeral_3_eq_3)
qed

text \<open>\<open>answers ty payload client client'\<close>: the client's packet is a reply of that type and payload, ready to be written.\<close>

definition answers :: "u8 \<Rightarrow> u8 list \<Rightarrow> perpd_conn \<Rightarrow> perpd_conn \<Rightarrow> bool" where
  "answers ty payload client client' \<longleftrightarrow>
     conn_state client' = PERPD_CONN_WRITING \<and> conn_w client' = 0 \<and> conn_n client' = pkt_len (conn_pkt client') \<and>
     connfd client' = connfd client \<and> stamp client' = stamp client \<and> length (conn_pkt client') = PKT_SIZE \<and>
     pkt_proto (conn_pkt client') = 2 \<and> pkt_type (conn_pkt client') = ty \<and> pkt_dlen (conn_pkt client') = length payload \<and>
     take (length payload) (pkt_data (conn_pkt client')) = payload"

lemma reply_answers:
  assumes "length (conn_pkt client) = PKT_SIZE" and "length b \<le> 255"
  shows "answers ty b client (reply_pkt ty b (length b) client)"
proof -
  note r = reply_pkt_spec [OF assms(1) order_refl assms(2), of ty]
  have "pkt_dlen (2 # ty # word_of_nat (length b) # take (length b) b @ drop (3 + length b) (conn_pkt client)) = length b"
    using r(3) by (simp add: pkt_len_def pkt_dlen_def PKT_HEADER_def)
  then show ?thesis unfolding answers_def r(1) using r(2-6) by simp
qed

lemma length_tain_pack [simp]: "length (tain_pack t) = 12"
  by (simp add: tain_pack_be)

lemma length_upak32_pack [simp]: "length (upak32_pack u) = 4"
  by (simp add: upak32_pack_def Let_def)

lemma error_answers:
  "length (conn_pkt client) = PKT_SIZE \<Longrightarrow>
   answers (cmd CHR ''E'') (upak32_pack (word_of_int e)) client (perpd_conn_exec_reply client e)"
  using reply_answers [of client "upak32_pack (word_of_int e)" "cmd CHR ''E''"] by (simp add: perpd_conn_exec_reply_def)

text \<open>Stores that follow one another without gap leave the concatenation of the fields.\<close>

fun laid_out :: "nat \<Rightarrow> (nat \<times> u8 list) list \<Rightarrow> bool" where
  "laid_out i [] \<longleftrightarrow> True"
| "laid_out i ((off, xs) # fs) \<longleftrightarrow> off = i \<and> laid_out (i + length xs) fs"

lemma put_fields_laid_out:
  "laid_out (length pre) fs \<Longrightarrow>
   put_fields fs (pre @ replicate (length (concat (map snd fs)) + m) 0) = Some (pre @ concat (map snd fs) @ replicate m 0)"
proof (induction fs arbitrary: pre)
  case (Cons f fs)
  obtain off xs where f: "f = (off, xs)" by force
  have "put_at (pre @ replicate (length xs + (length (concat (map snd fs)) + m)) 0) (length pre) xs =
      Some ((pre @ xs) @ replicate (length (concat (map snd fs)) + m) 0)"
    by (simp add: put_at_def replicate_add)
  then show ?case using Cons.IH [of "pre @ xs"] Cons.prems f by (simp add: add.assoc)
qed simp

text \<open>The status payload: the fields follow one another without gap.\<close>

definition status_bytes :: "sys \<Rightarrow> svdef \<Rightarrow> u8 list" where
  "status_bytes s sd =
     upak32_pack (word_of_int (my_pid s)) @ tain_pack (my_when s) @ tain_pack (sv_when sd) @ [sv_bitflags sd, 0] @
     upak32_pack (word_of_int (pid (sv_main sd))) @ tain_pack (sub_when (sv_main sd)) @ [sub_bitflags (sv_main sd), 0] @
     (if sv_has sd SVDEF_FLAG_HASLOG
      then upak32_pack (word_of_int (pid (sv_log sd))) @ tain_pack (sub_when (sv_log sd)) @ [sub_bitflags (sv_log sd), 0]
      else replicate 18 0)"

lemma length_status [simp]: "length (status_bytes s sd) = 66"
  by (simp add: status_bytes_def)

lemma status_fields_bytes: "put_fields (status_fields s sd) (replicate 66 0) = Some (status_bytes s sd)"
proof -
  let ?fs = "status_fields s sd" and ?m = "if sv_has sd SVDEF_FLAG_HASLOG then 0 else 18 :: nat"
  have "laid_out (length []) ?fs" by (simp add: status_fields_def)
  from put_fields_laid_out [OF this, of ?m]
  have "put_fields ?fs (replicate (length (concat (map snd ?fs)) + ?m) 0) = Some (concat (map snd ?fs) @ replicate ?m 0)" by simp
  moreover have "length (concat (map snd ?fs)) + ?m = 66" by (simp add: status_fields_def)
  moreover have "concat (map snd ?fs) @ replicate ?m 0 = status_bytes s sd" by (simp add: status_fields_def status_bytes_def)
  ultimately show ?thesis by simp
qed

section \<open>The table and the client\<close>

text \<open>The request of a control packet, and what it does.\<close>

lemma unpack64_pkt: "length k = PKT_SIZE \<Longrightarrow> upak64_unpack (pkt_data k) \<noteq> None \<and> upak64_unpack (drop 8 (pkt_data k)) \<noteq> None"
  by (simp add: pkt_data_def pkt_size_simps upak64_unpack_def Let_def)

lemma exec_control_cases:
  assumes "perpd_conn_exec_control p client = (p', client')" and "length (conn_pkt client) = PKT_SIZE"
  obtains (noent) dv ino' where "perpd_lookup p dv ino' = None" "p' = p" "client' = perpd_conn_exec_reply client ENOENT"
  | (busy) dv ino' i where "perpd_lookup p dv ino' = Some i" "sv_has (svdefs p ! i) SVDEF_FLAG_CULL" "p' = p"
      "client' = perpd_conn_exec_reply client EBUSY"
  | (executed) dv ino' i wh s sd err where "perpd_lookup p dv ino' = Some i" "\<not> sv_has (svdefs p ! i) SVDEF_FLAG_CULL"
      "do_control (psys p) (svdefs p ! i) wh (pkt_data (conn_pkt client) ! 16)
        (has_flag (pkt_data (conn_pkt client) ! 17) SVCMD_FLAG_KILLPG) = (s, sd, err)"
      "p' = p\<lparr>psys := s, svdefs := (svdefs p)[i := sd]\<rparr>"
      "client' = perpd_conn_exec_reply client (if err \<noteq> 0 then EPROTO else 0)"
proof -
  obtain dv ino' where u: "upak64_unpack (pkt_data (conn_pkt client)) = Some dv"
      "upak64_unpack (drop 8 (pkt_data (conn_pkt client))) = Some ino'"
    using unpack64_pkt [OF assms(2)] by auto
  show ?thesis
  proof (cases "perpd_lookup p dv ino'")
    case None
    then show ?thesis using assms(1) u by (intro noent) (auto simp: perpd_conn_exec_control_def Let_def)
  next
    case (Some i)
    show ?thesis
    proof (cases "sv_has (svdefs p ! i) SVDEF_FLAG_CULL")
      case True
      then show ?thesis using assms(1) u Some by (intro busy) (auto simp: perpd_conn_exec_control_def Let_def)
    next
      case False
      define wh where "wh = (if has_flag (pkt_data (conn_pkt client) ! 17) SVCMD_FLAG_LOG then SUBSV_LOG else SUBSV_MAIN)"
      obtain s sd err where c: "do_control (psys p) (svdefs p ! i) wh (pkt_data (conn_pkt client) ! 16)
          (has_flag (pkt_data (conn_pkt client) ! 17) SVCMD_FLAG_KILLPG) = (s, sd, err)" using prod_cases3 by blast
      show ?thesis
        using assms(1) u Some False c
        by (intro executed [of dv ino' i wh s sd err]) (auto simp: perpd_conn_exec_control_def Let_def wh_def)
    qed
  qed
qed

lemma exec_control_ok:
  assumes "perpd_conn_exec_control p client = (p', client')" and "perpd_ok p" and "length (conn_pkt client) = PKT_SIZE"
  shows "perpd_ok p' \<and> later (psys p) (psys p') \<and> map ident (active p') = map ident (active p)"
  using assms(1,3)
proof (cases rule: exec_control_cases)
  case (executed dv ino' i wh s sd err)
  have n: "i < nservices p" using lookup_Some [OF executed(1)] by simp
  then have "svdefs p ! i \<in> set (active p)" using assms(2) by (auto simp: active_def in_set_conv_nth perpd_ok_def)
  then have "controlled (has_flag (pkt_data (conn_pkt client) ! 17) SVCMD_FLAG_KILLPG) (psys p) (svdefs p ! i) s sd"
    using do_control_controlled [OF executed(3)] executed(2) assms(2) by (simp add: perpd_ok_def)
  then have k: "svdef_ok sd" "ident sd = ident (svdefs p ! i)" "later (psys p) s" by (auto simp: controlled_def)
  have "map ident (active p') = map ident (active p)"
    using n k(2) assms(2) unfolding executed(4) by (simp add: active_def take_update_swap map_update list_update_same_conv perpd_ok_def)
  then show ?thesis using perpd_ok_update [OF assms(2) n k] k(3) executed(4) by simp
qed (use assms in auto)

lemma perpd_conn_exec_ok:
  assumes "perpd_conn_exec p client = (p', client')" and "perpd_ok p" and "length (conn_pkt client) = PKT_SIZE"
  shows "perpd_ok p' \<and> later (psys p) (psys p') \<and> map ident (active p') = map ident (active p)"
proof -
  have "length (conn_pkt (perpd_conn_exec_reply client EPROTO)) = PKT_SIZE"
    using error_answers [OF assms(3)] by (simp add: answers_def)
  then have "p' = p \<or> (\<exists>c c'. perpd_conn_exec_control p c = (p', c') \<and> length (conn_pkt c) = PKT_SIZE)"
    using assms(1,3) by (auto simp: perpd_conn_exec_def Let_def split: if_splits)
  then show ?thesis using assms(2) exec_control_ok by auto
qed

text \<open>Every executed packet is answered.\<close>

definition is_reply :: "perpd_conn \<Rightarrow> perpd_conn \<Rightarrow> bool" where
  "is_reply client client' \<longleftrightarrow> (\<exists>e. answers (cmd CHR ''E'') (upak32_pack (word_of_int e)) client client') \<or>
     (\<exists>payload. length payload = 66 \<and> answers (cmd CHR ''S'') payload client client')"

lemma is_reply_error: "length (conn_pkt client) = PKT_SIZE \<Longrightarrow> is_reply client (perpd_conn_exec_reply client e)"
  using error_answers by (auto simp: is_reply_def)

lemma exec_query_reply:
  assumes "length (conn_pkt client) = PKT_SIZE"
  shows "is_reply client (perpd_conn_exec_query p client)"
proof -
  obtain dv ino' where u: "upak64_unpack (pkt_data (conn_pkt client)) = Some dv"
      "upak64_unpack (drop 8 (pkt_data (conn_pkt client))) = Some ino'"
    using unpack64_pkt [OF assms] by auto
  show ?thesis
  proof (cases "perpd_lookup p dv ino'")
    case None
    then show ?thesis using u is_reply_error [OF assms] by (simp add: perpd_conn_exec_query_def Let_def)
  next
    case (Some i)
    let ?b = "status_bytes (psys p) (svdefs p ! i)"
    have "perpd_conn_exec_query p client = reply_pkt (cmd CHR ''S'') ?b (length ?b) client"
      using u Some by (simp add: perpd_conn_exec_query_def status_fields_bytes)
    moreover have "answers (cmd CHR ''S'') ?b client (reply_pkt (cmd CHR ''S'') ?b (length ?b) client)"
      using assms by (rule reply_answers) simp
    ultimately show ?thesis using length_status unfolding is_reply_def by metis
  qed
qed

lemma exec_control_reply:
  assumes "length (conn_pkt client) = PKT_SIZE"
  shows "is_reply client (snd (perpd_conn_exec_control p client))"
proof -
  obtain p' client' where e: "perpd_conn_exec_control p client = (p', client')" by force
  then show ?thesis
    using assms by (cases rule: exec_control_cases) (use e is_reply_error [OF assms] in simp_all)
qed

lemma exec_reply:
  assumes "length (conn_pkt client) = PKT_SIZE" and "perpd_conn_exec p client = (p', client')"
  shows "is_reply client client'"
proof -
  define c1 where "c1 = (if conn_n client < PKT_HEADER \<or> pkt_proto (conn_pkt client) \<noteq> 2 \<or> pkt_len (conn_pkt client) \<noteq> conn_n client
      then perpd_conn_exec_reply client EPROTO else client)"
  have c1: "length (conn_pkt c1) = PKT_SIZE" "connfd c1 = connfd client" "stamp c1 = stamp client"
    using assms(1) error_answers [OF assms(1)] by (auto simp: c1_def answers_def)
  have "is_reply c1 client'"
    using assms(2) is_reply_error [OF c1(1)] exec_query_reply [OF c1(1)] exec_control_reply [OF c1(1), of p]
    unfolding perpd_conn_exec_def c1_def [symmetric] Let_def
    by (auto simp: perpd_conn_exec_pidyank_def split: if_splits)
  then show ?thesis using c1 by (simp add: is_reply_def answers_def)
qed

section \<open>The invariant of a client\<close>

lemma pkt_read_loop_bound:
  "pkt_read_loop evs pkt n offset = (p', evs', Inr r) \<Longrightarrow> offset \<le> n \<Longrightarrow> n \<le> PKT_SIZE \<Longrightarrow> offset + r \<le> PKT_SIZE"
proof (induction evs pkt n offset arbitrary: p' evs' r rule: pkt_read_loop.induct)
  case (1 evs pkt n offset)
  from "1.prems" show ?case
    apply (subst (asm) pkt_read_loop.simps)
    apply (auto simp: Let_def split: if_splits list.splits read_event.splits)
    using "1.IH" apply (fastforce simp: Let_def)+
    done
qed

lemma is_reply_ok:
  assumes "is_reply client client'" and "tain_ok (stamp client)"
  shows "conn_ok client' \<and> conn_state client' = PERPD_CONN_WRITING"
proof -
  have "conn_state client' = PERPD_CONN_WRITING" "conn_w client' = 0" "conn_n client' = pkt_len (conn_pkt client')"
      "stamp client' = stamp client" "length (conn_pkt client') = PKT_SIZE"
    using assms(1) by (auto simp: is_reply_def answers_def)
  then show ?thesis
    using assms(2) pkt_len_ge [of "conn_pkt client'"] by (simp add: conn_ok_def conn_state_defs PKT_HEADER_def)
qed

lemma is_reply_fd: "is_reply client client' \<Longrightarrow> connfd client' = connfd client"
  by (auto simp: is_reply_def answers_def)

lemma conn_reset_ok: "length (conn_pkt client) = PKT_SIZE \<Longrightarrow> tain_ok (stamp client) \<Longrightarrow> conn_ok (perpd_conn_reset client)"
  by (simp add: conn_ok_def perpd_conn_reset_def conn_state_defs)

lemma conn_close_ok:
  assumes "perpd_conn_close s client = (s', client')" and "length (conn_pkt client) = PKT_SIZE" and "tain_ok (stamp client)"
  shows "conn_ok client' \<and> connfd client' = -1 \<and> later s s'"
  using assms(1) conn_reset_ok [OF assms(2,3)] by (auto simp: perpd_conn_close_def perpd_conn_reset_def)

lemma conn_start_ok:
  assumes "perpd_conn_start s client fd = (s', client')" and "length (conn_pkt client) = PKT_SIZE" and "os_ok s"
  shows "conn_ok client' \<and> connfd client' = fd \<and> conn_state client' = PERPD_CONN_READING \<and> later s s'"
  using assms now_ok [OF assms(3)] later_now [of s]
  by (auto simp: perpd_conn_start_def now_def conn_ok_def conn_state_defs perpd_pkt_check_def PKT_HEADER_def)

lemma conn_checkstale_ok:
  assumes "perpd_conn_checkstale s client t = (s', client')" and "conn_ok client"
  shows "conn_ok client' \<and> later s s' \<and> (client' = client \<or> connfd client' = -1)"
  using assms conn_close_ok [of s client s' client'] by (auto simp: perpd_conn_checkstale_def conn_ok_def split: if_splits)

lemma conn_read_ok:
  assumes "perpd_conn_read evs p client = (p', client')" and "conn_ok client" and "conn_state client = PERPD_CONN_READING" and "perpd_ok p"
  shows "conn_ok client' \<and> perpd_ok p' \<and> later (psys p) (psys p') \<and> (connfd client' = -1 \<or> connfd client' = connfd client)"
proof -
  obtain k evs' r where rd: "pkt_read evs (conn_pkt client) (conn_n client) = (k, evs', r)" using prod_cases3 by blast
  have c: "length (conn_pkt client) = PKT_SIZE" "tain_ok (stamp client)" "conn_w client = 0" "conn_n client \<le> PKT_SIZE"
    using assms(2,3) by (auto simp: conn_ok_def conn_state_defs)
  have k: "length k = PKT_SIZE" using pkt_read_length [OF c(1), of evs "conn_n client"] rd by simp
  let ?c = "client\<lparr>conn_pkt := k\<rparr>"
  show ?thesis
  proof (cases "\<exists>m. r = Inr m \<and> m \<noteq> 0")
    case False
    then have "perpd_conn_close (psys p) ?c = (psys p', client')" "p' = p\<lparr>psys := psys p'\<rparr>"
      using assms(1) rd by (auto simp: perpd_conn_read_def Let_def split: sum.splits prod.splits)
    with conn_close_ok [OF this(1)] k c perpd_trigger_ok [OF assms(4)] show ?thesis by fastforce
  next
    case True
    then obtain m where m: "r = Inr m" "m \<noteq> 0" by blast
    let ?d = "?c\<lparr>conn_n := conn_n client + m\<rparr>"
    have n: "conn_n client + m \<le> PKT_SIZE"
      using rd c(4) m(1) pkt_read_loop_bound [of evs "conn_pkt client" "conn_n client"] by (auto simp: pkt_read_def)
    show ?thesis
    proof (cases "perpd_pkt_check k (conn_n client + m)")
      case True
      then have e: "perpd_conn_exec p ?d = (p', client')" using assms(1) rd m by (simp add: perpd_conn_read_def)
      then have "is_reply ?d client'" using k by (intro exec_reply) auto
      then have "conn_ok client' \<and> connfd client' = connfd client"
        using is_reply_ok [of ?d client'] is_reply_fd [of ?d client'] c(2) by simp
      then show ?thesis using perpd_conn_exec_ok [OF e assms(4)] k by simp
    next
      case False
      then have "p' = p \<and> client' = ?d" using assms(1) rd m by (simp add: perpd_conn_read_def)
      then show ?thesis using False assms(3,4) n c k by (simp add: conn_ok_def conn_state_defs)
    qed
  qed
qed

lemma conn_write_ok:
  assumes "perpd_conn_write evs s client = (s', client')" and "conn_ok client" and "conn_state client = PERPD_CONN_WRITING" and "os_ok s"
  shows "conn_ok client' \<and> later s s' \<and> (connfd client' = -1 \<or> connfd client' = connfd client)"
proof -
  obtain evs' r where wr: "pkt_write evs (conn_pkt client) (conn_w client) = (evs', r)" by force
  have c: "length (conn_pkt client) = PKT_SIZE" "tain_ok (stamp client)" "conn_n client = pkt_len (conn_pkt client)"
    using assms(2,3) by (auto simp: conn_ok_def conn_state_defs)
  show ?thesis
  proof (cases r)
    case (Inl e)
    then have "perpd_conn_close s client = (s', client')" using assms(1) wr by (simp add: perpd_conn_write_def)
    with conn_close_ok [OF this] c show ?thesis by blast
  next
    case (Inr m)
    have b: "conn_w client + m \<le> conn_n client" using pkt_write_count [of evs "conn_pkt client" "conn_w client" evs' m] wr Inr c(3) by simp
    show ?thesis
    proof (cases "conn_w client + m = conn_n client")
      case True
      then have "perpd_conn_start s client (connfd client) = (s', client')" using assms(1) wr Inr by (simp add: perpd_conn_write_def)
      with conn_start_ok [OF this c(1) assms(4)] show ?thesis by blast
    next
      case False
      then have "s' = s \<and> client' = client\<lparr>conn_w := conn_w client + m\<rparr>" using assms(1) wr Inr by (simp add: perpd_conn_write_def)
      then show ?thesis using False b c assms(3) by (simp add: conn_ok_def conn_state_defs)
    qed
  qed
qed

section \<open>Properties\<close>

text \<open>C14: a control command is safe.  Whatever the byte, the command leaves the definition well-formed, with the same identity and the same
  service flags, and every signal it sends goes to a process of that service that was running, or to its group when the client asked for
  it, and never is 0 or another process; a process that runs its reset script gets nothing but CONT and KILL.\<close>

theorem do_control_safe:
  assumes "do_control s sd wh c kpg = (s', sd', r)" and "os_ok s" and "svdef_ok sd" and "\<not> sv_has sd SVDEF_FLAG_CULL"
  shows "svdef_ok sd' \<and> ident sd' = ident sd \<and> sv_bitflags sd' = sv_bitflags sd \<and>
    (\<exists>acts. trace s' = trace s @ acts \<and>
      (\<forall>q sig. Kill q sig \<in> set acts \<longrightarrow>
        (\<exists>w. 0 < pid (svpair sd w) \<and> q = (if kpg then - pid (svpair sd w) else pid (svpair sd w)) \<and>
           (sub_has (svpair sd w) SUBSV_FLAG_ISRESET \<longrightarrow> sig = SIGCONT \<or> sig = SIGKILL))))"
proof -
  have c: "controlled kpg s sd s' sd'" using assms by (rule do_control_controlled)
  then obtain acts where "trace s' = trace s @ acts" "\<forall>a \<in> set acts. may_kill sd kpg a" by (auto simp: controlled_def)
  then show ?thesis using c by (fastforce simp: controlled_def may_kill_def)
qed

theorem do_control_safe_witness:
  "\<exists>s' sd' r. do_control (sys0 (\<lambda>i. 8)) svdef0 SUBSV_MAIN (cmd CHR ''u'') False = (s', sd', r) \<and> svdef_ok sd'"
proof -
  obtain s' sd' r where e: "do_control (sys0 (\<lambda>i. 8)) svdef0 SUBSV_MAIN (cmd CHR ''u'') False = (s', sd', r)" using prod_cases3 by blast
  have "os_ok (sys0 (\<lambda>i. 8))" by (auto intro: sys0_ok)
  from do_control_safe [OF e this svdef0_simps(1)] e show ?thesis by (auto simp: flag_simps)
qed

lemma do_control_result:
  assumes "do_control s sd wh c kpg = (s', sd', r)" and "os_ok s" and "svdef_ok sd" and "\<not> sv_has sd SVDEF_FLAG_CULL"
  shows "if c \<in> of_char ` set ''DUacdhikopqtuw12'' then r = 0 else r = -1 \<and> s' = s \<and> sd' = sd"
proof (cases c rule: stateful_cases)
  case D
  then show ?thesis using controlled_D assms by simp
next
  case U
  then show ?thesis using controlled_U assms by simp
next
  case cont
  then show ?thesis using assms(1) control_c [simplified] by simp
next
  case down
  then show ?thesis using controlled_down assms by simp
next
  case once
  have "svdef_ok (lift_down wh True sd)"
    using controlled_flag(4) [OF assms(3,4)] by (auto simp: controlled_def)
  from controlled_bring_up [OF assms(1) [unfolded once control_o] assms(2) this] once show ?thesis by simp
next
  case pause
  then show ?thesis using assms(1) control_p [simplified] by (auto simp: Let_def split: if_splits)
next
  case up
  have "svdef_ok (lift_down wh False sd)"
    using controlled_flag(4) [OF assms(3,4)] by (auto simp: controlled_def)
  from controlled_bring_up [OF assms(1) [unfolded up control_u] assms(2) this] up show ?thesis by simp
next
  case other
  then show ?thesis
    using assms(1) unfolding control_other [OF other] by (auto simp: signal_of_def stateful_def split: if_splits)
qed

text \<open>C15: the commands are the sixteen documented ones.  \<open>do_control\<close> returns 0 for exactly the bytes \<open>D U a c d h i k o p q t u w 1 2\<close>
  and -1 for every other byte, and then it has changed nothing and sent nothing.\<close>

theorem do_control_commands:
  assumes "do_control s sd wh c kpg = (s', sd', r)" and "os_ok s" and "svdef_ok sd" and "\<not> sv_has sd SVDEF_FLAG_CULL"
  shows "if c \<in> of_char ` set ''DUacdhikopqtuw12'' then r = 0 else r = -1 \<and> s' = s \<and> sd' = sd"
  using assms by (rule do_control_result)

theorem do_control_commands_witness:
  "\<exists>r. do_control (sys0 (\<lambda>i. 8)) svdef0 SUBSV_MAIN (cmd CHR ''x'') False = (sys0 (\<lambda>i. 8), svdef0, r) \<and> r = -1"
proof -
  obtain s' sd' r where e: "do_control (sys0 (\<lambda>i. 8)) svdef0 SUBSV_MAIN (cmd CHR ''x'') False = (s', sd', r)" using prod_cases3 by blast
  have "os_ok (sys0 (\<lambda>i. 8))" by (auto intro: sys0_ok)
  from do_control_commands [OF e this svdef0_simps(1)] e show ?thesis by (auto simp: flag_simps)
qed

text \<open>C16: the commands that change what is wanted.  \<open>d\<close> marks the subservice down, and sends TERM then CONT to a
  running process, but only CONT while the reset script runs, and takes off the mark that it is paused; \<open>u\<close> and \<open>o\<close> take the mark for down off, flag the
  subservice to run on or just once, and start it if it has no process: one child with the \<open>start\<close> arguments is forked.  The marks change while the reset
  script runs as well, when the manual page of perpctl has these commands ignored.\<close>

theorem do_control_updown:
  assumes "os_ok s" and "svdef_ok sd" and "wh = SUBSV_LOG \<longrightarrow> sv_has sd SVDEF_FLAG_HASLOG" and "os_fork s (forks s) \<noteq> -1"
  shows "let q = pid (svpair sd wh); dst = (if kpg then - q else q);
      (s1, sd1, r1) = do_control s sd wh (cmd CHR ''d'') kpg;
      (s2, sd2, r2) = do_control s sd wh (cmd (if once then CHR ''o'' else CHR ''u'')) kpg in
    r1 = 0 \<and> sub_has (svpair sd1 wh) SUBSV_FLAG_WANTDOWN \<and> (0 < q \<longrightarrow> \<not> sub_has (svpair sd1 wh) SUBSV_FLAG_ISPAUSED) \<and> pid (svpair sd1 wh) = q \<and>
    trace s1 = trace s @ (if q = 0 then [] else if sub_has (svpair sd wh) SUBSV_FLAG_ISRESET then [Kill dst SIGCONT]
      else [Kill dst SIGTERM, Kill dst SIGCONT]) \<and>
    r2 = 0 \<and> \<not> sub_has (svpair sd2 wh) SUBSV_FLAG_WANTDOWN \<and> (sub_has (svpair sd2 wh) SUBSV_FLAG_ISONCE \<longleftrightarrow> once) \<and>
    0 < pid (svpair sd2 wh) \<and>
    (if q = 0 then \<exists>towait. trace s2 = trace s @ [Fork (Some (run_argv wh SVRUN_START (cstr_of (svname sd)))) towait]
     else s2 = s \<and> pid (svpair sd2 wh) = q)"
proof -
  let ?q = "pid (svpair sd wh)" and ?l = "lift_down wh once sd"
  have q: "0 \<le> ?q" using assms(2) by (cases wh) (simp_all add: svdef_ok_def subsv_ok_def)
  have f: "0 < os_fork s (forks s)" using assms(1,4) by (auto simp: os_ok_def)
  obtain s1 sd1 r1 where d: "do_control s sd wh (cmd CHR ''d'') kpg = (s1, sd1, r1)" using prod_cases3 by blast
  have u: "do_control s sd wh (cmd (if once then CHR ''o'' else CHR ''u'')) kpg = bring_up s ?l wh"
    using control_u control_o by (cases once) metis+
  have log: "\<not> (wh = SUBSV_LOG \<and> \<not> sv_has sd SVDEF_FLAG_HASLOG)" using assms(3) by simp
  have down: "r1 = 0 \<and> sub_has (svpair sd1 wh) SUBSV_FLAG_WANTDOWN \<and> (0 < ?q \<longrightarrow> \<not> sub_has (svpair sd1 wh) SUBSV_FLAG_ISPAUSED) \<and> pid (svpair sd1 wh) = ?q \<and>
      trace s1 = trace s @ (if ?q = 0 then [] else if sub_has (svpair sd wh) SUBSV_FLAG_ISRESET
        then [Kill (if kpg then - ?q else ?q) SIGCONT]
        else [Kill (if kpg then - ?q else ?q) SIGTERM, Kill (if kpg then - ?q else ?q) SIGCONT])"
    using d q log unfolding control_d Let_def
    by (auto simp: do_kill_def Let_def emit_def flag_simps SIGTERM_def SIGCONT_def SIGKILL_def simp del: set_svpair.simps set_svpair_comp
        split: if_splits)
  have l: "pid (svpair ?l wh) = ?q" "\<not> sub_has (svpair ?l wh) SUBSV_FLAG_WANTDOWN"
      "sub_has (svpair ?l wh) SUBSV_FLAG_ISONCE \<longleftrightarrow> once" "svname ?l = svname sd" "sv_bitflags ?l = sv_bitflags sd"
    by (auto simp: lift_down_def flag_simps)
  obtain s2 sd2 r2 where b: "bring_up s ?l wh = (s2, sd2, r2)" using prod_cases3 by blast
  have up: "r2 = 0 \<and> \<not> sub_has (svpair sd2 wh) SUBSV_FLAG_WANTDOWN \<and> (sub_has (svpair sd2 wh) SUBSV_FLAG_ISONCE \<longleftrightarrow> once) \<and>
      0 < pid (svpair sd2 wh) \<and>
      (if ?q = 0 then \<exists>towait. trace s2 = trace s @ [Fork (Some (run_argv wh SVRUN_START (cstr_of (svname sd)))) towait]
       else s2 = s \<and> pid (svpair sd2 wh) = ?q)"
  proof (cases "?q = 0")
    case True
    then have ns: "\<not> run_skips ?l wh" using l log by (simp add: run_skips_def)
    show ?thesis
      using b True l f assms(4)
      by (auto simp: bring_up_def svdef_run_go [OF ns] Let_def svrun_prog_zero run_fork_trace run_started_def flag_simps)
  next
    case False
    then show ?thesis using b l q by (auto simp: bring_up_def)
  qed
  show ?thesis unfolding Let_def u using d b down up by simp
qed

theorem do_control_updown_witness:
  "let (s2, sd2, r2) = do_control (sys0 (\<lambda>i. 8)) svdef0 SUBSV_MAIN (cmd CHR ''u'') False in 0 < pid (sv_main sd2)"
proof -
  have "os_ok (sys0 (\<lambda>i. 8))" by (auto intro: sys0_ok)
  from do_control_updown [OF this svdef0_simps(1), of SUBSV_MAIN False False] show ?thesis
    by (auto simp: Let_def sys0_def split: prod.splits)
qed

text \<open>C17: every request is answered.  Whatever bytes a client has sent, \<open>perpd_conn_exec\<close> leaves a well-formed reply of protocol 2 in the
  packet, ready to be written from its start: an error reply \<open>E\<close> with a 32-bit code or a status reply \<open>S\<close> of 66 bytes; the
  table keeps its invariant and its services.  A packet that is not a whole packet of protocol 2 gets EPROTO.\<close>

theorem perpd_conn_exec_answers:
  assumes "perpd_ok p" and "length (conn_pkt client) = PKT_SIZE" and "perpd_conn_exec p client = (p', client')"
  shows "perpd_ok p' \<and> map ident (active p') = map ident (active p) \<and> conn_state client' = PERPD_CONN_WRITING \<and> conn_w client' = 0 \<and>
    conn_n client' = pkt_len (conn_pkt client') \<and> pkt_proto (conn_pkt client') = 2 \<and>
    (pkt_type (conn_pkt client') = cmd CHR ''E'' \<and> pkt_dlen (conn_pkt client') = 4 \<or>
     pkt_type (conn_pkt client') = cmd CHR ''S'' \<and> pkt_dlen (conn_pkt client') = 66) \<and>
    (conn_n client < PKT_HEADER \<or> pkt_proto (conn_pkt client) \<noteq> 2 \<or> pkt_len (conn_pkt client) \<noteq> conn_n client \<longrightarrow>
       p' = p \<and> take 4 (pkt_data (conn_pkt client')) = upak32_pack (word_of_int EPROTO))"
proof -
  have ok: "perpd_ok p' \<and> map ident (active p') = map ident (active p)" using perpd_conn_exec_ok [OF assms(3,1,2)] by simp
  have r: "is_reply client client'" using assms(2,3) by (rule exec_reply)
  let ?e = "perpd_conn_exec_reply client EPROTO"
  have e: "answers (cmd CHR ''E'') (upak32_pack (word_of_int EPROTO)) client ?e" using assms(2) by (rule error_answers)
  have bad: "p' = p \<and> take 4 (pkt_data (conn_pkt client')) = upak32_pack (word_of_int EPROTO)"
    if b: "conn_n client < PKT_HEADER \<or> pkt_proto (conn_pkt client) \<noteq> 2 \<or> pkt_len (conn_pkt client) \<noteq> conn_n client"
  proof -
    have ty: "pkt_type (conn_pkt ?e) = cmd CHR ''E''" "length (conn_pkt ?e) = PKT_SIZE" using e by (simp_all add: answers_def)
    have "p' = p \<and> client' = perpd_conn_exec_reply ?e EPROTO"
      using assms(3) b ty(1) unfolding perpd_conn_exec_def Let_def if_P [OF b] by simp
    then show ?thesis using error_answers [OF ty(2), of EPROTO] by (simp add: answers_def)
  qed
  show ?thesis using ok r bad by (auto simp: is_reply_def answers_def)
qed

theorem perpd_conn_exec_answers_witness:
  "let client = \<lparr>connfd = 5, stamp = Tain 0 0, conn_state = PERPD_CONN_READING, conn_pkt = replicate 258 0, conn_n = 3, conn_w = 0\<rparr> in
   take 4 (pkt_data (conn_pkt (snd (perpd_conn_exec (one_service subsv_zero (sys0 (\<lambda>i. 8))) client)))) = upak32_pack (word_of_int EPROTO)"
proof -
  let ?c = "\<lparr>connfd = 5, stamp = Tain 0 0, conn_state = PERPD_CONN_READING, conn_pkt = replicate 258 0, conn_n = 3, conn_w = 0\<rparr>"
  let ?p = "one_service subsv_zero (sys0 (\<lambda>i. 8))"
  have ok: "perpd_ok ?p" by (rule one_service_ok) (auto intro: sys0_ok)
  obtain p' client' where e: "perpd_conn_exec ?p ?c = (p', client')" by force
  from perpd_conn_exec_answers [OF ok _ e] e show ?thesis by (simp add: pkt_size_simps pkt_proto_def Let_def)
qed

text \<open>A control packet, as a client builds it.\<close>

definition request :: "u8 \<Rightarrow> u8 list \<Rightarrow> perpd_conn \<Rightarrow> bool" where
  "request ty payload client \<longleftrightarrow> length (conn_pkt client) = PKT_SIZE \<and> pkt_proto (conn_pkt client) = 2 \<and>
     pkt_type (conn_pkt client) = ty \<and> pkt_dlen (conn_pkt client) = length payload \<and> conn_n client = pkt_len (conn_pkt client) \<and>
     take (length payload) (pkt_data (conn_pkt client)) = payload"

lemma request_ident:
  assumes "request ty (upak64_pack d @ upak64_pack i @ rest) client"
  shows "upak64_unpack (pkt_data (conn_pkt client)) = Some d" and "upak64_unpack (drop 8 (pkt_data (conn_pkt client))) = Some i"
    and "take (length rest) (drop 16 (pkt_data (conn_pkt client))) = rest"
proof -
  let ?k = "pkt_data (conn_pkt client)" and ?w = "upak64_pack d @ upak64_pack i @ rest"
  have "take (length ?w) ?k = ?w" using assms unfolding request_def by blast
  then have k: "?k = upak64_pack d @ upak64_pack i @ rest @ drop (length ?w) ?k" by (metis append.assoc append_take_drop_id)
  show "upak64_unpack ?k = Some d" by (subst k) (simp add: upak64.unpack_pack)
  show "upak64_unpack (drop 8 ?k) = Some i" by (subst k) (simp add: upak64.unpack_pack)
  show "take (length rest) (drop 16 ?k) = rest" by (subst k) simp
qed

lemma exec_control_effect:
  assumes "request (cmd CHR ''C'') (upak64_pack d @ upak64_pack i @ [c, flags]) client" and "perpd_ok p"
  shows "let (p', client') = perpd_conn_exec p client;
      err = (case perpd_lookup p d i of
        None \<Rightarrow> ENOENT
      | Some j \<Rightarrow> if sv_has (svdefs p ! j) SVDEF_FLAG_CULL then EBUSY
          else if c \<in> of_char ` set ''DUacdhikopqtuw12'' then 0 else EPROTO) in
    answers (cmd CHR ''E'') (upak32_pack (word_of_int err)) client client' \<and>
    (case perpd_lookup p d i of
       None \<Rightarrow> p' = p
     | Some j \<Rightarrow> if sv_has (svdefs p ! j) SVDEF_FLAG_CULL then p' = p
         else \<exists>s sd r. do_control (psys p) (svdefs p ! j) (if has_flag flags SVCMD_FLAG_LOG then SUBSV_LOG else SUBSV_MAIN) c
               (has_flag flags SVCMD_FLAG_KILLPG) = (s, sd, r) \<and> p' = p\<lparr>psys := s, svdefs := (svdefs p)[j := sd]\<rparr>)"
proof -
  note u = request_ident [OF assms(1)]
  have len: "length (conn_pkt client) = PKT_SIZE" using assms(1) by (simp add: request_def)
  have hd: "pkt_proto (conn_pkt client) = 2" "pkt_type (conn_pkt client) = cmd CHR ''C''" "pkt_len (conn_pkt client) = conn_n client"
      "conn_n client = 21"
    using assms(1) by (simp_all add: request_def pkt_len_def pkt_dlen_def PKT_HEADER_def)
  have ex: "perpd_conn_exec p client = perpd_conn_exec_control p client"
    using hd by (simp add: perpd_conn_exec_def PKT_HEADER_def Let_def)
  have dl: "length (pkt_data (conn_pkt client)) = 255" using len by (simp add: pkt_data_def pkt_size_simps)
  have cf: "pkt_data (conn_pkt client) ! 16 = c" "pkt_data (conn_pkt client) ! 17 = flags"
    using arg_cong [OF u(3), of "\<lambda>x. x ! 0"] arg_cong [OF u(3), of "\<lambda>x. x ! 1"] dl by simp_all
  have reply: "answers (cmd CHR ''E'') (upak32_pack (word_of_int e)) client (perpd_conn_exec_reply client e)" for e
    using len by (rule error_answers)
  show ?thesis
  proof (cases "perpd_lookup p d i")
    case None
    then show ?thesis unfolding ex using u reply by (simp add: perpd_conn_exec_control_def Let_def)
  next
    case (Some j)
    have "svdefs p ! j \<in> set (active p)"
      using lookup_Some [OF Some] assms(2) by (auto simp: active_def in_set_conv_nth perpd_ok_def)
    then have sdok: "svdef_ok (svdefs p ! j)" "os_ok (psys p)" using assms(2) by (auto simp: perpd_ok_def)
    show ?thesis
    proof (cases "sv_has (svdefs p ! j) SVDEF_FLAG_CULL")
      case True
      then show ?thesis unfolding ex using u reply Some by (simp add: perpd_conn_exec_control_def Let_def)
    next
      case False
      let ?wh = "if has_flag flags SVCMD_FLAG_LOG then SUBSV_LOG else SUBSV_MAIN"
      obtain s sd r where c: "do_control (psys p) (svdefs p ! j) ?wh c (has_flag flags SVCMD_FLAG_KILLPG) = (s, sd, r)"
        using prod_cases3 by blast
      have r: "(if r \<noteq> 0 then EPROTO else 0) = (if c \<in> of_char ` set ''DUacdhikopqtuw12'' then 0 else EPROTO)"
        using do_control_result [OF c sdok(2,1) False] by (auto split: if_splits)
      have "perpd_conn_exec_control p client =
          (p\<lparr>psys := s, svdefs := (svdefs p)[j := sd]\<rparr>, perpd_conn_exec_reply client (if r \<noteq> 0 then EPROTO else 0))"
        using u(1,2) cf Some False c by (simp add: perpd_conn_exec_control_def Let_def)
      then show ?thesis unfolding ex r using Some False c reply by simp
    qed
  qed
qed

text \<open>A control request is executed on the service it names.  For a whole control packet the reply is ENOENT if no service has that
  device and inode, EBUSY, without effect, if the service is being culled, EPROTO for an unknown command, and 0 otherwise; the command then acts on
  that service only, on its logger if the flag for it is set.\<close>

theorem exec_control_replies:
  assumes "request (cmd CHR ''C'') (upak64_pack d @ upak64_pack i @ [c, flags]) client" and "perpd_ok p"
  shows "let (p', client') = perpd_conn_exec p client;
      err = (case perpd_lookup p d i of
        None \<Rightarrow> ENOENT
      | Some j \<Rightarrow> if sv_has (svdefs p ! j) SVDEF_FLAG_CULL then EBUSY
          else if c \<in> of_char ` set ''DUacdhikopqtuw12'' then 0 else EPROTO) in
    answers (cmd CHR ''E'') (upak32_pack (word_of_int err)) client client' \<and>
    (case perpd_lookup p d i of
       None \<Rightarrow> p' = p
     | Some j \<Rightarrow> if sv_has (svdefs p ! j) SVDEF_FLAG_CULL then p' = p
         else \<exists>s sd r. do_control (psys p) (svdefs p ! j) (if has_flag flags SVCMD_FLAG_LOG then SUBSV_LOG else SUBSV_MAIN) c
               (has_flag flags SVCMD_FLAG_KILLPG) = (s, sd, r) \<and> p' = p\<lparr>psys := s, svdefs := (svdefs p)[j := sd]\<rparr>)"
  using assms by (rule exec_control_effect)

text \<open>A client whose packet was loaded by \<open>pkt_load\<close> holds the request.\<close>

definition with_request :: "u8 \<Rightarrow> u8 list \<Rightarrow> perpd_conn \<Rightarrow> perpd_conn" where
  "with_request ty payload client =
     (let k = 2 # ty # word_of_nat (length payload) # payload @ drop (3 + length payload) (conn_pkt client)
      in client\<lparr>conn_pkt := k, conn_n := pkt_len k\<rparr>)"

lemma with_request_request:
  assumes "length (conn_pkt client) = PKT_SIZE" and "length payload \<le> 255"
  shows "request ty payload (with_request ty payload client)"
proof -
  note r = reply_pkt_spec [OF assms(1) order_refl assms(2), of ty]
  have "pkt_dlen (2 # ty # word_of_nat (length payload) # payload @ drop (3 + length payload) (conn_pkt client)) = length payload"
    using r(3) by (simp add: pkt_len_def pkt_dlen_def PKT_HEADER_def)
  then show ?thesis using r(2,4,5,6) by (simp add: request_def with_request_def Let_def)
qed

definition client0 :: perpd_conn where
  "client0 = \<lparr>connfd = 5, stamp = Tain 0 0, conn_state = PERPD_CONN_READING, conn_pkt = replicate PKT_SIZE 0, conn_n = 0, conn_w = 0\<rparr>"

theorem exec_control_replies_witness:
  "let client = with_request (cmd CHR ''C'') (upak64_pack 0 @ upak64_pack 0 @ [cmd CHR ''u'', 0]) client0 in
   answers (cmd CHR ''E'') (upak32_pack (word_of_int EBUSY)) client
     (snd (perpd_conn_exec (one_service subsv_zero (sys0 (\<lambda>i. 8))) client))"
proof -
  let ?c = "with_request (cmd CHR ''C'') (upak64_pack 0 @ upak64_pack 0 @ [cmd CHR ''u'', 0]) client0"
  let ?p = "one_service subsv_zero (sys0 (\<lambda>i. 8))"
  have ok: "perpd_ok ?p" by (rule one_service_ok) (auto intro: sys0_ok)
  have r: "request (cmd CHR ''C'') (upak64_pack 0 @ upak64_pack 0 @ [cmd CHR ''u'', 0]) ?c"
    by (rule with_request_request) (simp_all add: client0_def)
  have l: "perpd_lookup ?p 0 0 = Some 0"
    by (simp add: perpd_lookup_def one_service_def lookup_loop.simps svdef0_def perpd_svdef_clear_def)
  have c: "sv_has (svdefs ?p ! 0) SVDEF_FLAG_CULL" by (simp add: one_service_def flag_simps)
  from exec_control_replies [OF r ok] l c show ?thesis by (simp add: Let_def split: prod.splits)
qed

lemma exec_query_status:
  assumes "request (cmd CHR ''Q'') (upak64_pack d @ upak64_pack i) client"
  shows "perpd_conn_exec p client = (p, perpd_conn_exec_query p client)"
    and "perpd_lookup p d i = None \<Longrightarrow>
      answers (cmd CHR ''E'') (upak32_pack (word_of_int ENOTDIR)) client (perpd_conn_exec_query p client)"
    and "perpd_lookup p d i = Some j \<Longrightarrow>
      answers (cmd CHR ''S'') (status_bytes (psys p) (svdefs p ! j)) client (perpd_conn_exec_query p client)"
proof -
  have "request (cmd CHR ''Q'') (upak64_pack d @ upak64_pack i @ []) client" using assms by simp
  note u = request_ident(1,2) [OF this]
  have len: "length (conn_pkt client) = PKT_SIZE" using assms by (simp add: request_def)
  have hd: "pkt_proto (conn_pkt client) = 2" "pkt_type (conn_pkt client) = cmd CHR ''Q''" "pkt_len (conn_pkt client) = conn_n client"
      "conn_n client = 19"
    using assms by (simp_all add: request_def pkt_len_def pkt_dlen_def PKT_HEADER_def)
  show "perpd_conn_exec p client = (p, perpd_conn_exec_query p client)"
    using hd by (simp add: perpd_conn_exec_def PKT_HEADER_def Let_def)
  show "perpd_lookup p d i = None \<Longrightarrow>
      answers (cmd CHR ''E'') (upak32_pack (word_of_int ENOTDIR)) client (perpd_conn_exec_query p client)"
    using u error_answers [OF len, of ENOTDIR] by (simp add: perpd_conn_exec_query_def Let_def)
  show "answers (cmd CHR ''S'') (status_bytes (psys p) (svdefs p ! j)) client (perpd_conn_exec_query p client)"
    if j: "perpd_lookup p d i = Some j"
  proof -
    let ?b = "status_bytes (psys p) (svdefs p ! j)"
    have "perpd_conn_exec_query p client = reply_pkt (cmd CHR ''S'') ?b (length ?b) client"
      using u j by (simp add: perpd_conn_exec_query_def status_fields_bytes)
    then show ?thesis using reply_answers [OF len, of ?b "cmd CHR ''S''"] by simp
  qed
qed

text \<open>The fields of a status payload, read back at their offsets.\<close>

lemma status_unpack:
  "upak32_unpack (status_bytes s sd @ rest) = Some (word_of_int (my_pid s))"
  "tain_unpack t (drop 16 (status_bytes s sd @ rest)) = Some (sv_when sd)"
  "(status_bytes s sd @ rest) ! 28 = sv_bitflags sd"
  "upak32_unpack (drop 30 (status_bytes s sd @ rest)) = Some (word_of_int (pid (sv_main sd)))"
  "tain_unpack t (drop 34 (status_bytes s sd @ rest)) = Some (sub_when (sv_main sd))"
  "(status_bytes s sd @ rest) ! 46 = sub_bitflags (sv_main sd)"
  "sv_has sd SVDEF_FLAG_HASLOG \<Longrightarrow> upak32_unpack (drop 48 (status_bytes s sd @ rest)) = Some (word_of_int (pid (sv_log sd)))"
  "sv_has sd SVDEF_FLAG_HASLOG \<Longrightarrow> tain_unpack t (drop 52 (status_bytes s sd @ rest)) = Some (sub_when (sv_log sd))"
  "sv_has sd SVDEF_FLAG_HASLOG \<Longrightarrow> (status_bytes s sd @ rest) ! 64 = sub_bitflags (sv_log sd)"
  by (simp_all add: status_bytes_def upak32.unpack_pack tain_label.unpack_pack nth_append)

text \<open>C18: the state of a client.  A closed client has no descriptor, a reading client holds an incomplete packet within its buffer, and a writing
  client has part of a whole packet still to write.  Reading (when it is reading), writing (when it is writing), checking for staleness,
  starting and closing all preserve this for every outcome of the system calls, and keep the invariant of the table.\<close>

theorem client_invariant:
  assumes "conn_ok client" and "perpd_ok p"
  shows "(conn_state client = PERPD_CONN_READING \<longrightarrow>
      (case perpd_conn_read revs p client of (p', client') \<Rightarrow> conn_ok client' \<and> perpd_ok p')) \<and>
    (conn_state client = PERPD_CONN_WRITING \<longrightarrow> conn_ok (snd (perpd_conn_write wevs (psys p) client))) \<and>
    conn_ok (snd (perpd_conn_checkstale (psys p) client t)) \<and>
    conn_ok (snd (perpd_conn_start (psys p) client fd)) \<and> conn_ok (snd (perpd_conn_close (psys p) client))"
proof -
  have os: "os_ok (psys p)" using assms(2) by (simp add: perpd_ok_def)
  have c: "length (conn_pkt client) = PKT_SIZE" "tain_ok (stamp client)" using assms(1) by (auto simp: conn_ok_def)
  obtain p' c1 where r: "perpd_conn_read revs p client = (p', c1)" by force
  obtain s2 c2 where w: "perpd_conn_write wevs (psys p) client = (s2, c2)" by force
  obtain s3 c3 where k: "perpd_conn_checkstale (psys p) client t = (s3, c3)" by force
  obtain s4 c4 where b: "perpd_conn_start (psys p) client fd = (s4, c4)" by force
  obtain s5 c5 where x: "perpd_conn_close (psys p) client = (s5, c5)" by force
  show ?thesis
    using conn_read_ok [OF r assms(1) _ assms(2)] conn_write_ok [OF w assms(1) _ os] conn_checkstale_ok [OF k assms(1)]
      conn_start_ok [OF b c(1) os] conn_close_ok [OF x c] r w k b x by simp
qed

theorem client_invariant_witness:
  "conn_ok (snd (perpd_conn_read [Rd_data [2, 81]] (one_service subsv_zero (sys0 (\<lambda>i. 8))) client0))"
proof -
  have ok: "perpd_ok (one_service subsv_zero (sys0 (\<lambda>i. 8)))" by (rule one_service_ok) (auto intro: sys0_ok)
  have c: "conn_ok client0"
    by (simp add: conn_ok_def client0_def conn_state_defs perpd_pkt_check_def PKT_HEADER_def tain_ok_def)
  have "conn_state client0 = PERPD_CONN_READING" by (simp add: client0_def)
  then show ?thesis using client_invariant [OF c ok, of "[Rd_data [2, 81]]" "[]" "Tain 0 0" 0] by (simp add: case_prod_beta)
qed

text \<open>A client is closed as stale exactly when more than \<open>PERPD_CONNSECS\<close> (8) seconds have passed since its stamp, to the nanosecond; the
  clock running backwards closes nobody.\<close>

theorem checkstale_exact:
  assumes "tain_ok (stamp client)" and "tain_ok t"
  shows "perpd_conn_checkstale s client t =
    (if tain_val (stamp client) + 8 * 10 ^ 9 < tain_val t then perpd_conn_close s client else (s, client))"
proof -
  have d: "tain_ok (Tain PERPD_CONNSECS 0)" "tain_val (Tain PERPD_CONNSECS 0) = 8 * 10 ^ 9"
    by (simp_all add: tain_val_def PERPD_CONNSECS_def)
  show ?thesis
    using tain.elapsed_more [OF assms d(1)] d(2) assms by (auto simp: perpd_conn_checkstale_def tain_less_val)
qed

theorem checkstale_exact_witness:
  "perpd_conn_checkstale (sys0 (\<lambda>i. 8)) client0 (Tain 8 1) = perpd_conn_close (sys0 (\<lambda>i. 8)) client0 \<and>
   perpd_conn_checkstale (sys0 (\<lambda>i. 8)) client0 (Tain 8 0) = (sys0 (\<lambda>i. 8), client0)"
  using checkstale_exact [of client0 "Tain 8 1" "sys0 (\<lambda>i. 8)"] checkstale_exact [of client0 "Tain 8 0" "sys0 (\<lambda>i. 8)"]
  by (simp add: client0_def tain_ok_def tain_val_def)

end
