(* ===== verification/Perpd_Main.thy ===== *)
theory Perpd_Main
  imports Perpd_Conn
begin

text \<open>
  The main loop of perpd (\<open>perpd_mainloop\<close> in \<open>src/perp/perpd.c\<close>) with \<open>pollio\<close> (\<open>src/lasagna/pollio\<close>).  One round of the loop is a
  function of the loop's variables and of what the system does during the round: the signals caught while \<open>poll()\<close> runs with
  signals unblocked, the result of \<open>poll()\<close>, the children reaped, the directory scanned, the bytes moved on the sockets and the result of
  \<open>accept()\<close>.  The runs of the daemon are the sequences of rounds.  Logging is left out.
\<close>

section \<open>Definitions\<close>

type_synonym u16f = "16 word"

definition POLLIN :: u16f where "POLLIN = 1"
definition POLLOUT :: u16f where "POLLOUT = 4"
definition POLLERR :: u16f where "POLLERR = 8"
definition POLLHUP :: u16f where "POLLHUP = 16"
definition POLLNVAL :: u16f where "POLLNVAL = 32"

lemmas poll_defs = POLLIN_def POLLOUT_def POLLERR_def POLLHUP_def POLLNVAL_def

definition poll_has :: "u16f \<Rightarrow> u16f \<Rightarrow> bool" where "poll_has r f \<longleftrightarrow> r AND f \<noteq> 0"

record pollfd =
  pfd :: int
  events :: u16f
  revents :: u16f

text \<open>\<open>pollio\<close> around a \<open>poll()\<close> that returns \<open>n\<close>; \<open>junk\<close> is the content of \<open>before\<close> at entry, and no \<open>msecs_rem\<close> is the NULL pointer.\<close>

definition pollio :: "tain \<Rightarrow> int \<Rightarrow> sys \<Rightarrow> int \<Rightarrow> int option \<Rightarrow> sys \<times> int \<times> int option" where
  "pollio junk n s msecs_max msecs_rem =
     (let msecs_max = (if msecs_max > 100000000 then 100000000 else msecs_max);
          timed = (msecs_rem \<noteq> None \<and> msecs_max > 0);
          (s, before) = (if timed then now s else (s, junk));
          s = (if timed \<and> n > 0 then fst (now s) else s)
      in if n < 0 then (s, n, msecs_rem)
         else if msecs_max = 0 then (s, n, map_option (\<lambda>_. 0) msecs_rem)
         else if msecs_max = -1 then (s, n, map_option (\<lambda>_. -1) msecs_rem)
         else if msecs_rem = None then (s, n, None)
         else if n = 0 then (s, n, Some 0)
         else
           (let (s, after) = now s;
                before = (if tain_less before after then tain_minus after before else tain_minus before after);
                diff = tain_to_msecs before;
                diff = (if diff > word_of_int msecs_max then word_of_int msecs_max else diff)
            in (s, n, Some (msecs_max - sint (ucast diff :: 32 word)))))"

record mainloop =
  daemon :: perpd
  clients :: "perpd_conn list"
  nconns :: nat
  pollv :: "pollfd list"
  poll_max :: int
  poll_interval :: int
  poll_remain :: int

text \<open>What happens during one round.  The functions give, for each index, the events reported by \<open>poll()\<close> and the outcomes of the
  socket calls on that client.\<close>

record round_env =
  interrupts :: "int list list"
  signals :: "int list"
  poll_result :: int
  poll_revents :: "nat \<Rightarrow> u16f"
  junk_before :: tain
  waits :: "(int \<times> int) list"
  scans :: scan_env
  reads :: "nat \<Rightarrow> read_event list"
  writes :: "nat \<Rightarrow> write_event list"
  accepted :: int
  nonblock_ok :: bool

abbreviation msys :: "mainloop \<Rightarrow> sys" where "msys m \<equiv> psys (daemon m)"

definition on_sys :: "(sys \<Rightarrow> sys) \<Rightarrow> mainloop \<Rightarrow> mainloop" where
  "on_sys f m = m\<lparr>daemon := (daemon m)\<lparr>psys := f (msys m)\<rparr>\<rparr>"

text \<open>The variables at the start of the loop; \<open>(int)arg_autoscan * 1000\<close> is 32 bits wide.\<close>

definition autoscan_msecs :: "u32 \<Rightarrow> int" where
  "autoscan_msecs a = (if sint a \<noteq> 0 then sint (a * 1000) else -1)"

definition mainloop_init :: "int \<Rightarrow> perpd_conn list \<Rightarrow> pollfd list \<Rightarrow> perpd \<Rightarrow> mainloop" where
  "mainloop_init selfpipe cs pv p =
     (let pv = pv[0 := (pv ! 0)\<lparr>pfd := selfpipe, events := POLLIN\<rparr>];
          pv = pv[1 := (pv ! 1)\<lparr>pfd := fd_listen p, events := POLLIN\<rparr>];
          cs = map perpd_conn_reset cs;
          mx = autoscan_msecs (arg_autoscan p)
      in \<lparr>daemon = p\<lparr>psys := perpd_trigger_scan (psys p)\<rparr>, clients = cs, nconns = 0, pollv = pv,
          poll_max = mx, poll_interval = mx, poll_remain = 0\<rparr>)"

text \<open>Stale clients are closed and closed clients removed, the last one taking the free place.\<close>

definition stale_step :: "tain \<Rightarrow> sys \<Rightarrow> perpd_conn \<Rightarrow> sys \<times> perpd_conn" where
  "stale_step t s c = (if connfd c \<noteq> -1 then perpd_conn_checkstale s c t else (s, c))"

function cull_clients :: "perpd_conn list \<Rightarrow> nat \<Rightarrow> nat \<Rightarrow> perpd_conn list \<times> nat" where
  "cull_clients cs n i =
     (if i < n then
        (if connfd (cs ! i) = -1 then cull_clients (cs[i := cs ! (n - 1)]) (n - 1) i
         else cull_clients cs n (i + 1))
      else (cs, n))"
  by pat_completeness auto
termination by (relation "measure (\<lambda>(cs, n, i). n - i)") auto

declare cull_clients.simps [simp del]

definition poll_events :: "u8 \<Rightarrow> u16f" where
  "poll_events st = (if st = PERPD_CONN_READING then POLLIN else if st = PERPD_CONN_WRITING then POLLOUT else 0)"

fun setup_pollv :: "perpd_conn list \<Rightarrow> nat \<Rightarrow> pollfd list \<Rightarrow> pollfd list" where
  "setup_pollv cs 0 pv = pv"
| "setup_pollv cs (Suc i) pv =
     (let pv = setup_pollv cs i pv
      in pv[2 + i := (pv ! (2 + i))\<lparr>pfd := connfd (cs ! i), events := poll_events (conn_state (cs ! i))\<rparr>])"

definition poll_prepare :: "mainloop \<Rightarrow> mainloop" where
  "poll_prepare m =
     (let (s, t) = now (msys m);
          (s, cs) = for_first (stale_step t) (nconns m) s (clients m);
          (cs, n) = cull_clients cs (nconns m) 0;
          m = (on_sys (\<lambda>_. s) m)\<lparr>clients := cs, nconns := n\<rparr>;
          m = m\<lparr>pollv := setup_pollv cs n (pollv m)\<rparr>
      in if arg_autoscan (daemon m) > 0
         then m\<lparr>poll_interval := if poll_remain m < 100 then poll_max m else poll_remain m\<rparr> else m)"

text \<open>The poll: interrupted attempts, then the one that returns.  Entries beyond \<open>nfds\<close> keep their old \<open>revents\<close>.\<close>

definition poll_nfds :: "mainloop \<Rightarrow> nat" where
  "poll_nfds m = (if flag_terminating (msys m) then 1 else nconns m + 2)"

definition caught :: "int list \<Rightarrow> mainloop \<Rightarrow> mainloop" where
  "caught sigs m = on_sys (fold sig_trap sigs) m"

definition poll_once :: "tain \<Rightarrow> int \<Rightarrow> mainloop \<Rightarrow> mainloop" where
  "poll_once junk n m =
     (let (s, _, rem) = pollio junk n (msys m) (poll_interval m) (Some (poll_remain m))
      in (on_sys (\<lambda>_. s) m)\<lparr>poll_remain := (case rem of Some r \<Rightarrow> r | None \<Rightarrow> poll_remain m)\<rparr>)"

definition poll_wait :: "round_env \<Rightarrow> mainloop \<Rightarrow> mainloop" where
  "poll_wait env m =
     (let m = fold (\<lambda>sigs m. poll_once (junk_before env) (-1) (caught sigs m)) (interrupts env) m;
          m = poll_once (junk_before env) (poll_result env) (caught (signals env) m)
      in if poll_result env < 0 then m
         else m\<lparr>pollv := map (\<lambda>(i, e). if i < poll_nfds m then e\<lparr>revents := poll_revents env i\<rparr> else e)
                  (zip [0..<length (pollv m)] (pollv m))\<rparr>)"

definition check_selfpipe :: "mainloop \<Rightarrow> int \<Rightarrow> mainloop \<times> int" where
  "check_selfpipe m nready =
     (if poll_has (revents (pollv m ! 0)) POLLIN then (on_sys (emit Drain) m, nready - 1) else (m, nready))"

fun close_clients :: "perpd_conn list \<Rightarrow> sys \<Rightarrow> sys" where
  "close_clients [] s = s"
| "close_clients (c # cs) s = close_clients cs (emit (Close (connfd c)) s)"

definition begin_termination :: "mainloop \<Rightarrow> mainloop" where
  "begin_termination m =
     (let m = on_sys (\<lambda>s. s\<lparr>flag_terminating := True, flag_term := 0, flag_hup := 0\<rparr>) m;
          m = m\<lparr>daemon := (daemon m)\<lparr>arg_autoscan := 0\<rparr>, poll_max := -1, poll_interval := -1\<rparr>;
          m = on_sys (emit (Close (fd_listen (daemon m)))) m;
          m = (on_sys (close_clients (take (nconns m) (clients m))) m)\<lparr>nconns := 0\<rparr>;
          p = daemon m;
          ((s, got_cull), svs) = for_first cull_step (nservices p) (psys p, 0) (svdefs p);
          p = p\<lparr>psys := s, svdefs := svs\<rparr>
      in m\<lparr>daemon := if got_cull > 0 then perpd_cull p else p\<rparr>)"

definition check_term :: "mainloop \<Rightarrow> mainloop" where
  "check_term m = (if flag_term (msys m) > 0 then begin_termination m else m)"

definition check_chld :: "round_env \<Rightarrow> mainloop \<Rightarrow> mainloop" where
  "check_chld env m =
     (if flag_chld (msys m) > 0
      then (let m = on_sys (\<lambda>s. s\<lparr>flag_chld := 0\<rparr>) m in m\<lparr>daemon := perpd_waitup (waits env) (daemon m)\<rparr>) else m)"

definition check_scan :: "round_env \<Rightarrow> mainloop \<Rightarrow> mainloop" where
  "check_scan env m =
     (if flag_hup (msys m) > 0 \<or> (arg_autoscan (daemon m) > 0 \<and> poll_remain m < 100)
      then (let m = on_sys (\<lambda>s. s\<lparr>flag_hup := 0\<rparr>) m
            in m\<lparr>daemon := perpd_scan (scans env) (daemon m), poll_interval := poll_max m\<rparr>) else m)"

text \<open>The rounds of the loop end in one of these ways.\<close>

datatype outcome = Proceed mainloop | Complete mainloop | Die int mainloop

definition check_failing :: "mainloop \<Rightarrow> outcome + mainloop" where
  "check_failing m =
     (if flag_failing (msys m) > 0 then
        (if flag_terminating (msys m) then Inl (Die 111 m)
         else
           (let p = daemon m;
                (s, svs) = for_first perpd_svdef_checkfail (nservices p) ((psys p)\<lparr>flag_failing := 0\<rparr>) (svdefs p);
                m = m\<lparr>daemon := p\<lparr>psys := s, svdefs := svs\<rparr>\<rparr>
            in if flag_failing s > 0 then Inl (Proceed (on_sys (emit (Pause (Tain 0 EPAUSE))) m)) else Inr m))
      else Inr m)"

definition serve_client :: "round_env \<Rightarrow> mainloop \<Rightarrow> nat \<Rightarrow> mainloop \<times> int" where
  "serve_client env m i =
     (let c = clients m ! i; r = revents (pollv m ! (2 + i));
          put = (\<lambda>c m. m\<lparr>clients := (clients m)[i := c]\<rparr>)
      in if poll_has r (POLLERR OR POLLHUP OR POLLNVAL) then
           (let (s, c) = perpd_conn_close (msys m) c in (put c (on_sys (\<lambda>_. s) m), 1))
         else if poll_has r POLLIN then
           (let (p, c) = perpd_conn_read (reads env i) (daemon m) c in (put c (m\<lparr>daemon := p\<rparr>), 1))
         else if poll_has r POLLOUT then
           (let (s, c) = perpd_conn_write (writes env i) (msys m) c in (put c (on_sys (\<lambda>_. s) m), 1))
         else (m, 0))"

function serve_clients :: "round_env \<Rightarrow> mainloop \<Rightarrow> nat \<Rightarrow> nat \<Rightarrow> int \<Rightarrow> mainloop \<times> int" where
  "serve_clients env m n i nready =
     (if i < n then
        (if connfd (clients m ! i) = -1 then serve_clients env m n (i + 1) nready
         else if nready = 0 then (m, nready)
         else (let (m, d) = serve_client env m i in serve_clients env m n (i + 1) (nready - d)))
      else (m, nready))"
  by pat_completeness auto
termination by (relation "measure (\<lambda>(env, m, n, i, nready). n - i)") auto

declare serve_clients.simps [simp del]

text \<open>The listening socket is closed once termination has begun, so that \<open>accept()\<close> on it fails.\<close>

definition domsock_accept :: "round_env \<Rightarrow> mainloop \<Rightarrow> int" where
  "domsock_accept env m = (if flag_terminating (msys m) then -1 else accepted env)"

definition accept_client :: "round_env \<Rightarrow> mainloop \<Rightarrow> mainloop" where
  "accept_client env m =
     (if poll_has (revents (pollv m ! 1)) POLLIN then
        (let fd = domsock_accept env m
         in if fd = -1 then m
            else if \<not> nonblock_ok env then on_sys (emit (Close fd)) m
            else if nconns m = PERPD_CONNMAX then on_sys (emit (Close fd)) m
            else
              (let (s, c) = perpd_conn_start (msys m) (clients m ! nconns m) fd
               in (on_sys (\<lambda>_. s) m)\<lparr>clients := (clients m)[nconns m := c], nconns := nconns m + 1\<rparr>))
      else m)"

definition mainloop_round :: "round_env \<Rightarrow> mainloop \<Rightarrow> outcome" where
  "mainloop_round env m =
     (if flag_terminating (msys m) \<and> nservices (daemon m) = 0 then Complete m
      else
        (let m = poll_wait env (poll_prepare m); nready = poll_result env
         in if nready < 0 then Proceed m
            else
              (let (m, nready) = check_selfpipe m nready;
                   m = check_scan env (check_chld env (check_term m))
               in case check_failing m of
                    Inl out \<Rightarrow> out
                  | Inr m \<Rightarrow>
                      if nready = 0 then Proceed m
                      else
                        (let (m, nready) = serve_clients env m (nconns m) 0 nready
                         in if nready = 0 then Proceed m else Proceed (accept_client env m)))))"

text \<open>The invariant of the loop.\<close>

definition clients_ok :: "perpd_conn list \<Rightarrow> nat \<Rightarrow> bool" where
  "clients_ok cs n \<longleftrightarrow> length cs = PERPD_CONNMAX \<and> n \<le> PERPD_CONNMAX \<and> (\<forall>c \<in> set cs. length (conn_pkt c) = PKT_SIZE) \<and>
     (\<forall>c \<in> set (take n cs). conn_ok c)"

definition main_ok :: "mainloop \<Rightarrow> bool" where
  "main_ok m \<longleftrightarrow> perpd_ok (daemon m) \<and> clients_ok (clients m) (nconns m) \<and> length (pollv m) = PERPD_CONNMAX + 2"

text \<open>The flags the loop looks at, and the bytes in the self-pipe: one is unread if it was written after the pipe was last emptied.\<close>

definition unread :: "sys \<Rightarrow> bool" where
  "unread s \<longleftrightarrow> Ping \<in> set (takeWhile (\<lambda>a. a \<noteq> Drain) (rev (trace s)))"

definition awake :: "(sys \<Rightarrow> nat) list \<Rightarrow> sys \<Rightarrow> bool" where
  "awake fs s \<longleftrightarrow> ((\<exists>f \<in> set fs. 0 < f s) \<longrightarrow> unread s)"

section \<open>The self-pipe\<close>

lemma unread_append: "Drain \<notin> set acts \<Longrightarrow> trace s' = trace s @ acts \<Longrightarrow> unread s' \<longleftrightarrow> unread s \<or> Ping \<in> set acts"
  by (auto simp: unread_def takeWhile_append)

lemma awake_later:
  assumes "awake fs s" and "later s s'" and "set fs \<subseteq> {flag_chld, flag_hup, flag_term, flag_failing}"
  shows "awake fs s'"
proof -
  obtain acts where a: "trace s' = trace s @ acts" "Drain \<notin> set acts"
      "flag_hup s' = flag_hup s \<and> flag_failing s' = flag_failing s \<or> Ping \<in> set acts"
    using assms(2) by (auto simp: later_def)
  show ?thesis
  proof (cases "Ping \<in> set acts")
    case True
    then show ?thesis using unread_append [OF a(2,1)] by (simp add: awake_def)
  next
    case False
    then have same: "f s' = f s" if "f \<in> set fs" for f using that assms(2,3) a(3) by (auto simp: later_def)
    have "unread s" if f: "f \<in> set fs" "0 < f s'" for f using f same [OF f(1)] assms(1) by (auto simp: awake_def)
    then show ?thesis using unread_append [OF a(2,1)] by (auto simp: awake_def)
  qed
qed

lemma awake_mono: "awake fs s \<Longrightarrow> set gs \<subseteq> set fs \<Longrightarrow> awake gs s"
  by (auto simp: awake_def)

lemma sig_trap_awake: "awake fs (sig_trap sig s)"
  by (simp add: awake_def unread_def sig_trap_def selfpipe_ping_def Let_def)

lemma sigs_awake: "awake fs s \<Longrightarrow> awake fs (fold sig_trap sigs s)"
  by (induction sigs arbitrary: s) (auto intro: sig_trap_awake)

text \<open>What a caught signal leaves alone.\<close>

lemma sig_trap_keeps:
  "os_fork (sig_trap sig s) = os_fork s" "os_time (sig_trap sig s) = os_time s" "flag_terminating (sig_trap sig s) = flag_terminating s"
  "flag_failing (sig_trap sig s) = flag_failing s"
  "forks (sig_trap sig s) = forks s"
  by (simp_all add: sig_trap_def selfpipe_ping_def emit_def Let_def)

lemma sigs_keep:
  "os_fork (fold sig_trap sigs s) = os_fork s" "os_time (fold sig_trap sigs s) = os_time s"
  "flag_terminating (fold sig_trap sigs s) = flag_terminating s" "flag_failing (fold sig_trap sigs s) = flag_failing s"
  "forks (fold sig_trap sigs s) = forks s"
  by (induction sigs arbitrary: s) (simp_all add: sig_trap_keeps)

definition ticked :: "sys \<Rightarrow> sys \<Rightarrow> bool" where
  "ticked s s' \<longleftrightarrow> (\<exists>k \<ge> ticks s. s' = s\<lparr>ticks := k\<rparr>)"

lemma ticked_simps [simp]: "ticks s \<le> k \<Longrightarrow> ticked s (s\<lparr>ticks := k\<rparr>)" "ticked s s"
proof -
  have "s = s\<lparr>ticks := ticks s\<rparr>" by simp
  then show "ticked s s" unfolding ticked_def by blast
qed (auto simp: ticked_def)

lemma pollio_ticks: "pollio junk n s mx rem = (s', n', rem') \<Longrightarrow> ticked s s'"
  by (auto simp: pollio_def Let_def now_def split: if_splits)

section \<open>The stages of a round\<close>

lemma on_sys_simps [simp]:
  "clients (on_sys f m) = clients m" "nconns (on_sys f m) = nconns m" "pollv (on_sys f m) = pollv m"
  "daemon (on_sys f m) = (daemon m)\<lparr>psys := f (msys m)\<rparr>" "poll_max (on_sys f m) = poll_max m"
  "poll_interval (on_sys f m) = poll_interval m" "poll_remain (on_sys f m) = poll_remain m"
  by (simp_all add: on_sys_def)

lemma perpd_ok_sys: "perpd_ok p \<Longrightarrow> os_ok s \<Longrightarrow> perpd_ok (p\<lparr>psys := s\<rparr>)"
  by (simp add: perpd_ok_def active_def)

lemma main_ok_os: "main_ok m \<Longrightarrow> os_ok (msys m)"
  by (simp add: main_ok_def perpd_ok_def)

lemma on_sys_ok: "main_ok m \<Longrightarrow> os_ok (f (msys m)) \<Longrightarrow> main_ok (on_sys f m)"
  by (simp add: main_ok_def perpd_ok_sys)

lemma os_ok_eq: "os_ok s \<Longrightarrow> os_fork s' = os_fork s \<Longrightarrow> os_time s' = os_time s \<Longrightarrow> os_ok s'"
  by (simp add: os_ok_def)

interpretation stale: entry_op os_ok later conn_ok "\<lambda>_. ()" "stale_step t" for t
proof
  fix s c s' c'
  assume "os_ok s" "conn_ok c" "stale_step t s c = (s', c')"
  then show "later s s'" "conn_ok c'"
    using conn_checkstale_ok [of s c t s' c'] by (auto simp: stale_step_def split: if_splits)
qed (auto intro: later_trans later_os_ok)

lemma cull_clients_spec:
  assumes "cull_clients cs n i = (cs', n')" and "n \<le> length cs" and "i \<le> n" and "\<forall>j < i. connfd (cs ! j) \<noteq> -1"
  shows "mset (take n' cs') = filter_mset (\<lambda>c. connfd c \<noteq> -1) (mset (take n cs)) \<and> length cs' = length cs \<and> n' \<le> n \<and> set cs' \<subseteq> set cs"
  using assms
proof (induction cs n i rule: cull_clients.induct)
  case (1 cs n i)
  show ?case
  proof (cases "i < n \<and> connfd (cs ! i) = -1")
    case True
    let ?cs = "cs[i := cs ! (n - 1)]"
    have run: "cull_clients ?cs (n - 1) i = (cs', n')" using True "1.prems"(1) by (subst (asm) cull_clients.simps) simp
    have IH: "mset (take n' cs') = filter_mset (\<lambda>c. connfd c \<noteq> -1) (mset (take (n - 1) ?cs)) \<and>
        length cs' = length ?cs \<and> n' \<le> n - 1 \<and> set cs' \<subseteq> set ?cs"
      using True "1.prems" by (intro "1.IH"(1) [OF _ _ run]) auto
    have m: "mset (take (n - 1) ?cs) = mset (take n cs) - {#cs ! i#}" using True "1.prems"(2) by (intro mset_swap_last) auto
    have sub: "set ?cs \<subseteq> set cs" using set_update_subset_insert [of cs i "cs ! (n - 1)"] True "1.prems"(2) by auto
    have "cs ! i \<in> set (take n cs)" using True "1.prems"(2) by (auto simp: in_set_conv_nth)
    then have "cs ! i \<in># mset (take n cs)" by simp
    then obtain M where "mset (take n cs) = add_mset (cs ! i) M" by (metis insert_DiffM)
    then show ?thesis using IH True sub unfolding m by auto
  next
    case False
    show ?thesis
    proof (cases "i < n")
      case True
      then have "cull_clients cs n (i + 1) = (cs', n')" using False "1.prems"(1) by (subst (asm) cull_clients.simps) auto
      then show ?thesis using "1.IH"(2) True False "1.prems" less_Suc_eq by auto
    next
      case ge: False
      then have "cs' = cs" "n' = n" "i = n" using "1.prems"(1,3) by (subst (asm) cull_clients.simps; simp)+
      moreover have "\<forall>c \<in> set (take n cs). connfd c \<noteq> -1" using "1.prems"(2,4) calculation(3) by (auto simp: in_set_conv_nth)
      ultimately show ?thesis by (simp add: filter_True flip: mset_filter)
    qed
  qed
qed

lemma setup_pollv_spec:
  assumes "2 + n \<le> length pv"
  shows "length (setup_pollv cs n pv) = length pv"
    and "i < n \<Longrightarrow> pfd (setup_pollv cs n pv ! (2 + i)) = connfd (cs ! i) \<and> events (setup_pollv cs n pv ! (2 + i)) = poll_events (conn_state (cs ! i))"
    and "j < 2 \<Longrightarrow> setup_pollv cs n pv ! j = pv ! j"
  using assms by (induction n) (auto simp: Let_def nth_list_update less_Suc_eq)

lemma poll_prepare_ok:
  assumes "main_ok m"
  defines "m' \<equiv> poll_prepare m"
  shows "main_ok m'" and "later (msys m) (msys m')"
    and "daemon m' = (daemon m)\<lparr>psys := msys m'\<rparr>" and "nconns m' \<le> nconns m"
    and "\<forall>i < nconns m'. connfd (clients m' ! i) \<noteq> -1 \<and> pfd (pollv m' ! (2 + i)) = connfd (clients m' ! i) \<and>
      events (pollv m' ! (2 + i)) = poll_events (conn_state (clients m' ! i))"
    and "j < 2 \<Longrightarrow> pollv m' ! j = pollv m ! j"
proof -
  obtain s t where nw: "now (msys m) = (s, t)" by force
  obtain s2 cs where st: "for_first (stale_step t) (nconns m) s (clients m) = (s2, cs)" by force
  obtain cs2 n where cu: "cull_clients cs (nconns m) 0 = (cs2, n)" by force
  have c: "length (clients m) = PERPD_CONNMAX" "nconns m \<le> PERPD_CONNMAX" "\<forall>c \<in> set (take (nconns m) (clients m)). conn_ok c"
      "\<forall>c \<in> set (clients m). length (conn_pkt c) = PKT_SIZE" "length (pollv m) = PERPD_CONNMAX + 2"
    using assms(1) by (auto simp: main_ok_def clients_ok_def)
  have l1: "later (msys m) s" using later_now [of "msys m"] nw by simp
  have os: "os_ok s" using later_os_ok [OF l1] main_ok_os [OF assms(1)] by simp
  note k = stale.for_first_keeps [OF os c(3) st]
  have l: "later (msys m) s2" using later_trans [OF l1] k by blast
  have n: "nconns m \<le> length cs" using c(1,2) k by simp
  note q = cull_clients_spec [OF cu n]
  have len: "\<forall>c \<in> set cs. length (conn_pkt c) = PKT_SIZE"
  proof -
    have "set cs = set (take (nconns m) cs) \<union> set (drop (nconns m) (clients m))"
      using k by (metis append_take_drop_id set_append)
    then show ?thesis using k c(4) in_set_dropD by (fastforce simp: conn_ok_def)
  qed
  have tk: "set (take n cs2) = {c \<in> set (take (nconns m) cs). connfd c \<noteq> -1}"
    using arg_cong [of _ _ set_mset, OF conjunct1 [OF q]] by simp
  have co: "clients_ok cs2 n" using q k c(1,2) len tk by (auto simp: clients_ok_def)
  have eq: "clients m' = cs2" "nconns m' = n" "daemon m' = (daemon m)\<lparr>psys := s2\<rparr>" "pollv m' = setup_pollv cs2 n (pollv m)"
    by (simp_all add: m'_def poll_prepare_def nw st cu Let_def)
  have n2: "2 + n \<le> length (pollv m)" using q c by simp
  show "later (msys m) (msys m')" using l eq by simp
  have "perpd_ok (daemon m')" using perpd_ok_sys assms(1) later_os_ok [OF l main_ok_os [OF assms(1)]] eq(3) by (simp add: main_ok_def)
  then show "main_ok m'" using co eq setup_pollv_spec(1) [OF n2] c(5) by (simp add: main_ok_def)
  show "daemon m' = (daemon m)\<lparr>psys := msys m'\<rparr>" "nconns m' \<le> nconns m" using eq q by simp_all
  have "connfd (cs2 ! i) \<noteq> -1" if i: "i < n" for i
  proof -
    have "cs2 ! i \<in> set (take n cs2)" using i q n by (auto simp: in_set_conv_nth)
    then show ?thesis using tk by simp
  qed
  then show "\<forall>i < nconns m'. connfd (clients m' ! i) \<noteq> -1 \<and> pfd (pollv m' ! (2 + i)) = connfd (clients m' ! i) \<and>
      events (pollv m' ! (2 + i)) = poll_events (conn_state (clients m' ! i))"
    using setup_pollv_spec(2) [OF n2] eq by simp
  show "j < 2 \<Longrightarrow> pollv m' ! j = pollv m ! j" using setup_pollv_spec(3) [OF n2] eq by simp
qed

text \<open>Closing stale clients raises no flag.\<close>

interpretation stale_flags: entry_op "\<lambda>_. True" "\<lambda>s s'. flag_failing s' = flag_failing s \<and> forks s' = forks s" "\<lambda>_. True" "\<lambda>_. ()" "stale_step t" for t
  by unfold_locales
    (auto simp: stale_step_def perpd_conn_checkstale_def perpd_conn_close_def emit_def split: if_splits)

lemma poll_prepare_failing: "flag_failing (msys (poll_prepare m)) = flag_failing (msys m)" "forks (msys (poll_prepare m)) = forks (msys m)"
proof -
  obtain s t where nw: "now (msys m) = (s, t)" by force
  obtain s2 cs where st: "for_first (stale_step t) (nconns m) s (clients m) = (s2, cs)" by force
  have "flag_failing s2 = flag_failing s \<and> forks s2 = forks s" using stale_flags.for_first_keeps [OF _ _ st] by simp
  moreover have "flag_failing s = flag_failing (msys m) \<and> forks s = forks (msys m)" using nw by (auto simp: now_def)
  ultimately show "flag_failing (msys (poll_prepare m)) = flag_failing (msys m)" "forks (msys (poll_prepare m)) = forks (msys m)"
    by (simp_all add: poll_prepare_def nw st Let_def case_prod_beta)
qed

lemma poll_once_keeps:
  "\<exists>k. ticks (msys m) \<le> k \<and> daemon (poll_once junk n m) = (daemon m)\<lparr>psys := (msys m)\<lparr>ticks := k\<rparr>\<rparr>"
  "clients (poll_once junk n m) = clients m" "nconns (poll_once junk n m) = nconns m" "pollv (poll_once junk n m) = pollv m"
proof -
  obtain s k r where p: "pollio junk n (msys m) (poll_interval m) (Some (poll_remain m)) = (s, k, r)" using prod_cases3 by blast
  from pollio_ticks [OF p] show "\<exists>k. ticks (msys m) \<le> k \<and> daemon (poll_once junk n m) = (daemon m)\<lparr>psys := (msys m)\<lparr>ticks := k\<rparr>\<rparr>"
    by (auto simp: poll_once_def p ticked_def)
  show "clients (poll_once junk n m) = clients m" "nconns (poll_once junk n m) = nconns m" "pollv (poll_once junk n m) = pollv m"
    by (simp_all add: poll_once_def p)
qed

text \<open>The effect of polling on the daemon: signals are caught and the clock is read; nothing else changes.\<close>

definition polled :: "mainloop \<Rightarrow> mainloop \<Rightarrow> bool" where
  "polled m m' \<longleftrightarrow> (\<exists>sigs k. ticks (msys m) \<le> k \<and> daemon m' = (daemon m)\<lparr>psys := (fold sig_trap sigs (msys m))\<lparr>ticks := k\<rparr>\<rparr>) \<and>
     clients m' = clients m \<and> nconns m' = nconns m \<and> length (pollv m') = length (pollv m)"

lemma sig_trap_ticks: "ticks (sig_trap sig s) = ticks s" "sig_trap sig (s\<lparr>ticks := k\<rparr>) = (sig_trap sig s)\<lparr>ticks := k\<rparr>"
  by (simp_all add: sig_trap_def selfpipe_ping_def emit_def Let_def)

lemma sigs_ticks: "ticks (fold sig_trap sigs s) = ticks s" "fold sig_trap sigs (s\<lparr>ticks := k\<rparr>) = (fold sig_trap sigs s)\<lparr>ticks := k\<rparr>"
  by (induction sigs arbitrary: s) (simp_all add: sig_trap_ticks)

lemma polled_trans:
  assumes "polled a b" and "polled b c"
  shows "polled a c"
proof -
  obtain x k y l where "ticks (msys a) \<le> k" "daemon b = (daemon a)\<lparr>psys := (fold sig_trap x (msys a))\<lparr>ticks := k\<rparr>\<rparr>"
      "ticks (msys b) \<le> l" "daemon c = (daemon b)\<lparr>psys := (fold sig_trap y (msys b))\<lparr>ticks := l\<rparr>\<rparr>"
    using assms by (auto simp: polled_def)
  then have "ticks (msys a) \<le> l \<and> daemon c = (daemon a)\<lparr>psys := (fold sig_trap (x @ y) (msys a))\<lparr>ticks := l\<rparr>\<rparr>"
    by (simp add: sigs_ticks)
  moreover have "clients c = clients a \<and> nconns c = nconns a \<and> length (pollv c) = length (pollv a)"
    using assms by (simp add: polled_def)
  ultimately show ?thesis unfolding polled_def by blast
qed

lemma polled_once: "polled m (poll_once junk n (caught sigs m))"
proof -
  obtain k where "ticks (msys (caught sigs m)) \<le> k"
      "daemon (poll_once junk n (caught sigs m)) = (daemon (caught sigs m))\<lparr>psys := (msys (caught sigs m))\<lparr>ticks := k\<rparr>\<rparr>"
    using poll_once_keeps(1) by blast
  then have "ticks (msys m) \<le> k \<and> daemon (poll_once junk n (caught sigs m)) = (daemon m)\<lparr>psys := (fold sig_trap sigs (msys m))\<lparr>ticks := k\<rparr>\<rparr>"
    by (simp add: caught_def sigs_ticks)
  then show ?thesis using poll_once_keeps(2-4) [of junk n "caught sigs m"] by (auto simp: polled_def caught_def)
qed

lemma polled_fold: "polled m m' \<Longrightarrow> polled m (fold (\<lambda>sigs m. poll_once junk (-1) (caught sigs m)) xs m')"
proof (induction xs arbitrary: m')
  case (Cons x xs)
  have "polled m (poll_once junk (-1) (caught x m'))" using Cons.prems polled_once by (rule polled_trans)
  then show ?case using Cons.IH by simp
qed simp

lemma poll_wait_polled: "polled m (poll_wait env m)"
proof -
  have "ticks (msys m) \<le> ticks (msys m) \<and> daemon m = (daemon m)\<lparr>psys := (fold sig_trap [] (msys m))\<lparr>ticks := ticks (msys m)\<rparr>\<rparr>" by simp
  then have "polled m m" unfolding polled_def by blast
  from polled_trans [OF polled_fold [OF this, of "junk_before env" "interrupts env"] polled_once]
  show ?thesis by (auto simp: poll_wait_def Let_def polled_def)
qed

lemma polled_ok:
  assumes "polled m m'" and "main_ok m"
  shows "main_ok m'" and "flag_terminating (msys m') = flag_terminating (msys m)" and "flag_failing (msys m') = flag_failing (msys m)"
    and "awake fs (msys m) \<Longrightarrow> set fs \<subseteq> {flag_chld, flag_hup, flag_term, flag_failing} \<Longrightarrow> awake fs (msys m')"
    and "nservices (daemon m') = nservices (daemon m)" and "svdefs (daemon m') = svdefs (daemon m)"
    and "arg_autoscan (daemon m') = arg_autoscan (daemon m)"
proof -
  obtain sigs k where p: "ticks (msys m) \<le> k" "daemon m' = (daemon m)\<lparr>psys := (fold sig_trap sigs (msys m))\<lparr>ticks := k\<rparr>\<rparr>"
    using assms(1) by (auto simp: polled_def)
  have "os_ok ((fold sig_trap sigs (msys m))\<lparr>ticks := k\<rparr>)"
    using os_ok_eq [OF main_ok_os [OF assms(2)]] by (simp add: sigs_keep)
  then show "main_ok m'" using assms p perpd_ok_sys by (auto simp: main_ok_def polled_def)
  show "flag_terminating (msys m') = flag_terminating (msys m)" "flag_failing (msys m') = flag_failing (msys m)"
    by (simp_all add: p sigs_keep)
  show "nservices (daemon m') = nservices (daemon m)" "svdefs (daemon m') = svdefs (daemon m)"
    "arg_autoscan (daemon m') = arg_autoscan (daemon m)" by (simp_all add: p)
  show "awake fs (msys m')" if a: "awake fs (msys m)" "set fs \<subseteq> {flag_chld, flag_hup, flag_term, flag_failing}"
  proof -
    have "awake fs (fold sig_trap sigs (msys m))" using a(1) by (rule sigs_awake)
    from awake_later [OF this _ a(2)] show ?thesis using p(1) by (auto simp: p(2) later_def sigs_ticks)
  qed
qed

text \<open>What a stage after the poll does to the rest of the loop's state.\<close>

definition flags_cleared :: "sys \<Rightarrow> sys \<Rightarrow> bool" where
  "flags_cleared s s' \<longleftrightarrow> (\<exists>c h t f g. s' = s\<lparr>flag_chld := c, flag_hup := h, flag_term := t, flag_failing := f, flag_terminating := g\<rparr> \<and>
     c \<le> flag_chld s \<and> h \<le> flag_hup s \<and> t \<le> flag_term s \<and> f \<le> flag_failing s)"

lemma cleared_awake: "flags_cleared s s' \<Longrightarrow> awake fs s \<Longrightarrow> set fs \<subseteq> {flag_chld, flag_hup, flag_term, flag_failing} \<Longrightarrow> awake fs s'"
  by (fastforce simp: flags_cleared_def awake_def unread_def)

lemma cleared_os: "flags_cleared s s' \<Longrightarrow> os_ok s \<Longrightarrow> os_ok s'"
  by (auto simp: flags_cleared_def os_ok_def)

lemma check_selfpipe_ok:
  assumes "check_selfpipe m n = (m', n')" and "main_ok m"
  shows "main_ok m'" and "m' = m \<or> m' = on_sys (emit Drain) m"
  using assms on_sys_ok [OF assms(2), of "emit Drain"] main_ok_os [OF assms(2)]
  by (auto simp: check_selfpipe_def os_ok_def emit_def split: if_splits)

lemma close_clients_later: "later s (close_clients cs s)"
  by (induction cs arbitrary: s) (auto intro: later_trans [OF later_emit])

lemma begin_termination_ok:
  assumes "main_ok m"
  defines "m' \<equiv> begin_termination m" and "s0 \<equiv> (msys m)\<lparr>flag_terminating := True, flag_term := 0, flag_hup := 0\<rparr>"
  shows "main_ok m'" and "later s0 (msys m')" and "nconns m' = 0" and "arg_autoscan (daemon m') = 0" and "shutting (daemon m')"
    and "pollv m' = pollv m"
proof -
  define s1 where "s1 = close_clients (take (nconns m) (clients m)) (emit (Close (fd_listen (daemon m))) s0)"
  let ?p = "(daemon m)\<lparr>psys := s1, arg_autoscan := 0\<rparr>"
  obtain s2 g svs where f: "for_first cull_step (nservices (daemon m)) (s1, 0) (svdefs (daemon m)) = ((s2, g), svs)"
    by (metis prod.exhaust)
  let ?q = "?p\<lparr>psys := s2, svdefs := svs\<rparr>"
  have eq: "daemon m' = (if g > 0 then perpd_cull ?q else ?q)" "clients m' = clients m" "nconns m' = 0" "pollv m' = pollv m"
    using f by (simp_all add: m'_def begin_termination_def on_sys_def s1_def s0_def Let_def)
  have pok: "perpd_ok (daemon m)" using assms(1) by (simp add: main_ok_def)
  have l1: "later s0 s1" unfolding s1_def by (rule later_trans [OF later_emit close_clients_later]) simp
  have os1: "os_ok s1" using later_os_ok [OF l1] main_ok_os [OF assms(1)] by (simp add: s0_def os_ok_def)
  have ok: "os_ok (fst (s1, 0 :: nat))" "\<forall>sd \<in> set (take (nservices (daemon m)) (svdefs (daemon m))). svdef_ok sd"
    using os1 pok by (auto simp: perpd_ok_def active_def)
  note k = wantcull.for_first_keeps [OF ok f]
  have qok: "perpd_ok ?q" using pok k by (simp add: perpd_ok_def active_def)
  have l2: "later s0 s2" using later_trans [OF l1] k by (simp add: later_count_def)
  have culled: "sv_has sd SVDEF_FLAG_CULL \<and> (perpd_svdef_cullok sd \<longrightarrow> 0 < g)" if sd: "sd \<in> set (active ?q)" for sd
  proof -
    obtain i where i: "i < nservices (daemon m)" "i < length (svdefs (daemon m))" "sd = svs ! i"
      using sd k by (auto simp: active_def in_set_conv_nth)
    obtain t t' where t: "later_count t' (s2, g)" "cull_step t (svdefs (daemon m) ! i) = (t', sd)"
      using wantcull.for_first_nth [OF ok f i(1,2)] i(3) by blast
    then obtain s' r where w: "perpd_svdef_wantcull (fst t) (svdefs (daemon m) ! i) = (s', sd, r)"
        "t' = (s', if r = 1 then snd t + 1 else snd t)" by (auto simp: cull_step_def split: prod.splits)
    have "svdefs (daemon m) ! i \<in> set (take (nservices (daemon m)) (svdefs (daemon m)))" using i by (auto simp: in_set_conv_nth)
    then have "svdef_ok (svdefs (daemon m) ! i)" using ok(2) by blast
    from wantcull_ready [OF w(1) this] show ?thesis using t(1) w(2) by (auto simp: later_count_def)
  qed
  have n: "nservices ?q \<le> length (svdefs ?q)" using qok by (simp add: perpd_ok_def)
  note c = perpd_cull_spec [OF n]
  have act: "set (active (perpd_cull ?q)) = {sd \<in> set (active ?q). \<not> perpd_svdef_cullok sd}"
    using arg_cong [OF c(1), of set_mset] by simp
  show "shutting (daemon m')" using culled act by (auto simp: eq(1) shutting_def)
  have dok: "perpd_ok (daemon m')" using qok perpd_cull_ok by (simp add: eq(1))
  then show "main_ok m'" using assms(1) eq(2-4) by (auto simp: main_ok_def clients_ok_def)
  show "later s0 (msys m')" using l2 later_trans [OF l2] c(4) by (simp add: eq(1))
  show "nconns m' = 0" "pollv m' = pollv m" by (rule eq)+
  show "arg_autoscan (daemon m') = 0" by (simp add: eq(1) perpd_cull_def case_prod_beta)
qed

text \<open>Once termination has begun there are no clients and no reason to scan.\<close>

definition quiet :: "mainloop \<Rightarrow> bool" where
  "quiet m \<longleftrightarrow> (flag_terminating (msys m) \<longrightarrow> nconns m = 0 \<and> arg_autoscan (daemon m) = 0 \<and> flag_hup (msys m) = 0 \<and> flag_term (msys m) = 0)"

lemma sigs_terminating:
  "flag_terminating s \<Longrightarrow> flag_hup s = 0 \<and> flag_term s = 0 \<Longrightarrow> flag_hup (fold sig_trap sigs s) = 0 \<and> flag_term (fold sig_trap sigs s) = 0"
proof (induction sigs arbitrary: s)
  case (Cons x xs)
  have "flag_terminating (sig_trap x s)" using Cons.prems(1) by (simp add: sig_trap_keeps)
  moreover have "flag_hup (sig_trap x s) = 0 \<and> flag_term (sig_trap x s) = 0"
    using Cons.prems by (simp add: sig_trap_def selfpipe_ping_def emit_def Let_def)
  ultimately show ?case using Cons.IH by simp
qed simp

lemma polled_quiet: "polled m m' \<Longrightarrow> quiet m \<Longrightarrow> quiet m'"
  using sigs_terminating by (auto simp: polled_def quiet_def sigs_keep)

lemma later_quiet:
  assumes "quiet m" and "later (msys m) (msys m')" and "nconns m' = nconns m" and "arg_autoscan (daemon m') = arg_autoscan (daemon m)"
  shows "quiet m'"
  using assms by (auto simp: quiet_def later_def)

lemma prepare_quiet: "main_ok m \<Longrightarrow> quiet m \<Longrightarrow> quiet (poll_prepare m)"
  using poll_prepare_ok(2,4) [of m] arg_cong [OF poll_prepare_ok(3) [of m], of arg_autoscan] by (auto simp: quiet_def later_def)

definition stage_ok :: "(sys \<Rightarrow> nat) list \<Rightarrow> mainloop \<Rightarrow> mainloop \<Rightarrow> bool" where
  "stage_ok fs m m' \<longleftrightarrow> main_ok m' \<and> quiet m' \<and> awake fs (msys m') \<and> pollv m' = pollv m \<and> clients m' = clients m \<and>
     (nconns m' = nconns m \<or> nconns m' = 0)"

lemma check_term_ok:
  assumes "main_ok m" and "quiet m"
  shows "stage_ok [flag_term] m (check_term m)"
proof (cases "flag_term (msys m) > 0")
  case True
  let ?m = "begin_termination m"
  note b = begin_termination_ok [OF assms(1)]
  have "flag_term (msys ?m) = 0 \<and> flag_hup (msys ?m) = 0" using b(2) by (simp add: later_def)
  moreover have "clients ?m = clients m" by (simp add: begin_termination_def Let_def case_prod_beta)
  ultimately show ?thesis using b True by (auto simp: stage_ok_def check_term_def quiet_def awake_def)
qed (use assms in \<open>auto simp: stage_ok_def check_term_def awake_def\<close>)

lemma waitup_loop_rest: "waitup_loop p evs c y = (p', c', y') \<Longrightarrow> arg_autoscan p' = arg_autoscan p \<and> fd_listen p' = fd_listen p"
proof (induction p evs c y rule: waitup_loop.induct)
  case (2 p q st evs c y)
  then show ?case by (fastforce split: if_splits option.splits prod.splits)
qed auto

lemma waitup_rest: "arg_autoscan (perpd_waitup evs p) = arg_autoscan p"
proof -
  obtain p1 c y where w: "waitup_loop p evs 0 0 = (p1, c, y)" using prod_cases3 by blast
  show ?thesis using waitup_loop_rest [OF w] by (auto simp: perpd_waitup_def w Let_def perpd_cull_def split: prod.splits)
qed

lemma cleared_later_awake:
  assumes "awake fs s" and "flags_cleared s s0" and "later s0 s'" and "f s0 = 0" and "f s' = 0 \<or> f \<in> {flag_hup, flag_failing}"
    and "set (f # fs) \<subseteq> {flag_chld, flag_hup, flag_term, flag_failing}"
  shows "awake (f # fs) s'"
proof -
  have "awake (f # fs) s0" using cleared_awake [OF assms(2,1)] assms(4,6) by (auto simp: awake_def)
  then show ?thesis using assms(3,6) by (rule awake_later)
qed

lemma check_chld_ok:
  assumes "stage_ok [flag_term] m0 m"
  shows "stage_ok [flag_chld, flag_term] m0 (check_chld env m)"
proof (cases "flag_chld (msys m) > 0")
  case True
  let ?s = "(msys m)\<lparr>flag_chld := 0\<rparr>"
  let ?p = "perpd_waitup (waits env) ((daemon m)\<lparr>psys := ?s\<rparr>)"
  have m: "main_ok m" "quiet m" "awake [flag_term] (msys m)" using assms by (auto simp: stage_ok_def)
  have fc: "flags_cleared (msys m) ?s" unfolding flags_cleared_def
    by (intro exI [of _ 0] exI [of _ "flag_hup (msys m)"] exI [of _ "flag_term (msys m)"] exI [of _ "flag_failing (msys m)"]
        exI [of _ "flag_terminating (msys m)"]) simp
  have ok: "perpd_ok ((daemon m)\<lparr>psys := ?s\<rparr>)"
    using m(1) perpd_ok_sys cleared_os [OF fc main_ok_os [OF m(1)]] by (simp add: main_ok_def)
  have l: "later ?s (psys ?p)" using perpd_waitup_later [OF ok] by simp
  have eq: "check_chld env m = m\<lparr>daemon := ?p\<rparr>" using True by (simp add: check_chld_def Let_def on_sys_def)
  have "quiet (m\<lparr>daemon := ?p\<rparr>)" using m(2) l waitup_rest by (auto simp: quiet_def later_def)
  moreover have "awake [flag_chld, flag_term] (psys ?p)" using m(3) fc l by (rule cleared_later_awake) (use l in \<open>auto simp: later_def\<close>)
  ultimately show ?thesis using assms perpd_waitup_ok [OF ok] by (auto simp: stage_ok_def eq main_ok_def)
qed (use assms in \<open>auto simp: stage_ok_def check_chld_def awake_def\<close>)

lemma check_scan_ok:
  assumes "stage_ok [flag_chld, flag_term] m0 m" and "\<forall>d \<in> set (dirents (scans env)). 0 \<notin> set (d_name d)"
  shows "stage_ok [flag_hup, flag_chld, flag_term] m0 (check_scan env m)"
proof (cases "flag_hup (msys m) > 0 \<or> (arg_autoscan (daemon m) > 0 \<and> poll_remain m < 100)")
  case True
  let ?s = "(msys m)\<lparr>flag_hup := 0\<rparr>"
  let ?p = "perpd_scan (scans env) ((daemon m)\<lparr>psys := ?s\<rparr>)"
  have m: "main_ok m" "quiet m" "awake [flag_chld, flag_term] (msys m)" using assms(1) by (auto simp: stage_ok_def)
  have nt: "\<not> flag_terminating (msys m)" using m(2) True by (auto simp: quiet_def)
  have fc: "flags_cleared (msys m) ?s" unfolding flags_cleared_def
    by (intro exI [of _ 0] exI [of _ "flag_chld (msys m)"] exI [of _ "flag_term (msys m)"] exI [of _ "flag_failing (msys m)"]
        exI [of _ "flag_terminating (msys m)"]) simp
  have ok: "perpd_ok ((daemon m)\<lparr>psys := ?s\<rparr>)"
    using m(1) perpd_ok_sys cleared_os [OF fc main_ok_os [OF m(1)]] by (simp add: main_ok_def)
  have sc: "perpd_ok ?p" "later ?s (psys ?p)" using perpd_scan_ok [OF ok assms(2)] by simp_all
  have eq: "check_scan env m = m\<lparr>daemon := ?p, poll_interval := poll_max m\<rparr>"
    using True by (simp add: check_scan_def Let_def on_sys_def)
  have "\<not> flag_terminating (psys ?p)" using sc(2) nt by (simp add: later_def)
  moreover have "awake [flag_hup, flag_chld, flag_term] (psys ?p)" using m(3) fc sc(2) by (rule cleared_later_awake) auto
  ultimately show ?thesis using assms(1) sc(1) by (auto simp: stage_ok_def eq main_ok_def quiet_def)
qed (use assms in \<open>auto simp: stage_ok_def check_scan_def awake_def\<close>)

lemma check_failing_ok:
  assumes "stage_ok [flag_hup, flag_chld, flag_term] m0 m"
  defines "all \<equiv> [flag_failing, flag_hup, flag_chld, flag_term]"
  shows "check_failing m = Inr m' \<Longrightarrow> stage_ok all m0 m' \<and> (flag_terminating (msys m') \<longrightarrow> flag_failing (msys m') = 0)"
    and "check_failing m = Inl out \<Longrightarrow> (\<exists>m'. out = Proceed m' \<and> stage_ok all m0 m' \<and> \<not> flag_terminating (msys m')) \<or>
      (out = Die 111 m \<and> flag_terminating (msys m) \<and> flag_failing (msys m) > 0)"
proof -
  let ?s = "(msys m)\<lparr>flag_failing := 0\<rparr>" and ?p = "daemon m"
  obtain s svs where f: "for_first perpd_svdef_checkfail (nservices ?p) ?s (svdefs ?p) = (s, svs)" by force
  let ?m = "m\<lparr>daemon := ?p\<lparr>psys := s, svdefs := svs\<rparr>\<rparr>"
  have m: "main_ok m" "quiet m" "awake [flag_hup, flag_chld, flag_term] (msys m)" using assms(1) by (auto simp: stage_ok_def)
  have fc: "flags_cleared (msys m) ?s" unfolding flags_cleared_def
    by (intro exI [of _ 0] exI [of _ "flag_chld (msys m)"] exI [of _ "flag_term (msys m)"] exI [of _ "flag_hup (msys m)"]
        exI [of _ "flag_terminating (msys m)"]) simp
  have ok: "os_ok ?s" "\<forall>sd \<in> set (take (nservices ?p) (svdefs ?p)). svdef_ok sd"
    using cleared_os [OF fc main_ok_os [OF m(1)]] m(1) by (auto simp: main_ok_def perpd_ok_def active_def)
  note k = checkfail.for_first_keeps [OF ok f]
  have mok: "main_ok ?m" using m(1) k by (simp add: main_ok_def perpd_ok_def active_def)
  have aw: "awake all s" unfolding all_def using m(3) fc conjunct1 [OF k] by (rule cleared_later_awake) auto
  have nt: "flag_terminating s = flag_terminating (msys m)" using k by (simp add: later_def)
  have st: "stage_ok all m0 ?m \<and> \<not> flag_terminating (msys ?m)" if "\<not> flag_terminating (msys m)"
    using assms(1) mok aw nt that by (auto simp: stage_ok_def quiet_def)
  have st2: "stage_ok all m0 (on_sys (emit (Pause (Tain 0 EPAUSE))) ?m) \<and> \<not> flag_terminating (msys (on_sys (emit (Pause (Tain 0 EPAUSE))) ?m))"
    if n: "\<not> flag_terminating (msys m)"
  proof -
    have l: "later s (emit (Pause (Tain 0 EPAUSE)) s)" by simp
    have "awake all (emit (Pause (Tain 0 EPAUSE)) s)" using aw l by (rule awake_later) (simp add: all_def)
    moreover have "main_ok (on_sys (emit (Pause (Tain 0 EPAUSE))) ?m)"
      using on_sys_ok [OF mok] later_os_ok [OF l] k by simp
    ultimately show ?thesis using st [OF n] l by (simp add: stage_ok_def quiet_def later_def)
  qed
  have unf: "check_failing m =
      (if flag_failing (msys m) > 0 then
         (if flag_terminating (msys m) then Inl (Die 111 m)
          else if flag_failing s > 0 then Inl (Proceed (on_sys (emit (Pause (Tain 0 EPAUSE))) ?m)) else Inr ?m)
       else Inr m)" by (simp add: check_failing_def f Let_def)
  have same: "stage_ok all m0 m" if "flag_failing (msys m) = 0"
    using assms(1) that m(3) unfolding stage_ok_def all_def by (auto simp: awake_def)
  show "stage_ok all m0 m' \<and> (flag_terminating (msys m') \<longrightarrow> flag_failing (msys m') = 0)" if r: "check_failing m = Inr m'"
  proof (cases "flag_failing (msys m) > 0")
    case True
    then have "m' = ?m" "\<not> flag_terminating (msys m)" using r unfolding unf by (auto split: if_splits)
    then show ?thesis using st by blast
  next
    case False
    then show ?thesis using r same unfolding unf by simp
  qed
  show "check_failing m = Inl out \<Longrightarrow> (\<exists>m'. out = Proceed m' \<and> stage_ok all m0 m' \<and> \<not> flag_terminating (msys m')) \<or>
      (out = Die 111 m \<and> flag_terminating (msys m) \<and> flag_failing (msys m) > 0)"
    using st2 unfolding unf by (auto split: if_splits)
qed

text \<open>The events of a client fit its state.\<close>

definition matched :: "mainloop \<Rightarrow> nat \<Rightarrow> bool" where
  "matched m i \<longleftrightarrow> (poll_has (revents (pollv m ! (2 + i))) POLLIN \<longrightarrow> conn_state (clients m ! i) = PERPD_CONN_READING) \<and>
     (poll_has (revents (pollv m ! (2 + i))) POLLOUT \<longrightarrow> conn_state (clients m ! i) = PERPD_CONN_WRITING)"

lemma conn_ok_len: "conn_ok c \<Longrightarrow> length (conn_pkt c) = PKT_SIZE"
  by (simp add: conn_ok_def)

lemma clients_ok_update:
  assumes "clients_ok cs n" and "i < n" and "conn_ok c"
  shows "clients_ok (cs[i := c]) n"
proof -
  have "take n (cs[i := c]) = (take n cs)[i := c]" using assms(2) by (simp add: take_update_swap)
  then show ?thesis
    using assms set_update_subset_insert [of cs i c] set_update_subset_insert [of "take n cs" i c]
      conn_ok_len [OF assms(3)] by (auto simp: clients_ok_def)
qed

lemma conn_exec_rest: "arg_autoscan (fst (perpd_conn_exec p c)) = arg_autoscan p"
  by (auto simp: perpd_conn_exec_def perpd_conn_exec_control_def Let_def split: option.splits prod.splits)

lemma conn_read_rest: "arg_autoscan (fst (perpd_conn_read evs p c)) = arg_autoscan p"
  by (auto simp: perpd_conn_read_def Let_def conn_exec_rest split: sum.splits prod.splits)

lemma serve_client_ok:
  assumes "main_ok m" and "i < nconns m" and "matched m i" and "serve_client env m i = (m', d)"
  shows "main_ok m'" and "later (msys m) (msys m')" and "nconns m' = nconns m" and "pollv m' = pollv m"
    and "\<forall>j. j \<noteq> i \<longrightarrow> clients m' ! j = clients m ! j" and "arg_autoscan (daemon m') = arg_autoscan (daemon m)"
proof -
  let ?c = "clients m ! i"
  have co: "clients_ok (clients m) (nconns m)" and pok: "perpd_ok (daemon m)" using assms(1) by (auto simp: main_ok_def)
  have "?c \<in> set (take (nconns m) (clients m))" using assms(2) co by (auto simp: in_set_conv_nth clients_ok_def)
  then have c: "conn_ok ?c" "length (conn_pkt ?c) = PKT_SIZE" "tain_ok (stamp ?c)" using co by (auto simp: clients_ok_def conn_ok_def)
  obtain p c' where e: "m' = m\<lparr>daemon := p, clients := (clients m)[i := c']\<rparr>" "conn_ok c'" "perpd_ok p" "later (msys m) (psys p)"
      "arg_autoscan p = arg_autoscan (daemon m)"
  proof -
    obtain s1 c1 where cl: "perpd_conn_close (msys m) ?c = (s1, c1)" by force
    obtain p2 c2 where rd: "perpd_conn_read (reads env i) (daemon m) ?c = (p2, c2)" by force
    obtain s3 c3 where wr: "perpd_conn_write (writes env i) (msys m) ?c = (s3, c3)" by force
    note k = conn_close_ok [OF cl c(2,3)]
    note sys = perpd_trigger_ok [OF pok]
    let ?r = "revents (pollv m ! (2 + i))"
    consider "poll_has ?r (POLLERR OR POLLHUP OR POLLNVAL)" | "\<not> poll_has ?r (POLLERR OR POLLHUP OR POLLNVAL)" "poll_has ?r POLLIN"
      | "\<not> poll_has ?r (POLLERR OR POLLHUP OR POLLNVAL)" "\<not> poll_has ?r POLLIN" "poll_has ?r POLLOUT"
      | "\<not> poll_has ?r (POLLERR OR POLLHUP OR POLLNVAL)" "\<not> poll_has ?r POLLIN" "\<not> poll_has ?r POLLOUT" by blast
    then show ?thesis
    proof cases
      case 1
      then have "m' = m\<lparr>daemon := (daemon m)\<lparr>psys := s1\<rparr>, clients := (clients m)[i := c1]\<rparr>"
        using assms(4) cl by (simp add: serve_client_def on_sys_def Let_def)
      then show ?thesis using that k sys by simp
    next
      case 2
      then have "conn_state ?c = PERPD_CONN_READING" using assms(3) by (simp add: matched_def)
      note r = conn_read_ok [OF rd c(1) this pok]
      have "arg_autoscan p2 = arg_autoscan (daemon m)" using conn_read_rest [where p = "daemon m" and c = ?c and evs = "reads env i"] rd by simp
      moreover have "m' = m\<lparr>daemon := p2, clients := (clients m)[i := c2]\<rparr>" using 2 assms(4) rd by (simp add: serve_client_def Let_def)
      ultimately show ?thesis using that r by blast
    next
      case 3
      then have "conn_state ?c = PERPD_CONN_WRITING" using assms(3) by (simp add: matched_def)
      note w = conn_write_ok [OF wr c(1) this main_ok_os [OF assms(1)]]
      have "m' = m\<lparr>daemon := (daemon m)\<lparr>psys := s3\<rparr>, clients := (clients m)[i := c3]\<rparr>"
        using 3 assms(4) wr by (simp add: serve_client_def on_sys_def Let_def)
      then show ?thesis using that w sys by simp
    next
      case 4
      then have "m' = m" using assms(4) by (simp add: serve_client_def Let_def)
      then show ?thesis using that [of ?c "daemon m"] c(1) pok by simp
    qed
  qed
  show "main_ok m'" using e clients_ok_update [OF co assms(2)] assms(1) by (simp add: main_ok_def)
  show "later (msys m) (msys m')" "nconns m' = nconns m" "pollv m' = pollv m" "arg_autoscan (daemon m') = arg_autoscan (daemon m)"
    "\<forall>j. j \<noteq> i \<longrightarrow> clients m' ! j = clients m ! j" using e by simp_all
qed

lemma serve_clients_ok:
  "serve_clients env m n i nready = (m', k) \<Longrightarrow> main_ok m \<Longrightarrow> n = nconns m \<Longrightarrow> \<forall>j. i \<le> j \<and> j < n \<longrightarrow> matched m j \<Longrightarrow>
   main_ok m' \<and> later (msys m) (msys m') \<and> nconns m' = nconns m \<and> pollv m' = pollv m \<and> arg_autoscan (daemon m') = arg_autoscan (daemon m)"
proof (induction env m n i nready arbitrary: m' k rule: serve_clients.induct)
  case (1 env m n i nready)
  consider "i < n" "connfd (clients m ! i) = -1" | "i < n" "connfd (clients m ! i) \<noteq> -1" "nready \<noteq> 0"
    | "m' = m" using "1.prems"(1) by (subst (asm) serve_clients.simps) (auto split: if_splits)
  then show ?case
  proof cases
    case 1
    then have "serve_clients env m n (i + 1) nready = (m', k)" using "1.prems"(1) by (subst (asm) serve_clients.simps) simp
    then show ?thesis using "1.IH"(1) [OF 1] "1.prems"(2-4) by auto
  next
    case 2
    obtain m1 d where s: "serve_client env m i = (m1, d)" by force
    then have r: "serve_clients env m1 n (i + 1) (nready - d) = (m', k)"
      using 2 "1.prems"(1) by (subst (asm) serve_clients.simps) simp
    have "matched m i" using 2 "1.prems"(4) by simp
    from serve_client_ok [OF "1.prems"(2) _ this s] 2 "1.prems"(3)
    have k: "main_ok m1" "later (msys m) (msys m1)" "nconns m1 = nconns m" "pollv m1 = pollv m"
      "\<forall>j. j \<noteq> i \<longrightarrow> clients m1 ! j = clients m ! j" "arg_autoscan (daemon m1) = arg_autoscan (daemon m)" by auto
    have "\<forall>j. i + 1 \<le> j \<and> j < n \<longrightarrow> matched m1 j" using k(4,5) "1.prems"(4) by (simp add: matched_def)
    then show ?thesis using "1.IH"(2) [OF 2 s [symmetric] refl r k(1)] k "1.prems"(3) later_trans by auto
  qed (use "1.prems" in auto)
qed

lemma accept_client_ok:
  assumes "main_ok m"
  shows "main_ok (accept_client env m)" and "later (msys m) (msys (accept_client env m))"
    and "quiet m \<Longrightarrow> quiet (accept_client env m)"
proof -
  let ?fd = "domsock_accept env m"
  have cl: "main_ok (on_sys (emit (Close ?fd)) m)" "later (msys m) (emit (Close ?fd) (msys m))"
    using on_sys_ok [OF assms] later_os_ok [OF _ main_ok_os [OF assms]] by simp_all
  have co: "clients_ok (clients m) (nconns m)" and pok: "perpd_ok (daemon m)" using assms by (auto simp: main_ok_def)
  obtain s c where st: "perpd_conn_start (msys m) (clients m ! nconns m) ?fd = (s, c)" by force
  let ?m = "(on_sys (\<lambda>_. s) m)\<lparr>clients := (clients m)[nconns m := c], nconns := nconns m + 1\<rparr>"
  have new: "main_ok ?m \<and> later (msys m) s" if n: "nconns m \<noteq> PERPD_CONNMAX"
  proof -
    have i: "nconns m < length (clients m)" "nconns m < PERPD_CONNMAX" using n co by (auto simp: clients_ok_def)
    then have "clients m ! nconns m \<in> set (clients m)" by simp
    then have l: "length (conn_pkt (clients m ! nconns m)) = PKT_SIZE" using co by (simp add: clients_ok_def)
    note k = conn_start_ok [OF st l main_ok_os [OF assms]]
    have "take (nconns m + 1) ((clients m)[nconns m := c]) = take (nconns m) (clients m) @ [c]"
      using i by (simp add: take_Suc_conv_app_nth)
    then have "clients_ok ((clients m)[nconns m := c]) (nconns m + 1)"
      using co k i set_update_subset_insert [of "clients m" "nconns m" c] conn_ok_len [of c] by (auto simp: clients_ok_def)
    then show ?thesis using k perpd_trigger_ok [OF pok] assms by (simp add: main_ok_def)
  qed
  show "main_ok (accept_client env m)" "later (msys m) (msys (accept_client env m))"
    using assms cl new by (auto simp: accept_client_def Let_def st)
  show "quiet (accept_client env m)" if q: "quiet m"
  proof (cases "flag_terminating (msys m)")
    case True
    then show ?thesis using q by (simp add: accept_client_def domsock_accept_def)
  next
    case False
    then have "\<not> flag_terminating (msys (accept_client env m))"
      using \<open>later (msys m) (msys (accept_client env m))\<close> by (simp add: later_def)
    then show ?thesis by (simp add: quiet_def)
  qed
qed

section \<open>Rounds\<close>

text \<open>What is asked of the system in a round: \<open>poll()\<close> reports POLLIN and POLLOUT only where they were requested, and directory entries
  are C strings.\<close>

definition env_ok :: "round_env \<Rightarrow> mainloop \<Rightarrow> bool" where
  "env_ok env m \<longleftrightarrow>
     (\<forall>i ev. ev = POLLIN \<or> ev = POLLOUT \<longrightarrow> poll_has (poll_revents env i) ev \<longrightarrow> poll_has (events (pollv (poll_prepare m) ! i)) ev) \<and>
     (\<forall>d \<in> set (dirents (scans env)). 0 \<notin> set (d_name d))"

abbreviation loop_flags :: "(sys \<Rightarrow> nat) list" where
  "loop_flags \<equiv> [flag_failing, flag_hup, flag_chld, flag_term]"

lemma poll_events_has:
  "poll_has (poll_events st) POLLIN \<Longrightarrow> st = PERPD_CONN_READING" "poll_has (poll_events st) POLLOUT \<Longrightarrow> st = PERPD_CONN_WRITING"
  by (auto simp: poll_has_def poll_events_def poll_defs split: if_splits)

lemma caught_pollv: "pollv (caught sigs m) = pollv m"
  by (simp add: caught_def)

lemma poll_fold_pollv:
  "pollv (fold (\<lambda>sigs m. poll_once junk (-1) (caught sigs m)) xs m) = pollv m"
  by (induction xs arbitrary: m) (simp_all add: poll_once_keeps(4) caught_pollv)

lemma poll_wait_revents:
  assumes "0 \<le> poll_result env" and "j < poll_nfds m" and "j < length (pollv m)"
  shows "revents (pollv (poll_wait env m) ! j) = poll_revents env j"
proof -
  define m1 where "m1 = fold (\<lambda>sigs m. poll_once (junk_before env) (-1) (caught sigs m)) (interrupts env) m"
  define m2 where "m2 = poll_once (junk_before env) (poll_result env) (caught (signals env) m1)"
  have pv: "pollv m2 = pollv m" by (simp add: m2_def m1_def poll_once_keeps(4) poll_fold_pollv caught_pollv)
  have w: "poll_wait env m = m2\<lparr>pollv := map (\<lambda>(i, e). if i < poll_nfds m2 then e\<lparr>revents := poll_revents env i\<rparr> else e)
      (zip [0..<length (pollv m2)] (pollv m2))\<rparr>"
    using assms(1) by (simp add: poll_wait_def m1_def m2_def Let_def)
  have p: "polled m (poll_wait env m)" by (rule poll_wait_polled)
  then obtain sigs k where "daemon m2 = (daemon m)\<lparr>psys := (fold sig_trap sigs (msys m))\<lparr>ticks := k\<rparr>\<rparr>" "nconns m2 = nconns m"
    by (auto simp: polled_def w)
  then have "poll_nfds m2 = poll_nfds m" by (simp add: poll_nfds_def sigs_keep)
  then show ?thesis using assms(2,3) by (simp add: w pv)
qed

lemma polled_matched:
  assumes "main_ok m" and "env_ok env m" and "0 \<le> poll_result env" and "\<not> flag_terminating (msys m)"
  defines "m2 \<equiv> poll_wait env (poll_prepare m)"
  assumes "i < nconns m2"
  shows "matched m2 i"
proof -
  let ?m = "poll_prepare m"
  note pr = poll_prepare_ok [OF assms(1)]
  have p: "polled ?m m2" unfolding m2_def by (rule poll_wait_polled)
  then have eq: "clients m2 = clients ?m" "nconns m2 = nconns ?m" by (auto simp: polled_def)
  have nt: "poll_nfds ?m = nconns ?m + 2" using pr(2) assms(4) by (simp add: poll_nfds_def later_def)
  have len: "2 + i < length (pollv ?m)" using pr(1) assms(6) eq by (auto simp: main_ok_def clients_ok_def)
  have i: "2 + i < poll_nfds ?m" using nt assms(6) eq by simp
  have r: "revents (pollv m2 ! (2 + i)) = poll_revents env (2 + i)"
    unfolding m2_def using assms(3) i len by (rule poll_wait_revents)
  have ev: "events (pollv ?m ! (2 + i)) = poll_events (conn_state (clients ?m ! i))" using pr(5) assms(6) eq by simp
  have "poll_has (poll_revents env (2 + i)) e \<Longrightarrow> poll_has (poll_events (conn_state (clients ?m ! i))) e" if "e = POLLIN \<or> e = POLLOUT" for e
    using assms(2) that ev unfolding env_ok_def by metis
  then show ?thesis using poll_events_has unfolding matched_def r eq(1) by blast
qed

text \<open>A caught SIGCHLD, SIGTERM or SIGINT is not forgotten by the poll.\<close>

lemma sig_trap_mono:
  "flag_chld s \<le> flag_chld (sig_trap sig s)" "\<not> flag_terminating s \<Longrightarrow> flag_term s \<le> flag_term (sig_trap sig s)"
  "0 < flag_chld (sig_trap SIGCHLD s)"
  "\<not> flag_terminating s \<Longrightarrow> sig = SIGTERM \<or> sig = SIGINT \<Longrightarrow> 0 < flag_term (sig_trap sig s)"
  by (auto simp: sig_trap_def selfpipe_ping_def emit_def Let_def signal_defs)

lemma sigs_chld: "0 < flag_chld s \<or> SIGCHLD \<in> set sigs \<Longrightarrow> 0 < flag_chld (fold sig_trap sigs s)"
proof (induction sigs arbitrary: s)
  case (Cons x xs)
  have "0 < flag_chld (sig_trap x s) \<or> SIGCHLD \<in> set xs" using Cons.prems sig_trap_mono(1) [of s x] sig_trap_mono(3) [of s] by force
  then show ?case using Cons.IH by simp
qed simp

lemma sigs_term:
  "\<not> flag_terminating s \<Longrightarrow> 0 < flag_term s \<or> SIGTERM \<in> set sigs \<or> SIGINT \<in> set sigs \<Longrightarrow> 0 < flag_term (fold sig_trap sigs s)"
proof (induction sigs arbitrary: s)
  case (Cons x xs)
  have "0 < flag_term (sig_trap x s) \<or> SIGTERM \<in> set xs \<or> SIGINT \<in> set xs"
    using Cons.prems sig_trap_mono(2) [of s x] sig_trap_mono(4) [of s x] by force
  then show ?case using Cons.IH Cons.prems(1) by (simp add: sig_trap_keeps)
qed simp

text \<open>All signals of a poll are caught, in order.\<close>

lemma poll_once_sys: "\<exists>k. msys (poll_once junk n (caught sigs m)) = (fold sig_trap sigs (msys m))\<lparr>ticks := k\<rparr>"
  using poll_once_keeps(1) [of "caught sigs m" junk n] by (auto simp: caught_def)

lemma poll_fold_sys:
  "\<exists>k. msys (fold (\<lambda>sigs m. poll_once junk (-1) (caught sigs m)) xs m) = (fold sig_trap (concat xs) (msys m))\<lparr>ticks := k\<rparr>"
proof (induction xs arbitrary: m)
  case Nil
  have "msys (fold (\<lambda>sigs m. poll_once junk (-1) (caught sigs m)) [] m) =
      (fold sig_trap (concat []) (msys m))\<lparr>ticks := ticks (msys m)\<rparr>" by simp
  then show ?case by blast
next
  case (Cons x xs)
  obtain k where "msys (poll_once junk (-1) (caught x m)) = (fold sig_trap x (msys m))\<lparr>ticks := k\<rparr>" using poll_once_sys by blast
  then show ?case using Cons.IH [of "poll_once junk (-1) (caught x m)"] by (auto simp: sigs_ticks)
qed

lemma poll_wait_sys:
  "\<exists>k. msys (poll_wait env m) = (fold sig_trap (concat (interrupts env) @ signals env) (msys m))\<lparr>ticks := k\<rparr>"
proof -
  let ?m1 = "fold (\<lambda>sigs m. poll_once (junk_before env) (-1) (caught sigs m)) (interrupts env) m"
  obtain k where k: "msys ?m1 = (fold sig_trap (concat (interrupts env)) (msys m))\<lparr>ticks := k\<rparr>" using poll_fold_sys by blast
  obtain l where "msys (poll_once (junk_before env) (poll_result env) (caught (signals env) ?m1)) = (fold sig_trap (signals env) (msys ?m1))\<lparr>ticks := l\<rparr>"
    using poll_once_sys by blast
  then show ?thesis by (auto simp: poll_wait_def Let_def k sigs_ticks)
qed

lemma poll_wait_chld:
  assumes "SIGCHLD \<in> set (signals env) \<or> SIGCHLD \<in> set (concat (interrupts env))"
  shows "0 < flag_chld (msys (poll_wait env m))"
proof -
  have "SIGCHLD \<in> set (concat (interrupts env) @ signals env)" using assms by (simp only: set_append) blast
  then have "0 < flag_chld (fold sig_trap (concat (interrupts env) @ signals env) (msys m))" by (intro sigs_chld disjI2)
  then show ?thesis using poll_wait_sys [of env m] by (auto simp del: fold_append)
qed

lemma poll_wait_term:
  assumes "\<not> flag_terminating (msys m)" and "s = SIGTERM \<or> s = SIGINT" and "s \<in> set (signals env) \<or> s \<in> set (concat (interrupts env))"
  shows "0 < flag_term (msys (poll_wait env m))"
proof -
  have "s \<in> set (concat (interrupts env) @ signals env)" using assms(3) by (simp only: set_append) blast
  then have "0 < flag_term (fold sig_trap (concat (interrupts env) @ signals env) (msys m))"
    using assms(1,2) by (intro sigs_term) auto
  then show ?thesis using poll_wait_sys [of env m] by (auto simp del: fold_append)
qed

text \<open>The stages up to the failing services, from the state after a poll that returned.\<close>

lemma stages_ok:
  assumes "main_ok m" and "quiet m" and "check_selfpipe m n = (m1, n1)" and "\<forall>d \<in> set (dirents (scans env)). 0 \<notin> set (d_name d)"
  shows "stage_ok [flag_hup, flag_chld, flag_term] m (check_scan env (check_chld env (check_term m1)))"
proof -
  have m1: "main_ok m1" "m1 = m \<or> m1 = on_sys (emit Drain) m" using check_selfpipe_ok [OF assms(3,1)] by simp_all
  have q1: "quiet m1" using m1(2) assms(2) by (auto simp: quiet_def emit_def)
  have "stage_ok [flag_hup, flag_chld, flag_term] m1 (check_scan env (check_chld env (check_term m1)))"
    by (intro check_scan_ok check_chld_ok check_term_ok m1(1) q1 assms(4))
  then show ?thesis using m1(2) by (auto simp: stage_ok_def)
qed

lemma round_ok:
  assumes "main_ok m" and "quiet m" and "awake loop_flags (msys m)" and "env_ok env m"
  shows "case mainloop_round env m of
      Proceed m' \<Rightarrow> main_ok m' \<and> quiet m' \<and> awake loop_flags (msys m')
    | Complete m' \<Rightarrow> m' = m \<and> flag_terminating (msys m) \<and> nservices (daemon m) = 0
    | Die c m' \<Rightarrow> c = 111 \<and> main_ok m' \<and> flag_terminating (msys m') \<and> 0 < flag_failing (msys m')"
proof (cases "flag_terminating (msys m) \<and> nservices (daemon m) = 0")
  case True
  then show ?thesis by (simp add: mainloop_round_def)
next
  case running: False
  define m2 where "m2 = poll_wait env (poll_prepare m)"
  note pr = poll_prepare_ok [OF assms(1)]
  have p: "polled (poll_prepare m) m2" unfolding m2_def by (rule poll_wait_polled)
  note po = polled_ok [OF p pr(1)]
  have q2: "quiet m2" using polled_quiet [OF p prepare_quiet [OF assms(1,2)]] .
  have aw2: "awake loop_flags (msys m2)" using po(4) awake_later [OF assms(3) pr(2)] by simp
  have names: "\<forall>d \<in> set (dirents (scans env)). 0 \<notin> set (d_name d)" using assms(4) by (simp add: env_ok_def)
  show ?thesis
  proof (cases "poll_result env < 0")
    case True
    then have "mainloop_round env m = Proceed m2" using running by (auto simp: mainloop_round_def Let_def m2_def)
    then show ?thesis using po(1) q2 aw2 by simp
  next
    case ready: False
    obtain m3 n3 where s: "check_selfpipe m2 (poll_result env) = (m3, n3)" by force
    define m4 where "m4 = check_scan env (check_chld env (check_term m3))"
    have st: "stage_ok [flag_hup, flag_chld, flag_term] m2 m4" unfolding m4_def using po(1) q2 s names by (rule stages_ok)
    have unf: "mainloop_round env m = (case check_failing m4 of Inl out \<Rightarrow> out
        | Inr m \<Rightarrow> if n3 = 0 then Proceed m
            else (let (m, nready) = serve_clients env m (nconns m) 0 n3
                  in if nready = 0 then Proceed m else Proceed (accept_client env m)))"
      using running ready s by (auto simp: mainloop_round_def Let_def m2_def [symmetric] m4_def)
    note cf = check_failing_ok [OF st]
    show ?thesis
    proof (cases "check_failing m4")
      case (Inl out)
      then show ?thesis
        using cf(2) [OF Inl] st unfolding unf by (auto simp: stage_ok_def)
    next
      case (Inr m5)
      have m5: "main_ok m5" "quiet m5" "awake loop_flags (msys m5)" "pollv m5 = pollv m2" "clients m5 = clients m2"
          "nconns m5 = nconns m2 \<or> nconns m5 = 0" using cf(1) [OF Inr] by (auto simp: stage_ok_def)
      have mt: "\<forall>j. 0 \<le> j \<and> j < nconns m5 \<longrightarrow> matched m5 j"
      proof (intro allI impI)
        fix j assume j: "0 \<le> j \<and> j < nconns m5"
        then have j2: "j < nconns m2" using m5(6) by auto
        then have "\<not> flag_terminating (msys m)" using q2 po(2) pr(2) by (auto simp: quiet_def later_def)
        from polled_matched [OF assms(1,4) _ this] ready j2 have "matched m2 j" by (simp add: m2_def)
        then show "matched m5 j" using m5(4,5) by (simp add: matched_def)
      qed
      obtain m6 k where sv: "serve_clients env m5 (nconns m5) 0 n3 = (m6, k)" by force
      have m6: "main_ok m6" "later (msys m5) (msys m6)" "nconns m6 = nconns m5" "arg_autoscan (daemon m6) = arg_autoscan (daemon m5)"
        using serve_clients_ok [OF sv m5(1) refl mt] by auto
      have q6: "quiet m6" using later_quiet [OF m5(2) m6(2-4)] .
      have a6: "awake loop_flags (msys m6)" using awake_later [OF m5(3) m6(2)] by simp
      note ac = accept_client_ok [OF m6(1), of env]
      have a7: "awake loop_flags (msys (accept_client env m6))" using awake_later [OF a6 ac(2)] by simp
      show ?thesis using m5(1-3) m6(1) q6 a6 ac(1) ac(3) [OF q6] a7 unfolding unf Inr by (simp add: sv)
    qed
  qed
qed

text \<open>The states at the head of the loop in a run of the daemon.\<close>

inductive mainloop_reach :: "mainloop \<Rightarrow> mainloop \<Rightarrow> bool" for m0 where
  start: "mainloop_reach m0 m0"
| round: "mainloop_reach m0 m \<Longrightarrow> env_ok env m \<Longrightarrow> mainloop_round env m = Proceed m' \<Longrightarrow> mainloop_reach m0 m'"

lemma reach_ok:
  "mainloop_reach m0 m \<Longrightarrow> main_ok m0 \<Longrightarrow> quiet m0 \<Longrightarrow> awake loop_flags (msys m0) \<Longrightarrow>
   main_ok m \<and> quiet m \<and> awake loop_flags (msys m)"
proof (induction rule: mainloop_reach.induct)
  case (round m env m')
  then show ?case using round_ok [of m env] by simp
qed simp

definition startup :: "int \<Rightarrow> perpd_conn list \<Rightarrow> pollfd list \<Rightarrow> perpd \<Rightarrow> bool" where
  "startup selfpipe cs pv p \<longleftrightarrow> perpd_ok p \<and> \<not> flag_terminating (psys p) \<and> length cs = PERPD_CONNMAX \<and>
     (\<forall>c \<in> set cs. length (conn_pkt c) = PKT_SIZE) \<and> length pv = PERPD_CONNMAX + 2"

lemma mainloop_init_ok:
  assumes "startup selfpipe cs pv p"
  shows "main_ok (mainloop_init selfpipe cs pv p) \<and> quiet (mainloop_init selfpipe cs pv p) \<and>
    awake loop_flags (msys (mainloop_init selfpipe cs pv p))"
proof -
  let ?s = "perpd_trigger_scan (psys p)"
  have "unread ?s" "\<not> flag_terminating ?s"
    using assms by (simp_all add: startup_def perpd_trigger_scan_def selfpipe_ping_def unread_def) (simp add: emit_def)
  then show ?thesis
    using assms perpd_trigger_ok [OF _ later_trigger(2)]
    by (simp add: startup_def mainloop_init_def main_ok_def clients_ok_def quiet_def awake_def Let_def perpd_conn_reset_def)
qed

section \<open>Properties\<close>

text \<open>C1: the daemon's invariant.  In every run of the main loop, whatever signals arrive, children end, directories are found and clients send,
  the table of services and each service in it are well-formed, there are at most PERPD_CONNMAX clients, each in a proper state, and once
  termination has begun there are no clients and no scans.  The only ways out of the loop are the completed termination with no
  service left, and the exit with code 111 while terminating with a failed fork.\<close>

theorem mainloop_invariant:
  assumes "startup selfpipe cs pv p" and "mainloop_reach (mainloop_init selfpipe cs pv p) m" and "env_ok env m"
  shows "perpd_ok (daemon m) \<and> nconns m \<le> PERPD_CONNMAX \<and> (\<forall>c \<in> set (take (nconns m) (clients m)). conn_ok c) \<and>
    (flag_terminating (msys m) \<longrightarrow> nconns m = 0 \<and> arg_autoscan (daemon m) = 0 \<and> flag_hup (msys m) = 0) \<and>
    (case mainloop_round env m of
       Proceed m' \<Rightarrow> main_ok m'
     | Complete m' \<Rightarrow> m' = m \<and> flag_terminating (msys m) \<and> nservices (daemon m) = 0
     | Die c m' \<Rightarrow> c = 111 \<and> flag_terminating (msys m') \<and> 0 < flag_failing (msys m'))"
proof -
  have m: "main_ok m" "quiet m" "awake loop_flags (msys m)"
    using reach_ok [OF assms(2)] mainloop_init_ok [OF assms(1)] by blast+
  show ?thesis
    using round_ok [OF m assms(3)] m(1,2) by (auto simp: main_ok_def clients_ok_def quiet_def split: outcome.splits)
qed

definition pollfd0 :: pollfd where "pollfd0 = \<lparr>pfd = 0, events = 0, revents = 0\<rparr>"

definition env0 :: round_env where
  "env0 = \<lparr>interrupts = [], signals = [], poll_result = 0, poll_revents = (\<lambda>_. 0), junk_before = Tain 0 0, waits = [],
     scans = \<lparr>opendir_ok = False, dirents = [], readdir_errno = 0\<rparr>, reads = (\<lambda>_. []), writes = (\<lambda>_. []), accepted = -1,
     nonblock_ok = True\<rparr>"

lemma env0_ok: "env_ok env0 m"
  by (simp add: env_ok_def env0_def poll_has_def)

lemma startup0: "startup 3 (replicate PERPD_CONNMAX client0) (replicate (PERPD_CONNMAX + 2) pollfd0) (one_service subsv_zero (sys0 (\<lambda>i. 8)))"
proof -
  have "perpd_ok (one_service subsv_zero (sys0 (\<lambda>i. 8)))" by (rule one_service_ok) (auto intro: sys0_ok)
  then show ?thesis by (simp add: startup_def one_service_simps client0_def) (simp add: sys0_def)
qed

theorem mainloop_invariant_witness:
  "perpd_ok (daemon (mainloop_init 3 (replicate PERPD_CONNMAX client0) (replicate (PERPD_CONNMAX + 2) pollfd0)
     (one_service subsv_zero (sys0 (\<lambda>i. 8)))))"
  using mainloop_invariant [OF startup0 mainloop_reach.start env0_ok] by blast

text \<open>C2: no wakeup is lost.  Whenever the main loop is about to call \<open>poll()\<close> and a reason to act is pending (a signal that was caught, a scan
  or a failed fork that was triggered from within), an unread byte lies in the self-pipe, so that the poll returns at once; the pipe is
  emptied before the flags are looked at, never after.\<close>

theorem no_lost_wakeup:
  assumes "startup selfpipe cs pv p" and "mainloop_reach (mainloop_init selfpipe cs pv p) m"
    and "0 < flag_chld (msys m) \<or> 0 < flag_hup (msys m) \<or> 0 < flag_term (msys m) \<or> 0 < flag_failing (msys m)"
  shows "unread (msys (poll_prepare m))"
proof -
  have m: "main_ok m" "awake loop_flags (msys m)" using reach_ok [OF assms(2)] mainloop_init_ok [OF assms(1)] by blast+
  have l: "later (msys m) (msys (poll_prepare m))" using poll_prepare_ok(2) [OF m(1)] .
  have "unread (msys m)" using m(2) assms(3) by (auto simp: awake_def)
  then show ?thesis using l unread_append by (fastforce simp: later_def)
qed

theorem no_lost_wakeup_witness:
  "unread (msys (poll_prepare (mainloop_init 3 (replicate PERPD_CONNMAX client0) (replicate (PERPD_CONNMAX + 2) pollfd0)
     (one_service subsv_zero (sys0 (\<lambda>i. 8))))))"
proof -
  let ?m = "mainloop_init 3 (replicate PERPD_CONNMAX client0) (replicate (PERPD_CONNMAX + 2) pollfd0) (one_service subsv_zero (sys0 (\<lambda>i. 8)))"
  have "0 < flag_hup (msys ?m)"
    by (simp add: mainloop_init_def one_service_simps Let_def perpd_trigger_scan_def selfpipe_ping_def emit_def sys0_def)
  then show ?thesis using no_lost_wakeup [OF startup0 mainloop_reach.start] by blast
qed

text \<open>The rounds of a terminating daemon only reap children.\<close>

lemma table_sys [simp]: "active (p\<lparr>psys := s\<rparr>) = active p" "shutting (p\<lparr>psys := s\<rparr>) = shutting p" "total (p\<lparr>psys := s\<rparr>) = total p"
  by (simp_all add: active_def shutting_def total_def)

lemma quiet_term: "quiet m \<Longrightarrow> flag_terminating (msys m) \<Longrightarrow> check_term m = m"
  by (simp add: check_term_def quiet_def)

lemma forks_ok_eq: "forks_ok s \<Longrightarrow> os_fork s' = os_fork s \<Longrightarrow> os_time s' = os_time s \<Longrightarrow> forks_ok s'"
  using os_ok_eq by (auto simp: forks_ok_def)

lemma reaping:
  fixes env :: round_env
  assumes "main_ok m" and "quiet m" and "flag_terminating (msys m)" and "flag_failing (msys m) = 0"
  defines "m' \<equiv> check_chld env m"
  shows "main_ok m'" and "quiet m'" and "flag_terminating (msys m')" and "flag_failing (msys m') = 0"
    and "check_scan env m' = m'" and "check_failing m' = Inr m'" and "nconns m' = 0" and "accept_client env m' = m'"
proof -
  have st: "stage_ok [flag_chld, flag_term] m m'"
    using check_chld_ok [OF check_term_ok [OF assms(1,2)]] assms(2,3) by (simp add: m'_def check_term_def quiet_def)
  then show m': "main_ok m'" "quiet m'" by (simp_all add: stage_ok_def)
  have "perpd_ok ((daemon m)\<lparr>psys := (msys m)\<lparr>flag_chld := 0\<rparr>\<rparr>)"
    using assms(1) perpd_ok_sys [of "daemon m" "(msys m)\<lparr>flag_chld := 0\<rparr>"] main_ok_os [OF assms(1)] by (simp add: main_ok_def os_ok_def)
  from perpd_waitup_later [OF this, of "waits env"] show f: "flag_terminating (msys m')" "flag_failing (msys m') = 0"
    using assms(3,4) by (auto simp: m'_def check_chld_def Let_def on_sys_def later_def)
  show "check_scan env m' = m'" "check_failing m' = Inr m'" "nconns m' = 0" "accept_client env m' = m'"
    using m'(2) f by (simp_all add: check_scan_def check_failing_def quiet_def accept_client_def domsock_accept_def)
qed

lemma reaping_shutting:
  fixes env :: round_env
  assumes "main_ok m" and "forks_ok (msys m)" and "shutting (daemon m)"
  defines "m' \<equiv> check_chld env m"
  shows "forks_ok (msys m')" and "shutting (daemon m')" and "total (daemon m') \<le> total (daemon m)"
    and "0 < flag_chld (msys m) \<Longrightarrow> waits env \<noteq> [] \<Longrightarrow> 0 < fst (hd (waits env)) \<Longrightarrow>
      find_child (svdefs (daemon m)) (nservices (daemon m)) (fst (hd (waits env))) 0 \<noteq> None \<Longrightarrow> total (daemon m') < total (daemon m)"
proof -
  let ?p = "(daemon m)\<lparr>psys := (msys m)\<lparr>flag_chld := 0\<rparr>\<rparr>"
  have fk: "forks_ok (psys ?p)" using forks_ok_eq [OF assms(2)] by simp
  have pok: "perpd_ok ?p" using assms(1) perpd_ok_sys fk by (simp add: main_ok_def forks_ok_def)
  have sh: "shutting ?p" using assms(3) by simp
  note w = waitup_shutting [OF pok fk sh] and l = perpd_waitup_later [OF pok, of "waits env"]
  have d: "daemon m' = (if 0 < flag_chld (msys m) then perpd_waitup (waits env) ?p else daemon m)"
    by (simp add: m'_def check_chld_def Let_def on_sys_def)
  show "forks_ok (msys m')" "shutting (daemon m')" "total (daemon m') \<le> total (daemon m)"
    using later_forks_ok [OF l fk] w(1,2) assms(2,3) by (simp_all add: d)
  show "total (daemon m') < total (daemon m)"
    if h: "0 < flag_chld (msys m)" "waits env \<noteq> []" "0 < fst (hd (waits env))"
      "find_child (svdefs (daemon m)) (nservices (daemon m)) (fst (hd (waits env))) 0 \<noteq> None"
  proof -
    obtain q st r where e: "waits env = (q, st) # r" using h(2) by (cases "waits env") auto
    have "find_child (svdefs ?p) (nservices ?p) q 0 \<noteq> None" using h(4) e by simp
    from w(3) [OF e _ this] show ?thesis using h(1,3) e by (simp add: d)
  qed
qed

lemma round_terminating:
  assumes "main_ok m" and "quiet m" and "flag_terminating (msys m)" and "flag_failing (msys m) = 0" and "0 \<le> poll_result env"
    and "0 < nservices (daemon m)"
  obtains m3 where "mainloop_round env m = Proceed (check_chld env m3)" and "main_ok m3" and "quiet m3"
    and "daemon m3 = (daemon m)\<lparr>psys := msys m3\<rparr>" and "flag_terminating (msys m3)" and "flag_failing (msys m3) = 0"
    and "os_fork (msys m3) = os_fork (msys m)" and "forks (msys m3) = forks (msys m)"
    and "0 < flag_chld (msys m3) \<or> (SIGCHLD \<notin> set (signals env) \<and> SIGCHLD \<notin> set (concat (interrupts env)))"
proof -
  define m1 where "m1 = poll_prepare m"
  define m2 where "m2 = poll_wait env m1"
  note pr = poll_prepare_ok [OF assms(1), folded m1_def]
  have p: "polled m1 m2" unfolding m2_def by (rule poll_wait_polled)
  note po = polled_ok [OF p pr(1)]
  have q2: "quiet m2" using polled_quiet [OF p] prepare_quiet [OF assms(1,2)] by (simp add: m1_def)
  obtain m3 n where s: "check_selfpipe m2 (poll_result env) = (m3, n)" by force
  have m3: "main_ok m3" "m3 = m2 \<or> m3 = on_sys (emit Drain) m2" using check_selfpipe_ok [OF s po(1)] by simp_all
  have same: "flag_terminating (msys m3) = flag_terminating (msys m2)" "flag_failing (msys m3) = flag_failing (msys m2)"
      "flag_hup (msys m3) = flag_hup (msys m2)" "flag_term (msys m3) = flag_term (msys m2)" "flag_chld (msys m3) = flag_chld (msys m2)"
      "os_fork (msys m3) = os_fork (msys m2)" "nconns m3 = nconns m2" "arg_autoscan (daemon m3) = arg_autoscan (daemon m2)"
      "daemon m3 = (daemon m2)\<lparr>psys := msys m3\<rparr>"
    using m3(2) by (auto simp: emit_def)
  have t3: "flag_terminating (msys m3)" "flag_failing (msys m3) = 0" "os_fork (msys m3) = os_fork (msys m)"
    using same po(2,3) pr(2) p assms(3,4) by (auto simp: later_def polled_def sigs_keep)
  have k3: "forks (msys m3) = forks (msys m)"
    using m3(2) p poll_prepare_failing(2) [of m] by (auto simp: polled_def sigs_keep emit_def m1_def)
  have q3: "quiet m3" using q2 same by (simp add: quiet_def)
  have d3: "daemon m3 = (daemon m)\<lparr>psys := msys m3\<rparr>"
  proof -
    have "daemon m2 = (daemon m1)\<lparr>psys := msys m2\<rparr>" using p by (auto simp: polled_def)
    then have "daemon m3 = (daemon m1)\<lparr>psys := msys m3\<rparr>" using same(9) by (metis perpd.fold_congs(1) perpd.surjective perpd.update_convs(1))
    then show ?thesis using pr(3) by (metis perpd.surjective perpd.update_convs(1))
  qed
  note rp = reaping [OF m3(1) q3 t3(1,2), of env]
  have "mainloop_round env m = Proceed (check_chld env m3)"
    using assms(5,6) s rp(5-8) quiet_term [OF q3 t3(1)]
    by (auto simp: mainloop_round_def Let_def m1_def [symmetric] m2_def [symmetric] serve_clients.simps)
  moreover have "0 < flag_chld (msys m3) \<or> (SIGCHLD \<notin> set (signals env) \<and> SIGCHLD \<notin> set (concat (interrupts env)))"
    using poll_wait_chld [of env m1] unfolding same(5) m2_def by blast
  ultimately show ?thesis using that m3(1) q3 d3 t3 k3 by blast
qed

text \<open>C4: an orderly shutdown.  In a terminating daemon whose services are all on their way out, with fork succeeding, no round aborts: if no
  service is left, the loop ends; otherwise it goes on in the same condition, and each round that learns of the death of a child of a
  service leaves strictly less to wait for, so that after at most \<open>total\<close> such rounds the loop ends.  As long as a service is left there is
  such a child.\<close>

theorem shutdown_rounds:
  assumes "main_ok m" and "quiet m" and "flag_terminating (msys m)" and "flag_failing (msys m) = 0" and "forks_ok (msys m)"
    and "shutting (daemon m)" and "0 \<le> poll_result env"
  shows "if nservices (daemon m) = 0 then mainloop_round env m = Complete m
    else (\<exists>q > 0. find_child (svdefs (daemon m)) (nservices (daemon m)) q 0 \<noteq> None) \<and>
      (\<exists>m'. mainloop_round env m = Proceed m' \<and> main_ok m' \<and> quiet m' \<and> flag_terminating (msys m') \<and> flag_failing (msys m') = 0 \<and>
        forks_ok (msys m') \<and> shutting (daemon m') \<and> total (daemon m') \<le> total (daemon m) \<and>
        (SIGCHLD \<in> set (signals env) \<longrightarrow> waits env \<noteq> [] \<longrightarrow> 0 < fst (hd (waits env)) \<longrightarrow>
           find_child (svdefs (daemon m)) (nservices (daemon m)) (fst (hd (waits env))) 0 \<noteq> None \<longrightarrow> total (daemon m') < total (daemon m)))"
proof (cases "nservices (daemon m) = 0")
  case True
  then show ?thesis using assms(3) by (simp add: mainloop_round_def)
next
  case False
  obtain m3 where r: "mainloop_round env m = Proceed (check_chld env m3)" and m3: "main_ok m3" "quiet m3"
      "daemon m3 = (daemon m)\<lparr>psys := msys m3\<rparr>" "flag_terminating (msys m3)" "flag_failing (msys m3) = 0"
      "os_fork (msys m3) = os_fork (msys m)" and c: "0 < flag_chld (msys m3) \<or> SIGCHLD \<notin> set (signals env)"
    using round_terminating [OF assms(1-4,7)] False by (metis gr0I)
  let ?m = "check_chld env m3"
  have same: "active (daemon m3) = active (daemon m)" "svdefs (daemon m3) = svdefs (daemon m)" "nservices (daemon m3) = nservices (daemon m)"
    by (subst m3(3); simp)+
  have fk: "forks_ok (msys m3)" using assms(5) m3(6) main_ok_os [OF m3(1)] by (simp add: forks_ok_def)
  have sh: "shutting (daemon m3)" "total (daemon m3) = total (daemon m)" using assms(6) same by (simp_all add: shutting_def total_def)
  note rp = reaping [OF m3(1,2,4,5), of env] and rs = reaping_shutting [OF m3(1) fk sh(1), of env, unfolded same(2,3) sh(2)]
  have "\<exists>q > 0. find_child (svdefs (daemon m)) (nservices (daemon m)) q 0 \<noteq> None"
    using shutting_work [of "daemon m"] assms(1,6) False by (auto simp: main_ok_def)
  moreover have "total (daemon ?m) < total (daemon m)"
    if "SIGCHLD \<in> set (signals env)" "waits env \<noteq> []" "0 < fst (hd (waits env))"
      "find_child (svdefs (daemon m)) (nservices (daemon m)) (fst (hd (waits env))) 0 \<noteq> None"
    using that c by (intro rs(4)) auto
  ultimately show ?thesis using False r rp(1-4) rs(1-3) by auto
qed

lemma terminating_begun:
  assumes "main_ok m" and "0 < flag_term (msys m)" and "flag_failing (msys m) = 0" and "forks_ok (msys m)"
  defines "m' \<equiv> check_term m"
  shows "main_ok m'" and "quiet m'" and "flag_terminating (msys m')" and "flag_failing (msys m') = 0" and "forks_ok (msys m')"
    and "shutting (daemon m')"
proof -
  note b = begin_termination_ok [OF assms(1)]
  have m': "m' = begin_termination m" using assms(2) by (simp add: m'_def check_term_def)
  show "main_ok m'" "shutting (daemon m')" using b(1,5) m' by simp_all
  show f: "flag_terminating (msys m')" "flag_failing (msys m') = 0" using b(2) assms(3) by (simp_all add: m' later_def)
  have "forks_ok ((msys m)\<lparr>flag_terminating := True, flag_term := 0, flag_hup := 0\<rparr>)" using forks_ok_eq [OF assms(4)] by simp
  then show "forks_ok (msys m')" using later_forks_ok [OF b(2)] m' by simp
  show "quiet m'" using b(2-4) by (simp add: m' quiet_def later_def)
qed

text \<open>Actions between two states, and the sockets of the daemon: the listening one and those of its clients.\<close>

definition did :: "sys \<Rightarrow> sysact set \<Rightarrow> sys \<Rightarrow> bool" where
  "did s A s' \<longleftrightarrow> (\<exists>acts. trace s' = trace s @ acts \<and> A \<subseteq> set acts)"

definition sockets :: "mainloop \<Rightarrow> int set" where
  "sockets m = insert (fd_listen (daemon m)) {connfd c |c. c \<in> set (take (nconns m) (clients m)) \<and> connfd c \<noteq> -1}"

lemma did_trans: "did s A t \<Longrightarrow> did t B u \<Longrightarrow> did s (A \<union> B) u"
  by (auto simp: did_def)

lemma did_trans1: "did s A t \<Longrightarrow> did t {} u \<Longrightarrow> did s A u"
  using did_trans [of s A t "{}" u] by simp

lemma did_trans2: "did s {} t \<Longrightarrow> did t B u \<Longrightarrow> did s B u"
  using did_trans [of s "{}" t B u] by simp

lemma did_all:
  assumes "A \<noteq> {}" and "\<And>a. a \<in> A \<Longrightarrow> did s {a} s'"
  shows "did s A s'"
proof -
  obtain acts where "trace s' = trace s @ acts" using assms by (auto simp: did_def)
  then show ?thesis using assms(2) by (auto simp: did_def)
qed

lemma later_did: "later s s' \<Longrightarrow> did s {} s'"
  using later_trace by (auto simp: did_def)

lemma polled_did:
  assumes "polled m m'"
  shows "did (msys m) {} (msys m')" and "fd_listen (daemon m') = fd_listen (daemon m)"
proof -
  obtain sigs k where p: "daemon m' = (daemon m)\<lparr>psys := (fold sig_trap sigs (msys m))\<lparr>ticks := k\<rparr>\<rparr>" using assms by (auto simp: polled_def)
  then show "fd_listen (daemon m') = fd_listen (daemon m)" by simp
  have "did s {} (fold sig_trap sigs s)" for s
  proof (induction sigs arbitrary: s)
    case (Cons x xs)
    have "did s {} (sig_trap x s)" by (auto simp: did_def sig_trap_def selfpipe_ping_def Let_def)
    then show ?case using did_trans1 Cons.IH by simp
  qed (simp add: did_def)
  then show "did (msys m) {} (msys m')" by (simp add: p did_def)
qed

lemma close_clients_trace: "trace (close_clients cs s) = trace s @ map (\<lambda>c. Close (connfd c)) cs"
  by (induction cs arbitrary: s) simp_all

lemma begin_termination_closes:
  assumes "main_ok m"
  shows "did (msys m) (Close ` sockets m) (msys (begin_termination m))"
proof -
  define s0 where "s0 = (msys m)\<lparr>flag_terminating := True, flag_term := 0, flag_hup := 0\<rparr>"
  define s1 where "s1 = close_clients (take (nconns m) (clients m)) (emit (Close (fd_listen (daemon m))) s0)"
  obtain s2 g svs where f: "for_first cull_step (nservices (daemon m)) (s1, 0) (svdefs (daemon m)) = ((s2, g), svs)"
    by (metis prod.exhaust)
  let ?q = "(daemon m)\<lparr>arg_autoscan := 0, psys := s2, svdefs := svs\<rparr>"
  have eq: "daemon (begin_termination m) = (if g > 0 then perpd_cull ?q else ?q)"
    using f by (simp add: begin_termination_def on_sys_def s1_def s0_def Let_def)
  have pok: "perpd_ok (daemon m)" using assms(1) by (simp add: main_ok_def)
  have "later s0 s1" unfolding s1_def by (rule later_trans [OF later_emit close_clients_later]) simp
  then have "os_ok s1" using later_os_ok main_ok_os [OF assms(1)] by (simp add: s0_def os_ok_def)
  then have ok: "os_ok (fst (s1, 0 :: nat))" "\<forall>sd \<in> set (take (nservices (daemon m)) (svdefs (daemon m))). svdef_ok sd"
    using pok by (auto simp: perpd_ok_def active_def)
  note k = wantcull.for_first_keeps [OF ok f]
  have n: "nservices ?q \<le> length (svdefs ?q)" using pok k by (simp add: perpd_ok_def)
  have "did s1 {} s2" using k by (intro later_did) (simp add: later_count_def)
  moreover have "did s2 {} (msys (begin_termination m))" unfolding eq using later_did [OF perpd_cull_spec(4) [OF n]] by (simp add: did_def)
  moreover have "did (msys m) (Close ` sockets m) s1" by (auto simp: did_def s1_def s0_def close_clients_trace sockets_def)
  ultimately show ?thesis using did_trans1 by blast
qed

text \<open>A client that is gone after the check for stale connections was closed there.\<close>

lemma poll_prepare_closes:
  assumes "main_ok m" and "fd \<in> sockets m"
  shows "did (msys m) {Close fd} (msys (poll_prepare m)) \<or> fd \<in> sockets (poll_prepare m)"
proof (cases "fd = fd_listen (daemon m)")
  case True
  then show ?thesis using arg_cong [OF poll_prepare_ok(3) [OF assms(1)], of fd_listen] by (simp add: sockets_def)
next
  case False
  obtain s t where nw: "now (msys m) = (s, t)" by force
  obtain s2 cs where st: "for_first (stale_step t) (nconns m) s (clients m) = (s2, cs)" by force
  obtain cs2 n where cu: "cull_clients cs (nconns m) 0 = (cs2, n)" by force
  have eq: "clients (poll_prepare m) = cs2" "nconns (poll_prepare m) = n" "msys (poll_prepare m) = s2"
    by (simp_all add: poll_prepare_def nw st cu Let_def)
  have c: "length (clients m) = PERPD_CONNMAX" "nconns m \<le> PERPD_CONNMAX" "\<forall>c \<in> set (take (nconns m) (clients m)). conn_ok c"
    using assms(1) by (auto simp: main_ok_def clients_ok_def)
  have l1: "later (msys m) s" using later_now [of "msys m"] nw by simp
  have os: "os_ok s" using later_os_ok [OF l1] main_ok_os [OF assms(1)] by simp
  note k = stale.for_first_keeps [OF os c(3) st]
  have n: "nconns m \<le> length cs" using c(1,2) k by simp
  note q = cull_clients_spec [OF cu n]
  have tk: "set (take n cs2) = {c \<in> set (take (nconns m) cs). connfd c \<noteq> -1}"
    using arg_cong [of _ _ set_mset, OF conjunct1 [OF q]] by simp
  obtain i where i: "i < nconns m" "connfd (clients m ! i) = fd" "fd \<noteq> -1" using assms(2) False by (auto simp: sockets_def in_set_conv_nth)
  then obtain a b where ab: "later s a" "later b s2" "stale_step t a (clients m ! i) = (b, cs ! i)"
    using stale.for_first_nth [OF os c(3) st i(1)] c(1,2) by auto
  consider "did a {Close fd} b" | "cs ! i = clients m ! i"
    using ab(3) i(2,3) by (auto simp: stale_step_def perpd_conn_checkstale_def perpd_conn_close_def did_def split: if_splits)
  then show ?thesis
  proof cases
    case 1
    then show ?thesis using did_trans2 [OF later_did [OF later_trans [OF l1 ab(1)]]] did_trans1 [OF _ later_did [OF ab(2)]] eq(3) by simp
  next
    case 2
    have "cs ! i \<in> set (take (nconns m) cs)" using i(1) n by (auto simp: in_set_conv_nth)
    then have "cs ! i \<in> set (take n cs2)" using tk 2 i by simp
    then show ?thesis using eq 2 i by (auto simp: sockets_def)
  qed
qed

lemma check_chld_did:
  fixes env :: round_env
  assumes "main_ok m"
  shows "did (msys m) {} (msys (check_chld env m))"
proof -
  have "perpd_ok ((daemon m)\<lparr>psys := (msys m)\<lparr>flag_chld := 0\<rparr>\<rparr>)"
    using assms perpd_ok_sys [of "daemon m" "(msys m)\<lparr>flag_chld := 0\<rparr>"] main_ok_os [OF assms] by (simp add: main_ok_def os_ok_def)
  from later_did [OF perpd_waitup_later [OF this, of "waits env"]] show ?thesis by (simp add: did_def check_chld_def Let_def on_sys_def)
qed

lemma round_obeys:
  assumes "main_ok m" and "quiet m" and "\<not> flag_terminating (msys m)" and "flag_failing (msys m) = 0" and "forks_ok (msys m)"
    and "0 \<le> poll_result env" and "sig = SIGTERM \<or> sig = SIGINT" and "sig \<in> set (signals env)"
  shows "\<exists>m'. mainloop_round env m = Proceed m' \<and> main_ok m' \<and> quiet m' \<and> flag_terminating (msys m') \<and> flag_failing (msys m') = 0 \<and>
    nconns m' = 0 \<and> forks_ok (msys m') \<and> shutting (daemon m') \<and> (\<exists>acts. trace (msys m') = trace (msys m) @ acts \<and> Close ` sockets m \<subseteq> set acts)"
proof -
  define m1 where "m1 = poll_prepare m"
  define m2 where "m2 = poll_wait env m1"
  note pr = poll_prepare_ok [OF assms(1), folded m1_def]
  have p: "polled m1 m2" unfolding m2_def by (rule poll_wait_polled)
  note po = polled_ok [OF p pr(1)]
  have nt: "\<not> flag_terminating (msys m1)" using assms(3) pr(2) by (simp add: later_def)
  have tm: "0 < flag_term (msys m2)" unfolding m2_def by (rule poll_wait_term [OF nt assms(7)]) (use assms(8) in simp)
  obtain m3 n where s: "check_selfpipe m2 (poll_result env) = (m3, n)" by force
  have m3: "main_ok m3" "m3 = m2 \<or> m3 = on_sys (emit Drain) m2" using check_selfpipe_ok [OF s po(1)] by simp_all
  have same: "flag_failing (msys m3) = flag_failing (msys m2)" "flag_term (msys m3) = flag_term (msys m2)" "os_fork (msys m3) = os_fork (msys m2)"
    using m3(2) by (auto simp: emit_def)
  have f3: "0 < flag_term (msys m3)" using tm same(2) by simp
  have ff: "os_fork (msys m2) = os_fork (msys m)" using p pr(2) by (auto simp: polled_def sigs_keep later_def)
  have "flag_failing (msys m1) = 0" using poll_prepare_failing(1) [of m] assms(4) by (simp add: m1_def)
  then have ff3: "flag_failing (msys m3) = 0" using po(3) same(1) by simp
  have fk3: "forks_ok (msys m3)" using assms(5) same(3) ff main_ok_os [OF m3(1)] by (simp add: forks_ok_def)
  note tb = terminating_begun [OF m3(1) f3 ff3 fk3]
  let ?m = "check_chld env (check_term m3)"
  note rp = reaping [OF tb(1-4), of env] and rs = reaping_shutting [OF tb(1,5,6), of env]
  have "mainloop_round env m = Proceed ?m"
    using assms(3,6) s rp(5-8) by (auto simp: mainloop_round_def Let_def m1_def [symmetric] m2_def [symmetric] serve_clients.simps)
  moreover have "did (msys m) {Close fd} (msys ?m)" if fd: "fd \<in> sockets m" for fd
  proof -
    have d1: "did (msys m) {} (msys m1)" using later_did [OF pr(2)] .
    have d3: "did (msys m1) {} (msys m3)" using polled_did(1) [OF p] did_trans1 m3(2) by (auto simp: did_def)
    have so: "sockets m3 = sockets m1" using m3(2) p polled_did(2) [OF p] by (auto simp: sockets_def polled_def)
    have t: "did (msys m3) (Close ` sockets m3) (msys (check_term m3))" using begin_termination_closes [OF m3(1)] f3 by (simp add: check_term_def)
    have c: "did (msys (check_term m3)) {} (msys ?m)" using check_chld_did [OF tb(1)] .
    from poll_prepare_closes [OF assms(1) fd, folded m1_def] show ?thesis
    proof
      assume "did (msys m) {Close fd} (msys m1)"
      moreover have "did (msys m3) {} (msys (check_term m3))" using t by (auto simp: did_def)
      ultimately show ?thesis using d3 c did_trans1 by blast
    next
      assume "fd \<in> sockets m1"
      then have "did (msys m3) {Close fd} (msys (check_term m3))" using t so by (auto simp: did_def)
      then show ?thesis using d1 d3 c did_trans1 did_trans2 by blast
    qed
  qed
  then have closed: "did (msys m) {a} (msys ?m)" if "a \<in> Close ` sockets m" for a using that by blast
  have "Close ` sockets m \<noteq> {}" by (simp add: sockets_def)
  from did_all [OF this closed] have "\<exists>acts. trace (msys ?m) = trace (msys m) @ acts \<and> Close ` sockets m \<subseteq> set acts" unfolding did_def .
  ultimately show ?thesis using rp rs by blast
qed

text \<open>C3: SIGTERM and SIGINT are obeyed.  When one of them arrives during a poll of a running daemon, then among the system calls of that same round are
  a \<open>close()\<close> of the listening socket and one of the socket of every client it has, and every service that is not already down is put into its cull; the round goes
  on without abort, and leaves the daemon terminating, with no clients, with all services on their way out.\<close>

theorem term_signal_obeyed:
  assumes "main_ok m" and "quiet m" and "\<not> flag_terminating (msys m)" and "flag_failing (msys m) = 0" and "forks_ok (msys m)"
    and "0 \<le> poll_result env" and "sig = SIGTERM \<or> sig = SIGINT" and "sig \<in> set (signals env)"
  shows "\<exists>m'. mainloop_round env m = Proceed m' \<and> main_ok m' \<and> quiet m' \<and> flag_terminating (msys m') \<and> flag_failing (msys m') = 0 \<and>
    nconns m' = 0 \<and> forks_ok (msys m') \<and> shutting (daemon m') \<and> (\<exists>acts. trace (msys m') = trace (msys m) @ acts \<and> Close ` sockets m \<subseteq> set acts)"
  using assms by (rule round_obeys)

definition running_one :: mainloop where
  "running_one = (mainloop_init 3 (replicate PERPD_CONNMAX client0) (replicate (PERPD_CONNMAX + 2) pollfd0)
     (one_service (subsv_zero\<lparr>pid := 7\<rparr>) (sys0 (\<lambda>i. 8))))"

lemma running_one_ok: "main_ok running_one" "quiet running_one" "\<not> flag_terminating (msys running_one)"
    "flag_failing (msys running_one) = 0" "forks_ok (msys running_one)"
proof -
  let ?p = "one_service (subsv_zero\<lparr>pid := 7\<rparr>) (sys0 (\<lambda>i. 8))"
  have os: "os_ok (sys0 (\<lambda>i. 8))" by (auto intro: sys0_ok)
  have "subsv_ok (subsv_zero\<lparr>pid := 7\<rparr>)" by (simp add: subsv_ok_def subsv_zero_def flag_simps)
  then have "perpd_ok ?p" using one_service_ok os by blast
  then have "startup 3 (replicate PERPD_CONNMAX client0) (replicate (PERPD_CONNMAX + 2) pollfd0) ?p"
    by (simp add: startup_def one_service_simps client0_def) (simp add: sys0_def)
  then show "main_ok running_one" "quiet running_one" using mainloop_init_ok by (simp_all add: running_one_def)
  have s: "msys running_one = perpd_trigger_scan (sys0 (\<lambda>i. 8))" by (simp add: running_one_def mainloop_init_def Let_def one_service_simps)
  show "\<not> flag_terminating (msys running_one)" "flag_failing (msys running_one) = 0"
    unfolding s by (simp_all add: perpd_trigger_scan_def selfpipe_ping_def emit_def sys0_def)
  have "forks_ok (sys0 (\<lambda>i. 8))" using os by (simp add: forks_ok_def) (simp add: sys0_def)
  then show "forks_ok (msys running_one)" unfolding s by (rule forks_ok_eq) (simp_all add: perpd_trigger_scan_def selfpipe_ping_def emit_def)
qed

theorem term_signal_obeyed_witness:
  "\<exists>m'. mainloop_round (env0\<lparr>signals := [SIGTERM]\<rparr>) running_one = Proceed m' \<and> flag_terminating (msys m') \<and> shutting (daemon m') \<and>
     Close (fd_listen (daemon running_one)) \<in> set (trace (msys m'))"
  using term_signal_obeyed [OF running_one_ok, of "env0\<lparr>signals := [SIGTERM]\<rparr>" SIGTERM] by (simp add: env0_def) (auto simp: sockets_def)

theorem shutdown_rounds_witness:
  "\<exists>m m'. mainloop_round (env0\<lparr>signals := [SIGTERM]\<rparr>) running_one = Proceed m \<and> 
     (mainloop_round env0 m = Complete m \<or> mainloop_round env0 m = Proceed m' \<and> total (daemon m') \<le> total (daemon m))"
proof -
  have e: "0 \<le> poll_result (env0\<lparr>signals := [SIGTERM]\<rparr>)" "SIGTERM \<in> set (signals (env0\<lparr>signals := [SIGTERM]\<rparr>))" "0 \<le> poll_result env0"
    by (simp_all add: env0_def)
  obtain m where m: "mainloop_round (env0\<lparr>signals := [SIGTERM]\<rparr>) running_one = Proceed m" "main_ok m" "quiet m" "flag_terminating (msys m)"
      "flag_failing (msys m) = 0" "forks_ok (msys m)" "shutting (daemon m)"
    using round_obeys [OF running_one_ok e(1) _ e(2)] by blast
  show ?thesis using shutdown_rounds [OF m(2-7) e(3)] m(1) by (cases "nservices (daemon m) = 0") auto
qed

text \<open>A terminating daemon with a service left but no child of it: nothing that happens in a round changes its services.\<close>

definition stuck :: "mainloop \<Rightarrow> bool" where
  "stuck m \<longleftrightarrow> main_ok m \<and> quiet m \<and> flag_terminating (msys m) \<and> flag_failing (msys m) = 0 \<and> 0 < nservices (daemon m) \<and>
     (\<forall>q > 0. find_child (svdefs (daemon m)) (nservices (daemon m)) q 0 = None)"

lemma waitup_no_child:
  assumes "\<forall>q > 0. find_child (svdefs p) (nservices p) q 0 = None"
  shows "perpd_waitup evs p = p"
proof -
  have "waitup_loop p evs c y = (p, c, y)" for c y
    using assms by (induction p evs c y rule: waitup_loop.induct) auto
  then show ?thesis by (simp add: perpd_waitup_def)
qed

lemma stuck_round:
  assumes "stuck m"
  shows "\<exists>m'. mainloop_round env m = Proceed m' \<and> stuck m' \<and> svdefs (daemon m') = svdefs (daemon m) \<and> nservices (daemon m') = nservices (daemon m)"
proof (cases "0 \<le> poll_result env")
  case True
  have a: "main_ok m" "quiet m" "flag_terminating (msys m)" "flag_failing (msys m) = 0" "0 < nservices (daemon m)" using assms by (simp_all add: stuck_def)
  obtain m3 where r: "mainloop_round env m = Proceed (check_chld env m3)" and m3: "main_ok m3" "quiet m3"
      "daemon m3 = (daemon m)\<lparr>psys := msys m3\<rparr>" "flag_terminating (msys m3)" "flag_failing (msys m3) = 0"
    using round_terminating [OF a(1-4) True a(5)] by metis
  note rp = reaping [OF m3(1,2,4,5), of env]
  have same: "svdefs (daemon m3) = svdefs (daemon m)" "nservices (daemon m3) = nservices (daemon m)" by (subst m3(3); simp)+
  let ?p = "(daemon m3)\<lparr>psys := (msys m3)\<lparr>flag_chld := 0\<rparr>\<rparr>"
  have "perpd_waitup (waits env) ?p = ?p" using assms same by (intro waitup_no_child) (simp add: stuck_def)
  then have "svdefs (daemon (check_chld env m3)) = svdefs (daemon m)" "nservices (daemon (check_chld env m3)) = nservices (daemon m)"
    using same by (simp_all add: check_chld_def Let_def on_sys_def)
  then show ?thesis using r rp(1-4) assms by (simp add: stuck_def)
next
  case False
  define m1 where "m1 = poll_prepare m"
  define m2 where "m2 = poll_wait env m1"
  have a: "main_ok m" "quiet m" "flag_terminating (msys m)" "flag_failing (msys m) = 0" "0 < nservices (daemon m)" using assms by (simp_all add: stuck_def)
  note pr = poll_prepare_ok [OF a(1), folded m1_def]
  have p: "polled m1 m2" unfolding m2_def by (rule poll_wait_polled)
  note po = polled_ok [OF p pr(1)]
  have r: "mainloop_round env m = Proceed m2" using False a(5) by (simp add: mainloop_round_def m1_def m2_def Let_def)
  have same: "svdefs (daemon m2) = svdefs (daemon m)" "nservices (daemon m2) = nservices (daemon m)"
    using po(5,6) arg_cong [OF pr(3), of svdefs] arg_cong [OF pr(3), of nservices] by simp_all
  have "flag_terminating (msys m2)" "flag_failing (msys m2) = 0"
    using po(2,3) pr(2) a(3,4) poll_prepare_failing(1) [of m] by (simp_all add: later_def m1_def)
  moreover have "quiet m2" using polled_quiet [OF p] prepare_quiet [OF a(1,2)] by (simp add: m1_def)
  ultimately show ?thesis using r same po(1) assms by (simp add: stuck_def)
qed

lemma stuck_reach: "mainloop_reach m0 m \<Longrightarrow> stuck m0 \<Longrightarrow> stuck m \<and> svdefs (daemon m) = svdefs (daemon m0) \<and> nservices (daemon m) = nservices (daemon m0)"
proof (induction rule: mainloop_reach.induct)
  case (round m env m')
  then show ?case using stuck_round [of m env] by auto
qed simp

text \<open>C7: a fork that fails during shutdown stops it for ever.  A terminating perpd has one service left, without logger and in its cull; in some round it learns
  that the main process of the service has ended, and the fork for the reset script fails.  Then that round and every one after it, whatever signals arrive and whatever
  \<open>poll()\<close> and \<open>waitpid()\<close> return, goes on without end of the loop and without abort, with the table of services as that round left it: the service stays although it is
  ready to be culled.  The trigger for failures is disabled while terminating, and with it the abort that the main loop provides for this case.\<close>

theorem shutdown_fork_failure_stuck:
  assumes "main_ok m" and "quiet m" and "flag_terminating (msys m)" and "flag_failing (msys m) = 0"
    and "active (daemon m) = [sd]" and "nservices (daemon m) = 1" and "sv_has sd SVDEF_FLAG_CULL" and "\<not> sv_has sd SVDEF_FLAG_HASLOG"
    and "0 < pid (sv_main sd)" and "\<not> sub_has (sv_main sd) SUBSV_FLAG_ISRESET" and "os_fork (msys m) (forks (msys m)) = -1"
    and "0 \<le> poll_result env" and "SIGCHLD \<in> set (signals env)" and "waits env = [(pid (sv_main sd), st)]"
  shows "\<exists>m'. mainloop_round env m = Proceed m' \<and> nservices (daemon m') = 1 \<and> perpd_svdef_cullok (svdefs (daemon m') ! 0) \<and>
    (\<forall>m''. mainloop_reach m' m'' \<longrightarrow> nservices (daemon m'') = 1 \<and> svdefs (daemon m'') = svdefs (daemon m') \<and>
       (\<forall>env. \<exists>n. mainloop_round env m'' = Proceed n \<and> nservices (daemon n) = 1 \<and> svdefs (daemon n) = svdefs (daemon m')))"
proof -
  have pos: "0 < nservices (daemon m)" using assms(6) by simp
  obtain m3 where r: "mainloop_round env m = Proceed (check_chld env m3)" and m3: "main_ok m3" "quiet m3"
      "daemon m3 = (daemon m)\<lparr>psys := msys m3\<rparr>" "flag_terminating (msys m3)" "flag_failing (msys m3) = 0"
      "os_fork (msys m3) = os_fork (msys m)" "forks (msys m3) = forks (msys m)" and c: "0 < flag_chld (msys m3)"
    using round_terminating [OF assms(1-4,12) pos] assms(13) by metis
  note rp = reaping [OF m3(1,2,4,5), of env]
  let ?p = "(daemon m3)\<lparr>psys := (msys m3)\<lparr>flag_chld := 0\<rparr>\<rparr>" and ?m = "check_chld env m3"
  have same: "active (daemon m3) = [sd]" "nservices (daemon m3) = 1" using assms(5,6) by (subst m3(3); simp add: active_def)+
  have sd: "svdef_ok sd" using m3(1) same by (simp add: main_ok_def perpd_ok_def)
  have d: "daemon ?m = perpd_waitup [(pid (sv_main sd), st)] ?p" using c assms(14) by (simp add: check_chld_def Let_def on_sys_def)
  have w: "nservices (daemon ?m) = 1" "perpd_svdef_cullok (svdefs (daemon ?m) ! 0)" "\<And>q. 0 < q \<Longrightarrow> find_child (svdefs (daemon ?m)) (nservices (daemon ?m)) q 0 = None"
    using same m3 assms(11) by (intro waitup_fork_failure [OF _ _ _ _ sd assms(7-10) d]; simp add: active_def)+
  have st: "stuck ?m" using rp w by (simp add: stuck_def)
  have "\<exists>n. mainloop_round env m'' = Proceed n \<and> nservices (daemon n) = 1 \<and> svdefs (daemon n) = svdefs (daemon ?m)" if "mainloop_reach ?m m''" for m'' env
    using stuck_reach [OF that st] stuck_round [of m'' env] w(1) by auto
  then show ?thesis using r w(1,2) stuck_reach [OF _ st] by auto
qed

definition one_left :: mainloop where
  "one_left = mainloop_init 3 (replicate PERPD_CONNMAX client0) (replicate (PERPD_CONNMAX + 2) pollfd0)
     (one_service (subsv_zero\<lparr>pid := 7\<rparr>) (sys0 (\<lambda>i. -1)))"

definition last_left :: mainloop where
  "last_left = on_sys (\<lambda>s. s\<lparr>flag_terminating := True, flag_hup := 0\<rparr>) one_left"

theorem shutdown_fork_failure_stuck_witness:
  "\<exists>m'. mainloop_round (env0\<lparr>signals := [SIGCHLD], waits := [(7, 0)]\<rparr>) last_left = Proceed m' \<and> nservices (daemon m') = 1 \<and>
     mainloop_round env0 m' \<noteq> Complete m'"
proof -
  let ?p = "one_service (subsv_zero\<lparr>pid := 7\<rparr>) (sys0 (\<lambda>i. -1))" and ?env = "env0\<lparr>signals := [SIGCHLD], waits := [(7, 0)]\<rparr>"
  let ?sd = "svdef0\<lparr>sv_bitflags := SVDEF_FLAG_CULL, sv_main := sub_set SUBSV_FLAG_WANTDOWN (subsv_zero\<lparr>pid := 7\<rparr>)\<rparr>"
  have os: "os_ok (sys0 (\<lambda>i. -1))" by (auto intro: sys0_ok)
  have "subsv_ok (subsv_zero\<lparr>pid := 7\<rparr>)" by (simp add: subsv_ok_def subsv_zero_def flag_simps)
  then have "perpd_ok ?p" using one_service_ok os by blast
  then have "startup 3 (replicate PERPD_CONNMAX client0) (replicate (PERPD_CONNMAX + 2) pollfd0) ?p"
    by (simp add: startup_def one_service_simps client0_def) (simp add: sys0_def)
  then have ok: "main_ok one_left" using mainloop_init_ok by (simp add: one_left_def)
  have d: "daemon one_left = ?p\<lparr>psys := perpd_trigger_scan (sys0 (\<lambda>i. -1))\<rparr>" "nconns one_left = 0"
    by (simp_all add: one_left_def mainloop_init_def Let_def one_service_simps)
  have m: "main_ok last_left" unfolding last_left_def using on_sys_ok [OF ok, of "\<lambda>s. s\<lparr>flag_terminating := True, flag_hup := 0\<rparr>"] main_ok_os [OF ok]
    by (simp add: os_ok_def)
  have s: "msys last_left = (perpd_trigger_scan (sys0 (\<lambda>i. -1)))\<lparr>flag_terminating := True, flag_hup := 0\<rparr>" by (simp add: last_left_def on_sys_def d)
  have f: "flag_terminating (msys last_left)" "flag_failing (msys last_left) = 0" "os_fork (msys last_left) (forks (msys last_left)) = -1"
      "flag_hup (msys last_left) = 0" "flag_term (msys last_left) = 0"
    by (simp_all add: s perpd_trigger_scan_def selfpipe_ping_def emit_def sys0_def)
  moreover have "nconns last_left = 0" "arg_autoscan (daemon last_left) = 0" by (simp_all add: last_left_def on_sys_def d one_service_def)
  ultimately have q: "quiet last_left" by (simp add: quiet_def)
  have act: "active (daemon last_left) = [?sd]" "nservices (daemon last_left) = 1"
    using one_service_simps [of "subsv_zero\<lparr>pid := 7\<rparr>"] by (simp_all add: last_left_def on_sys_def d active_def)
  have sd: "sv_has ?sd SVDEF_FLAG_CULL" "\<not> sv_has ?sd SVDEF_FLAG_HASLOG" "0 < pid (sv_main ?sd)" "\<not> sub_has (sv_main ?sd) SUBSV_FLAG_ISRESET"
    by (simp_all add: flag_simps subsv_zero_def)
  have e: "0 \<le> poll_result ?env" "SIGCHLD \<in> set (signals ?env)" "waits ?env = [(pid (sv_main ?sd), 0)]" by (simp_all add: env0_def)
  obtain m' where m': "mainloop_round ?env last_left = Proceed m'" "nservices (daemon m') = 1"
    "\<forall>m''. mainloop_reach m' m'' \<longrightarrow> nservices (daemon m'') = 1 \<and> svdefs (daemon m'') = svdefs (daemon m') \<and>
       (\<forall>env. \<exists>n. mainloop_round env m'' = Proceed n \<and> nservices (daemon n) = 1 \<and> svdefs (daemon n) = svdefs (daemon m'))"
    using shutdown_fork_failure_stuck [OF m q f(1,2) act sd f(3) e] by blast
  then obtain n where "mainloop_round env0 m' = Proceed n" using mainloop_reach.start by blast
  with m' show ?thesis by force
qed

lemma msecs_val:
  assumes "tain_ok t" and "tain_val t < 10 ^ 25"
  shows "uint (tain_to_msecs t) = tain_val t div 10 ^ 6"
proof -
  have n: "uint (nsec t) < 10 ^ 9" using assms(1) by (simp add: tain_ok_def word_less_def)
  have v: "uint (sec t) * 1000000000 + uint (nsec t) < 10000000000000000000000000" using assms(2) by (simp add: tain_val_def)
  have "uint (sec t) < 10000000000000000" using v uint_ge_0 [of "nsec t"] by linarith
  then have s: "uint (sec t) < 10 ^ 16" by simp
  have d: "uint (ucast (nsec t) div 1000000 :: u64) = uint (nsec t) div 10 ^ 6"
    using n by (simp add: uint_div_distrib unsigned_ucast_eq take_bit_int_eq_self)
  have q: "0 \<le> uint (nsec t) div 10 ^ 6" "uint (nsec t) div 10 ^ 6 < 1000" using n by (simp_all add: pos_imp_zdiv_nonneg_iff)
  have "uint (sec t) * 1000 + uint (nsec t) div 10 ^ 6 < 2 ^ 64" using s q by simp
  then have "uint (tain_to_msecs t) = uint (sec t) * 1000 + uint (nsec t) div 10 ^ 6"
    using s q d uint_ge_0 [of "sec t"] by (simp add: tain_to_msecs_def uint_word_ariths)
  also have "\<dots> = (uint (sec t) * 10 ^ 9 + uint (nsec t)) div 10 ^ 6" by simp
  finally show ?thesis by (simp add: tain_val_def)
qed

text \<open>The time left of a poll.  For a timeout of 1 to 100,000,000 milliseconds \<open>pollio\<close> returns what \<open>poll()\<close> returned and leaves in
  \<open>msecs_rem\<close> 0 if the poll timed out, and otherwise the timeout less the whole milliseconds between the clock readings before and after, in
  whichever direction the clock went, and never less than 0.\<close>

theorem pollio_remaining:
  assumes "os_ok s" and "0 \<le> n" and "0 < mx" and "mx \<le> 100000000"
    and "\<bar>tain_val (tain_now (os_time s (ticks s + 2))) - tain_val (tain_now (os_time s (ticks s)))\<bar> < 10 ^ 25"
  shows "\<exists>s'. pollio junk n s mx (Some r0) = (s', n, Some (if n = 0 then 0
    else mx - min mx (\<bar>tain_val (tain_now (os_time s (ticks s + 2))) - tain_val (tain_now (os_time s (ticks s)))\<bar> div 10 ^ 6)))"
proof -
  define a b where "a = tain_now (os_time s (ticks s))" and "b = tain_now (os_time s (ticks s + 2))"
  have ok: "tain_ok a" "tain_ok b" using now_ok [OF assms(1)] by (simp_all add: a_def b_def)
  define d where "d = (if tain_less a b then tain_minus b a else tain_minus a b)"
  have dv: "tain_ok d" "tain_val d = \<bar>tain_val b - tain_val a\<bar>"
    using ok tain.minus_exact [of b a] tain.minus_exact [of a b] by (auto simp: d_def tain.minus_ok tain.less_val)
  have ms: "uint (tain_to_msecs d) = \<bar>tain_val b - tain_val a\<bar> div 10 ^ 6"
    using msecs_val [OF dv(1)] dv(2) assms(5) by (simp add: a_def b_def)
  have mxu: "uint (word_of_int mx :: u64) = mx" using assms(3,4) by (simp add: uint_word_of_int)
  define k where "k = (if tain_to_msecs d > word_of_int mx then word_of_int mx else tain_to_msecs d)"
  have k: "uint k = min mx (\<bar>tain_val b - tain_val a\<bar> div 10 ^ 6)" unfolding k_def ms [symmetric] using mxu by (auto simp: word_less_def)
  have "uint k < 2 ^ 31" using k assms(4) by simp
  then have "signed_take_bit 31 (uint k) = uint k" using uint_ge_0 [of k] by (intro signed_take_bit_int_eq_self) linarith+
  then have c: "sint (ucast k :: 32 word) = uint k" using \<open>uint k < 2 ^ 31\<close> by (simp add: sint_uint unsigned_ucast_eq take_bit_int_eq_self)
  have "\<exists>s'. pollio junk n s mx (Some r0) = (s', n, Some (if n = 0 then 0 else mx - sint (ucast k :: 32 word)))"
    using assms(2-4) by (auto simp: pollio_def Let_def now_def k_def d_def a_def b_def)
  then show ?thesis unfolding c k a_def b_def .
qed

theorem pollio_remaining_witness:
  "\<exists>s'. pollio (Tain 0 0) 1 (sys0 (\<lambda>i. 8)) 5000 (Some 0) = (s', 1, Some 3000)"
proof -
  have os: "os_ok (sys0 (\<lambda>i. 8))" by (auto intro: sys0_ok)
  have v: "tain_val (tain_now (os_time (sys0 (\<lambda>i. 8)) (ticks (sys0 (\<lambda>i. 8)) + 2))) - tain_val (tain_now (os_time (sys0 (\<lambda>i. 8)) (ticks (sys0 (\<lambda>i. 8))))) =
      2000000000"
    by (simp add: sys0_def tain_now_def tain_load_utc_def TAIN_UTC_OFFSET_def tain_val_def)
  show ?thesis using pollio_remaining [OF os, of 1 5000 "Tain 0 0" 0] unfolding v by simp
qed

end
