(* ===== verification/Nextopt.thy ===== *)
theory Nextopt
  imports Cstr
begin

text \<open>
  The option parser of the programs: \<open>src/lasagna/nextopt\<close>.  The argument vector is a list of objects that hold C strings; a pointer into an
  argument is its index with an offset, and reading an argument that does not exist is \<open>None\<close>.  The parser is compared with a
  specification on lists of strings.
\<close>

section \<open>Definitions\<close>

text \<open>\<open>struct nextopt\<close>, with the private fields \<open>_argc\<close>, \<open>_argv\<close> and \<open>_ondx\<close> as \<open>opt_argc\<close>, \<open>opt_argv\<close> and \<open>ondx\<close>.\<close>

record nextopt =
  opt_got :: u8
  opt_arg :: "(nat \<times> nat) option"
  opt_list :: buffer
  arg_ndx :: nat
  opt_argc :: nat
  opt_argv :: "buffer list"
  ondx :: nat

definition nextopt_start :: "nat \<Rightarrow> buffer list \<Rightarrow> buffer \<Rightarrow> nat \<Rightarrow> nextopt" where
  "nextopt_start argc argv optlist start =
     \<lparr>opt_got = 0, opt_arg = None, opt_list = optlist, arg_ndx = start, opt_argc = argc, opt_argv = argv, ondx = 1\<rparr>"

definition argv_at :: "nextopt \<Rightarrow> nat \<Rightarrow> nat \<Rightarrow> u8 option" where
  "argv_at n i j = do { b \<leftarrow> rd (opt_argv n) i; rd b j }"

text \<open>The terminal conditions at the start of an argument: the parser that is done, or none to go on.\<close>

definition nextopt_done :: "nextopt \<Rightarrow> nextopt option option" where
  "nextopt_done n =
     (if ondx n = 1 then
        if arg_ndx n \<ge> opt_argc n then Some (Some n)
        else do {
          c0 \<leftarrow> argv_at n (arg_ndx n) 0;
          if c0 \<noteq> of_char CHR ''-'' then Some (Some n)
          else do {
            c1 \<leftarrow> argv_at n (arg_ndx n) 1;
            if c1 = 0 then Some (Some n)
            else do {
              b \<leftarrow> rd (opt_argv n) (arg_ndx n);
              r \<leftarrow> cstr_cmp b 0 (bytes ''--'' @ [0]) 0;
              Some (if r = 0 then Some (n\<lparr>arg_ndx := arg_ndx n + 1\<rparr>) else None) } } }
      else Some None)"

text \<open>The letter found is looked up in the option list, and its argument taken.\<close>

definition nextopt_lookup :: "nextopt \<Rightarrow> u8 \<Rightarrow> (nextopt \<times> u8) option" where
  "nextopt_lookup n got = do {
     pos \<leftarrow> cstr_pos (opt_list n) 0 (ucast got);
     l \<leftarrow> rd (opt_list n) pos;
     if got = of_char CHR '':'' \<or> l = 0 then Some (n, of_char CHR ''?'')
     else do {
       l1 \<leftarrow> rd (opt_list n) (pos + 1);
       if l1 = of_char CHR '':'' then
         if ondx n \<noteq> 1 then
           Some (n\<lparr>opt_arg := Some (arg_ndx n, ondx n), arg_ndx := arg_ndx n + 1, ondx := 1\<rparr>, got)
         else if arg_ndx n \<ge> opt_argc n then Some (n, of_char CHR '':'')
         else Some (n\<lparr>opt_arg := Some (arg_ndx n, 0), arg_ndx := arg_ndx n + 1\<rparr>, got)
       else Some (n, got) } }"

definition nextopt :: "nextopt \<Rightarrow> (nextopt \<times> u8) option" where
  "nextopt n = do {
     let n = n\<lparr>opt_got := 0, opt_arg := None\<rparr>;
     d \<leftarrow> nextopt_done n;
     case d of
       Some n \<Rightarrow> Some (n, 0)
     | None \<Rightarrow> do {
         got \<leftarrow> argv_at n (arg_ndx n) (ondx n);
         let n = n\<lparr>opt_got := got, ondx := ondx n + 1\<rparr>;
         c \<leftarrow> argv_at n (arg_ndx n) (ondx n);
         let n = (if c = 0 then n\<lparr>arg_ndx := arg_ndx n + 1, ondx := 1\<rparr> else n);
         nextopt_lookup n got } }"

text \<open>\<open>nextopt_progname\<close>: the offset after the last slash of \<open>argv[0]\<close>.\<close>

fun progname_loop :: "u8 list \<Rightarrow> nat \<Rightarrow> nat \<Rightarrow> nat" where
  "progname_loop [] i p = p"
| "progname_loop (c # s) i p =
     (if c = 0 then p else progname_loop s (i + 1) (if c = of_char CHR ''/'' then i + 1 else p))"

definition nextopt_progname :: "nextopt \<Rightarrow> nat option" where
  "nextopt_progname n = do { b \<leftarrow> rd (opt_argv n) 0; Some (progname_loop b 0 0) }"

section \<open>Specification\<close>

text \<open>An option as a program sees it: a flag, an option with its argument, an invalid letter, a missing argument.\<close>

datatype optev = Flag u8 | Arg u8 "u8 list" | Invalid u8 | Missing u8

text \<open>The option list: a letter is valid if it is in the list and not a colon, and takes an argument if a colon follows its first
  occurrence.\<close>

definition valid_opt :: "u8 list \<Rightarrow> u8 \<Rightarrow> bool" where
  "valid_opt opts c \<longleftrightarrow> c \<in> set opts \<and> c \<noteq> of_char CHR '':''"

definition takes_arg :: "u8 list \<Rightarrow> u8 \<Rightarrow> bool" where
  "takes_arg opts c \<longleftrightarrow> (\<exists>rest. dropWhile (\<lambda>x. x \<noteq> c) opts = c # of_char CHR '':'' # rest)"

text \<open>The letters after a dash, with the arguments that follow.\<close>

fun cluster :: "u8 list \<Rightarrow> u8 list \<Rightarrow> u8 list list \<Rightarrow> optev list \<times> u8 list list" where
  "cluster opts [] rest = ([], rest)"
| "cluster opts (c # cs) rest =
     (if \<not> valid_opt opts c then (let (evs, r) = cluster opts cs rest in (Invalid c # evs, r))
      else if takes_arg opts c then
        (if cs \<noteq> [] then ([Arg c cs], rest)
         else case rest of [] \<Rightarrow> ([Missing c], []) | a # r \<Rightarrow> ([Arg c a], r))
      else (let (evs, r) = cluster opts cs rest in (Flag c # evs, r)))"

lemma cluster_length: "length (snd (cluster opts cs rest)) \<le> length rest"
  by (induction opts cs rest rule: cluster.induct) (auto simp: Let_def split: prod.splits list.splits)

text \<open>A whole command line: options up to the first argument that is not one, or to \<open>--\<close>, and what is left.\<close>

function getopts :: "u8 list \<Rightarrow> u8 list list \<Rightarrow> optev list \<times> u8 list list" where
  "getopts opts [] = ([], [])"
| "getopts opts (a # rest) =
     (if a = [] \<or> hd a \<noteq> of_char CHR ''-'' \<or> tl a = [] then ([], a # rest)
      else if a = bytes ''--'' then ([], rest)
      else
        (let (evs, r) = cluster opts (tl a) rest; (evs', r') = getopts opts r in (evs @ evs', r')))"
  by pat_completeness auto
termination
proof (relation "measure (\<lambda>(opts, args). length args)")
  fix opts a rest x evs r
  assume "x = cluster opts (tl a) rest" "(evs, r) = x"
  then show "((opts, r), opts, a # rest) \<in> measure (\<lambda>(opts, args). length args)"
    using cluster_length [of opts "tl a" rest] by (metis in_measure le_imp_less_Suc length_Cons old.prod.case snd_conv)
qed simp

declare getopts.simps [simp del]

section \<open>The parser against the specification\<close>

text \<open>What one call returned.\<close>

definition event_of :: "nextopt \<Rightarrow> u8 \<Rightarrow> optev" where
  "event_of n r =
     (if r = of_char CHR ''?'' then Invalid (opt_got n)
      else if r = of_char CHR '':'' then Missing (opt_got n)
      else case opt_arg n of None \<Rightarrow> Flag r | Some (i, j) \<Rightarrow> Arg r (takeWhile (\<lambda>c. c \<noteq> 0) (drop j (opt_argv n ! i))))"

text \<open>The loop \<open>while((opt = nextopt(&nopt)))\<close>, with a bound on its rounds.\<close>

fun nextopt_all :: "nat \<Rightarrow> nextopt \<Rightarrow> (optev list \<times> nextopt) option" where
  "nextopt_all 0 n = None"
| "nextopt_all (Suc k) n = do {
     (n, r) \<leftarrow> nextopt n;
     if r = 0 then Some ([], n)
     else do { (evs, n') \<leftarrow> nextopt_all k n; Some (event_of n r # evs, n') } }"

text \<open>A parser on a proper command line.\<close>

definition parsing :: "u8 list \<Rightarrow> u8 list list \<Rightarrow> nextopt \<Rightarrow> bool" where
  "parsing opts args n \<longleftrightarrow> opt_list n = opts @ [0] \<and> 0 \<notin> set opts \<and> of_char CHR ''?'' \<notin> set opts \<and>
     opt_argv n = map (\<lambda>s. s @ [0]) args \<and> opt_argc n = length args \<and> (\<forall>s \<in> set args. 0 \<notin> set s)"

lemma parsing_fields [simp]:
  "parsing opts args (n\<lparr>opt_got := c\<rparr>) = parsing opts args n" "parsing opts args (n\<lparr>opt_arg := a\<rparr>) = parsing opts args n"
  "parsing opts args (n\<lparr>arg_ndx := i\<rparr>) = parsing opts args n" "parsing opts args (n\<lparr>ondx := j\<rparr>) = parsing opts args n"
  by (simp_all add: parsing_def)

lemma argv_at_in:
  assumes "parsing opts args n" and "i < length args" and "j \<le> length (args ! i)"
  shows "argv_at n i j = Some ((args ! i @ [0]) ! j)"
  using assms by (simp add: parsing_def argv_at_def)

lemma lookup_opt:
  assumes "parsing opts args n" and "c \<noteq> 0"
  obtains pos l where "cstr_pos (opt_list n) 0 (ucast c) = Some pos" and "rd (opt_list n) pos = Some l"
    and "(c = of_char CHR '':'' \<or> l = 0) \<longleftrightarrow> \<not> valid_opt opts c"
    and "valid_opt opts c \<Longrightarrow> \<exists>l1. rd (opt_list n) (pos + 1) = Some l1 \<and> (l1 = of_char CHR '':'' \<longleftrightarrow> takes_arg opts c)"
proof -
  let ?t = "takeWhile (\<lambda>x. x \<noteq> c) opts" and ?d = "dropWhile (\<lambda>x. x \<noteq> c) opts"
  have l: "opt_list n = opts @ [0]" "0 \<notin> set opts" using assms(1) by (auto simp: parsing_def)
  have "cstr_at (opts @ [0]) 0 opts" using l(2) cstr_at_zero by force
  from cstr_pos_loop_spec [OF this] have pos: "cstr_pos (opt_list n) 0 (ucast c) = Some (length ?t)"
    by (simp add: cstr_pos_def l ucast_up_ucast_id is_up)
  have split: "opts = ?t @ ?d" by simp
  have len: "length ?t + length ?d = length opts" by (metis split length_append)
  have at: "rd (opt_list n) (length ?t + k) = Some ((?d @ [0]) ! k)" if k: "k \<le> length ?d" for k
  proof -
    have "opts @ [0] = ?t @ ?d @ [0]" by (metis split append.assoc)
    then have "(opts @ [0]) ! (length ?t + k) = (?d @ [0]) ! k" by (metis nth_append_length_plus)
    then show ?thesis using k len by (simp add: l(1) rd_def)
  qed
  have v: "?d = [] \<longleftrightarrow> c \<notin> set opts" by (auto simp: dropWhile_eq_Nil_conv)
  have hd: "?d = c # tl ?d" if "c \<in> set opts" using that v hd_dropWhile [of "\<lambda>x. x \<noteq> c" opts] by (metis (no_types, lifting) list.collapse)
  show ?thesis
  proof (rule that [OF pos])
    show "rd (opt_list n) (length ?t) = Some ((?d @ [0]) ! 0)" using at [of 0] by simp
    show "(c = of_char CHR '':'' \<or> (?d @ [0]) ! 0 = 0) \<longleftrightarrow> \<not> valid_opt opts c"
    proof (cases "c \<in> set opts")
      case True
      then show ?thesis using hd assms(2) by (metis append_Cons nth_Cons_0 valid_opt_def)
    next
      case False
      then have "?d = []" using v by simp
      then have "(?d @ [0]) ! 0 = 0" by (simp only: append_Nil nth_Cons_0)
      then show ?thesis using False by (simp only: valid_opt_def simp_thms)
    qed
    show "\<exists>l1. rd (opt_list n) (length ?t + 1) = Some l1 \<and> (l1 = of_char CHR '':'' \<longleftrightarrow> takes_arg opts c)" if "valid_opt opts c"
    proof -
      have "c \<in> set opts" using that by (simp add: valid_opt_def)
      from hd [OF this] obtain t where t: "?d = c # t" ..
      then have "rd (opt_list n) (length ?t + 1) = Some ((t @ [0]) ! 0)" using at [of 1] by simp
      moreover have "(t @ [0]) ! 0 = of_char CHR '':'' \<longleftrightarrow> takes_arg opts c" using t by (cases t) (auto simp: takes_arg_def)
      ultimately show ?thesis by blast
    qed
  qed
qed

text \<open>The state after a letter at position \<open>j\<close> of argument \<open>i\<close>: the next letter, or the next argument.\<close>

definition past :: "u8 list list \<Rightarrow> nat \<Rightarrow> nat \<Rightarrow> nextopt \<Rightarrow> nextopt" where
  "past args i j n = (if j + 1 < length (args ! i) then n\<lparr>ondx := j + 1\<rparr> else n\<lparr>arg_ndx := i + 1, ondx := 1\<rparr>)"

lemma nextopt_letter:
  assumes "parsing opts args n" and "arg_ndx n = i" and "ondx n = j" and "i < length args" and "0 < j" and "j < length (args ! i)"
    and "nextopt_done (n\<lparr>opt_got := 0, opt_arg := None\<rparr>) = Some None"
  defines "c \<equiv> args ! i ! j" and "n1 \<equiv> past args i j (n\<lparr>opt_arg := None, opt_got := args ! i ! j\<rparr>)"
  shows "nextopt n =
    (if \<not> valid_opt opts c then Some (n1, of_char CHR ''?'')
     else if \<not> takes_arg opts c then Some (n1, c)
     else if j + 1 < length (args ! i) then Some (n1\<lparr>opt_arg := Some (i, j + 1), arg_ndx := i + 1, ondx := 1\<rparr>, c)
     else if i + 1 \<ge> length args then Some (n1, of_char CHR '':'')
     else Some (n1\<lparr>opt_arg := Some (i + 1, 0), arg_ndx := i + 2\<rparr>, c))"
proof -
  have len: "opt_argc n = length args" using assms(1) by (simp add: parsing_def)
  have s: "args ! i \<in> set args" using assms(4) by simp
  then have nz: "0 \<notin> set (args ! i)" using assms(1) by (simp add: parsing_def)
  then have c0: "c \<noteq> 0" using assms(6) nth_mem by (fastforce simp: c_def)
  let ?n = "n\<lparr>opt_got := 0, opt_arg := None\<rparr>"
  have a1: "argv_at ?n i j = Some c" using argv_at_in [of opts args ?n i j] assms by (simp add: nth_append)
  have a2: "argv_at (?n\<lparr>opt_got := c, ondx := j + 1\<rparr>) i (j + 1) = Some ((args ! i @ [0]) ! (j + 1))"
    using argv_at_in [of opts args "?n\<lparr>opt_got := c, ondx := j + 1\<rparr>" i "j + 1"] assms by simp
  have z: "(args ! i @ [0]) ! (j + 1) = 0 \<longleftrightarrow> \<not> j + 1 < length (args ! i)"
  proof (cases "j + 1 < length (args ! i)")
    case True
    then have "args ! i ! (j + 1) \<noteq> 0" using nz by (metis nth_mem)
    then show ?thesis using True by (simp add: nth_append)
  qed (use assms(6) in \<open>auto simp: nth_append\<close>)
  have n1: "n1 = (if (args ! i @ [0]) ! (j + 1) = 0 then n\<lparr>opt_arg := None, opt_got := c, arg_ndx := i + 1, ondx := 1\<rparr>
      else n\<lparr>opt_arg := None, opt_got := c, ondx := j + 1\<rparr>)" unfolding z n1_def past_def c_def by simp
  have p: "parsing opts args n1" using assms(1) by (simp add: n1_def past_def)
  have same: "opt_list n1 = opt_list n" "opt_argc n1 = length args" using len by (simp_all add: n1_def past_def)
  have nx: "arg_ndx n1 = (if j + 1 < length (args ! i) then i else i + 1)" "ondx n1 = (if j + 1 < length (args ! i) then j + 1 else 1)"
    using assms(2) by (simp_all add: n1_def past_def)
  obtain pos l where lk: "cstr_pos (opt_list n1) 0 (ucast c) = Some pos" "rd (opt_list n1) pos = Some l"
      "(c = of_char CHR '':'' \<or> l = 0) \<longleftrightarrow> \<not> valid_opt opts c"
      "valid_opt opts c \<Longrightarrow> \<exists>l1. rd (opt_list n1) (pos + 1) = Some l1 \<and> (l1 = of_char CHR '':'' \<longleftrightarrow> takes_arg opts c)"
    using lookup_opt [OF p c0] by blast
  have "nextopt n = nextopt_lookup n1 c"
    using assms(2,3,7) a1 a2 n1 by (auto simp: nextopt_def Let_def)
  moreover have "nextopt_lookup n1 c =
      (if valid_opt opts c then do {
         l1 \<leftarrow> rd (opt_list n1) (pos + 1);
         if l1 = of_char CHR '':'' then
           if ondx n1 \<noteq> 1 then Some (n1\<lparr>opt_arg := Some (arg_ndx n1, ondx n1), arg_ndx := arg_ndx n1 + 1, ondx := 1\<rparr>, c)
           else if arg_ndx n1 \<ge> opt_argc n1 then Some (n1, of_char CHR '':'')
           else Some (n1\<lparr>opt_arg := Some (arg_ndx n1, 0), arg_ndx := arg_ndx n1 + 1\<rparr>, c)
         else Some (n1, c) }
       else Some (n1, of_char CHR ''?''))"
    unfolding nextopt_lookup_def lk(1,2) bind.bind_lunit lk(3) by simp
  ultimately show ?thesis using lk(4) same(2) nx assms(5) by (cases "valid_opt opts c") auto
qed

lemma nextopt_all_step:
  "nextopt n = Some (n', r) \<Longrightarrow> r \<noteq> 0 \<Longrightarrow> nextopt_all k n' = Some (evs, m) \<Longrightarrow> nextopt_all (Suc k) n = Some (event_of n' r # evs, m)"
  by simp

text \<open>The rest of a cluster, from letter \<open>j\<close> on.\<close>

lemma nextopt_cluster:
  assumes "parsing opts args n" and "arg_ndx n = i" and "ondx n = j" and "i < length args" and "0 < j" and "j < length (args ! i)"
    and "nextopt_done (n\<lparr>opt_got := 0, opt_arg := None\<rparr>) = Some None"
    and "cluster opts (drop j (args ! i)) (drop (i + 1) args) = (evs, rest)"
    and "\<And>n. parsing opts args n \<Longrightarrow> ondx n = 1 \<Longrightarrow> arg_ndx n \<le> length args \<Longrightarrow> drop (arg_ndx n) args = rest \<Longrightarrow>
      \<exists>m. nextopt_all k n = Some (evs', m) \<and> Q m"
  shows "\<exists>m. nextopt_all (length evs + k) n = Some (evs @ evs', m) \<and> Q m"
  using assms(1-8)
proof (induction "length (args ! i) - j" arbitrary: j n evs rule: less_induct)
  case less
  define c where "c = args ! i ! j"
  define n1 where "n1 = past args i j (n\<lparr>opt_arg := None, opt_got := c\<rparr>)"
  note step = nextopt_letter [OF less.prems(1-7), folded c_def, folded n1_def]
  have p1: "parsing opts args n1" using less.prems(1) by (simp add: n1_def past_def)
  have s: "args ! i \<in> set args" using less.prems(4) by simp
  have nz: "\<forall>x \<in> set args. 0 \<notin> set x" "of_char CHR ''?'' \<notin> set opts" using less.prems(1) by (auto simp: parsing_def)
  have c: "c \<noteq> 0" using s nz(1) nth_mem [OF less.prems(6)] unfolding c_def by metis
  have av: "opt_argv n1 = map (\<lambda>s. s @ [0]) args" using p1 by (simp add: parsing_def)
  have dr: "drop j (args ! i) = c # drop (j + 1) (args ! i)" using less.prems(6) by (simp add: c_def Cons_nth_drop_Suc)
  have valid: "c \<noteq> of_char CHR ''?'' \<and> c \<noteq> of_char CHR '':''" if "valid_opt opts c" using that nz(2) by (auto simp: valid_opt_def)
  have got: "opt_got n1 = c" "opt_arg n1 = None" by (simp_all add: n1_def past_def)
  have tw: "takeWhile (\<lambda>c. c \<noteq> 0) (drop l ((map (\<lambda>s. s @ [0]) args) ! h)) = drop l (args ! h)"
    if "h < length args" "l \<le> length (args ! h)" for h l
  proof -
    have "\<forall>x \<in> set (drop l (args ! h)). x \<noteq> 0" using that nz(1) by (metis in_set_dropD nth_mem)
    then show ?thesis using that by (simp add: takeWhile_append2)
  qed
  have cont: "\<exists>m. nextopt_all (length es + k) n1 = Some (es @ evs', m) \<and> Q m"
    if es: "cluster opts (drop (j + 1) (args ! i)) (drop (i + 1) args) = (es, rest)" for es
  proof (cases "j + 1 < length (args ! i)")
    case True
    have n1e: "n1 = n\<lparr>opt_arg := None, opt_got := c, ondx := j + 1\<rparr>" using True by (simp add: n1_def past_def)
    have d: "nextopt_done (n1\<lparr>opt_got := 0, opt_arg := None\<rparr>) = Some None" using less.prems(5) by (simp add: nextopt_done_def n1e)
    show ?thesis using less.hyps [OF _ p1 _ _ less.prems(4) _ True d es] less.prems(2,6) by (simp add: n1e)
  next
    case False
    then have "es = []" "rest = drop (i + 1) args" using es less.prems(6) by auto
    moreover have "ondx n1 = 1" "arg_ndx n1 = i + 1" using False by (simp_all add: n1_def past_def)
    ultimately show ?thesis using assms(9) [OF p1] less.prems(4) by simp
  qed
  show ?case
  proof (cases "valid_opt opts c \<and> takes_arg opts c")
    case False
    obtain es r where es: "cluster opts (drop (j + 1) (args ! i)) (drop (i + 1) args) = (es, r)" by force
    define e where "e = (if valid_opt opts c then Flag c else Invalid c)"
    have ev: "evs = e # es" "r = rest"
      using less.prems(8) False es unfolding dr e_def by (auto simp: Let_def split: if_splits)
    define ret where "ret = (if valid_opt opts c then c else of_char CHR ''?'')"
    have st: "nextopt n = Some (n1, ret)" using step False by (auto simp: ret_def)
    have e: "event_of n1 ret = e" using valid got by (auto simp: event_of_def ret_def e_def)
    have r0: "ret \<noteq> 0" using c by (simp add: ret_def)
    obtain m where "nextopt_all (length es + k) n1 = Some (es @ evs', m)" "Q m" using cont es ev(2) by blast
    then show ?thesis using nextopt_all_step [OF st r0] e ev(1) by simp
  next
    case ta: True
    have next_arg: "\<exists>m. nextopt_all k n2 = Some (evs', m) \<and> Q m"
      if "parsing opts args n2" "ondx n2 = 1" "arg_ndx n2 \<le> length args" "drop (arg_ndx n2) args = rest" for n2
      using that assms(9) by blast
    obtain n2 ret e where st: "nextopt n = Some (n2, ret)" and r0: "ret \<noteq> 0" and ev: "evs = [e]" and e: "event_of n2 ret = e"
      and n2: "parsing opts args n2" "ondx n2 = 1" "arg_ndx n2 \<le> length args" "drop (arg_ndx n2) args = rest"
    proof -
      consider "j + 1 < length (args ! i)" | "\<not> j + 1 < length (args ! i)" "i + 1 \<ge> length args"
        | "\<not> j + 1 < length (args ! i)" "i + 1 < length args" by linarith
      then show ?thesis
      proof cases
        case 1
        let ?n2 = "n1\<lparr>opt_arg := Some (i, j + 1), arg_ndx := i + 1, ondx := 1\<rparr>"
        have "event_of ?n2 c = Arg c (drop (j + 1) (args ! i))" using valid ta tw [of i "j + 1"] 1 less.prems(4) av by (simp add: event_of_def)
        then show ?thesis
          using that [of ?n2 c] step ta 1 c less.prems(4,8) p1 unfolding dr by auto
      next
        case 2
        have "drop (i + 1) args = []" using 2 by simp
        then have "evs = [Missing c]" "rest = []" using less.prems(8) ta 2 unfolding dr by auto
        moreover have "event_of n1 (of_char CHR '':'') = Missing c" by (simp add: event_of_def got)
        moreover have "ondx n1 = 1" "arg_ndx n1 = i + 1" using 2 by (simp_all add: n1_def past_def)
        ultimately show ?thesis using that [of n1 "of_char CHR '':''"] step ta 2 less.prems(4) p1 by auto
      next
        case 3
        let ?n2 = "n1\<lparr>opt_arg := Some (i + 1, 0), arg_ndx := i + 2\<rparr>"
        have dr2: "drop (i + 1) args = args ! (i + 1) # drop (i + 2) args" using 3 by (simp add: Cons_nth_drop_Suc)
        have "evs = [Arg c (args ! (i + 1))]" "rest = drop (i + 2) args" using less.prems(8) ta 3(1) unfolding dr dr2 by auto
        moreover have "event_of ?n2 c = Arg c (args ! (i + 1))" using valid ta tw [of "i + 1" 0] 3 av by (simp add: event_of_def)
        moreover have "ondx ?n2 = 1" using 3 by (simp add: n1_def past_def)
        ultimately show ?thesis using that [of ?n2 c] step ta 3 c p1 by auto
      qed
    qed
    obtain m where "nextopt_all k n2 = Some (evs', m)" "Q m" using next_arg [OF n2] by blast
    then show ?thesis using nextopt_all_step [OF st r0] e ev by simp
  qed
qed

text \<open>At the start of an argument.\<close>

lemma nextopt_stop:
  assumes "parsing opts args n" and "ondx n = 1" and "arg_ndx n \<le> length args"
    and "arg_ndx n = length args \<or> args ! arg_ndx n = [] \<or> hd (args ! arg_ndx n) \<noteq> of_char CHR ''-'' \<or> tl (args ! arg_ndx n) = []"
  shows "nextopt n = Some (n\<lparr>opt_got := 0, opt_arg := None\<rparr>, 0)"
proof -
  let ?n = "n\<lparr>opt_got := 0, opt_arg := None\<rparr>"
  let ?a = "args ! arg_ndx n"
  have p: "parsing opts args ?n" and l: "opt_argc n = length args" using assms(1) by (simp_all add: parsing_def)
  have "nextopt_done ?n = Some (Some ?n)"
  proof (cases "arg_ndx n = length args")
    case False
    then have i: "arg_ndx n < length args" using assms(3) by simp
    have a0: "argv_at ?n (arg_ndx n) 0 = Some ((?a @ [0]) ! 0)" using argv_at_in [OF p i] by simp
    consider "?a = []" | c where "?a = [c]" | c d t where "?a = c # d # t" "c \<noteq> of_char CHR ''-''"
      using assms(4) False by (cases ?a rule: list.exhaust; cases "tl ?a") auto
    then show ?thesis
    proof cases
      case (2 c)
      then have "argv_at ?n (arg_ndx n) 1 = Some 0" using argv_at_in [OF p i, of 1] by simp
      then show ?thesis using 2 a0 i l assms(2) by (simp add: nextopt_done_def)
    qed (use a0 i l assms(2) in \<open>simp_all add: nextopt_done_def\<close>)
  qed (use l assms(2) in \<open>simp add: nextopt_done_def\<close>)
  then show ?thesis by (simp add: nextopt_def)
qed

lemma nextopt_open:
  assumes "parsing opts args n" and "ondx n = 1" and "arg_ndx n < length args" and "args ! arg_ndx n = of_char CHR ''-'' # s" and "s \<noteq> []"
  shows "nextopt_done n = Some (if args ! arg_ndx n = bytes ''--'' then Some (n\<lparr>arg_ndx := arg_ndx n + 1\<rparr>) else None)"
proof -
  let ?a = "args ! arg_ndx n"
  have l: "opt_argc n = length args" and b: "rd (opt_argv n) (arg_ndx n) = Some (?a @ [0])" and z: "0 \<notin> set ?a"
    using assms(1,3) by (auto simp: parsing_def rd_def)
  have c: "argv_at n (arg_ndx n) 0 = Some (of_char CHR ''-'')" "argv_at n (arg_ndx n) 1 = Some (hd s)"
    using assms(4,5) b by (auto simp: argv_at_def rd_def nth_append hd_conv_nth)
  have "hd s \<noteq> 0" using z assms(4,5) by (cases s) auto
  moreover have "cstr_at (?a @ [0]) 0 ?a" "cstr_at (bytes ''--'' @ [0]) 0 (bytes ''--'')" using z by (simp_all add: cstr_at_def bytes_def)
  then obtain r where "cstr_cmp (?a @ [0]) 0 (bytes ''--'' @ [0]) 0 = Some r" "r = 0 \<longleftrightarrow> ?a = bytes ''--''"
    using cstr_cmp_spec by blast
  ultimately show ?thesis using l b c assms(2,3) by (simp add: nextopt_done_def)
qed

lemma nextopt_all_getopts:
  assumes "parsing opts args n" and "ondx n = 1" and "arg_ndx n \<le> length args" and "getopts opts (drop (arg_ndx n) args) = (evs, rest)"
  shows "\<exists>m. nextopt_all (length evs + 1) n = Some (evs, m) \<and> drop (arg_ndx m) args = rest \<and> arg_ndx m \<le> length args"
  using assms
proof (induction "length args - arg_ndx n" arbitrary: n evs rule: less_induct)
  case less
  let ?i = "arg_ndx n"
  let ?n = "n\<lparr>opt_got := 0, opt_arg := None\<rparr>"
  show ?case
  proof (cases "?i = length args \<or> args ! ?i = [] \<or> hd (args ! ?i) \<noteq> of_char CHR ''-'' \<or> tl (args ! ?i) = []")
    case True
    have "evs = [] \<and> rest = drop ?i args"
    proof (cases "?i = length args")
      case False
      then have "drop ?i args = args ! ?i # drop (?i + 1) args" using less.prems(3) by (simp add: Cons_nth_drop_Suc)
      then show ?thesis using True False less.prems(4) by (simp add: getopts.simps)
    qed (use less.prems(4) in \<open>simp add: getopts.simps\<close>)
    then show ?thesis using nextopt_stop [OF less.prems(1-3) True] less.prems(3) by simp
  next
    case False
    then have i: "?i < length args" using less.prems(3) by simp
    obtain s where a: "args ! ?i = of_char CHR ''-'' # s" and s: "s \<noteq> []" using False by (cases "args ! ?i") auto
    have dr: "drop ?i args = args ! ?i # drop (?i + 1) args" using i by (simp add: Cons_nth_drop_Suc)
    have p: "parsing opts args ?n" using less.prems(1) by simp
    have op: "nextopt_done ?n = Some (if args ! ?i = bytes ''--'' then Some (?n\<lparr>arg_ndx := ?i + 1\<rparr>) else None)"
      using nextopt_open [OF p _ _ _ s] less.prems(2) i a by simp
    show ?thesis
    proof (cases "args ! ?i = bytes ''--''")
      case True
      then have "evs = []" "rest = drop (?i + 1) args" using less.prems(4) unfolding dr by (simp_all add: getopts.simps bytes_def)
      moreover have "nextopt n = Some (?n\<lparr>arg_ndx := ?i + 1\<rparr>, 0)" using op True by (simp add: nextopt_def)
      ultimately show ?thesis using i by simp
    next
      case ne: False
      obtain es r where cl: "cluster opts s (drop (?i + 1) args) = (es, r)" by force
      obtain es' r' where go: "getopts opts r = (es', r')" by force
      have ev: "evs = es @ es'" "rest = r'" using less.prems(4) a s ne cl go unfolding dr by (simp_all add: getopts.simps)
      have lr: "length r \<le> length args - (?i + 1)" using cluster_length [of opts s "drop (?i + 1) args"] cl by simp
      have "\<exists>m. nextopt_all (length es + (length es' + 1)) n = Some (es @ es', m) \<and> drop (arg_ndx m) args = rest \<and> arg_ndx m \<le> length args"
      proof (rule nextopt_cluster [OF less.prems(1) refl refl i])
        show "0 < ondx n" "ondx n < length (args ! ?i)" using less.prems(2) a s by auto
        show "nextopt_done ?n = Some None" using op ne by simp
        show "cluster opts (drop (ondx n) (args ! ?i)) (drop (?i + 1) args) = (es, r)" using cl a less.prems(2) by simp
        fix n' assume n': "parsing opts args n'" "ondx n' = 1" "arg_ndx n' \<le> length args" "drop (arg_ndx n') args = r"
        have "length r = length args - arg_ndx n'" using n'(4) by auto
        then have "length args - arg_ndx n' < length args - ?i" using lr i by simp
        then show "\<exists>m. nextopt_all (length es' + 1) n' = Some (es', m) \<and> drop (arg_ndx m) args = rest \<and> arg_ndx m \<le> length args"
          using less.hyps [OF _ n'(1-3)] n'(4) go ev(2) by simp
      qed
      then show ?thesis by (simp add: ev(1) add.assoc)
    qed
  qed
qed

text \<open>C28: On every command line whose strings hold no NUL, and every option list without \<open>?\<close>, the loop that calls \<open>nextopt\<close> until
  it returns \<open>0\<close> returns after one call for each option and one more, without reading out of bounds; the options it delivers, with
  their arguments, the invalid letters and the missing arguments, are those of the specification \<open>getopts\<close>, and \<open>arg_ndx\<close> is left
  at the first argument the specification leaves.\<close>

theorem nextopt_refines:
  assumes "0 \<notin> set opts" and "of_char CHR ''?'' \<notin> set opts" and "\<forall>s \<in> set args. 0 \<notin> set s" and "i \<le> length args"
    and "getopts opts (drop i args) = (evs, rest)"
  shows "\<exists>n. nextopt_all (length evs + 1) (nextopt_start (length args) (map (\<lambda>s. s @ [0]) args) (opts @ [0]) i) = Some (evs, n) \<and>
    drop (arg_ndx n) args = rest \<and> arg_ndx n \<le> length args"
  by (rule nextopt_all_getopts) (use assms in \<open>simp_all add: parsing_def nextopt_start_def\<close>)

text \<open>The options of \<open>perpctl\<close>.\<close>

theorem nextopt_refines_witness:
  "\<exists>n. nextopt_all 3 (nextopt_start 4 (map (\<lambda>s. bytes s @ [0]) [''perpctl'', ''-qb'', ''/etc/perp'', ''u'']) (bytes ''b:hgqVL'' @ [0]) 1)
       = Some ([Flag (of_char CHR ''q''), Arg (of_char CHR ''b'') (bytes ''/etc/perp'')], n) \<and> arg_ndx n = 3"
proof -
  let ?args = "map bytes [''perpctl'', ''-qb'', ''/etc/perp'', ''u'']"
  have g: "getopts (bytes ''b:hgqVL'') (drop 1 ?args) =
      ([Flag (of_char CHR ''q''), Arg (of_char CHR ''b'') (bytes ''/etc/perp'')], [bytes ''u''])"
    by (simp add: getopts.simps valid_opt_def takes_arg_def bytes_def)
  have len: "length [Flag (of_char CHR ''q''), Arg (of_char CHR ''b'') (bytes ''/etc/perp'')] + 1 = 3" "length ?args = 4" by simp_all
  have "0 \<notin> set (bytes ''b:hgqVL'')" "of_char CHR ''?'' \<notin> set (bytes ''b:hgqVL'')" "\<forall>s \<in> set ?args. 0 \<notin> set s" "1 \<le> length ?args"
    by (simp_all add: bytes_def)
  from nextopt_refines [OF this g, unfolded len]
  obtain n where n: "nextopt_all 3 (nextopt_start 4 (map (\<lambda>s. s @ [0]) ?args) (bytes ''b:hgqVL'' @ [0]) 1)
       = Some ([Flag (of_char CHR ''q''), Arg (of_char CHR ''b'') (bytes ''/etc/perp'')], n)"
    and d: "drop (arg_ndx n) ?args = [bytes ''u'']" "arg_ndx n \<le> 4" by blast
  have "length (drop (arg_ndx n) ?args) = 1" by (simp only: d(1)) simp
  then have "arg_ndx n = 3" using d(2) by simp
  with n show ?thesis by (auto simp: comp_def)
qed

text \<open>\<open>nextopt_progname\<close> is the last component of the path.\<close>

lemma progname_loop_spec:
  "0 \<notin> set s \<Longrightarrow> progname_loop (s @ [0]) i p = (if of_char CHR ''/'' \<in> set s then i + length s - length (takeWhile (\<lambda>c. c \<noteq> of_char CHR ''/'') (rev s)) else p)"
proof (induction s arbitrary: i p)
  case (Cons c s)
  have "length (takeWhile (\<lambda>c. c \<noteq> of_char CHR ''/'') (rev s)) = length s" if n: "of_char CHR ''/'' \<notin> set s"
  proof -
    have "\<forall>x \<in> set (rev s). x \<noteq> of_char CHR ''/''" using n by (metis set_rev)
    then have "takeWhile (\<lambda>c. c \<noteq> of_char CHR ''/'') (rev s) = rev s" by (simp only: takeWhile_eq_all_conv)
    then show ?thesis by (simp only: length_rev)
  qed
  then show ?case using Cons by (auto simp: takeWhile_tail)
qed simp

end
