(* ===== verification/Perp_Client.thy ===== *)
theory Perp_Client
  imports Perpd_Conn Nextopt
begin

text \<open>
  What the client programs \<open>perpctl\<close>, \<open>perpok\<close>, \<open>perpstat\<close> and \<open>perpls\<close> share: the loop over the options, the base directory, the path of
  the control socket, the request packet, and the exchange of one packet with perpd.  The calls they make of the system are parameters:
  \<open>stat()\<close> of a path, the environment, \<open>chdir()\<close>, the connection to a socket.  A connection is the results of its coming \<open>write()\<close> and
  \<open>read()\<close> calls, with the bytes that were sent.  The last section puts a client and the daemon together.
\<close>

section \<open>Definitions\<close>

subsection \<open>Options\<close>

text \<open>The string at \<open>nopt.opt_arg\<close>.\<close>

definition opt_string :: "nextopt \<Rightarrow> u8 list option" where
  "opt_string n = map_option (\<lambda>(i, j). cstr_of (drop j (opt_argv n ! i))) (opt_arg n)"

text \<open>\<open>while((opt = nextopt(&nopt))){ switch(opt){ ... } }\<close>: the body gets the letter and the argument, and ends the program with an exit
  code or goes on.\<close>

fun getopt_loop :: "(u8 \<Rightarrow> u8 list option \<Rightarrow> 's \<Rightarrow> int + 's) \<Rightarrow> nat \<Rightarrow> nextopt \<Rightarrow> 's \<Rightarrow> (int + 's \<times> nextopt) option" where
  "getopt_loop body 0 n s = None"
| "getopt_loop body (Suc k) n s = do {
     (n, opt) \<leftarrow> nextopt n;
     if opt = 0 then Some (Inr (s, n))
     else case body opt (opt_string n) s of Inl e \<Rightarrow> Some (Inl e) | Inr s \<Rightarrow> getopt_loop body k n s }"

text \<open>The loop on the arguments of \<open>main()\<close>; one call for each character of the command line and one more are enough.\<close>

definition main_options ::
  "(u8 \<Rightarrow> u8 list option \<Rightarrow> 's \<Rightarrow> int + 's) \<Rightarrow> u8 list \<Rightarrow> u8 list list \<Rightarrow> 's \<Rightarrow> (int + 's \<times> u8 list list) option" where
  "main_options body optlist args s = do {
     r \<leftarrow> getopt_loop body (sum_list (map length args) + 1) (nextopt_start (length args) (map (\<lambda>s. s @ [0]) args) (optlist @ [0]) 1) s;
     Some (case r of Inl e \<Rightarrow> Inl e | Inr (s, n) \<Rightarrow> Inr (s, drop (arg_ndx n) args)) }"

subsection \<open>The base directory and the control files\<close>

definition PERP_CONTROL :: "u8 list" where "PERP_CONTROL = bytes ''.control''"
definition PERPD_PIDLOCK :: "u8 list" where "PERPD_PIDLOCK = bytes ''perpd.pid''"
definition PERPD_SOCKET :: "u8 list" where "PERPD_SOCKET = bytes ''perpd.sock''"

text \<open>The base directory, from the option \<open>-b\<close>, the environment, or the current directory; \<open>perpctl\<close> and \<open>perpls\<close>, but not \<open>perpok\<close> and
  \<open>perpstat\<close>, take an empty name for none.\<close>

definition base_dir :: "bool \<Rightarrow> u8 list option \<Rightarrow> u8 list option \<Rightarrow> u8 list" where
  "base_dir skip_empty opt_b perp_base =
     (let basedir = (case opt_b of None \<Rightarrow> perp_base | Some b \<Rightarrow> Some b)
      in case basedir of None \<Rightarrow> bytes ''.'' | Some b \<Rightarrow> if skip_empty \<and> b = [] then bytes ''.'' else b)"

text \<open>\<open>pathbuf\<close>, of 256 bytes: \<open>None\<close> when the path is too long.\<close>

definition control_path :: "u8 list \<Rightarrow> u8 list \<Rightarrow> u8 list option option" where
  "control_path basedir file = do {
     let parts = map (\<lambda>s. (s @ [0], 0)) [basedir, bytes ''/'', PERP_CONTROL, bytes ''/'', file];
     n \<leftarrow> cstr_vlen (hd parts) (tl parts);
     if \<not> n < 256 then Some None
     else do {
       (b, _) \<leftarrow> cstr_vcopy (replicate 256 0) 0 parts;
       Some (Some (cstr_of b)) } }"

subsection \<open>Packets\<close>

definition pkt_INIT :: "u8 \<Rightarrow> u8 \<Rightarrow> u8 \<Rightarrow> buffer" where
  "pkt_INIT P T N = [P, T, N] @ replicate PKT_PAYLOAD 0"

text \<open>\<open>upak_pack(pkt_data(pkt), ...)\<close>.\<close>

definition pkt_pack :: "buffer \<Rightarrow> string \<Rightarrow> vararg list \<Rightarrow> buffer option" where
  "pkt_pack pkt fmt args = do { (bs, _) \<leftarrow> upak_pack fmt args []; put_at pkt 3 bs }"

record link =
  lk_writes :: "write_event list"
  lk_reads :: "read_event list"
  lk_sent :: "u8 list"

datatype xfail = Write_fail int | Read_fail int

text \<open>\<open>pkt_write(fd_conn, pkt, 0)\<close>, then \<open>pkt_read(fd_conn, pkt, 0)\<close> into the same packet; only a result of \<open>-1\<close> is a failure.\<close>

definition pkt_exchange :: "link \<Rightarrow> buffer \<Rightarrow> link \<times> (xfail + buffer)" where
  "pkt_exchange lk pkt =
     (let (ws, w) = pkt_write (lk_writes lk) pkt 0; lk = lk\<lparr>lk_writes := ws\<rparr>
      in case w of
           Inl e \<Rightarrow> (lk, Inl (Write_fail e))
         | Inr n \<Rightarrow>
             (let lk = lk\<lparr>lk_sent := lk_sent lk @ take n pkt\<rparr>;
                  (pkt, rs, r) = pkt_read (lk_reads lk) pkt 0; lk = lk\<lparr>lk_reads := rs\<rparr>
              in case r of Inl e \<Rightarrow> (lk, Inl (Read_fail e)) | Inr _ \<Rightarrow> (lk, Inr pkt)))"

subsection \<open>The system\<close>

text \<open>What the programs see of the system: \<open>getenv("PERP_BASE")\<close>, whether \<open>chdir()\<close> to a directory works, \<open>stat()\<close> of a path after
  that, \<open>domsock_connect()\<close>, and \<open>tain_now()\<close>.\<close>

record cenv =
  env_base :: "u8 list option"
  env_chdir :: "u8 list \<Rightarrow> bool"
  env_stat :: "u8 list \<Rightarrow> int + stat"
  env_connect :: "u8 list \<Rightarrow> link option"
  env_now :: tain

section \<open>Options of a program\<close>

text \<open>What the body makes of the options of a command line.\<close>

fun run_events :: "(u8 \<Rightarrow> u8 list option \<Rightarrow> 's \<Rightarrow> int + 's) \<Rightarrow> optev list \<Rightarrow> 's \<Rightarrow> int + 's" where
  "run_events body [] s = Inr s"
| "run_events body (e # evs) s =
     (case (case e of Flag c \<Rightarrow> body c None s | Arg c a \<Rightarrow> body c (Some a) s | Invalid c \<Rightarrow> Inl 100 | Missing c \<Rightarrow> Inl 100) of
        Inl x \<Rightarrow> Inl x
      | Inr s \<Rightarrow> run_events body evs s)"

lemma length_cluster: "cluster opts cs rest = (evs, r) \<Longrightarrow> length evs + sum_list (map length r) \<le> length cs + sum_list (map length rest)"
proof (induction cs arbitrary: evs r)
  case (Cons c cs)
  obtain es q where c: "cluster opts cs rest = (es, q)" by force
  show ?case
  proof (cases "valid_opt opts c \<and> takes_arg opts c")
    case True
    then have "length evs = 1 \<and> (\<exists>xs. rest = xs @ r)" using Cons.prems by (cases rest) (auto split: if_splits)
    then show ?thesis by auto
  next
    case False
    then have "length evs = length es + 1" "r = q" using Cons.prems c by (auto simp del: cluster.simps(1) split: if_splits)
    then show ?thesis using Cons.IH [OF c] by simp
  qed
qed simp

lemma length_getopts: "getopts opts args = (evs, r) \<Longrightarrow> length evs \<le> sum_list (map length args)"
proof (induction opts args arbitrary: evs r rule: getopts.induct)
  case (2 opts a rest)
  obtain es q where c: "cluster opts (tl a) rest = (es, q)" by force
  obtain es' q' where g: "getopts opts q = (es', q')" by force
  show ?case
  proof (cases "a = [] \<or> hd a \<noteq> of_char CHR ''-'' \<or> tl a = [] \<or> a = bytes ''--''")
    case True
    then have "evs = []" using "2.prems" by (auto simp: getopts.simps split: if_splits)
    then show ?thesis by simp
  next
    case False
    then have "length es' \<le> sum_list (map length q)" using "2.IH" [OF _ _ c [symmetric] refl g] by auto
    moreover have "evs = es @ es'" using "2.prems" False c g by (simp add: getopts.simps)
    ultimately show ?thesis using length_cluster [OF c] by simp
  qed
qed (simp add: getopts.simps)

lemma nextopt_all_mono: "nextopt_all k n = Some r \<Longrightarrow> k \<le> k' \<Longrightarrow> nextopt_all k' n = Some r"
proof (induction k arbitrary: k' n r)
  case (Suc k)
  then obtain l where l: "k' = Suc l" "k \<le> l" by (cases k') auto
  obtain n' opt where n: "nextopt n = Some (n', opt)" using Suc.prems(1) by (auto split: Option.bind_splits)
  show ?case
  proof (cases "opt = 0")
    case True
    then show ?thesis using n l(1) Suc.prems(1) by simp
  next
    case False
    then obtain x where x: "nextopt_all k n' = Some x" using n Suc.prems(1) by (auto split: Option.bind_splits)
    then show ?thesis using Suc.IH [OF x l(2)] n l(1) Suc.prems(1) False by simp
  qed
qed simp

text \<open>A program whose loop refuses an invalid option and a missing argument with exit code 100.\<close>

locale program_options =
  fixes body :: "u8 \<Rightarrow> u8 list option \<Rightarrow> 's \<Rightarrow> int + 's"
  assumes invalid: "body (of_char CHR ''?'') a s = Inl 100"
    and missing: "body (of_char CHR '':'') a s = Inl 100"
begin

lemma loop_events:
  "nextopt_all k n = Some (evs, m) \<Longrightarrow>
   getopt_loop body k n s = Some (case run_events body evs s of Inl e \<Rightarrow> Inl e | Inr s \<Rightarrow> Inr (s, m))"
proof (induction k arbitrary: n s evs)
  case (Suc k)
  obtain n' opt where n: "nextopt n = Some (n', opt)" using Suc.prems by (auto split: Option.bind_splits)
  show ?case
  proof (cases "opt = 0")
    case True
    then show ?thesis using n Suc.prems by simp
  next
    case False
    then obtain es where es: "nextopt_all k n' = Some (es, m)" "evs = event_of n' opt # es"
      using n Suc.prems by (auto split: Option.bind_splits)
    have "(case event_of n' opt of Flag c \<Rightarrow> body c None s | Arg c a \<Rightarrow> body c (Some a) s | Invalid c \<Rightarrow> Inl 100 | Missing c \<Rightarrow> Inl 100) =
        body opt (opt_string n') s"
      using invalid [simplified] missing [simplified] by (auto simp: event_of_def opt_string_def cstr_of_def split: option.splits)
    then show ?thesis using n False es Suc.IH [OF es(1)] by (auto split: sum.splits)
  qed
qed simp

text \<open>On a proper command line the loop returns, and has run the body on the options of the specification.\<close>

lemma options:
  assumes "0 \<notin> set opts" and "of_char CHR ''?'' \<notin> set opts" and "\<forall>s \<in> set args. 0 \<notin> set s" and "args \<noteq> []"
    and "getopts opts (tl args) = (evs, rest)"
  shows "main_options body opts args s = Some (case run_events body evs s of Inl e \<Rightarrow> Inl e | Inr s \<Rightarrow> Inr (s, rest))"
proof -
  let ?n = "nextopt_start (length args) (map (\<lambda>s. s @ [0]) args) (opts @ [0]) 1"
  have g: "getopts opts (drop (arg_ndx ?n) args) = (evs, rest)" using assms(5) by (simp add: nextopt_start_def drop_Suc)
  have "parsing opts args ?n" "ondx ?n = 1" "arg_ndx ?n \<le> length args"
    using assms(1-4) by (cases args; simp add: parsing_def nextopt_start_def)+
  from nextopt_all_getopts [OF this g] obtain m
    where m: "nextopt_all (length evs + 1) ?n = Some (evs, m)" and d: "drop (arg_ndx m) args = rest" by blast
  have "length evs + 1 \<le> sum_list (map length args) + 1" using length_getopts [OF assms(5)] assms(4) by (cases args) auto
  from loop_events [OF nextopt_all_mono [OF m this]] d show ?thesis by (auto simp: main_options_def split: sum.splits)
qed

end

section \<open>The control files\<close>

lemma cstr_vlen_loop_spec:
  "args_at (a # args) ss \<Longrightarrow> cstr_vlen_loop n a args = Some (n + length (concat ss))"
proof (induction args arbitrary: a n ss)
  case Nil
  then obtain s where s: "ss = [s]" "cstr_at (fst a) (snd a) s" by (auto simp: args_at_def list_all2_Cons1 split: prod.splits)
  then show ?case using cstr_len_spec by (cases a) auto
next
  case (Cons a' args)
  then obtain s ss' where s: "ss = s # ss'" "cstr_at (fst a) (snd a) s" "args_at (a' # args) ss'"
    by (auto simp: args_at_def list_all2_Cons1 split: prod.splits)
  then show ?case using cstr_len_spec Cons.IH [OF s(3)] by (cases a) auto
qed

lemma cstr_at_cstr_of: "cstr_at (s @ [0]) 0 (cstr_of s)"
proof (induction s)
  case (Cons c s)
  then show ?case by (cases "c = 0") (auto simp: cstr_of_def cstr_at_def)
qed (simp add: cstr_of_def cstr_at_def)

lemma cstr_of_noz [simp]: "0 \<notin> set s \<Longrightarrow> cstr_of s = s" "0 \<notin> set (cstr_of s)" "0 \<notin> set s \<Longrightarrow> cstr_of (s @ 0 # r) = s"
  by (auto simp: cstr_of_def takeWhile_append dest: set_takeWhileD)

lemma control_path_spec:
  "control_path basedir file =
    (let path = cstr_of basedir @ bytes ''/'' @ PERP_CONTROL @ bytes ''/'' @ cstr_of file
     in Some (if length path < 256 then Some path else None))"
proof -
  let ?ps = "[basedir, bytes ''/'', PERP_CONTROL, bytes ''/'', file]"
  let ?parts = "map (\<lambda>s. (s @ [0], 0)) ?ps" and ?ss = "map cstr_of ?ps"
  have lit: "0 \<notin> set (bytes ''/'')" "0 \<notin> set PERP_CONTROL" by (simp_all add: PERP_CONTROL_def bytes_def)
  define path where "path = cstr_of basedir @ bytes ''/'' @ PERP_CONTROL @ bytes ''/'' @ cstr_of file"
  have at: "args_at ?parts ?ss" by (simp add: args_at_def cstr_at_cstr_of)
  have c: "concat ?ss = path" using lit by (simp add: path_def)
  have z: "0 \<notin> set path" using lit by (simp add: path_def)
  have len: "cstr_vlen (hd ?parts) (tl ?parts) = Some (length path)"
  proof -
    have "args_at (hd ?parts # tl ?parts) ?ss" using at by simp
    from cstr_vlen_loop_spec [OF this, of 0, unfolded c] show ?thesis by (simp only: cstr_vlen_def add_0)
  qed
  have "cstr_vcopy (replicate 256 0) 0 ?parts = Some (path @ 0 # replicate (255 - length path) 0, length path)" if "length path < 256"
    using cstr_vcopy_loop_spec [OF at, of 0 "replicate 256 0"] that unfolding c by (simp add: cstr_vcopy_def store_cstr_def)
  then show ?thesis using len z by (auto simp: control_path_def Let_def path_def [symmetric])
qed

section \<open>A packet and its answer\<close>

text \<open>The packet of a request.\<close>

definition req_pkt :: "u8 \<Rightarrow> u8 list \<Rightarrow> buffer" where
  "req_pkt ty payload = [2, ty, word_of_nat (length payload)] @ payload @ replicate (PKT_PAYLOAD - length payload) 0"

lemma req_pkt_simps:
  assumes "length payload \<le> 255"
  shows "length (req_pkt ty payload) = PKT_SIZE" "pkt_len (req_pkt ty payload) = 3 + length payload"
    "take (3 + length payload) (req_pkt ty payload) = [2, ty, word_of_nat (length payload)] @ payload"
  using assms pkt_load_len [OF assms, of 2 ty "payload @ replicate (PKT_PAYLOAD - length payload) 0"]
  by (simp_all add: req_pkt_def pkt_size_simps numeral_3_eq_3)

lemma query_pkt: "pkt_pack (pkt_INIT 2 ty 16) ''LL'' [VU64 d, VU64 i] = Some (req_pkt ty (upak64_pack d @ upak64_pack i))"
  unfolding pkt_pack_def by (subst upak_pack_bytes) (auto simp: pkt_INIT_def req_pkt_def put_at_def pkt_size_simps)

lemma control_pkt:
  "pkt_pack (pkt_INIT 2 ty 18) ''LLbb'' [VU64 d, VU64 i, VInt c, VInt f] = Some (req_pkt ty (upak64_pack d @ upak64_pack i @ [ucast c, ucast f]))"
  unfolding pkt_pack_def by (subst upak_pack_bytes) (auto simp: pkt_INIT_def req_pkt_def put_at_def pkt_size_simps)

text \<open>\<open>delivers evs bs\<close>: reads without error other than EINTR, the last one with data, that carry the bytes.\<close>

definition delivers :: "read_event list \<Rightarrow> u8 list \<Rightarrow> bool" where
  "delivers evs bs \<longleftrightarrow> smooth_reads evs \<and> read_bytes evs = bs \<and> (\<exists>xs. last evs = Rd_data xs)"

lemma smooth_data: "smooth_reads evs \<Longrightarrow> evs \<noteq> [] \<Longrightarrow> \<exists>xs. last evs = Rd_data xs \<Longrightarrow> read_bytes evs \<noteq> []"
proof (induction evs)
  case (Cons e evs)
  then show ?case by (cases e) (auto split: if_splits)
qed simp

lemma pkt_read_loop_whole:
  assumes "holds k n p" and "length k = PKT_SIZE" and "n < pkt_len k" and "smooth_reads evs"
    and "read_bytes evs = drop n (take (pkt_len k) k)" and "\<exists>xs. last evs = Rd_data xs"
  shows "\<exists>p'. pkt_read_loop (evs @ rest) p n offset = (p', rest, Inr (pkt_len k - offset)) \<and> holds k (pkt_len k) p'"
  using assms
proof (induction evs arbitrary: p n)
  case Nil
  then have "length (drop n (take (pkt_len k) k)) = 0" by simp
  then show ?case using Nil.prems(2,3) pkt_len_bound [of k] by simp
next
  case (Cons e evs)
  let ?to = "\<lambda>p n. if n < PKT_HEADER then PKT_HEADER else pkt_len p"
  have to: "n < ?to p n" using holds_len [OF Cons.prems(1) _ Cons.prems(2)] pkt_len_ge [of k] Cons.prems(3) by auto
  show ?case
  proof (cases e)
    case (Rd_data bs)
    have ne: "bs \<noteq> []" using Cons.prems(4) Rd_data by simp
    have bs: "bs @ read_bytes evs = drop n (take (pkt_len k) k)" using Cons.prems(5) Rd_data by simp
    have len: "n + length bs + length (read_bytes evs) = pkt_len k"
      using arg_cong [OF bs, of length] Cons.prems(2,3) pkt_len_bound [of k] by simp
    have fit: "take (PKT_SIZE - n) bs = bs" using len pkt_len_bound [of k] by simp
    have pre: "bs = take (length bs) (drop n k)"
      using arg_cong [OF bs, of "take (length bs)"] len by (simp add: drop_take)
    let ?p = "take n p @ bs @ drop (n + length bs) p"
    have h: "holds k (n + length bs) ?p"
      using holds_extend [OF Cons.prems(1,2) _ pre] len pkt_len_bound [of k] by simp
    have st: "pkt_read_loop ((e # evs) @ rest) p n offset = pkt_read_loop (evs @ rest) ?p (n + length bs) offset"
      using to ne fit Rd_data by (subst pkt_read_loop.simps) (simp add: Let_def)
    show ?thesis
    proof (cases "evs = []")
      case True
      then have nl: "n + length bs = pkt_len k" using len by simp
      have "pkt_len ?p = pkt_len k" using holds_len [OF h _ Cons.prems(2)] nl pkt_len_ge [of k] by simp
      then have "pkt_read_loop rest ?p (n + length bs) offset = (?p, rest, Inr (pkt_len k - offset))"
        using nl pkt_len_ge [of k] by (subst pkt_read_loop.simps) (simp add: Let_def)
      then show ?thesis using st True h nl by simp
    next
      case False
      have "\<exists>xs. last evs = Rd_data xs" using Cons.prems(6) False by simp
      moreover have "smooth_reads evs" using Cons.prems(4) Rd_data by simp
      moreover have r: "read_bytes evs = drop (n + length bs) (take (pkt_len k) k)"
        using arg_cong [OF bs, of "drop (length bs)"] by (simp add: add.commute)
      moreover have "read_bytes evs \<noteq> []" using smooth_data [OF calculation(2) False calculation(1)] .
      then have "n + length bs < pkt_len k" using len by (cases "read_bytes evs") simp_all
      ultimately show ?thesis using Cons.IH [OF h Cons.prems(2)] st by simp
    qed
  next
    case (Rd_err x)
    then have "x = EINTR" "evs \<noteq> []" using Cons.prems(4,6) by auto
    then have "pkt_read_loop ((e # evs) @ rest) p n offset = pkt_read_loop (evs @ rest) p n offset"
      using to Rd_err by (subst pkt_read_loop.simps) (simp add: Let_def)
    then show ?thesis using Cons.IH [OF Cons.prems(1-3)] Cons.prems(4-6) Rd_err \<open>evs \<noteq> []\<close> by simp
  qed (use Cons.prems(4) in simp)
qed

lemma pkt_read_whole:
  assumes "length k = PKT_SIZE" and "length p = PKT_SIZE" and "delivers evs (take (pkt_len k) k)"
  shows "\<exists>p'. pkt_read (evs @ rest) p 0 = (p', rest, Inr (pkt_len k)) \<and> holds k (pkt_len k) p'"
  using pkt_read_loop_whole [of k 0 p evs rest 0] assms pkt_len_ge [of k]
  by (auto simp: pkt_read_def delivers_def holds_def PKT_HEADER_def)

lemma holds_fields:
  assumes "holds k (pkt_len k) p" and "length k = PKT_SIZE"
  shows "pkt_proto p = pkt_proto k" "pkt_type p = pkt_type k" "pkt_dlen p = pkt_dlen k" "pkt_len p = pkt_len k"
    "take (pkt_dlen k) (pkt_data p) = take (pkt_dlen k) (pkt_data k)" "length p = PKT_SIZE"
proof -
  have t: "take (pkt_len k) p = take (pkt_len k) k" and l: "length p = PKT_SIZE" using assms(1) by (auto simp: holds_def)
  have n: "p ! i = k ! i" if "i < 3" for i
    using arg_cong [OF t, of "\<lambda>xs. xs ! i"] that pkt_len_ge [of k] by (simp add: PKT_HEADER_def)
  show "pkt_proto p = pkt_proto k" "pkt_type p = pkt_type k" "pkt_dlen p = pkt_dlen k" "pkt_len p = pkt_len k" "length p = PKT_SIZE"
    using n l by (simp_all add: pkt_proto_def pkt_type_def pkt_dlen_def pkt_len_def)
  show "take (pkt_dlen k) (pkt_data p) = take (pkt_dlen k) (pkt_data k)"
    using arg_cong [OF t, of "drop 3"] by (simp add: pkt_data_def pkt_len_def pkt_dlen_def PKT_HEADER_def drop_take)
qed

text \<open>The daemon executes a request when its bytes have arrived, in however many pieces.\<close>

lemma conn_receives:
  assumes "length (conn_pkt dc) = PKT_SIZE" and "conn_n dc = 0" and "length payload \<le> 255" and "delivers evs (take (3 + length payload) (req_pkt ty payload))"
  shows "\<exists>dc1. perpd_conn_read evs p dc = perpd_conn_exec p dc1 \<and> request ty payload dc1"
proof -
  let ?k = "req_pkt ty payload"
  note rq = req_pkt_simps [OF assms(3), of ty]
  obtain p' where p': "pkt_read evs (conn_pkt dc) 0 = (p', [], Inr (pkt_len ?k))" "holds ?k (pkt_len ?k) p'"
    using pkt_read_whole [OF rq(1) assms(1), of evs "[]"] assms(4) rq(2) by auto
  note f = holds_fields [OF p'(2) rq(1)]
  let ?dc1 = "dc\<lparr>conn_pkt := p', conn_n := pkt_len ?k\<rparr>"
  have d: "pkt_dlen ?k = length payload" using rq(2) by (simp add: pkt_dlen_def pkt_len_def PKT_HEADER_def)
  have "take (length payload) (pkt_data ?k) = payload" "pkt_proto ?k = 2" "pkt_type ?k = ty"
    by (simp_all add: req_pkt_def pkt_data_def pkt_proto_def pkt_type_def)
  then have "request ty payload ?dc1" using f d by (simp add: request_def)
  moreover have "perpd_conn_read evs p dc = perpd_conn_exec p ?dc1"
    using p'(1) assms(2) f(4) rq(2) pkt_len_ge [of ?k] by (simp add: perpd_conn_read_def perpd_pkt_check_def)
  ultimately show ?thesis by blast
qed

text \<open>\<open>served p dc lk pkt rest p'\<close>: the client writes the whole packet, the daemon in state \<open>p\<close> reads it on the idle connection \<open>dc\<close> and is
  left in state \<open>p'\<close>, and the next reads of the client carry the packet of its answer and leave \<open>rest\<close>.\<close>

definition served :: "perpd \<Rightarrow> perpd_conn \<Rightarrow> link \<Rightarrow> buffer \<Rightarrow> read_event list \<Rightarrow> perpd \<Rightarrow> bool" where
  "served p dc lk pkt rest p' \<longleftrightarrow> conn_n dc = 0 \<and> length (conn_pkt dc) = PKT_SIZE \<and>
     snd (pkt_write (lk_writes lk) pkt 0) = Inr (pkt_len pkt) \<and>
     (\<exists>evs dc' revs. delivers evs (take (pkt_len pkt) pkt) \<and> perpd_conn_read evs p dc = (p', dc') \<and>
        lk_reads lk = revs @ rest \<and> delivers revs (take (conn_n dc') (conn_pkt dc')))"

text \<open>The packet the client holds after the exchange.\<close>

definition received :: "u8 \<Rightarrow> u8 list \<Rightarrow> buffer \<Rightarrow> bool" where
  "received ty payload k \<longleftrightarrow> length k = PKT_SIZE \<and> k ! 0 = 2 \<and> k ! 1 = ty \<and> take (length payload) (drop 3 k) = payload"

lemma received_unpack32: "received ty (upak32_pack u) k \<Longrightarrow> upak32_unpack (drop 3 k) = Some u"
proof -
  assume "received ty (upak32_pack u) k"
  then have "upak32_pack u @ drop 4 (drop 3 k) = drop 3 k" by (metis append_take_drop_id length_upak32_pack received_def)
  then show ?thesis using upak32.unpack_pack [of u "drop 4 (drop 3 k)"] by (simp add: take_bit_word_eq_self)
qed

lemma served_exchange:
  assumes "served p dc lk (req_pkt ty payload) rest p'" and "length payload \<le> 255"
  obtains dc1 dc' where "request ty payload dc1" and "perpd_conn_exec p dc1 = (p', dc')"
    and "\<forall>ty' payload'. answers ty' payload' dc1 dc' \<longrightarrow>
      (\<exists>lk' k. pkt_exchange lk (req_pkt ty payload) = (lk', Inr k) \<and> lk_reads lk' = rest \<and> received ty' payload' k)"
proof -
  let ?k = "req_pkt ty payload"
  note rq = req_pkt_simps [OF assms(2), of ty]
  obtain evs dc' revs where s: "length (conn_pkt dc) = PKT_SIZE" "conn_n dc = 0" "snd (pkt_write (lk_writes lk) ?k 0) = Inr (pkt_len ?k)"
      "delivers evs (take (3 + length payload) ?k)" "perpd_conn_read evs p dc = (p', dc')" "lk_reads lk = revs @ rest"
      "delivers revs (take (conn_n dc') (conn_pkt dc'))"
    using assms(1) rq(2) by (auto simp: served_def)
  obtain dc1 where dc1: "perpd_conn_exec p dc1 = (p', dc')" "request ty payload dc1"
    using conn_receives [OF s(1,2) assms(2) s(4), of p] s(5) by auto
  obtain ws where w: "pkt_write (lk_writes lk) ?k 0 = (ws, Inr (pkt_len ?k))" using s(3) by (cases "pkt_write (lk_writes lk) ?k 0") auto
  have "\<exists>lk' k. pkt_exchange lk ?k = (lk', Inr k) \<and> lk_reads lk' = rest \<and> received ty' payload' k"
    if a: "answers ty' payload' dc1 dc'" for ty' payload'
  proof -
    let ?r = "conn_pkt dc'"
    have r: "length ?r = PKT_SIZE" "conn_n dc' = pkt_len ?r" "pkt_dlen ?r = length payload'" using a by (auto simp: answers_def)
    obtain k where k: "pkt_read (revs @ rest) ?k 0 = (k, rest, Inr (pkt_len ?r))" "holds ?r (pkt_len ?r) k"
      using pkt_read_whole [OF r(1) rq(1)] s(7) r(2) by metis
    have "received ty' payload' k"
      using holds_fields [OF k(2) r(1)] a r by (simp add: received_def answers_def pkt_proto_def pkt_type_def pkt_data_def)
    then show ?thesis using w k(1) s(6) by (auto simp: pkt_exchange_def)
  qed
  with dc1 that show ?thesis by blast
qed

text \<open>A status query.\<close>

definition query_req :: "stat \<Rightarrow> buffer" where
  "query_req st = req_pkt (cmd CHR ''Q'') (upak64_pack (st_dev st) @ upak64_pack (st_ino st))"

lemma query_payload: "length (upak64_pack d @ upak64_pack i) \<le> 255"
  by simp

lemma received_data: "received ty payload k \<Longrightarrow> \<exists>rest. pkt_data k = payload @ rest"
  unfolding received_def pkt_data_def by (metis append_take_drop_id)

lemma served_query:
  assumes "served p dc lk (query_req st) rest p'"
  shows "p' = p" and "\<exists>lk' k. pkt_exchange lk (query_req st) = (lk', Inr k) \<and> lk_reads lk' = rest \<and>
    (case perpd_lookup p (st_dev st) (st_ino st) of
       None \<Rightarrow> received (cmd CHR ''E'') (upak32_pack (word_of_int ENOTDIR)) k
     | Some j \<Rightarrow> received (cmd CHR ''S'') (status_bytes (psys p) (svdefs p ! j)) k)"
proof -
  obtain dc1 dc' where rq: "request (cmd CHR ''Q'') (upak64_pack (st_dev st) @ upak64_pack (st_ino st)) dc1"
    and ex: "perpd_conn_exec p dc1 = (p', dc')"
    and xc: "\<forall>ty' pl. answers ty' pl dc1 dc' \<longrightarrow>
      (\<exists>lk' k. pkt_exchange lk (query_req st) = (lk', Inr k) \<and> lk_reads lk' = rest \<and> received ty' pl k)"
    using served_exchange [OF assms [unfolded query_req_def]] unfolding query_req_def by (metis (no_types) query_payload)
  note q = exec_query_status [OF rq, of p]
  show "p' = p" using q(1) ex by simp
  have dc': "dc' = perpd_conn_exec_query p dc1" using q(1) ex by simp
  show "\<exists>lk' k. pkt_exchange lk (query_req st) = (lk', Inr k) \<and> lk_reads lk' = rest \<and>
    (case perpd_lookup p (st_dev st) (st_ino st) of
       None \<Rightarrow> received (cmd CHR ''E'') (upak32_pack (word_of_int ENOTDIR)) k
     | Some j \<Rightarrow> received (cmd CHR ''S'') (status_bytes (psys p) (svdefs p ! j)) k)"
  proof (cases "perpd_lookup p (st_dev st) (st_ino st)")
    case None
    then show ?thesis using xc q(2) [OF None] dc' by auto
  next
    case (Some j)
    then show ?thesis using xc q(3) [OF Some] dc' by auto
  qed
qed

text \<open>A connection on which the packet and its answer pass in one piece each.\<close>

definition direct_link :: "perpd \<Rightarrow> perpd_conn \<Rightarrow> buffer \<Rightarrow> link" where
  "direct_link p dc pkt =
     (let dc' = snd (perpd_conn_read [Rd_data (take (pkt_len pkt) pkt)] p dc)
      in \<lparr>lk_writes = [Wr_count (pkt_len pkt)], lk_reads = [Rd_data (take (conn_n dc') (conn_pkt dc'))], lk_sent = []\<rparr>)"

lemma served_direct:
  assumes "length payload \<le> 255" and "length (conn_pkt dc) = PKT_SIZE" and "conn_n dc = 0"
    and "\<And>dc1. request ty payload dc1 \<Longrightarrow> \<exists>ty' pl. answers ty' pl dc1 (snd (perpd_conn_exec p dc1))"
  shows "\<exists>p'. served p dc (direct_link p dc (req_pkt ty payload)) (req_pkt ty payload) [] p'"
proof -
  let ?k = "req_pkt ty payload"
  note rq = req_pkt_simps [OF assms(1), of ty]
  have d: "delivers [Rd_data (take (pkt_len ?k) ?k)] (take (pkt_len ?k) ?k)" using rq by (simp add: delivers_def)
  then obtain dc1 where dc1: "perpd_conn_read [Rd_data (take (pkt_len ?k) ?k)] p dc = perpd_conn_exec p dc1" "request ty payload dc1"
    using conn_receives [OF assms(2,3,1), of _ ty p] rq(2) by metis
  obtain p' dc' where ex: "perpd_conn_exec p dc1 = (p', dc')" by force
  then obtain ty' pl where a: "answers ty' pl dc1 dc'" using assms(4) [OF dc1(2)] by auto
  then have "take (conn_n dc') (conn_pkt dc') \<noteq> []"
    using pkt_len_ge [of "conn_pkt dc'"] by (auto simp: answers_def pkt_size_simps)
  then have r: "delivers [Rd_data (take (conn_n dc') (conn_pkt dc'))] (take (conn_n dc') (conn_pkt dc'))" by (simp add: delivers_def)
  have "snd (pkt_write [Wr_count (pkt_len ?k)] ?k 0) = Inr (pkt_len ?k)"
    using pkt_len_ge [of ?k] by (simp add: pkt_write_def pkt_write_loop.simps PKT_HEADER_def)
  then have "served p dc (direct_link p dc ?k) ?k [] p'"
    using assms(2,3) d r ex dc1(1) by (auto simp: served_def direct_link_def)
  then show ?thesis ..
qed

text \<open>A system with one activated service directory.\<close>

definition cenv0 :: "link \<Rightarrow> cenv" where
  "cenv0 lk = \<lparr>env_base = None, env_chdir = (\<lambda>_. True), env_stat = (\<lambda>_. Inr \<lparr>st_dev = 0, st_ino = 0, st_mode = 0x43ed\<rparr>),
     env_connect = (\<lambda>_. Some lk), env_now = Tain 100 0\<rparr>"

lemma served_query_direct:
  assumes "length (conn_pkt dc) = PKT_SIZE" and "conn_n dc = 0"
  shows "\<exists>p'. served p dc (direct_link p dc (query_req st)) (query_req st) [] p'"
  unfolding query_req_def
proof (rule served_direct [OF query_payload assms])
  fix dc1 assume rq: "request (cmd CHR ''Q'') (upak64_pack (st_dev st) @ upak64_pack (st_ino st)) dc1"
  show "\<exists>ty' pl. answers ty' pl dc1 (snd (perpd_conn_exec p dc1))"
    using exec_query_status [OF rq, of p] by (cases "perpd_lookup p (st_dev st) (st_ino st)") auto
qed

end
