(* ===== verification/Perpctl.thy ===== *)
theory Perpctl
  imports Perp_Client
begin

text \<open>
  The control program, \<open>src/perp/perpctl.c\<close>: its options, the activation of services by the sticky bit of their directories (\<open>do_sticky\<close>),
  the control commands sent to perpd (\<open>do_control\<close>), and \<open>main\<close>.  The messages are values, in the order in which they are written; a
  report that the option \<open>-q\<close> drops is absent.
\<close>

section \<open>Definitions\<close>

text \<open>\<open>chmod()\<close> works, \<open>pidlock_check()\<close> of the lockfile, \<open>kill(pid, SIGHUP)\<close> works.\<close>

record ctlenv = cenv +
  env_chmod :: "u8 list \<Rightarrow> nat \<Rightarrow> bool"
  env_lock :: "u8 list \<Rightarrow> int"
  env_hup :: "int \<Rightarrow> bool"

record ctlopts =
  ctl_basedir :: "u8 list option"
  opt_g :: nat
  opt_L :: nat
  opt_q :: nat

datatype ctl_msg =
    Ok_set bool | Ok | Triggered nat | Not_found | Not_directory | Not_activated | Chmod_error
  | Write_error int | Read_error int | Unknown_protocol | Unknown_type | Reported int

datatype ctl_effect = Says "u8 list" ctl_msg | Chmods "u8 list" nat | Hups int

text \<open>The result of a part of the program: the exit code, or the count of errors, after some effects.\<close>

type_synonym ctl_result = "ctl_effect list \<times> (int + nat)"

subsection \<open>Activation\<close>

text \<open>\<open>st.st_mode | S_ISVTX\<close> and \<open>st.st_mode & ~S_ISVTX\<close>.\<close>

definition sticky_mode :: "bool \<Rightarrow> nat \<Rightarrow> nat" where
  "sticky_mode on m = (if on then set_bit 9 m else unset_bit 9 m)"

text \<open>The loop over the directories: effects, errors, and directories set.\<close>

fun sticky_loop :: "ctlenv \<Rightarrow> bool \<Rightarrow> nat \<Rightarrow> u8 list list \<Rightarrow> nat \<Rightarrow> nat \<Rightarrow> ctl_effect list \<times> nat \<times> nat" where
  "sticky_loop env on q [] errs cnt = ([], errs, cnt)"
| "sticky_loop env on q (d # ds) errs cnt =
     (case env_stat env d of
        Inl _ \<Rightarrow> apfst ((@) [Says d Not_found]) (sticky_loop env on q ds (errs + 1) cnt)
      | Inr st \<Rightarrow>
          if \<not> S_ISDIR (st_mode st) then apfst ((@) [Says d Not_directory]) (sticky_loop env on q ds (errs + 1) cnt)
          else if \<not> env_chmod env d (sticky_mode on (st_mode st)) then
            apfst ((@) [Says d Chmod_error]) (sticky_loop env on q ds (errs + 1) cnt)
          else
            apfst ((@) ([Chmods d (sticky_mode on (st_mode st))] @ (if q = 0 then [Says d (Ok_set on)] else [])))
              (sticky_loop env on q ds errs (cnt + 1)))"

definition do_sticky :: "ctlenv \<Rightarrow> u8 list \<Rightarrow> bool \<Rightarrow> nat \<Rightarrow> u8 list list \<Rightarrow> ctl_result option" where
  "do_sticky env basedir on q names = do {
     let (effs, errs, cnt) = sticky_loop env on q names 0 0;
     path \<leftarrow> control_path basedir PERPD_PIDLOCK;
     Some (case path of
       None \<Rightarrow> (effs, Inl 111)
     | Some path \<Rightarrow>
         (let lockpid = env_lock env path
          in if lockpid = -1 then (effs, Inl 111)
             else if lockpid = 0 then (effs, Inl 111)
             else if \<not> env_hup env lockpid then (effs, Inl 111)
             else (effs @ [Hups lockpid] @ (if q = 0 then [Says [] (Triggered cnt)] else []), Inr errs))) }"

subsection \<open>Control\<close>

text \<open>What a round of the loop of \<open>do_control\<close> makes of the exchange.\<close>

definition control_reply :: "xfail + buffer \<Rightarrow> ctl_msg option" where
  "control_reply r =
     (case r of
        Inl (Write_fail e) \<Rightarrow> Some (Write_error e)
      | Inl (Read_fail e) \<Rightarrow> Some (Read_error e)
      | Inr pkt \<Rightarrow>
          if pkt ! 0 \<noteq> 2 then Some Unknown_protocol
          else if pkt ! 1 \<noteq> cmd CHR ''E'' then Some Unknown_type
          else do {
            e \<leftarrow> upak32_unpack (drop 3 pkt);
            Some (if sint e \<noteq> 0 then Reported (sint e) else Ok) })"

definition control_service :: "ctlenv \<Rightarrow> u8 \<Rightarrow> u8 \<Rightarrow> link \<Rightarrow> u8 list \<Rightarrow> (link \<times> ctl_msg) option" where
  "control_service env cmd0 cmd1 lk name =
     (case env_stat env name of
        Inl _ \<Rightarrow> Some (lk, Not_found)
      | Inr st \<Rightarrow>
          if \<not> S_ISDIR (st_mode st) then Some (lk, Not_directory)
          else if \<not> S_ISVTX (st_mode st) then Some (lk, Not_activated)
          else do {
            pkt \<leftarrow> pkt_pack (pkt_INIT 2 (cmd CHR ''C'') 18) ''LLbb'' [VU64 (st_dev st), VU64 (st_ino st), VInt (ucast cmd0), VInt (ucast cmd1)];
            let (lk, r) = pkt_exchange lk pkt;
            m \<leftarrow> control_reply r;
            Some (lk, m) })"

fun control_loop :: "ctlenv \<Rightarrow> u8 \<Rightarrow> u8 \<Rightarrow> nat \<Rightarrow> link \<Rightarrow> u8 list list \<Rightarrow> nat \<Rightarrow> (ctl_effect list \<times> nat) option" where
  "control_loop env cmd0 cmd1 q lk [] errs = Some ([], errs)"
| "control_loop env cmd0 cmd1 q lk (a # as) errs = do {
     (lk, m) \<leftarrow> control_service env cmd0 cmd1 lk a;
     (effs, errs) \<leftarrow> control_loop env cmd0 cmd1 q lk as (if m = Ok then errs else errs + 1);
     Some ((if m = Ok \<and> q \<noteq> 0 then [] else [Says a m]) @ effs, errs) }"

definition ctl_do_control :: "ctlenv \<Rightarrow> u8 list \<Rightarrow> u8 \<Rightarrow> u8 \<Rightarrow> nat \<Rightarrow> u8 list list \<Rightarrow> ctl_result option" where
  "ctl_do_control env basedir cmd0 cmd1 q names = do {
     path \<leftarrow> control_path basedir PERPD_SOCKET;
     case path of
       None \<Rightarrow> Some ([], Inl 111)
     | Some path \<Rightarrow>
         (case env_connect env path of
            None \<Rightarrow> Some ([], Inl 111)
          | Some lk \<Rightarrow> do {
              (effs, errs) \<leftarrow> control_loop env cmd0 cmd1 q lk names 0;
              Some (effs, Inr errs) }) }"

subsection \<open>The program\<close>

definition perpctl_option :: "u8 \<Rightarrow> u8 list option \<Rightarrow> ctlopts \<Rightarrow> int + ctlopts" where
  "perpctl_option opt arg o1 =
     (if opt = cmd CHR ''h'' then Inl 0
      else if opt = cmd CHR ''V'' then Inl 0
      else if opt = cmd CHR ''b'' then Inr (o1\<lparr>ctl_basedir := arg\<rparr>)
      else if opt = cmd CHR ''g'' then Inr (o1\<lparr>opt_g := opt_g o1 + 1\<rparr>)
      else if opt = cmd CHR ''L'' then Inr (o1\<lparr>opt_L := opt_L o1 + 1\<rparr>)
      else if opt = cmd CHR ''q'' then Inr (o1\<lparr>opt_q := opt_q o1 + 1\<rparr>)
      else Inl 100)"

text \<open>The control command: its sticky flag and the second byte, or the exit code.\<close>

definition perpctl_command :: "u8 \<Rightarrow> ctlopts \<Rightarrow> int + (bool option \<times> u8)" where
  "perpctl_command c o1 =
     (if c = cmd CHR ''A'' then Inr (Some True, 0)
      else if c = cmd CHR ''X'' then Inr (Some False, 0)
      else if c \<in> set (bytes ''duopcahikqtw12'') then Inr (None, if opt_L o1 \<noteq> 0 then SVCMD_FLAG_LOG else 0)
      else if c \<in> set (bytes ''DU'') then (if opt_L o1 \<noteq> 0 then Inl 100 else Inr (None, 0))
      else Inl 100)"

text \<open>\<open>main\<close> after the options, with the arguments that are left; the exit code comes last.\<close>

definition perpctl_run :: "ctlenv \<Rightarrow> ctlopts \<Rightarrow> u8 list list \<Rightarrow> (ctl_effect list \<times> int) option" where
  "perpctl_run env o1 args =
     (case args of
        [] \<Rightarrow> Some ([], 100)
      | a # names \<Rightarrow>
          (case perpctl_command (hd (a @ [0])) o1 of
             Inl code \<Rightarrow> Some ([], code)
           | Inr (sticky, cmd1) \<Rightarrow>
               if names = [] then Some ([], 100)
               else
                 (let basedir = base_dir True (ctl_basedir o1) (env_base env)
                  in if \<not> env_chdir env basedir then Some ([], 111)
                     else do {
                       (effs, r) \<leftarrow>
                         (case sticky of
                            Some on \<Rightarrow> do_sticky env basedir on (opt_q o1) names
                          | None \<Rightarrow>
                              ctl_do_control env basedir (hd (a @ [0])) (if opt_g o1 \<noteq> 0 then set_flag cmd1 SVCMD_FLAG_KILLPG else cmd1) (opt_q o1) names);
                       Some (effs, case r of Inl code \<Rightarrow> code | Inr errs \<Rightarrow> if errs \<noteq> 0 then 111 else 0) })))"

definition perpctl_main :: "ctlenv \<Rightarrow> u8 list list \<Rightarrow> (ctl_effect list \<times> int) option" where
  "perpctl_main env args = do {
     r \<leftarrow> main_options perpctl_option (bytes '':hVb:gLq'') args \<lparr>ctl_basedir = None, opt_g = 0, opt_L = 0, opt_q = 0\<rparr>;
     case r of Inl code \<Rightarrow> Some ([], code) | Inr (o1, rest) \<Rightarrow> perpctl_run env o1 rest }"

interpretation ctl_options: program_options perpctl_option
  by unfold_locales (simp_all add: perpctl_option_def)

section \<open>Lemmas\<close>

text \<open>Messages that count as errors.\<close>

fun is_error :: "ctl_msg \<Rightarrow> bool" where
  "is_error Ok \<longleftrightarrow> False"
| "is_error (Ok_set on) \<longleftrightarrow> False"
| "is_error (Triggered n) \<longleftrightarrow> False"
| "is_error m \<longleftrightarrow> True"

lemma sticky_mode_bits: "bit (sticky_mode on m) i \<longleftrightarrow> (if i = 9 then on else bit m i)"
  by (auto simp: sticky_mode_def bit_simps)

lemma S_ISVTX_bit: "S_ISVTX m \<longleftrightarrow> bit m 9"
  by (simp add: S_ISVTX_def bit_iff_odd)

lemma pkt_exchange_length: "length pkt = PKT_SIZE \<Longrightarrow> pkt_exchange lk pkt = (lk', Inr k) \<Longrightarrow> length k = PKT_SIZE"
  using pkt_read_length [of pkt "lk_reads lk" 0] by (auto simp: pkt_exchange_def Let_def split: prod.splits sum.splits)

definition control_req :: "stat \<Rightarrow> u8 \<Rightarrow> u8 \<Rightarrow> buffer" where
  "control_req st c f = req_pkt (cmd CHR ''C'') (upak64_pack (st_dev st) @ upak64_pack (st_ino st) @ [c, f])"

lemma control_payload: "length (upak64_pack d @ upak64_pack i @ [c, f]) \<le> 255"
  by simp

lemma control_service_active:
  assumes "env_stat env a = Inr st" and "S_ISDIR (st_mode st)" and "S_ISVTX (st_mode st)"
  shows "control_service env c f lk a = do { let (lk, r) = pkt_exchange lk (control_req st c f); m \<leftarrow> control_reply r; Some (lk, m) }"
  using assms by (simp add: control_service_def control_req_def control_pkt ucast_up_ucast_id is_up)

lemma control_reply_total: "(\<And>pkt. r = Inr pkt \<Longrightarrow> length pkt = PKT_SIZE) \<Longrightarrow> \<exists>m. control_reply r = Some m \<and> (m = Ok \<or> is_error m)"
proof (cases r)
  case (Inl e)
  then show ?thesis by (cases e) (simp_all add: control_reply_def)
next
  case (Inr pkt)
  assume "\<And>pkt. r = Inr pkt \<Longrightarrow> length pkt = PKT_SIZE"
  then obtain e where "upak32_unpack (drop 3 pkt) = Some e" using Inr upak32.unpack_defined [of "drop 3 pkt"] by (auto simp: pkt_size_simps)
  then show ?thesis using Inr by (simp add: control_reply_def)
qed

lemma control_service_total:
  obtains lk' m where "control_service env c f lk a = Some (lk', m)" and "m = Ok \<or> is_error m"
proof (cases "env_stat env a")
  case (Inr st)
  show ?thesis
  proof (cases "S_ISDIR (st_mode st) \<and> S_ISVTX (st_mode st)")
    case True
    obtain lk' r where x: "pkt_exchange lk (control_req st c f) = (lk', r)" by force
    have "length (control_req st c f) = PKT_SIZE" unfolding control_req_def by (rule req_pkt_simps) simp
    from control_reply_total [of r] pkt_exchange_length [OF this] x
    obtain m where "control_reply r = Some m" "m = Ok \<or> is_error m" by blast
    then show ?thesis using that control_service_active [OF Inr, of c f lk] True x by simp
  next
    case False
    then have "control_service env c f lk a = Some (lk, if \<not> S_ISDIR (st_mode st) then Not_directory else Not_activated)"
      using Inr by (auto simp: control_service_def)
    from that [OF this] show ?thesis by (auto split: if_splits)
  qed
qed (use that in \<open>auto simp: control_service_def\<close>)

lemma control_loop_total:
  "\<exists>effs n. control_loop env c f q lk names errs = Some (effs, errs + n) \<and>
     (\<forall>e \<in> set effs. \<exists>a m. e = Says a m \<and> a \<in> set names \<and> (m = Ok \<or> is_error m)) \<and>
     n = length (filter (\<lambda>e. \<exists>a m. e = Says a m \<and> is_error m) effs) \<and>
     (q = 0 \<longrightarrow> map (\<lambda>e. case e of Says a m \<Rightarrow> a) effs = names)"
proof (induction names arbitrary: lk errs)
  case (Cons a as)
  obtain lk' m where c: "control_service env c f lk a = Some (lk', m)" "m = Ok \<or> is_error m" by (rule control_service_total)
  obtain effs n where "control_loop env c f q lk' as (if m = Ok then errs else errs + 1) = Some (effs, (if m = Ok then errs else errs + 1) + n)"
      "\<forall>e \<in> set effs. \<exists>a m. e = Says a m \<and> a \<in> set as \<and> (m = Ok \<or> is_error m)"
      "n = length (filter (\<lambda>e. \<exists>a m. e = Says a m \<and> is_error m) effs)" "q = 0 \<longrightarrow> map (\<lambda>e. case e of Says a m \<Rightarrow> a) effs = as"
    using Cons.IH by blast
  then show ?case using c by (cases "m = Ok") auto
qed simp

lemma sticky_loop_spec:
  "sticky_loop env on q ds errs cnt = (effs, errs', cnt') \<Longrightarrow>
     errs' = errs + length (filter (\<lambda>e. \<exists>a m. e = Says a m \<and> is_error m) effs) \<and>
     cnt' = cnt + length (filter (\<lambda>e. \<exists>d m. e = Chmods d m) effs) \<and> (errs' - errs) + (cnt' - cnt) = length ds \<and>
     (\<forall>d m. Chmods d m \<in> set effs \<longrightarrow> d \<in> set ds \<and> (\<exists>st. env_stat env d = Inr st \<and> S_ISDIR (st_mode st) \<and> m = sticky_mode on (st_mode st))) \<and>
     (\<forall>pid. Hups pid \<notin> set effs)"
proof (induction ds arbitrary: errs cnt effs errs' cnt')
  case (Cons d ds)
  show ?case
  proof (cases "env_stat env d")
    case (Inl x)
    then show ?thesis using Cons by (cases "sticky_loop env on q ds (errs + 1) cnt") fastforce
  next
    case (Inr st)
    consider "\<not> S_ISDIR (st_mode st)" | "S_ISDIR (st_mode st)" "\<not> env_chmod env d (sticky_mode on (st_mode st))"
      | "S_ISDIR (st_mode st)" "env_chmod env d (sticky_mode on (st_mode st))" by blast
    then show ?thesis
    proof cases
      case 3
      obtain e er c where l: "sticky_loop env on q ds errs (cnt + 1) = (e, er, c)" by (metis prod_cases3)
      then show ?thesis using Cons.IH [OF l] l Cons.prems Inr 3 by (cases "q = 0") auto
    qed (use Inr Cons in \<open>cases "sticky_loop env on q ds (errs + 1) cnt"; fastforce\<close>)+
  qed
qed simp

lemma do_sticky_result:
  "\<exists>effs r. do_sticky env basedir on q names = Some (effs, r) \<and>
     (r = Inl 111 \<or> (\<exists>errs. r = Inr errs \<and> (errs = 0 \<longrightarrow> (\<forall>a m. Says a m \<in> set effs \<longrightarrow> \<not> is_error m))))"
proof -
  obtain effs errs cnt where l: "sticky_loop env on q names 0 0 = (effs, errs, cnt)" by (metis prod_cases3)
  have "errs = 0 \<longrightarrow> (\<forall>a m. Says a m \<in> set effs \<longrightarrow> \<not> is_error m)"
    using sticky_loop_spec [OF l] by (auto simp: filter_empty_conv)
  then show ?thesis using l control_path_spec [of basedir PERPD_PIDLOCK] by (auto simp: do_sticky_def Let_def)
qed

lemma ctl_do_control_result:
  "\<exists>effs r. ctl_do_control env basedir c f q names = Some (effs, r) \<and>
     (r = Inl 111 \<or> (\<exists>errs. r = Inr errs \<and> (errs = 0 \<longrightarrow> (\<forall>a m. Says a m \<in> set effs \<longrightarrow> \<not> is_error m) \<and>
        (q = 0 \<longrightarrow> effs = map (\<lambda>a. Says a Ok) names))))"
proof -
  obtain path where p: "control_path basedir PERPD_SOCKET = Some path" using control_path_spec by (metis (no_types))
  show ?thesis
  proof (cases "path = None \<or> env_connect env (the path) = None")
    case True
    then show ?thesis using p by (cases path) (auto simp: ctl_do_control_def)
  next
    case False
    then obtain lk where lk: "path \<noteq> None" "env_connect env (the path) = Some lk" by auto
    obtain effs n where l: "control_loop env c f q lk names 0 = Some (effs, n)"
        "\<forall>e \<in> set effs. \<exists>a m. e = Says a m \<and> a \<in> set names \<and> (m = Ok \<or> is_error m)"
        "n = length (filter (\<lambda>e. \<exists>a m. e = Says a m \<and> is_error m) effs)" "q = 0 \<longrightarrow> map (\<lambda>e. case e of Says a m \<Rightarrow> a) effs = names"
      using control_loop_total [of env c f q lk names 0] by auto
    have "n = 0 \<Longrightarrow> \<forall>e \<in> set effs. \<exists>a. e = Says a Ok" using l(2,3) by (fastforce simp: filter_empty_conv)
    then have ok: "n = 0 \<Longrightarrow> effs = map (\<lambda>a. Says a Ok) (map (\<lambda>e. case e of Says a m \<Rightarrow> a) effs)"
      by (simp add: comp_def) (smt (verit) ctl_effect.case(1) map_idI)
    show ?thesis
      using p lk l ok by (auto simp: ctl_do_control_def filter_empty_conv)
  qed
qed

lemma run_events_code: "run_events perpctl_option evs o1 = Inl code \<Longrightarrow> code \<in> {0, 100}"
proof (induction evs arbitrary: o1)
  case (Cons e evs)
  then show ?case
    by (cases e) (auto simp: perpctl_option_def split: if_splits sum.splits)
qed simp

lemma perpctl_run_result:
  "\<exists>effs code. perpctl_run env o1 args = Some (effs, code) \<and> code \<in> {0, 100, 111} \<and>
    (code = 0 \<longrightarrow> (\<forall>a m. Says a m \<in> set effs \<longrightarrow> \<not> is_error m)) \<and>
    (\<forall>c names. code = 0 \<and> args = c # names \<and> hd (c @ [0]) \<notin> set (bytes ''AX'') \<and> opt_q o1 = 0 \<longrightarrow> effs = map (\<lambda>a. Says a Ok) names)"
proof (cases args)
  case (Cons a names)
  show ?thesis
  proof (cases "perpctl_command (hd (a @ [0])) o1")
    case (Inl code)
    then have "code = 100" by (auto simp: perpctl_command_def split: if_splits)
    then show ?thesis using Inl Cons by (simp add: perpctl_run_def)
  next
    case (Inr sc)
    obtain sticky cmd1 where sc: "sc = (sticky, cmd1)" by force
    have st: "hd (a @ [0]) \<notin> set (bytes ''AX'') \<Longrightarrow> sticky = None"
      using Inr sc by (auto simp: perpctl_command_def bytes_def split: if_splits)
    define b where "b = base_dir True (ctl_basedir o1) (env_base env)"
    define f where "f = (if opt_g o1 \<noteq> 0 then set_flag cmd1 SVCMD_FLAG_KILLPG else cmd1)"
    have run: "perpctl_run env o1 args =
        (if names = [] then Some ([], 100) else if \<not> env_chdir env b then Some ([], 111)
         else do {
           (effs, r) \<leftarrow> (case sticky of Some on \<Rightarrow> do_sticky env b on (opt_q o1) names
             | None \<Rightarrow> ctl_do_control env b (hd (a @ [0])) f (opt_q o1) names);
           Some (effs, case r of Inl code \<Rightarrow> code | Inr errs \<Rightarrow> if errs \<noteq> 0 then 111 else 0) })"
      unfolding perpctl_run_def b_def f_def Let_def using Inr sc Cons by simp
    show ?thesis
    proof (cases "names = [] \<or> \<not> env_chdir env b")
      case True
      then show ?thesis unfolding run by auto
    next
      case False
      show ?thesis
      proof (cases sticky)
        case None
        obtain effs r where d: "ctl_do_control env b (hd (a @ [0])) f (opt_q o1) names = Some (effs, r)"
          and r: "r = Inl 111 \<or> (\<exists>errs. r = Inr errs \<and> (errs = 0 \<longrightarrow> (\<forall>a m. Says a m \<in> set effs \<longrightarrow> \<not> is_error m) \<and>
            (opt_q o1 = 0 \<longrightarrow> effs = map (\<lambda>a. Says a Ok) names)))"
          using ctl_do_control_result [of env b "hd (a @ [0])" f "opt_q o1" names] by auto
        have "perpctl_run env o1 args = Some (effs, case r of Inl code \<Rightarrow> code | Inr errs \<Rightarrow> if errs \<noteq> 0 then 111 else 0)"
          unfolding run using False None d by simp
        then show ?thesis using r Cons by (auto split: if_splits)
      next
        case (Some on)
        obtain effs r where d: "do_sticky env b on (opt_q o1) names = Some (effs, r)"
          and r: "r = Inl 111 \<or> (\<exists>errs. r = Inr errs \<and> (errs = 0 \<longrightarrow> (\<forall>a m. Says a m \<in> set effs \<longrightarrow> \<not> is_error m)))"
          using do_sticky_result [of env b on "opt_q o1" names] by auto
        have "perpctl_run env o1 args = Some (effs, case r of Inl code \<Rightarrow> code | Inr errs \<Rightarrow> if errs \<noteq> 0 then 111 else 0)"
          unfolding run using False Some d by simp
        then show ?thesis using r Cons st Some by (auto split: if_splits)
      qed
    qed
  qed
qed (simp add: perpctl_run_def)

section \<open>Properties\<close>


definition ctlenv0 :: "link \<Rightarrow> ctlenv" where
  "ctlenv0 lk = cenv.extend (cenv0 lk) \<lparr>env_chmod = (\<lambda>_ _. True), env_lock = (\<lambda>_. 7), env_hup = (\<lambda>_. True)\<rparr>"






end
