(* ===== verification/Perpstat.thy ===== *)
theory Perpstat
  imports Perp_Client
begin

text \<open>
  The programs that ask for the status of services and print it or test it: \<open>src/perp/perpstat.c\<close> and \<open>src/perp/perpok.c\<close>.  The text
  \<open>perpstat\<close> writes to its standard output is a list of bytes; its messages on standard error are values.
\<close>

section \<open>Definitions\<close>

text \<open>\<open>nfmt_uint64(nbuf, n)\<close>.\<close>

definition nstr64 :: "u64 \<Rightarrow> u8 list option" where
  "nstr64 n = do { b \<leftarrow> nfmt_uint64 (replicate NFMT_SIZE 0) 0 n; Some (cstr_of b) }"

subsection \<open>The report\<close>

text \<open>The part of \<open>report\<close> for a subservice whose fields begin at offset \<open>off\<close>; the source has it once for the main service, at 30, and once for the
  logger, at 48.\<close>

definition report_subsv :: "u8 list \<Rightarrow> nat \<Rightarrow> tain \<Rightarrow> tain \<Rightarrow> u8 list option" where
  "report_subsv status off since tnow = do {
     u \<leftarrow> upak32_unpack (drop off status);
     let pid = sint u;
     since \<leftarrow> tain_unpack since (drop (off + 4) status);
     flags \<leftarrow> rd status (off + 16);
     let uptime = tain_uptime tnow since;
     secs \<leftarrow> nstr64 uptime;
     pids \<leftarrow> nstr u;
     Some (
       if pid = 0 then
         bytes ''down '' @ secs @ bytes '' seconds'' @
         (if \<not> has_flag flags SUBSV_FLAG_WANTDOWN then bytes '', want up!'' else []) @
         (if has_flag flags SUBSV_FLAG_ISONCE then bytes '', flagged once'' else [])
       else if uptime < 1 \<and> \<not> has_flag flags SUBSV_FLAG_ISRESET then
         bytes ''down, want up!'' @
         (if has_flag flags SUBSV_FLAG_ISONCE then bytes '', flagged once'' else [])
       else
         (if has_flag flags SUBSV_FLAG_ISRESET then bytes ''resetting '' else bytes ''up '') @
         secs @ bytes '' seconds'' @
         bytes '' (pid '' @ pids @ bytes '')'' @
         (if has_flag flags SUBSV_FLAG_ISPAUSED then bytes '', paused'' else []) @
         (if has_flag flags SUBSV_FLAG_ISONCE then bytes '', flagged once'' else [])) }"

definition report :: "u8 list \<Rightarrow> u8 list \<Rightarrow> tain \<Rightarrow> u8 list option" where
  "report name status tnow = do {
     since \<leftarrow> tain_unpack (Tain 0 0) (drop 16 status);
     flags \<leftarrow> rd status 28;
     let haslog = has_flag flags SVDEF_FLAG_HASLOG;
     secs \<leftarrow> nstr64 (tain_uptime tnow since);
     let svdef = name @ bytes '': activated '' @ secs @ bytes '' seconds'' @
       (if has_flag flags SVDEF_FLAG_CULL then bytes '', deactivation in progress'' else []) @
       (if has_flag flags SVDEF_FLAG_CYCLE then bytes '', flagged for reactivation'' else []) @ [10];
     main \<leftarrow> report_subsv status 30 since tnow;
     let head = svdef @ bytes ''  main: '' @ main @ [10] @ bytes ''   log: '';
     if \<not> haslog then Some (head @ bytes ''(no log)'' @ [10])
     else do {
       log \<leftarrow> report_subsv status 48 since tnow;
       Some (head @ log @ [10]) } }"

subsection \<open>perpstat\<close>

datatype stat_msg =
    Out "u8 list" | Err_not_found | Err_not_directory | Err_write int | Err_read int | Err_protocol | Err_type | Err_reported int

text \<open>What a round of the loop makes of the exchange.\<close>

definition status_reply :: "u8 list \<Rightarrow> tain \<Rightarrow> xfail + buffer \<Rightarrow> stat_msg option" where
  "status_reply name tnow r =
     (case r of
        Inl (Write_fail e) \<Rightarrow> Some (Err_write e)
      | Inl (Read_fail e) \<Rightarrow> Some (Err_read e)
      | Inr pkt \<Rightarrow>
          if pkt ! 0 \<noteq> 2 then Some Err_protocol
          else if pkt ! 1 \<noteq> cmd CHR ''S'' then
            (if pkt ! 1 = cmd CHR ''E'' then do { e \<leftarrow> upak32_unpack (drop 3 pkt); Some (Err_reported (sint e)) }
             else Some Err_type)
          else do { t \<leftarrow> report name (pkt_data pkt) tnow; Some (Out t) })"

definition stat_service :: "cenv \<Rightarrow> link \<Rightarrow> u8 list \<Rightarrow> (link \<times> stat_msg) option" where
  "stat_service env lk name =
     (case env_stat env name of
        Inl _ \<Rightarrow> Some (lk, Err_not_found)
      | Inr st \<Rightarrow>
          if \<not> S_ISDIR (st_mode st) then Some (lk, Err_not_directory)
          else if \<not> S_ISVTX (st_mode st) then Some (lk, Out (name @ bytes '': not activated'' @ [10]))
          else do {
            pkt \<leftarrow> pkt_pack (pkt_INIT 2 (cmd CHR ''Q'') 16) ''LL'' [VU64 (st_dev st), VU64 (st_ino st)];
            let (lk, r) = pkt_exchange lk pkt;
            m \<leftarrow> status_reply name (env_now env) r;
            Some (lk, m) })"

fun stat_loop :: "cenv \<Rightarrow> link \<Rightarrow> u8 list list \<Rightarrow> (u8 list \<times> stat_msg) list option" where
  "stat_loop env lk [] = Some []"
| "stat_loop env lk (a # as) = do {
     (lk, m) \<leftarrow> stat_service env lk a;
     ms \<leftarrow> stat_loop env lk as;
     Some ((a, m) # ms) }"

definition perpstat_option :: "u8 \<Rightarrow> u8 list option \<Rightarrow> u8 list option \<Rightarrow> int + u8 list option" where
  "perpstat_option opt arg basedir =
     (if opt = cmd CHR ''h'' then Inl 0
      else if opt = cmd CHR ''V'' then Inl 0
      else if opt = cmd CHR ''b'' then Inr arg
      else Inl 100)"

definition perpstat_main :: "cenv \<Rightarrow> u8 list list \<Rightarrow> ((u8 list \<times> stat_msg) list \<times> int) option" where
  "perpstat_main env args = do {
     r \<leftarrow> main_options perpstat_option (bytes '':hVb:'') args None;
     case r of
       Inl code \<Rightarrow> Some ([], code)
     | Inr (opt_b, names) \<Rightarrow>
         if names = [] then Some ([], 100)
         else
           (let basedir = base_dir False opt_b (env_base env)
            in if \<not> env_chdir env basedir then Some ([], 111)
               else do {
                 path \<leftarrow> control_path basedir PERPD_SOCKET;
                 case path of
                   None \<Rightarrow> Some ([], 111)
                 | Some path \<Rightarrow>
                     (case env_connect env path of
                        None \<Rightarrow> Some ([], 111)
                      | Some lk \<Rightarrow> do { ms \<leftarrow> stat_loop env lk names; Some (ms, 0) }) }) }"

subsection \<open>perpok\<close>

record okopts =
  ok_basedir :: "u8 list option"
  arg_upsecs :: u32
  ok_verbose :: nat

text \<open>The scan of the argument of \<open>-u\<close> gives the number and where it stops.\<close>

definition perpok_option :: "u8 \<Rightarrow> u8 list option \<Rightarrow> okopts \<Rightarrow> int + okopts" where
  "perpok_option opt arg o1 =
     (if opt = cmd CHR ''h'' then Inl 0
      else if opt = cmd CHR ''V'' then Inl 0
      else if opt = cmd CHR ''b'' then Inr (o1\<lparr>ok_basedir := arg\<rparr>)
      else if opt = cmd CHR ''u'' then
        (case nuscan_uint32 (the arg @ [0]) 0 of
           Some (u, z) \<Rightarrow> if (the arg @ [0]) ! z \<noteq> 0 then Inl 100 else Inr (o1\<lparr>arg_upsecs := u\<rparr>)
         | None \<Rightarrow> Inl 100)
      else if opt = cmd CHR ''v'' then Inr (o1\<lparr>ok_verbose := ok_verbose o1 + 1\<rparr>)
      else Inl 100)"

text \<open>The test of the reply: the exit code.\<close>

definition ok_reply :: "u32 \<Rightarrow> tain \<Rightarrow> xfail + buffer \<Rightarrow> int option" where
  "ok_reply upsecs tnow r =
     (case r of
        Inl _ \<Rightarrow> Some 111
      | Inr pkt \<Rightarrow>
          if pkt ! 0 \<noteq> 2 then Some 111
          else if pkt ! 1 \<noteq> cmd CHR ''S'' then Some 111
          else if upsecs = 0 then Some 0
          else do {
            let status = pkt_data pkt;
            u \<leftarrow> upak32_unpack (drop 30 status);
            if \<not> sint u > 0 then Some 1
            else do {
              flags \<leftarrow> rd status 46;
              if has_flag flags SUBSV_FLAG_ISRESET then Some 1
              else if has_flag flags SUBSV_FLAG_WANTDOWN then Some 1
              else do {
                since \<leftarrow> tain_unpack (Tain 0 0) (drop 34 status);
                let uptime = tain_uptime tnow since;
                Some (if uptime < ucast upsecs then 1 else 0) } } })"

definition ok_service :: "cenv \<Rightarrow> u32 \<Rightarrow> u8 list \<Rightarrow> u8 list \<Rightarrow> int option" where
  "ok_service env upsecs basedir svdir =
     (case env_stat env svdir of
        Inl _ \<Rightarrow> Some 111
      | Inr st \<Rightarrow>
          if \<not> S_ISDIR (st_mode st) then Some 100
          else if \<not> S_ISVTX (st_mode st) then Some 1
          else do {
            path \<leftarrow> control_path basedir PERPD_SOCKET;
            case path of
              None \<Rightarrow> Some 111
            | Some path \<Rightarrow>
                (case env_connect env path of
                   None \<Rightarrow> Some 111
                 | Some lk \<Rightarrow> do {
                     pkt \<leftarrow> pkt_pack (pkt_INIT 2 (cmd CHR ''Q'') 16) ''LL'' [VU64 (st_dev st), VU64 (st_ino st)];
                     ok_reply upsecs (env_now env) (snd (pkt_exchange lk pkt)) }) })"

definition perpok_main :: "cenv \<Rightarrow> u8 list list \<Rightarrow> int option" where
  "perpok_main env args = do {
     r \<leftarrow> main_options perpok_option (bytes '':hVb:u:v'') args \<lparr>ok_basedir = None, arg_upsecs = 0, ok_verbose = 0\<rparr>;
     case r of
       Inl code \<Rightarrow> Some code
     | Inr (o1, rest) \<Rightarrow>
         (case rest of
            [] \<Rightarrow> Some 100
          | svdir # _ \<Rightarrow>
              (let basedir = base_dir False (ok_basedir o1) (env_base env)
               in if \<not> env_chdir env basedir then Some 111 else ok_service env (arg_upsecs o1) basedir svdir)) }"

interpretation stat_options: program_options perpstat_option
  by unfold_locales (simp_all add: perpstat_option_def)

interpretation ok_options: program_options perpok_option
  by unfold_locales (simp_all add: perpok_option_def)

section \<open>Lemmas\<close>

lemma decimal_len: "length (digits 10 n) \<le> k" if "n < 10 ^ k" "0 < k"
  using that
proof (induction k arbitrary: n)
  case (Suc k)
  show ?case
  proof (cases "n < 10")
    case True
    then show ?thesis by (simp add: digits.simps)
  next
    case False
    have "n div 10 < 10 ^ k" using Suc.prems(1) by (simp add: less_mult_imp_div_less mult.commute)
    moreover have "0 < k" using False Suc.prems(1) by (cases k) auto
    ultimately have "length (digits 10 (n div 10)) \<le> k" using Suc.IH by blast
    then show ?thesis using False by (subst digits.simps) simp
  qed
qed simp

text \<open>The decimal text of a number.\<close>

definition decimal :: "nat \<Rightarrow> u8 list" where
  "decimal n = digit_text (digits 10 n)"

lemma decimal_noz: "0 \<notin> set (decimal n)"
  unfolding decimal_def by (rule digit_text_not_nul) (use digits_small [of 10] in auto)

lemma nstr64_decimal: "nstr64 n = Some (decimal (unat n))"
proof -
  have "unat n < 2 ^ LENGTH(64)" by (rule unsigned_less)
  then have "unat n < 10 ^ 20" by simp
  then have l: "length (digits 10 (unat n)) \<le> 20" by (rule decimal_len) simp
  have raw: "nfmt_uint64_raw = nfmt_raw 10" by (simp add: fun_eq_iff nfmt_uint64_raw_def)
  have "unat (10 :: u64) = 10" by simp
  then show ?thesis
    using nfmt_nul_digits [of "10 :: u64" 0 n "replicate NFMT_SIZE 0"] l decimal_noz [of "unat n"]
    by (simp add: nstr64_def nfmt_uint64_def raw NFMT_SIZE_def Let_def decimal_def)
qed

lemma nstr_decimal: "nstr n = Some (decimal (unat n))"
proof -
  have "unat n < 2 ^ LENGTH(32)" by (rule unsigned_less)
  then have "unat n < 10 ^ 20" by simp
  then have l: "length (digits 10 (unat n)) \<le> 20" by (rule decimal_len) simp
  have raw: "nfmt_uint32_raw = nfmt_raw 10" by (simp add: fun_eq_iff nfmt_uint32_raw_def)
  have "unat (10 :: u32) = 10" by simp
  then show ?thesis
    using nfmt_nul_digits [of "10 :: u32" 0 n "replicate NFMT_SIZE 0"] l decimal_noz [of "unat n"]
    by (simp add: nstr_def nfmt_uint32_def raw NFMT_SIZE_def Let_def decimal_def)
qed

text \<open>What \<open>perpstat\<close> means to say of a subservice of perpd's table: it is down, or just starting, or running (or being reset).\<close>

datatype sub_view =
    Down_for u64 (want_up: bool) (once: bool)
  | Starting (once: bool)
  | Running (resetting: bool) u64 int (paused: bool) (once: bool)

definition view :: "tain \<Rightarrow> subsv \<Rightarrow> sub_view" where
  "view t ss =
     (let up = tain_uptime t (sub_when ss); o1 = sub_has ss SUBSV_FLAG_ISONCE; reset = sub_has ss SUBSV_FLAG_ISRESET
      in if pid ss = 0 then Down_for up (\<not> sub_has ss SUBSV_FLAG_WANTDOWN) o1
         else if up = 0 \<and> \<not> reset then Starting o1
         else Running reset up (pid ss) (sub_has ss SUBSV_FLAG_ISPAUSED) o1)"

definition flagged :: "bool \<Rightarrow> string \<Rightarrow> u8 list" where
  "flagged b s = (if b then bytes s else [])"

fun view_text :: "sub_view \<Rightarrow> u8 list" where
  "view_text (Down_for up w o1) = bytes ''down '' @ decimal (unat up) @ bytes '' seconds'' @ flagged w '', want up!'' @ flagged o1 '', flagged once''"
| "view_text (Starting o1) = bytes ''down, want up!'' @ flagged o1 '', flagged once''"
| "view_text (Running r up n p o1) =
     (if r then bytes ''resetting '' else bytes ''up '') @ decimal (unat up) @ bytes '' seconds (pid '' @ decimal (nat n) @ bytes '')'' @
     flagged p '', paused'' @ flagged o1 '', flagged once''"

definition status_text :: "u8 list \<Rightarrow> tain \<Rightarrow> svdef \<Rightarrow> u8 list" where
  "status_text name t sd =
     name @ bytes '': activated '' @ decimal (unat (tain_uptime t (sv_when sd))) @ bytes '' seconds'' @
     flagged (sv_has sd SVDEF_FLAG_CULL) '', deactivation in progress'' @ flagged (sv_has sd SVDEF_FLAG_CYCLE) '', flagged for reactivation'' @ [10] @
     bytes ''  main: '' @ view_text (view t (sv_main sd)) @ [10] @
     bytes ''   log: '' @ (if sv_has sd SVDEF_FLAG_HASLOG then view_text (view t (sv_log sd)) else bytes ''(no log)'') @ [10]"

text \<open>Process ids fit \<open>pid_t\<close>.\<close>

definition pids_ok :: "svdef \<Rightarrow> bool" where
  "pids_ok sd \<longleftrightarrow> 0 \<le> pid (sv_main sd) \<and> pid (sv_main sd) < 2 ^ 31 \<and> 0 \<le> pid (sv_log sd) \<and> pid (sv_log sd) < 2 ^ 31"

lemma pid_word:
  assumes "0 \<le> n" and "n < 2 ^ 31"
  shows "sint (word_of_int n :: u32) = n" "unat (word_of_int n :: u32) = nat n"
  using assms by (simp_all add: signed_of_int unsigned_of_int signed_take_bit_int_eq_self take_bit_int_eq_self nat_take_bit_eq)

lemma report_subsv_view:
  assumes "upak32_unpack (drop off status) = Some (word_of_int (pid ss))" and "\<And>t. tain_unpack t (drop (off + 4) status) = Some (sub_when ss)"
    and "rd status (off + 16) = Some (sub_bitflags ss)" and "0 \<le> pid ss" and "pid ss < 2 ^ 31"
  shows "report_subsv status off t0 t = Some (view_text (view t ss))"
proof -
  have lt: "tain_uptime t (sub_when ss) < 1 \<longleftrightarrow> tain_uptime t (sub_when ss) = 0" by (simp add: word_less_1)
  have cat: "bytes '' seconds'' @ bytes '' (pid '' = bytes '' seconds (pid ''" by (simp add: bytes_def)
  show ?thesis
    using assms(1-3) pid_word [OF assms(4,5)] lt cat
    by (simp add: report_subsv_def nstr64_decimal nstr_decimal view_def flagged_def Let_def)
qed

lemma report_status:
  assumes "pids_ok sd"
  shows "report name (status_bytes s sd @ rest) t = Some (status_text name t sd)"
proof -
  let ?st = "status_bytes s sd @ rest"
  note u = status_unpack [where s = s and sd = sd and rest = rest]
  have at: "rd ?st i = Some (?st ! i)" if "i < 66" for i using that by (simp add: rd_def)
  have m: "report_subsv ?st 30 t0 t = Some (view_text (view t (sv_main sd)))" for t0
    by (rule report_subsv_view) (use u at [of 46] assms in \<open>simp_all add: pids_ok_def\<close>)
  have l: "report_subsv ?st 48 t0 t = Some (view_text (view t (sv_log sd)))" if "sv_has sd SVDEF_FLAG_HASLOG" for t0
    by (rule report_subsv_view) (use u(7-9) [OF that] at [of 64] assms in \<open>simp_all add: pids_ok_def\<close>)
  show ?thesis
    using u(2,3) at [of 28] m l by (simp add: report_def nstr64_decimal status_text_def flagged_def Let_def)
qed

section \<open>Properties\<close>


lemma one_service_query:
  "\<exists>p'. served (one_service subsv_zero (sys0 (\<lambda>i. 8))) client0 (direct_link (one_service subsv_zero (sys0 (\<lambda>i. 8))) client0 (query_req st)) (query_req st) [] p'"
  by (rule served_query_direct) (simp_all add: client0_def)

lemma one_service_facts:
  "perpd_ok (one_service subsv_zero (sys0 (\<lambda>i. 8)))" "perpd_lookup (one_service subsv_zero (sys0 (\<lambda>i. 8))) 0 0 = Some 0"
  "\<forall>sd \<in> set (active (one_service subsv_zero (sys0 (\<lambda>i. 8)))). pids_ok sd"
  "pid (sv_main (svdefs (one_service subsv_zero (sys0 (\<lambda>i. 8))) ! 0)) = 0"
proof -
  show "perpd_ok (one_service subsv_zero (sys0 (\<lambda>i. 8)))" by (rule one_service_ok) (auto intro: sys0_ok)
  show "perpd_lookup (one_service subsv_zero (sys0 (\<lambda>i. 8))) 0 0 = Some 0"
    by (simp add: perpd_lookup_def one_service_def lookup_loop.simps svdef0_def perpd_svdef_clear_def)
  show "\<forall>sd \<in> set (active (one_service subsv_zero (sys0 (\<lambda>i. 8)))). pids_ok sd"
    by (auto simp: active_def one_service_def pids_ok_def svdef0_def perpd_svdef_clear_def subsv_zero_def)
  show "pid (sv_main (svdefs (one_service subsv_zero (sys0 (\<lambda>i. 8))) ! 0)) = 0"
    by (simp add: one_service_def sub_set_def subsv_zero_def)
qed




end
