(* ===== verification/Dynstuf.thy ===== *)
theory Dynstuf
  imports Perp_Prelude
begin

text \<open>
  The growing vector of pointers: \<open>src/lasagna/dynstuf\<close>.  A pointer is a value of type \<open>'a\<close>; the vector is \<open>None\<close> when \<open>stuf\<close> is NULL, and otherwise
  the list of the contents of all its slots, used or not.  Sizes are \<open>size_t\<close> of 64 bits, pointers have 8 bytes.  \<open>realloc()\<close> is a parameter: what it returns
  for the old contents and the new number of bytes.  The vector implements a stack of values with access by index.
\<close>

section \<open>Definitions\<close>

record 'a dynstuf =
  stuf :: "'a list option"
  slots :: u64
  items :: u64

type_synonym 'a realloc = "'a list \<Rightarrow> u64 \<Rightarrow> 'a list option"

text \<open>\<open>dynstuf_grow\<close>: \<open>False\<close> for a result of \<open>-1\<close>.\<close>

definition dynstuf_grow :: "'a realloc \<Rightarrow> 'a dynstuf \<Rightarrow> u64 \<Rightarrow> 'a dynstuf \<times> bool" where
  "dynstuf_grow realloc S add =
     (let have = slots S; need = items S + add
      in if need < items S then (S, False)
         else if stuf S = None \<or> have < need then
           (let check_need = push_bit 1 need
            in if check_need < need then (S, False)
               else
                 (let need = check_need; check_need = need * 8
                  in if check_need < need then (S, False)
                     else case realloc (case stuf S of None \<Rightarrow> [] | Some v \<Rightarrow> v) check_need of
                            Some v \<Rightarrow> (S\<lparr>stuf := Some v, slots := need\<rparr>, True)
                          | None \<Rightarrow> (S, False)))
         else (S, True))"

text \<open>\<open>dynstuf_init\<close> of an existing object, and \<open>dynstuf_new\<close>, with whether the allocation of the object works.\<close>

definition dynstuf_init :: "'a realloc \<Rightarrow> 'a dynstuf \<Rightarrow> 'a dynstuf option" where
  "dynstuf_init realloc S =
     (let S = S\<lparr>stuf := None, slots := 0, items := 0\<rparr>; (S, ok) = dynstuf_grow realloc S 1
      in if ok then Some S else None)"

definition dynstuf_new :: "'a realloc \<Rightarrow> 'a dynstuf option \<Rightarrow> 'a dynstuf option" where
  "dynstuf_new realloc malloc = (case malloc of None \<Rightarrow> None | Some S \<Rightarrow> dynstuf_init realloc S)"

text \<open>Accesses to \<open>stuf[i]\<close>, \<open>None\<close> when there is no such slot.\<close>

definition slot_get :: "'a dynstuf \<Rightarrow> u64 \<Rightarrow> 'a option" where
  "slot_get S i = do { v \<leftarrow> stuf S; rd v (unat i) }"

definition slot_set :: "'a dynstuf \<Rightarrow> u64 \<Rightarrow> 'a \<Rightarrow> 'a dynstuf option" where
  "slot_set S i x = do { v \<leftarrow> stuf S; v \<leftarrow> wr v (unat i) x; Some (S\<lparr>stuf := Some v\<rparr>) }"

definition dynstuf_push :: "'a realloc \<Rightarrow> 'a dynstuf \<Rightarrow> 'a \<Rightarrow> ('a dynstuf \<times> bool) option" where
  "dynstuf_push realloc S data =
     (let (S, ok) = dynstuf_grow realloc S 1
      in if ok then do { S \<leftarrow> slot_set S (items S) data; Some (S\<lparr>items := items S + 1\<rparr>, True) }
         else Some (S, False))"

text \<open>The results that may be NULL are options, inside the option for an access out of bounds.\<close>

definition dynstuf_pop :: "'a dynstuf \<Rightarrow> ('a dynstuf \<times> 'a option) option" where
  "dynstuf_pop S =
     (if items S > 0 then
        (let S = S\<lparr>items := items S - 1\<rparr> in do { x \<leftarrow> slot_get S (items S); Some (S, Some x) })
      else Some (S, None))"

definition dynstuf_peek :: "'a dynstuf \<Rightarrow> 'a option option" where
  "dynstuf_peek S = (if items S > 0 then do { x \<leftarrow> slot_get S (items S - 1); Some (Some x) } else Some None)"

definition dynstuf_get :: "'a dynstuf \<Rightarrow> u64 \<Rightarrow> 'a option option" where
  "dynstuf_get S slot = (if slot < items S then do { x \<leftarrow> slot_get S slot; Some (Some x) } else Some None)"

definition dynstuf_set :: "'a dynstuf \<Rightarrow> u64 \<Rightarrow> 'a \<Rightarrow> ('a dynstuf \<times> 'a option) option" where
  "dynstuf_set S slot data =
     (if slot < items S then do { S \<leftarrow> slot_set S slot data; Some (S, Some data) } else Some (S, None))"

definition dynstuf_replace :: "'a dynstuf \<Rightarrow> u64 \<Rightarrow> 'a \<Rightarrow> ('a dynstuf \<times> 'a option) option" where
  "dynstuf_replace S slot newdata =
     (if slot < items S then do { x \<leftarrow> slot_get S slot; S \<leftarrow> slot_set S slot newdata; Some (S, Some x) }
      else Some (S, None))"

lemma unat_inc: "(i :: u64) < n \<Longrightarrow> unat (i + 1) = unat i + 1"
proof -
  assume "i < n"
  then have "unat i < unat n" by (simp add: word_less_nat_alt)
  moreover have "unat n < 2 ^ LENGTH(64)" by (rule unsigned_less)
  ultimately have "unat i + unat (1 :: u64) < 2 ^ LENGTH(64)" by simp
  then show ?thesis by (subst (asm) unat_add_lem) simp
qed

function dynstuf_find :: "('a \<Rightarrow> 'k \<Rightarrow> int) \<Rightarrow> 'a dynstuf \<Rightarrow> u64 \<Rightarrow> 'k \<Rightarrow> u64 option" where
  "dynstuf_find cmp S slot key =
     (if slot < items S then do {
        x \<leftarrow> slot_get S slot;
        if cmp x key = 0 then Some slot else dynstuf_find cmp S (slot + 1) key }
      else Some (items S))"
  by pat_completeness auto
termination
  by (relation "measure (\<lambda>(cmp, S, slot, key). unat (items S) - unat slot)") (auto simp: unat_inc word_less_nat_alt)

declare dynstuf_find.simps [simp del]

text \<open>\<open>dynstuf_visit\<close>: the values the visitor gets, in order.\<close>

function visit_loop :: "('a \<Rightarrow> 'x \<Rightarrow> 'x) \<Rightarrow> 'a dynstuf \<Rightarrow> u64 \<Rightarrow> 'x \<Rightarrow> 'x option" where
  "visit_loop visitor S i xtra =
     (if i < items S then do { x \<leftarrow> slot_get S i; visit_loop visitor S (i + 1) (visitor x xtra) } else Some xtra)"
  by pat_completeness auto
termination
  by (relation "measure (\<lambda>(visitor, S, i, xtra). unat (items S) - unat i)") (auto simp: unat_inc word_less_nat_alt)

declare visit_loop.simps [simp del]

definition dynstuf_visit :: "('a \<Rightarrow> 'x \<Rightarrow> 'x) \<Rightarrow> 'a dynstuf \<Rightarrow> 'x \<Rightarrow> 'x option" where
  "dynstuf_visit visitor S xtra = visit_loop visitor S 0 xtra"

text \<open>\<open>dynstuf_free\<close>: the values given to \<open>free_data\<close>, the last one first in the list.\<close>

definition dynstuf_free :: "'a dynstuf \<Rightarrow> 'a list option" where
  "dynstuf_free S = visit_loop (#) S 0 []"

function reverse_loop :: "'a dynstuf \<Rightarrow> u64 \<Rightarrow> u64 \<Rightarrow> 'a dynstuf option" where
  "reverse_loop S ix0 ixN =
     (if ix0 < ixN then do {
        tmp \<leftarrow> slot_get S ix0;
        x \<leftarrow> slot_get S ixN;
        S \<leftarrow> slot_set S ix0 x;
        S \<leftarrow> slot_set S ixN tmp;
        reverse_loop S (ix0 + 1) (ixN - 1) }
      else Some S)"
  by pat_completeness auto
termination
proof (relation "measure (\<lambda>(S, ix0, ixN). unat ixN - unat ix0)")
  fix S S' :: "'a dynstuf" and ix0 ixN :: u64
  assume l: "ix0 < ixN"
  then have "unat ix0 < unat ixN" "1 \<le> ixN" by (auto simp: word_less_nat_alt word_le_nat_alt)
  then have "unat (ixN - 1) = unat ixN - 1" by (simp add: unat_sub)
  then show "((S', ix0 + 1, ixN - 1), S, ix0, ixN) \<in> measure (\<lambda>(S, ix0, ixN). unat ixN - unat ix0)"
    using \<open>unat ix0 < unat ixN\<close> unat_inc [OF l] by simp
qed simp

declare reverse_loop.simps [simp del]

definition dynstuf_reverse :: "'a dynstuf \<Rightarrow> 'a dynstuf option" where
  "dynstuf_reverse S = (if items S < 2 then Some S else reverse_loop S 0 (items S - 1))"

text \<open>\<open>dynstuf_sort\<close> is \<open>qsort()\<close> on the used slots.\<close>

definition dynstuf_sort :: "(('a \<Rightarrow> 'a \<Rightarrow> int) \<Rightarrow> 'a list \<Rightarrow> 'a list) \<Rightarrow> 'a dynstuf \<Rightarrow> ('a \<Rightarrow> 'a \<Rightarrow> int) \<Rightarrow> 'a dynstuf option" where
  "dynstuf_sort qsort S cmp = do {
     v \<leftarrow> stuf S;
     let n = unat (items S);
     if n \<le> length v then Some (S\<lparr>stuf := Some (qsort cmp (take n v) @ drop n v)\<rparr>) else None }"

text \<open>The value of a vector, and its invariant.\<close>

definition dynstuf_list :: "'a dynstuf \<Rightarrow> 'a list" where
  "dynstuf_list S = (case stuf S of None \<Rightarrow> [] | Some v \<Rightarrow> take (unat (items S)) v)"

definition dynstuf_ok :: "'a dynstuf \<Rightarrow> bool" where
  "dynstuf_ok S \<longleftrightarrow> items S \<le> slots S \<and> (case stuf S of None \<Rightarrow> slots S = 0 | Some v \<Rightarrow> length v = unat (slots S))"

text \<open>What the code relies on of \<open>realloc()\<close>: it keeps the contents, gives the size that was asked for, and no object has \<open>2 ^ 61\<close> bytes.\<close>

definition realloc_ok :: "'a realloc \<Rightarrow> bool" where
  "realloc_ok realloc \<longleftrightarrow> (\<forall>old n new. realloc old n = Some new \<longrightarrow>
     unat n < 2 ^ 61 \<and> length new = unat n div 8 \<and> (length old \<le> length new \<longrightarrow> take (length old) new = old))"

section \<open>Growing\<close>

lemma add_no_wrap: "\<not> (a + b :: u64) < a \<Longrightarrow> unat (a + b) = unat a + unat b"
  by (metis no_olen_add_nat not_less unat_plus_simple)

lemma mult_small: "unat (a :: u64) * k < 2 ^ 64 \<Longrightarrow> k < 2 ^ 64 \<Longrightarrow> unat (a * word_of_nat k) = unat a * k"
  by (simp add: unat_word_ariths unat_of_nat take_bit_nat_eq_self)

lemma double_no_wrap: "\<not> push_bit 1 (a :: u64) < a \<Longrightarrow> unat (push_bit 1 a) = 2 * unat a"
proof -
  assume n: "\<not> push_bit 1 a < a"
  have p: "push_bit 1 a = a + a" by (simp add: push_bit_eq_mult)
  show ?thesis using n unfolding p by (subst add_no_wrap) auto
qed

lemma grow_size:
  assumes "\<not> need * 8 < (need :: u64)" and "unat (need * 8) < 2 ^ 61"
  shows "unat (need * 8) = unat need * 8"
proof -
  have "unat need < 2 ^ 61" using assms by (simp add: word_less_nat_alt)
  then show ?thesis using mult_small [of need 8] by simp
qed

lemma dynstuf_grow_spec:
  assumes "realloc_ok realloc" and "dynstuf_ok S" and "dynstuf_grow realloc S add = (S', ok)"
  shows "dynstuf_ok S' \<and> dynstuf_list S' = dynstuf_list S \<and> items S' = items S \<and>
    (ok \<longrightarrow> unat (items S) + unat add \<le> unat (slots S') \<and> stuf S' \<noteq> None)"
proof -
  let ?old = "case stuf S of None \<Rightarrow> [] | Some v \<Rightarrow> v" and ?need = "items S + add"
  have i: "unat (items S) \<le> unat (slots S)" using assms(2) by (simp add: dynstuf_ok_def word_le_nat_alt)
  have lo: "length ?old = unat (slots S)" using assms(2) by (auto simp: dynstuf_ok_def split: option.splits)
  consider (fail) "S' = S" "\<not> ok" | (enough) "S' = S" "ok" "\<not> ?need < items S" "stuf S \<noteq> None" "\<not> slots S < ?need"
    | (grown) v where "\<not> ?need < items S" "stuf S = None \<or> slots S < ?need" "\<not> push_bit 1 ?need < ?need"
        "\<not> push_bit 1 ?need * 8 < push_bit 1 ?need" "realloc ?old (push_bit 1 ?need * 8) = Some v"
        "S' = S\<lparr>stuf := Some v, slots := push_bit 1 ?need\<rparr>" "ok"
    using assms(3) by (auto simp: dynstuf_grow_def Let_def split: if_splits option.splits)
  then show ?thesis
  proof cases
    case enough
    then show ?thesis using assms(2) add_no_wrap [OF enough(3)] by (simp add: word_less_nat_alt)
  next
    case grown
    have n: "unat ?need = unat (items S) + unat add" using add_no_wrap [OF grown(1)] .
    have d: "unat (push_bit 1 ?need) = 2 * unat ?need" using double_no_wrap [OF grown(3)] .
    have r: "unat (push_bit 1 ?need * 8) < 2 ^ 61" "length v = unat (push_bit 1 ?need * 8) div 8"
        "length ?old \<le> length v \<longrightarrow> take (length ?old) v = ?old"
      using assms(1) grown(5) unfolding realloc_ok_def by blast+
    have lv: "length v = 2 * unat ?need" using r(2) grow_size [OF grown(4) r(1)] d by simp
    have le: "length ?old \<le> length v"
      using grown(2) lo lv assms(2) by (auto simp: word_less_nat_alt dynstuf_ok_def)
    have "dynstuf_list S = take (unat (items S)) ?old" by (simp add: dynstuf_list_def split: option.splits)
    also have "\<dots> = take (unat (items S)) v" using r(3) le lo i by (metis min.absorb1 take_take)
    finally have "dynstuf_list S' = dynstuf_list S" using grown(6) by (simp add: dynstuf_list_def)
    moreover have "dynstuf_ok S'" using grown(6) lv d n by (simp add: dynstuf_ok_def word_le_nat_alt)
    ultimately show ?thesis using grown(6) d n by simp
  qed (use assms(2) in auto)
qed

section \<open>The vector as a list\<close>

lemma items_length: "dynstuf_ok S \<Longrightarrow> unat (items S) = length (dynstuf_list S)"
  by (auto simp: dynstuf_ok_def dynstuf_list_def word_le_nat_alt min_def split: option.splits)

lemma slot_get_list: "dynstuf_ok S \<Longrightarrow> i < items S \<Longrightarrow> slot_get S i = Some (dynstuf_list S ! unat i)"
  by (auto simp: dynstuf_ok_def dynstuf_list_def slot_get_def word_le_nat_alt word_less_nat_alt split: option.splits)

lemma slot_set_list:
  assumes "dynstuf_ok S" and "i < slots S"
  obtains S' where "slot_set S i x = Some S'" "dynstuf_ok S'" "items S' = items S" "slots S' = slots S"
    "dynstuf_list S' = (dynstuf_list S)[unat i := x]" "stuf S' = map_option (\<lambda>v. v[unat i := x]) (stuf S)"
proof -
  obtain v where v: "stuf S = Some v" "length v = unat (slots S)" using assms by (auto simp: dynstuf_ok_def split: option.splits)
  have "unat i < length v" using assms(2) v(2) by (simp add: word_less_nat_alt)
  then show ?thesis
    using that [of "S\<lparr>stuf := Some (v[unat i := x])\<rparr>"] assms v by (simp add: slot_set_def dynstuf_ok_def dynstuf_list_def take_update_swap)
qed

lemma dynstuf_push_list:
  assumes "realloc_ok realloc" and "dynstuf_ok S"
  obtains S' b where "dynstuf_push realloc S x = Some (S', b)" "dynstuf_ok S'" "dynstuf_list S' = dynstuf_list S @ (if b then [x] else [])"
proof -
  obtain S1 ok where g: "dynstuf_grow realloc S 1 = (S1, ok)" by force
  note sp = dynstuf_grow_spec [OF assms g]
  show ?thesis
  proof (cases ok)
    case False
    then show ?thesis using that [of S1 False] g sp by (simp add: dynstuf_push_def)
  next
    case True
    then have lt: "items S1 < slots S1" and le: "unat (items S1) + 1 \<le> unat (slots S1)" using sp by (auto simp: word_less_nat_alt)
    obtain S2 where S2: "slot_set S1 (items S1) x = Some S2" "dynstuf_ok S2" "items S2 = items S1" "slots S2 = slots S1"
        "stuf S2 = map_option (\<lambda>v. v[unat (items S1) := x]) (stuf S1)"
      using slot_set_list [OF _ lt] sp by metis
    have inc: "unat (items S2 + 1) = unat (items S1) + 1" using unat_inc [OF lt] S2(3) by simp
    obtain v where v: "stuf S1 = Some v" "length v = unat (slots S1)" using sp True by (auto simp: dynstuf_ok_def split: option.splits)
    have "take (Suc (unat (items S1))) (v[unat (items S1) := x]) = take (unat (items S1)) v @ [x]"
      using le v(2) by (simp add: take_Suc_conv_app_nth)
    moreover have "take (unat (items S1)) v = dynstuf_list S" using sp v(1) by (metis dynstuf_list_def option.simps(5))
    ultimately have "dynstuf_list (S2\<lparr>items := items S2 + 1\<rparr>) = dynstuf_list S @ [x]"
      using S2(5) v(1) inc by (simp add: dynstuf_list_def)
    moreover have "dynstuf_ok (S2\<lparr>items := items S2 + 1\<rparr>)"
      using S2(2,4) inc le by (simp add: dynstuf_ok_def word_le_nat_alt split: option.splits)
    ultimately show ?thesis using that [of "S2\<lparr>items := items S2 + 1\<rparr>" True] g True S2(1) by (simp add: dynstuf_push_def)
  qed
qed

lemma items_pos: "dynstuf_ok S \<Longrightarrow> items S > 0 \<longleftrightarrow> dynstuf_list S \<noteq> []"
  using items_length [of S] by (auto simp: word_less_nat_alt)

lemma unat_dec: "(n :: u64) > 0 \<Longrightarrow> unat (n - 1) = unat n - 1"
  by (metis less_eq_Suc_le unat_1 unat_sub unsigned_eq_0_iff word_gt_0 word_le_nat_alt One_nat_def neq0_conv)

lemma dynstuf_pop_list:
  assumes "dynstuf_ok S"
  obtains S' where "dynstuf_pop S = Some (S', if dynstuf_list S = [] then None else Some (last (dynstuf_list S)))" "dynstuf_ok S'"
    "dynstuf_list S' = butlast (dynstuf_list S)"
proof (cases "items S > 0")
  case True
  let ?S = "S\<lparr>items := items S - 1\<rparr>"
  have d: "unat (items S - 1) = unat (items S) - 1" using unat_dec [OF True] .
  have lt: "items S - 1 < items S" using d True by (simp add: word_less_nat_alt)
  have ne: "dynstuf_list S \<noteq> []" using items_pos [OF assms] True by simp
  have "slot_get ?S (items S - 1) = Some (last (dynstuf_list S))"
    using slot_get_list [OF assms lt] d items_length [OF assms] ne by (simp add: slot_get_def last_conv_nth)
  moreover have "dynstuf_ok ?S" using assms d by (auto simp: dynstuf_ok_def word_le_nat_alt split: option.splits)
  moreover have "dynstuf_list ?S = butlast (dynstuf_list S)"
    using d assms by (auto simp: dynstuf_list_def dynstuf_ok_def butlast_take word_le_nat_alt split: option.splits)
  ultimately show ?thesis using that [of ?S] True ne by (simp add: dynstuf_pop_def)
next
  case False
  then show ?thesis using that [of S] assms items_pos [OF assms] by (simp add: dynstuf_pop_def)
qed

lemma dynstuf_peek_list:
  assumes "dynstuf_ok S"
  shows "dynstuf_peek S = Some (if dynstuf_list S = [] then None else Some (last (dynstuf_list S)))"
proof (cases "items S > 0")
  case True
  have d: "unat (items S - 1) = unat (items S) - 1" using unat_dec [OF True] .
  have lt: "items S - 1 < items S" using d True by (simp add: word_less_nat_alt)
  have ne: "dynstuf_list S \<noteq> []" using items_pos [OF assms] True by simp
  then show ?thesis using slot_get_list [OF assms lt] d items_length [OF assms] True by (simp add: dynstuf_peek_def last_conv_nth)
next
  case False
  then show ?thesis using items_pos [OF assms] by (simp add: dynstuf_peek_def)
qed

lemma slot_lt: "dynstuf_ok S \<Longrightarrow> i < items S \<longleftrightarrow> unat i < length (dynstuf_list S)"
  by (simp add: word_less_nat_alt items_length)

lemma dynstuf_get_list:
  "dynstuf_ok S \<Longrightarrow> dynstuf_get S i = Some (if unat i < length (dynstuf_list S) then Some (dynstuf_list S ! unat i) else None)"
  using slot_get_list [of S i] slot_lt [of S i] by (simp add: dynstuf_get_def)

lemma dynstuf_replace_list:
  assumes "dynstuf_ok S"
  obtains S' where "dynstuf_replace S i x = Some (S', if unat i < length (dynstuf_list S) then Some (dynstuf_list S ! unat i) else None)"
    and "dynstuf_set S i x = Some (S', if unat i < length (dynstuf_list S) then Some x else None)"
    and "dynstuf_ok S'" and "dynstuf_list S' = (dynstuf_list S)[unat i := x]"
proof (cases "i < items S")
  case True
  then have "i < slots S" using assms by (auto simp: dynstuf_ok_def)
  from slot_set_list [OF assms this, of x]
  obtain S' where S': "slot_set S i x = Some S'" "dynstuf_ok S'" "dynstuf_list S' = (dynstuf_list S)[unat i := x]" by metis
  show ?thesis using that [OF _ _ S'(2,3)] S'(1) True slot_get_list [OF assms True] slot_lt [OF assms, of i]
    by (simp add: dynstuf_replace_def dynstuf_set_def)
next
  case False
  then have "(dynstuf_list S)[unat i := x] = dynstuf_list S" using slot_lt [OF assms, of i] by (simp add: list_update_beyond)
  then show ?thesis using that [of S] False assms slot_lt [OF assms, of i] by (simp add: dynstuf_replace_def dynstuf_set_def)
qed

lemma visit_loop_list:
  "dynstuf_ok S \<Longrightarrow> visit_loop f S i x = Some (fold f (drop (unat i) (dynstuf_list S)) x)"
proof (induction f S i x rule: visit_loop.induct)
  case (1 f S i x)
  show ?case
  proof (cases "i < items S")
    case True
    have "drop (unat i) (dynstuf_list S) = dynstuf_list S ! unat i # drop (unat i + 1) (dynstuf_list S)"
      using True slot_lt [OF 1(2)] by (simp add: Cons_nth_drop_Suc)
    then show ?thesis using 1(1) [OF True slot_get_list [OF 1(2) True] 1(2)] slot_get_list [OF 1(2) True] True unat_inc [OF True]
      by (subst visit_loop.simps) simp
  next
    case False
    then show ?thesis using slot_lt [OF 1(2)] by (subst visit_loop.simps) (simp add: not_less)
  qed
qed

lemma dynstuf_find_list:
  assumes "dynstuf_ok S"
  obtains k where "dynstuf_find cmp S i key = Some k" and "unat k \<le> length (dynstuf_list S)"
    and "unat k < length (dynstuf_list S) \<Longrightarrow> unat i \<le> unat k \<and> cmp (dynstuf_list S ! unat k) key = 0"
    and "\<forall>j. unat i \<le> j \<and> j < unat k \<longrightarrow> cmp (dynstuf_list S ! j) key \<noteq> 0"
proof -
  have "\<exists>k. dynstuf_find cmp S i key = Some k \<and> unat k \<le> length (dynstuf_list S) \<and>
      (unat k < length (dynstuf_list S) \<longrightarrow> unat i \<le> unat k \<and> cmp (dynstuf_list S ! unat k) key = 0) \<and>
      (\<forall>j. unat i \<le> j \<and> j < unat k \<longrightarrow> cmp (dynstuf_list S ! j) key \<noteq> 0)"
    using assms
  proof (induction cmp S i key rule: dynstuf_find.induct)
    case (1 cmp S i key)
    show ?case
    proof (cases "i < items S")
      case False
      then show ?thesis using items_length [OF 1(2)] slot_lt [OF 1(2), of i] by (subst dynstuf_find.simps) auto
    next
      case True
      note g = slot_get_list [OF 1(2) True]
      show ?thesis
      proof (cases "cmp (dynstuf_list S ! unat i) key = 0")
        case c: True
        then show ?thesis using True g slot_lt [OF 1(2), of i] by (subst dynstuf_find.simps) auto
      next
        case c: False
        obtain k where k: "dynstuf_find cmp S (i + 1) key = Some k" "unat k \<le> length (dynstuf_list S)"
            "unat k < length (dynstuf_list S) \<longrightarrow> unat (i + 1) \<le> unat k \<and> cmp (dynstuf_list S ! unat k) key = 0"
            "\<forall>j. unat (i + 1) \<le> j \<and> j < unat k \<longrightarrow> cmp (dynstuf_list S ! j) key \<noteq> 0"
          using 1(1) [OF True g c 1(2)] by blast
        have "\<forall>j. unat i \<le> j \<and> j < unat k \<longrightarrow> cmp (dynstuf_list S ! j) key \<noteq> 0"
          using k(4) c unat_inc [OF True] by (metis Suc_eq_plus1 le_eq_less_or_eq not_less_eq_eq order.strict_iff_not)
        then show ?thesis using k True g c unat_inc [OF True] by (subst dynstuf_find.simps) auto
      qed
    qed
  qed
  with that show ?thesis by blast
qed

text \<open>Reversing: after the rounds from the indices \<open>ix0\<close> and \<open>ixN\<close> on, the part between them is reversed.\<close>

definition mirrored :: "nat \<Rightarrow> nat \<Rightarrow> 'a list \<Rightarrow> 'a list" where
  "mirrored i n xs = map (\<lambda>k. if i \<le> k \<and> k \<le> n then xs ! (i + n - k) else xs ! k) [0..<length xs]"

lemma mirrored_step:
  "i < n \<Longrightarrow> n < length xs \<Longrightarrow> mirrored (i + 1) (n - 1) (xs[i := xs ! n, n := xs ! i]) = mirrored i n xs"
  by (rule nth_equalityI) (auto simp: mirrored_def nth_list_update)

lemma reverse_loop_list:
  "dynstuf_ok S \<Longrightarrow> ixN < items S \<Longrightarrow>
   \<exists>S'. reverse_loop S ix0 ixN = Some S' \<and> dynstuf_ok S' \<and> dynstuf_list S' = mirrored (unat ix0) (unat ixN) (dynstuf_list S)"
proof (induction S ix0 ixN rule: reverse_loop.induct)
  case (1 S ix0 ixN)
  let ?l = "dynstuf_list S"
  show ?case
  proof (cases "ix0 < ixN")
    case True
    have lt: "ix0 < items S" using True "1.prems"(2) by simp
    have sl: "ix0 < slots S" "ixN < slots S" using lt "1.prems" by (auto simp: dynstuf_ok_def)
    note g = slot_get_list [OF "1.prems"(1) lt] slot_get_list [OF "1.prems"]
    obtain S1 where S1: "slot_set S ix0 (?l ! unat ixN) = Some S1" "dynstuf_ok S1" "items S1 = items S" "slots S1 = slots S"
        "dynstuf_list S1 = ?l[unat ix0 := ?l ! unat ixN]"
      using slot_set_list [OF "1.prems"(1) sl(1)] by metis
    obtain S2 where S2: "slot_set S1 ixN (?l ! unat ix0) = Some S2" "dynstuf_ok S2" "items S2 = items S"
        "dynstuf_list S2 = (dynstuf_list S1)[unat ixN := ?l ! unat ix0]"
      using slot_set_list [OF S1(2), of ixN] S1(3,4) sl(2) by metis
    have dec: "unat (ixN - 1) = unat ixN - 1" using True by (intro unat_dec) (auto simp: word_less_nat_alt)
    have "ixN - 1 < items S2" using "1.prems"(2) S2(3) dec by (simp add: word_less_nat_alt)
    from "1.IH" [OF True g S1(1) S2(1) S2(2) this]
    obtain S' where S': "reverse_loop S2 (ix0 + 1) (ixN - 1) = Some S'" "dynstuf_ok S'"
        "dynstuf_list S' = mirrored (unat (ix0 + 1)) (unat (ixN - 1)) (dynstuf_list S2)" by blast
    have "dynstuf_list S' = mirrored (unat ix0) (unat ixN) ?l"
      using S'(3) S2(4) S1(5) mirrored_step [of "unat ix0" "unat ixN" ?l] True slot_lt [OF "1.prems"(1), of ixN] "1.prems"(2) dec unat_inc [OF True]
      by (simp add: word_less_nat_alt)
    then show ?thesis using S' True g S1(1) S2(1) by (subst reverse_loop.simps) simp
  next
    case False
    then have "mirrored (unat ix0) (unat ixN) ?l = ?l"
      by (intro nth_equalityI) (auto simp: mirrored_def word_less_nat_alt intro!: arg_cong [of _ _ "(!) ?l"])
    then show ?thesis using False "1.prems"(1) by (subst reverse_loop.simps) simp
  qed
qed

lemma dynstuf_reverse_list:
  assumes "dynstuf_ok S"
  obtains S' where "dynstuf_reverse S = Some S'" "dynstuf_ok S'" "dynstuf_list S' = rev (dynstuf_list S)"
proof (cases "items S < 2")
  case True
  then have "length (dynstuf_list S) < 2" using items_length [OF assms] by (simp add: word_less_nat_alt)
  then have "rev (dynstuf_list S) = dynstuf_list S" by (cases "dynstuf_list S") auto
  then show ?thesis using that [of S] True assms by (simp add: dynstuf_reverse_def)
next
  case False
  let ?l = "dynstuf_list S"
  have n: "2 \<le> length ?l" using False items_length [OF assms] by (simp add: word_less_nat_alt)
  then have "items S > 0" using items_pos [OF assms] by auto
  then have d: "unat (items S - 1) = length ?l - 1" using unat_dec items_length [OF assms] by simp
  then have "items S - 1 < items S" using n items_length [OF assms] by (simp add: word_less_nat_alt)
  then obtain S' where S': "reverse_loop S 0 (items S - 1) = Some S'" "dynstuf_ok S'" "dynstuf_list S' = mirrored 0 (length ?l - 1) ?l"
    using reverse_loop_list [OF assms, of "items S - 1" 0] d by auto
  have "mirrored 0 (length ?l - 1) ?l = rev ?l" by (rule nth_equalityI) (auto simp: mirrored_def rev_nth)
  then show ?thesis using that [OF _ S'(2)] S' False by (simp add: dynstuf_reverse_def)
qed

section \<open>The interface\<close>

text \<open>What the users of a vector rely on, with the value of the vector as a list.\<close>

locale vector =
  fixes ok :: "'s \<Rightarrow> bool" and val :: "'s \<Rightarrow> 'a list"
    and push :: "'s \<Rightarrow> 'a \<Rightarrow> ('s \<times> bool) option" and get :: "'s \<Rightarrow> u64 \<Rightarrow> 'a option option" and reverse :: "'s \<Rightarrow> 's option"
  assumes push: "ok s \<Longrightarrow> \<exists>s' b. push s x = Some (s', b) \<and> ok s' \<and> val s' = val s @ (if b then [x] else [])"
    and get: "ok s \<Longrightarrow> get s i = Some (if unat i < length (val s) then Some (val s ! unat i) else None)"
    and reverse: "ok s \<Longrightarrow> \<exists>s'. reverse s = Some s' \<and> ok s' \<and> val s' = rev (val s)"
begin

text \<open>Pushing values until one push fails.\<close>

fun push_all :: "'s \<Rightarrow> 'a list \<Rightarrow> ('s \<times> bool) option" where
  "push_all s [] = Some (s, True)"
| "push_all s (x # xs) = do { (s, b) \<leftarrow> push s x; if b then push_all s xs else Some (s, False) }"

lemma push_all_val:
  "ok s \<Longrightarrow> \<exists>s' b n. push_all s xs = Some (s', b) \<and> ok s' \<and> val s' = val s @ take n xs \<and> (b \<longrightarrow> n = length xs)"
proof (induction xs arbitrary: s)
  case (Cons x xs)
  obtain s1 b where s1: "push s x = Some (s1, b)" "ok s1" "val s1 = val s @ (if b then [x] else [])" using push [OF Cons.prems] by blast
  show ?case
  proof (cases b)
    case False
    then show ?thesis using s1 by (auto intro: exI [of _ 0])
  next
    case True
    obtain s' b' n where "push_all s1 xs = Some (s', b')" "ok s'" "val s' = val s1 @ take n xs" "b' \<longrightarrow> n = length xs"
      using Cons.IH [OF s1(2)] by blast
    then show ?thesis using s1 True by (auto intro: exI [of _ "Suc n"])
  qed
qed auto

text \<open>A vector read from its first slot on yields its values.\<close>

lemma get_all:
  assumes "ok s" and "length (val s) < 2 ^ 64"
  shows "map (\<lambda>i. get s (word_of_nat i)) [0..<length (val s)] = map (\<lambda>x. Some (Some x)) (val s)"
proof (rule nth_equalityI)
  fix k assume "k < length (map (\<lambda>i. get s (word_of_nat i)) [0..<length (val s)])"
  then have k: "k < length (val s)" by simp
  then have "unat (word_of_nat k :: u64) = k" using assms(2) by (simp add: unat_of_nat take_bit_nat_eq_self)
  then show "map (\<lambda>i. get s (word_of_nat i)) [0..<length (val s)] ! k = map (\<lambda>x. Some (Some x)) (val s) ! k"
    using k get [OF assms(1)] by simp
qed simp

end

interpretation dv: vector
  "\<lambda>(realloc, S). realloc_ok realloc \<and> dynstuf_ok S" "\<lambda>(realloc, S). dynstuf_list S"
  "\<lambda>(realloc, S) x. map_option (apfst (Pair realloc)) (dynstuf_push realloc S x)" "\<lambda>(realloc, S) i. dynstuf_get S i"
  "\<lambda>(realloc, S). map_option (Pair realloc) (dynstuf_reverse S)"
proof
  fix s :: "'a realloc \<times> 'a dynstuf" and x i
  obtain r S where s: "s = (r, S)" by force
  assume "case s of (realloc, S) \<Rightarrow> realloc_ok realloc \<and> dynstuf_ok S"
  then have ok: "realloc_ok r" "dynstuf_ok S" by (simp_all add: s)
  obtain S' b where "dynstuf_push r S x = Some (S', b)" "dynstuf_ok S'" "dynstuf_list S' = dynstuf_list S @ (if b then [x] else [])"
    using dynstuf_push_list [OF ok] by blast
  then show "\<exists>s' b. (case s of (realloc, S) \<Rightarrow> \<lambda>x. map_option (apfst (Pair realloc)) (dynstuf_push realloc S x)) x = Some (s', b) \<and>
      (case s' of (realloc, S) \<Rightarrow> realloc_ok realloc \<and> dynstuf_ok S) \<and>
      (case s' of (realloc, S) \<Rightarrow> dynstuf_list S) = (case s of (realloc, S) \<Rightarrow> dynstuf_list S) @ (if b then [x] else [])"
    using ok by (auto simp: s)
  show "(case s of (realloc, S) \<Rightarrow> dynstuf_get S) i = Some (if unat i < length (case s of (realloc, S) \<Rightarrow> dynstuf_list S)
      then Some ((case s of (realloc, S) \<Rightarrow> dynstuf_list S) ! unat i) else None)"
    using dynstuf_get_list [OF ok(2)] by (simp add: s)
  obtain S' where "dynstuf_reverse S = Some S'" "dynstuf_ok S'" "dynstuf_list S' = rev (dynstuf_list S)"
    using dynstuf_reverse_list [OF ok(2)] by blast
  then show "\<exists>s'. (case s of (realloc, S) \<Rightarrow> map_option (Pair realloc) (dynstuf_reverse S)) = Some s' \<and>
      (case s' of (realloc, S) \<Rightarrow> realloc_ok realloc \<and> dynstuf_ok S) \<and>
      (case s' of (realloc, S) \<Rightarrow> dynstuf_list S) = rev (case s of (realloc, S) \<Rightarrow> dynstuf_list S)"
    using ok by (auto simp: s)
qed

section \<open>Properties\<close>

text \<open>C29: the vector is a list.  On a vector in its invariant every operation returns without an access outside the allocated slots, keeps the
  invariant, and does to the list of its values what it promises: \<open>push\<close> appends (or leaves the list when memory is short), \<open>pop\<close> and \<open>peek\<close>
  take the last value, \<open>get\<close>, \<open>set\<close> and \<open>replace\<close> act on the value at an index and return NULL beyond the end, \<open>reverse\<close> reverses, \<open>visit\<close>
  meets the values in order, and \<open>find\<close> returns the first index from the start on whose value matches the key, or the length.\<close>

theorem dynstuf_refines:
  assumes "realloc_ok realloc" and "dynstuf_ok S"
  shows "let xs = dynstuf_list S in
    (\<exists>S' b. dynstuf_push realloc S x = Some (S', b) \<and> dynstuf_ok S' \<and> dynstuf_list S' = xs @ (if b then [x] else [])) \<and>
    (\<exists>S'. dynstuf_pop S = Some (S', if xs = [] then None else Some (last xs)) \<and> dynstuf_ok S' \<and> dynstuf_list S' = butlast xs) \<and>
    dynstuf_peek S = Some (if xs = [] then None else Some (last xs)) \<and>
    dynstuf_get S i = Some (if unat i < length xs then Some (xs ! unat i) else None) \<and>
    (\<exists>S'. dynstuf_replace S i x = Some (S', if unat i < length xs then Some (xs ! unat i) else None) \<and>
       dynstuf_set S i x = Some (S', if unat i < length xs then Some x else None) \<and> dynstuf_ok S' \<and> dynstuf_list S' = xs[unat i := x]) \<and>
    (\<exists>S'. dynstuf_reverse S = Some S' \<and> dynstuf_ok S' \<and> dynstuf_list S' = rev xs) \<and>
    dynstuf_visit visitor S acc = Some (fold visitor xs acc) \<and>
    (\<exists>k. dynstuf_find cmp S i key = Some k \<and> unat k \<le> length xs \<and> (unat k < length xs \<longrightarrow> unat i \<le> unat k \<and> cmp (xs ! unat k) key = 0) \<and>
       (\<forall>j. unat i \<le> j \<and> j < unat k \<longrightarrow> cmp (xs ! j) key \<noteq> 0))"
  unfolding Let_def
  using dynstuf_push_list [OF assms(1,2), of x] dynstuf_pop_list [OF assms(2)] dynstuf_peek_list [OF assms(2)] dynstuf_get_list [OF assms(2)]
    dynstuf_replace_list [OF assms(2), of i x] dynstuf_reverse_list [OF assms(2)] visit_loop_list [OF assms(2), of visitor 0 acc]
    dynstuf_find_list [OF assms(2), of cmp i key]
  by (intro conjI) (metis, metis, blast, blast, metis, metis, simp add: dynstuf_visit_def, metis)

definition realloc0 :: "nat realloc" where
  "realloc0 old n = (if unat n < 2 ^ 61 then Some (take (unat n div 8) old @ replicate (unat n div 8 - length old) 0) else None)"

lemma realloc0_ok: "realloc_ok realloc0"
  by (auto simp: realloc_ok_def realloc0_def)

definition vec0 :: "nat dynstuf" where
  "vec0 = \<lparr>stuf = Some [7, 8, 0, 0], slots = 4, items = 2\<rparr>"

theorem dynstuf_refines_witness:
  "dynstuf_get vec0 1 = Some (Some 8) \<and> (\<exists>S'. dynstuf_reverse vec0 = Some S' \<and> dynstuf_list S' = [8, 7])"
proof -
  have ok: "dynstuf_ok vec0" by (simp add: dynstuf_ok_def vec0_def)
  have l: "dynstuf_list vec0 = [7, 8]" by (simp add: dynstuf_list_def vec0_def)
  note r = dynstuf_refines [OF realloc0_ok ok, of 0 1 "\<lambda>x a. a" "()" "\<lambda>a k. 0" "()", unfolded l Let_def]
  from r have "dynstuf_get vec0 1 = Some (Some 8)" by simp
  moreover from r have "\<exists>S'. dynstuf_reverse vec0 = Some S' \<and> dynstuf_list S' = [8, 7]" by auto
  ultimately show ?thesis ..
qed

text \<open>The test in \<open>dynstuf_grow\<close> that the size in bytes has not overflowed does not decide that: with a \<open>realloc()\<close> that gives as many bytes as it is asked
  for, without bound, growing an empty vector by \<open>0x1400000000000000\<close> succeeds with more slots than were allocated.\<close>

theorem dynstuf_grow_overflow:
  "\<exists>(realloc :: nat realloc) S. dynstuf_ok S \<and> (\<forall>old n new. realloc old n = Some new \<longrightarrow> length new = unat n div 8) \<and>
     snd (dynstuf_grow realloc S 0x1400000000000000) \<and> \<not> dynstuf_ok (fst (dynstuf_grow realloc S 0x1400000000000000))"
  by (rule exI [of _ "\<lambda>old n. Some (replicate (unat n div 8) 0)"], rule exI [of _ "\<lparr>stuf = None, slots = 0, items = 0\<rparr>"])
    (simp add: dynstuf_ok_def dynstuf_grow_def push_bit_eq_mult)

end
