(* ===== verification/Perpls.thy ===== *)
theory Perpls
  imports Perpstat Dynstuf
begin

text \<open>
  The program that lists services, \<open>src/perp/perpls.c\<close>: the table of colour capabilities, the status object of a service with its panel, the order of
  the list, the lines, and \<open>main\<close>.  The vector \<open>svstuf\<close> of pointers to status objects is the list of the objects; that pushing, reading in order and
  reversing a vector are the operations on lists used here is shown in the theory of \<open>dynstuf\<close>.  \<open>qsort()\<close> is a parameter.
\<close>

section \<open>Definitions\<close>

subsection \<open>Capabilities\<close>

datatype cap_id = CAP_DF | CAP_NA | CAP_AN | CAP_AR | CAP_AP | CAP_AD | CAP_WU | CAP_WD | CAP_ER | CAP_EX | CAP_NU

fun cap_ndx :: "cap_id \<Rightarrow> nat" where
  "cap_ndx CAP_DF = 0" | "cap_ndx CAP_NA = 1" | "cap_ndx CAP_AN = 2" | "cap_ndx CAP_AR = 3" | "cap_ndx CAP_AP = 4" | "cap_ndx CAP_AD = 5"
| "cap_ndx CAP_WU = 6" | "cap_ndx CAP_WD = 7" | "cap_ndx CAP_ER = 8" | "cap_ndx CAP_EX = 9" | "cap_ndx CAP_NU = 10"

definition CAP_ATTR_MAX :: nat where "CAP_ATTR_MAX = 15"

record lscap =
  lscap_id :: cap_id
  cap_key :: "u8 list option"
  attr :: buffer

text \<open>The array \<open>attr[CAP_ATTR_MAX + 1]\<close> initialised with a string.\<close>

definition attr_init :: "string \<Rightarrow> buffer" where
  "attr_init s = bytes s @ replicate (CAP_ATTR_MAX + 1 - length s) 0"

definition captab0 :: "lscap list" where
  "captab0 = map (\<lambda>(c, k). \<lparr>lscap_id = c, cap_key = Some (bytes k), attr = attr_init ''0''\<rparr>)
       [(CAP_DF, ''df''), (CAP_NA, ''na''), (CAP_AN, ''an''), (CAP_AR, ''ar''), (CAP_AP, ''ap''), (CAP_AD, ''ad''), (CAP_WU, ''wu''), (CAP_WD, ''wd''),
        (CAP_ER, ''er''), (CAP_EX, ''ex'')] @ [\<lparr>lscap_id = CAP_NU, cap_key = None, attr = attr_init ''''\<rparr>]"

definition LSCAPS :: nat where "LSCAPS = 10"

text \<open>\<open>while((*d != '\0') && (*d != stop)) ++d;\<close>\<close>

function scan_to :: "buffer \<Rightarrow> nat \<Rightarrow> u8 \<Rightarrow> nat option" where
  "scan_to b d stop = do { c \<leftarrow> rd b d; if c \<noteq> 0 \<and> c \<noteq> stop then scan_to b (d + 1) stop else Some d }"
  by pat_completeness auto
termination
  by (relation "measure (\<lambda>(b, d, stop). length b - d)") (auto simp: mem_simps)

declare scan_to.simps [simp del]

lemma scan_to_bounds: "scan_to b d stop = Some d' \<Longrightarrow> d \<le> d' \<and> d' < length b"
proof (induction b d stop arbitrary: d' rule: scan_to.induct)
  case (1 b d stop)
  obtain c where c: "rd b d = Some c" using "1.prems" by (subst (asm) scan_to.simps) (auto split: Option.bind_splits)
  show ?case
  proof (cases "c \<noteq> 0 \<and> c \<noteq> stop")
    case True
    then have "scan_to b (d + 1) stop = Some d'" using "1.prems" c by (subst (asm) scan_to.simps) simp
    then show ?thesis using "1.IH" [OF c] True by force
  next
    case False
    then have "d' = d" using "1.prems" c by (subst (asm) scan_to.simps) auto
    then show ?thesis using c by (simp add: mem_simps)
  qed
qed

text \<open>The loop of \<open>captab_lookup\<close>: the position and length of the attribute, if the key is found.\<close>

function captab_loop :: "buffer \<Rightarrow> nat \<Rightarrow> buffer \<Rightarrow> nat \<Rightarrow> (nat \<times> nat) option option" where
  "captab_loop db d0 key key_len = do {
     c0 \<leftarrow> rd db d0;
     if c0 = 0 then Some None
     else do {
       d \<leftarrow> scan_to db d0 (of_char CHR ''='');
       c \<leftarrow> rd db d;
       if c = 0 then Some None
       else do {
         let k = d - d0;
         r \<leftarrow> (if k = key_len then cstr_ncmp key 0 db d0 k else Some 1);
         e \<leftarrow> scan_to db (d + 1) (of_char CHR '':'');
         if r = 0 then Some (Some (d + 1, e - (d + 1)))
         else do {
           c \<leftarrow> rd db e;
           captab_loop db (if c = of_char CHR '':'' then e + 1 else e) key key_len } } } }"
  by pat_completeness auto
termination
proof (relation "measure (\<lambda>(db, d0, key, key_len). length db - d0)")
  fix db d0 key key_len c0 d c r e c'
  assume "scan_to db d0 (of_char CHR ''='') = Some d" and "scan_to db (d + 1) (of_char CHR '':'') = Some e"
  then show "((db, if c' = of_char CHR '':'' then e + 1 else e, key, key_len), db, d0, key, key_len) \<in> measure (\<lambda>(db, d0, key, key_len). length db - d0)"
    using scan_to_bounds [of db d0] scan_to_bounds [of db "d + 1"] by force
qed simp

declare captab_loop.simps [simp del]

definition captab_lookup :: "buffer option \<Rightarrow> buffer option \<Rightarrow> (nat \<times> nat) option option" where
  "captab_lookup db key =
     (case (db, key) of
        (Some db, Some key) \<Rightarrow> do {
          c \<leftarrow> rd key 0;
          if c = 0 then Some None
          else do { key_len \<leftarrow> cstr_len key 0; captab_loop db 0 key key_len } }
      | _ \<Rightarrow> Some None)"

text \<open>One round of \<open>captab_init\<close>, and the loop.\<close>

definition captab_init_cap :: "buffer option \<Rightarrow> lscap list \<Rightarrow> nat \<Rightarrow> lscap list option" where
  "captab_init_cap db captab i = do {
     r \<leftarrow> captab_lookup db (map_option (\<lambda>k. k @ [0]) (cap_key (captab ! i)));
     a \<leftarrow>
       (case r of
          Some (off, len) \<Rightarrow>
            if len < CAP_ATTR_MAX then do { a \<leftarrow> buf_copy (attr (captab ! i)) 0 (the db) off len; wr a len 0 }
            else do { (a, _) \<leftarrow> cstr_copy (attr (captab ! i)) 0 (attr (captab ! 0)) 0; Some a }
        | None \<Rightarrow> do { (a, _) \<leftarrow> cstr_copy (attr (captab ! i)) 0 (attr (captab ! 0)) 0; Some a });
     Some (captab[i := (captab ! i)\<lparr>attr := a\<rparr>]) }"

fun captab_init_loop :: "buffer option \<Rightarrow> lscap list \<Rightarrow> nat list \<Rightarrow> lscap list option" where
  "captab_init_loop db captab [] = Some captab"
| "captab_init_loop db captab (i # is) =
     (if cap_ndx (lscap_id (captab ! i)) \<noteq> i then None \<comment> \<open>\<open>barf\<close>\<close>
      else do { captab \<leftarrow> captab_init_cap db captab i; captab_init_loop db captab is })"

definition captab_init :: "buffer option \<Rightarrow> lscap list \<Rightarrow> lscap list option" where
  "captab_init db captab = captab_init_loop db captab [0..<LSCAPS]"

subsection \<open>Status objects\<close>

definition BINSTAT_SIZE :: nat where "BINSTAT_SIZE = 66"
definition PERP_PANEL :: "u8 list" where "PERP_PANEL = bytes ''[- --- ---]''"

record svstat =
  is_active :: int
  cap :: cap_id
  ls_name :: "u8 list"
  panel :: "u8 list"
  binstat :: buffer
  pid_main :: int
  uptime_main :: u64
  has_log :: bool
  pid_log :: int
  uptime_log :: u64
  sys_errno :: int
  errmsg :: string

text \<open>\<open>svstat_init(NULL, svdir)\<close>: the memory of the new object as it comes from \<open>malloc()\<close>, \<open>None\<close> when an allocation fails.\<close>

definition svstat_init :: "svstat option \<Rightarrow> u8 list \<Rightarrow> svstat option" where
  "svstat_init mem svdir =
     (case mem of
        None \<Rightarrow> None
      | Some S \<Rightarrow> Some (S\<lparr>is_active := 0, cap := CAP_NA, ls_name := svdir, panel := PERP_PANEL, pid_main := -1, uptime_main := 0,
          has_log := False, pid_log := -1, uptime_log := 0, sys_errno := 0\<rparr>))"

text \<open>The failure that several branches of \<open>svstat_query\<close> record.\<close>

definition svstat_fail :: "svstat \<Rightarrow> int \<Rightarrow> string \<Rightarrow> svstat" where
  "svstat_fail S e msg = S\<lparr>panel := (panel S)[1 := of_char CHR ''E''], sys_errno := e, errmsg := msg\<rparr>"

text \<open>What \<open>svstat_query\<close> makes of the exchange.\<close>

definition svstat_reply :: "svstat \<Rightarrow> xfail + buffer \<Rightarrow> svstat option" where
  "svstat_reply S r =
     (case r of
        Inl (Write_fail e) \<Rightarrow> Some (svstat_fail S e ''failure pkt_write() during status query'')
      | Inl (Read_fail e) \<Rightarrow> Some (svstat_fail S e ''failure pkt_read() during status query'')
      | Inr pkt \<Rightarrow>
          if pkt ! 0 \<noteq> 2 then Some (svstat_fail S EPROTO ''unknown packet protocol in status reply'')
          else if pkt ! 1 \<noteq> cmd CHR ''S'' then
            (if pkt ! 1 = cmd CHR ''E'' then do { e \<leftarrow> upak32_unpack (drop 3 pkt); Some (svstat_fail S (sint e) ''error reported in status reply'') }
             else Some (svstat_fail S EPROTO ''unknown packet type in status reply''))
          else do { b \<leftarrow> buf_copy (binstat S) 0 (pkt_data pkt) 0 BINSTAT_SIZE; Some (S\<lparr>binstat := b\<rparr>) })"

definition svstat_query :: "cenv \<Rightarrow> link \<Rightarrow> svstat \<Rightarrow> (link \<times> svstat) option" where
  "svstat_query env lk S =
     (let S = S\<lparr>sys_errno := 0\<rparr>
      in case env_stat env (ls_name S) of
           Inl e \<Rightarrow> Some (lk, svstat_fail S e ''failure stat() on service directory'')
         | Inr st \<Rightarrow>
             if \<not> S_ISDIR (st_mode st) then Some (lk, svstat_fail S ENOTDIR ''not a directory'')
             else if \<not> S_ISVTX (st_mode st) then Some (lk, S\<lparr>panel := (panel S)[1 := of_char CHR ''-'']\<rparr>)
             else do {
               let S = S\<lparr>panel := (panel S)[1 := of_char CHR ''+'']\<rparr>;
               pkt \<leftarrow> pkt_pack (pkt_INIT 2 (cmd CHR ''Q'') 16) ''LL'' [VU64 (st_dev st), VU64 (st_ino st)];
               let (lk, r) = pkt_exchange lk pkt;
               S \<leftarrow> svstat_reply S r;
               Some (lk, S) })"

text \<open>The part of \<open>svstat_unpack\<close> for a subservice: the fields at \<open>off\<close> in the status, the characters of the panel from \<open>c\<close> on.  The source has it once for the
  main service, at 30 and 3, and once for the logger, at 48 and 7.\<close>

definition unpack_subsv :: "buffer \<Rightarrow> nat \<Rightarrow> nat \<Rightarrow> tain \<Rightarrow> u8 list \<Rightarrow> (int \<times> u64 \<times> u8 list) option" where
  "unpack_subsv buf off c t pn = do {
     u \<leftarrow> upak32_unpack (drop off buf);
     let pid = sint u;
     since \<leftarrow> tain_unpack (Tain 0 0) (drop (off + 4) buf);
     let uptime = tain_uptime t since;
     flags \<leftarrow> rd buf (off + 16);
     let x = of_char (if pid \<noteq> 0 then CHR ''+'' else CHR ''.'');
     let pn = pn[c := x, c + 1 := x, c + 2 := x];
     let pn = (if (pid = 0 \<and> \<not> has_flag flags SUBSV_FLAG_WANTDOWN) \<or> (pid \<noteq> 0 \<and> has_flag flags SUBSV_FLAG_WANTDOWN)
               then pn[c := of_char CHR ''!''] else pn);
     if pid > 0 then do {
       let pn = (if has_flag flags SUBSV_FLAG_ISONCE then pn[c + 1 := of_char CHR ''o''] else pn);
       let pn = (if has_flag flags SUBSV_FLAG_ISPAUSED then pn[c + 2 := of_char CHR ''p''] else pn);
       let pn = (if has_flag flags SUBSV_FLAG_ISRESET then pn[c + 2 := of_char CHR ''r''] else pn);
       if uptime < 1 \<and> \<not> has_flag flags SUBSV_FLAG_ISRESET then
         Some (0, uptime, pn[c := of_char CHR ''!'', c + 1 := of_char CHR ''.'', c + 2 := of_char CHR ''.''])
       else Some (pid, uptime, pn) }
     else Some (pid, uptime, pn) }"

definition svstat_unpack :: "svstat \<Rightarrow> tain \<Rightarrow> svstat option" where
  "svstat_unpack S t =
     (if panel S ! 1 = of_char CHR ''E'' \<or> panel S ! 1 = of_char CHR ''-'' then Some S
      else do {
        flags \<leftarrow> rd (binstat S) 28;
        let S = (if has_flag flags SVDEF_FLAG_CULL
                 then S\<lparr>panel := (panel S)[1 := of_char (if has_flag flags SVDEF_FLAG_CYCLE then CHR ''R'' else CHR ''!'')]\<rparr> else S);
        let S = S\<lparr>has_log := has_flag flags SVDEF_FLAG_HASLOG\<rparr>;
        (pid, up, pn) \<leftarrow> unpack_subsv (binstat S) 30 3 t (panel S);
        let S = S\<lparr>pid_main := pid, uptime_main := up, panel := pn\<rparr>;
        if \<not> has_log S then Some S
        else do {
          (pid, up, pn) \<leftarrow> unpack_subsv (binstat S) 48 7 t (panel S);
          Some (S\<lparr>pid_log := pid, uptime_log := up, panel := pn\<rparr>) } })"

definition svstat_setcap :: "svstat \<Rightarrow> svstat" where
  "svstat_setcap S =
     (let pn = panel S; ch = (\<lambda>c i. pn ! i = of_char c);
          c = (if ch CHR ''E'' 1 then CAP_ER
               else if ch CHR ''!'' 1 \<or> ch CHR ''R'' 1 then CAP_EX
               else if ch CHR ''-'' 1 then CAP_NA
               else if \<not> ch CHR ''+'' 1 then CAP_ER
               else if ch CHR ''!'' 3 then (if ch CHR ''.'' 4 then CAP_WU else CAP_WD)
               else if ch CHR ''!'' 7 then (if ch CHR ''.'' 8 then CAP_WU else CAP_WD)
               else if ch CHR ''.'' 4 then CAP_AD
               else if ch CHR ''p'' 5 then CAP_AP
               else if ch CHR ''r'' 5 then CAP_AR
               else CAP_AN)
      in S\<lparr>cap := c\<rparr>)"

subsection \<open>Order and lines\<close>

definition cmp_byname :: "svstat \<Rightarrow> svstat \<Rightarrow> int option" where
  "cmp_byname sv1 sv2 = cstr_cmp (ls_name sv1 @ [0]) 0 (ls_name sv2 @ [0]) 0"

definition cmp_byuptime :: "svstat \<Rightarrow> svstat \<Rightarrow> int option" where
  "cmp_byuptime sv1 sv2 =
     (if uptime_main sv1 < uptime_main sv2 then Some (-1)
      else if uptime_main sv1 > uptime_main sv2 then Some 1
      else cstr_cmp (ls_name sv1 @ [0]) 0 (ls_name sv2 @ [0]) 0)"

definition PADMAX :: nat where "PADMAX = 80"

fun pad_loop :: "u8 list \<Rightarrow> nat \<Rightarrow> u8 list" where
  "pad_loop s 0 = []"
| "pad_loop [] (Suc width) = of_char CHR '' '' # pad_loop [] width"
| "pad_loop (c # s) (Suc width) = c # pad_loop s width"

text \<open>The string in \<open>padbuf\<close>, or NULL.\<close>

definition name_pad :: "u8 list \<Rightarrow> nat \<Rightarrow> u8 list option" where
  "name_pad name width = (if width > PADMAX then None else Some (pad_loop name width))"

text \<open>\<open>vputs\<close> writes its strings up to the first that is NULL.\<close>

fun vputs :: "u8 list option list \<Rightarrow> u8 list" where
  "vputs [] = []"
| "vputs (None # ss) = []"
| "vputs (Some s # ss) = s @ vputs ss"

text \<open>The end of a line, after the name; \<open>errno_defs\<close> is the table of error names.\<close>

definition ls_detail :: "sysno_def list \<Rightarrow> svstat \<Rightarrow> u8 list option" where
  "ls_detail errno_defs S =
     (let pn = panel S; shown = (\<lambda>i. pn ! i = of_char CHR ''+'' \<or> pn ! i = of_char CHR ''o''); num = (\<lambda>i u. if shown i then nstr u else Some (bytes ''-''))
      in if pn ! 1 = of_char CHR ''E'' then do {
           e \<leftarrow> sysstr_errno errno_defs (sys_errno S);
           Some (vputs [Some (bytes ''  error: ''), Some (bytes (errmsg S)), Some (bytes '' [''), e, Some (bytes '']'')]) }
         else if pn ! 1 = of_char CHR ''+'' then do {
           up_main \<leftarrow> num 4 (ucast (uptime_main S));
           up_log \<leftarrow> num 8 (ucast (uptime_log S));
           pids_main \<leftarrow> num 4 (word_of_int (pid_main S));
           pids_log \<leftarrow> num 8 (word_of_int (pid_log S));
           Some (bytes ''  uptime: '' @ up_main @ bytes ''s/'' @ up_log @ bytes ''s  pids: '' @ pids_main @ bytes ''/'' @ pids_log) }
         else if pn ! 1 = of_char CHR ''-'' then Some (bytes ''  (service not activated)'')
         else if pn ! 1 = of_char CHR ''!'' then Some (bytes ''  (service deactivation in progress)'')
         else if pn ! 1 = of_char CHR ''R'' then Some (bytes ''  (service reactivation in progress)'')
         else Some (bytes ''  ???''))"

definition ls_line :: "sysno_def list \<Rightarrow> lscap list option \<Rightarrow> nat \<Rightarrow> tain \<Rightarrow> svstat \<Rightarrow> u8 list option" where
  "ls_line errno_defs colors width t S = do {
     S \<leftarrow> svstat_unpack S t;
     let S = (if colors \<noteq> None then svstat_setcap S else S);
     let name = name_pad (ls_name S) width;
     detail \<leftarrow> ls_detail errno_defs S;
     let esc = [27] @ bytes ''[00m'';
     Some (
       (case colors of
          Some captab \<Rightarrow>
            vputs [Some (panel S), Some (bytes ''  ''), Some (esc @ [27] @ bytes ''[''), Some (cstr_of (attr (captab ! cap_ndx (cap S)))),
              Some (bytes ''m''), name, Some esc]
        | None \<Rightarrow> vputs [Some (panel S), Some (bytes ''  ''), name]) @ detail @ [10]) }"

subsection \<open>The program\<close>

text \<open>Beyond the other clients: \<open>getenv("PERPLS_COLORS")\<close>, \<open>isatty(1)\<close>, the names in the base directory in the order of \<open>readdir()\<close>, the memory
  of the objects as \<open>malloc()\<close> gives it for the \<open>n\<close>th allocation, \<open>qsort()\<close>, and the table of error names.\<close>

record lsenv = cenv +
  env_colors :: "u8 list option"
  env_tty :: bool
  env_dir :: "u8 list list option"
  env_mem :: "nat \<Rightarrow> svstat option"
  env_qsort :: "(svstat \<Rightarrow> svstat \<Rightarrow> int) \<Rightarrow> svstat list \<Rightarrow> svstat list"
  env_errnos :: "sysno_def list"

datatype ls_order = By_name | By_uptime

record lsopts =
  ls_basedir :: "u8 list option"
  opt_G :: bool
  opt_K :: bool
  opt_r :: bool
  use_color :: bool
  sort_by :: "ls_order option"

definition PERPLS_COLORS_DEFAULT :: "u8 list" where
  "PERPLS_COLORS_DEFAULT = bytes ''df=00:na=00:an=01:ar=01;33:ap=01;33:ad=01;34:wu=01;33:wd=01;33:er=01;31:ex=01;31''"

definition perpls_option :: "u8 \<Rightarrow> u8 list option \<Rightarrow> lsopts \<Rightarrow> int + lsopts" where
  "perpls_option opt arg o1 =
     (if opt = cmd CHR ''h'' then Inl 0
      else if opt = cmd CHR ''V'' then Inl 0
      else if opt = cmd CHR ''b'' then Inr (o1\<lparr>ls_basedir := arg\<rparr>)
      else if opt = cmd CHR ''c'' then Inr (o1\<lparr>ls_basedir := Some (bytes ''.'')\<rparr>)
      else if opt = cmd CHR ''G'' then Inr (o1\<lparr>opt_G := True, use_color := True\<rparr>)
      else if opt = cmd CHR ''g'' then Inr (o1\<lparr>opt_G := False, use_color := False\<rparr>)
      else if opt = cmd CHR ''K'' then Inr (o1\<lparr>opt_K := True\<rparr>)
      else if opt = cmd CHR ''r'' then Inr (o1\<lparr>opt_r := True\<rparr>)
      else if opt = cmd CHR ''t'' then Inr (o1\<lparr>sort_by := Some By_uptime\<rparr>)
      else Inl 100)"

text \<open>The capability string in use, or none.\<close>

definition perpls_colors :: "lsenv \<Rightarrow> lsopts \<Rightarrow> u8 list option" where
  "perpls_colors env o1 =
     (if \<not> use_color o1 then None
      else if opt_G o1 then
        (case env_colors env of
           Some db \<Rightarrow> Some (if db = [] then PERPLS_COLORS_DEFAULT else db)
         | None \<Rightarrow> Some PERPLS_COLORS_DEFAULT)
      else
        (case env_colors env of
           Some db \<Rightarrow> if db = [] \<or> \<not> env_tty env then None else Some db
         | None \<Rightarrow> None))"

text \<open>Objects for a list of names, from the \<open>n\<close>th allocation on; \<open>None\<close> is an allocation failure.\<close>

fun svstat_all :: "(nat \<Rightarrow> svstat option) \<Rightarrow> nat \<Rightarrow> u8 list list \<Rightarrow> svstat list option" where
  "svstat_all mem n [] = Some []"
| "svstat_all mem n (d # ds) = do { S \<leftarrow> svstat_init (mem n) d; Ss \<leftarrow> svstat_all mem (n + 1) ds; Some (S # Ss) }"

text \<open>The entries of the base directory that are listed.\<close>

definition ls_entry :: "lsenv \<Rightarrow> u8 list \<Rightarrow> bool" where
  "ls_entry env d \<longleftrightarrow> hd (d @ [0]) \<noteq> of_char CHR ''.'' \<and> (case env_stat env d of Inl _ \<Rightarrow> False | Inr st \<Rightarrow> S_ISDIR (st_mode st))"

text \<open>The loop that queries perpd and finds the longest name.\<close>

fun query_all :: "lsenv \<Rightarrow> link \<Rightarrow> svstat list \<Rightarrow> nat \<Rightarrow> (svstat list \<times> nat) option" where
  "query_all env lk [] width = Some ([], width)"
| "query_all env lk (S # Ss) width = do {
     (lk, S) \<leftarrow> svstat_query (cenv.truncate env) lk S;
     w \<leftarrow> cstr_len (ls_name S @ [0]) 0;
     (Ss, width) \<leftarrow> query_all env lk Ss (if w > width then w else width);
     Some (S # Ss, width) }"

definition cmp_of :: "ls_order \<Rightarrow> svstat \<Rightarrow> svstat \<Rightarrow> int" where
  "cmp_of ord a b = (case (case ord of By_name \<Rightarrow> cmp_byname a b | By_uptime \<Rightarrow> cmp_byuptime a b) of Some x \<Rightarrow> x | None \<Rightarrow> 0)"

fun ls_lines :: "sysno_def list \<Rightarrow> lscap list option \<Rightarrow> nat \<Rightarrow> tain \<Rightarrow> svstat list \<Rightarrow> u8 list option" where
  "ls_lines errno_defs colors width t [] = Some []"
| "ls_lines errno_defs colors width t (S # Ss) = do {
     l \<leftarrow> ls_line errno_defs colors width t S;
     ls \<leftarrow> ls_lines errno_defs colors width t Ss;
     Some (l @ ls) }"

text \<open>\<open>main\<close> from the connection on.\<close>

definition perpls_show :: "lsenv \<Rightarrow> lsopts \<Rightarrow> lscap list option \<Rightarrow> link \<Rightarrow> ls_order option \<Rightarrow> svstat list \<Rightarrow> u8 list option" where
  "perpls_show env o1 colors lk ord Ss = do {
     (Ss, width) \<leftarrow> query_all env lk Ss 0;
     let Ss = (case ord of Some ord \<Rightarrow> env_qsort env (cmp_of ord) Ss | None \<Rightarrow> Ss);
     let Ss = (if opt_r o1 then rev Ss else Ss);
     ls_lines (env_errnos env) colors width (env_now env) Ss }"

text \<open>\<open>main\<close>: the text written and the exit code.\<close>

definition perpls_main :: "lsenv \<Rightarrow> u8 list list \<Rightarrow> (u8 list \<times> int) option" where
  "perpls_main env args = do {
     r \<leftarrow> main_options perpls_option (bytes '':hVb:cGgKrt'') args
            \<lparr>ls_basedir = None, opt_G = False, opt_K = False, opt_r = False, use_color = True, sort_by = None\<rparr>;
     case r of
       Inl code \<Rightarrow> Some ([], code)
     | Inr (o1, names) \<Rightarrow> do {
         let db = perpls_colors env o1;
         colors \<leftarrow> (case db of None \<Rightarrow> Some None | Some db \<Rightarrow> do { t \<leftarrow> captab_init (Some (db @ [0])) captab0; Some (Some t) });
         if db \<noteq> None \<and> opt_K o1 then Some ([], 0)
         else do {
           let basedir = base_dir True (ls_basedir o1) (env_base env);
           if \<not> env_chdir env basedir then Some ([], 111)
           else if names = [] \<and> env_dir env = None then Some ([], 111)
           else do {
             let listed = (if names \<noteq> [] then names else filter (ls_entry env) (the (env_dir env)));
             let ord = (if names = [] \<and> sort_by o1 = None then Some By_name else sort_by o1);
             case svstat_all (env_mem env) 0 listed of
               None \<Rightarrow> Some ([], 111)
             | Some Ss \<Rightarrow> do {
                 path \<leftarrow> control_path basedir PERPD_SOCKET;
                 case path of
                   None \<Rightarrow> Some ([], 111)
                 | Some path \<Rightarrow>
                     (case env_connect env path of
                        None \<Rightarrow> Some ([], 111)
                      | Some lk \<Rightarrow> do { t \<leftarrow> perpls_show env o1 colors lk ord Ss; Some (t, 0) }) } } } } }"

interpretation ls_options: program_options perpls_option
  by unfold_locales (simp_all add: perpls_option_def)

section \<open>Capabilities\<close>

text \<open>The value of a key in a capability string \<open>key=value:key=value\<close>.\<close>

function cap_find :: "u8 list \<Rightarrow> u8 list \<Rightarrow> u8 list option" where
  "cap_find key db =
     (let k = takeWhile (\<lambda>c. c \<noteq> of_char CHR ''='') db; r = dropWhile (\<lambda>c. c \<noteq> of_char CHR ''='') db
      in if r = [] then None
         else
           (let v = takeWhile (\<lambda>c. c \<noteq> of_char CHR '':'') (tl r)
            in if k = key then Some v else cap_find key (drop 1 (dropWhile (\<lambda>c. c \<noteq> of_char CHR '':'') (tl r)))))"
  by pat_completeness auto
termination
proof (relation "measure (\<lambda>(key, db). length db)")
  fix key db :: "u8 list" and k r v
  assume r: "r = dropWhile (\<lambda>c. c \<noteq> of_char CHR ''='') db" "r \<noteq> []"
  have "length (dropWhile (\<lambda>c. c \<noteq> of_char CHR '':'') (tl r)) \<le> length (tl r)" by (rule length_dropWhile_le)
  moreover have "length r \<le> length db" unfolding r(1) by (rule length_dropWhile_le)
  moreover have "length (tl r) < length r" using r(2) by simp
  ultimately show "((key, drop 1 (dropWhile (\<lambda>c. c \<noteq> of_char CHR '':'') (tl r))), key, db) \<in> measure (\<lambda>(key, db). length db)"
    by simp
qed simp

declare cap_find.simps [simp del]

lemma rd_cstr: "cstr_at b i s \<Longrightarrow> rd b i = Some (hd (s @ [0]))"
  by (cases s) (auto simp: rd_def cstr_at_Nil dest: cstr_at_Cons_nth)

lemma scan_to_spec: "cstr_at b d s \<Longrightarrow> scan_to b d stop = Some (d + length (takeWhile (\<lambda>c. c \<noteq> stop) s))"
proof (induction s arbitrary: d)
  case Nil
  then show ?case using rd_cstr [OF Nil] by (subst scan_to.simps) simp
next
  case (Cons c s)
  have "c \<noteq> 0" using cstr_at_Cons_nth [OF Cons.prems] by simp
  then show ?case using Cons.IH [OF cstr_at_tl [OF Cons.prems]] rd_cstr [OF Cons.prems] by (subst scan_to.simps) simp
qed

lemma cstr_at_take: "cstr_at b i s \<Longrightarrow> n \<le> length s \<Longrightarrow> take n (drop i b) = take n s"
proof (rule nth_equalityI)
  assume a: "cstr_at b i s" "n \<le> length s"
  show "length (take n (drop i b)) = length (take n s)" using a cstr_at_end [OF a(1)] by simp
  fix j assume "j < length (take n (drop i b))"
  then have "j < n" by simp
  then show "take n (drop i b) ! j = take n s ! j" using a cstr_at_nth(1) [OF a(1), of j] cstr_at_end [OF a(1)] by simp
qed

lemma captab_loop_spec:
  assumes "cstr_at key 0 k" and "cstr_at b d s"
  shows "\<exists>r. captab_loop b d key (length k) = Some r \<and>
    (case r of None \<Rightarrow> cap_find k s = None | Some (off, len) \<Rightarrow> cap_find k s = Some (take len (drop off b)) \<and> off + len < length b)"
  using assms(2)
proof (induction "length s" arbitrary: s d rule: less_induct)
  case less
  define k' where "k' = takeWhile (\<lambda>c. c \<noteq> of_char CHR ''='') s"
  define r where "r = dropWhile (\<lambda>c. c \<noteq> of_char CHR ''='') s"
  have kr: "s = k' @ r" by (simp add: k'_def r_def)
  have c0: "rd b d = Some (hd (s @ [0]))" by (rule rd_cstr [OF less.prems])
  have nz: "0 \<notin> set s" using less.prems by (simp add: cstr_at_def)
  have at: "cstr_at b (d + length k') r" using cstr_at_drop [OF less.prems, of "length k'"] kr by simp
  have sc: "scan_to b d (of_char CHR ''='') = Some (d + length k')" using scan_to_spec [OF less.prems] by (simp add: k'_def)
  have c: "rd b (d + length k') = Some (hd (r @ [0]))" by (rule rd_cstr [OF at])
  show ?case
  proof (cases "r = []")
    case True
    have "captab_loop b d key (length k) = Some None" using c0 sc c True by (subst captab_loop.simps) simp
    moreover have "cap_find k s = None" using True by (subst cap_find.simps) (simp add: r_def Let_def)
    ultimately show ?thesis by auto
  next
    case False
    then obtain r' where r': "r = of_char CHR ''='' # r'" using hd_dropWhile [of "\<lambda>c. c \<noteq> of_char CHR ''=''" s] by (cases r) (auto simp: r_def)
    have hd0: "hd (s @ [0]) \<noteq> 0" using nz kr False by (metis append_is_Nil_conv hd_append2 hd_in_set)
    define v where "v = takeWhile (\<lambda>c. c \<noteq> of_char CHR '':'') r'"
    define w where "w = dropWhile (\<lambda>c. c \<noteq> of_char CHR '':'') r'"
    let ?d1 = "d + length k' + 1"
    have at': "cstr_at b ?d1 r'" using cstr_at_tl [OF at [unfolded r']] by simp
    have e: "scan_to b ?d1 (of_char CHR '':'') = Some (?d1 + length v)" using scan_to_spec [OF at'] by (simp add: v_def)
    have vw: "r' = v @ w" by (simp add: v_def w_def)
    have atw: "cstr_at b (?d1 + length v) w" using cstr_at_drop [OF at', of "length v"] vw by simp
    have ce: "rd b (?d1 + length v) = Some (hd (w @ [0]))" by (rule rd_cstr [OF atw])
    have cf: "cap_find k s = (if k' = k then Some v else cap_find k (drop 1 w))"
      unfolding cap_find.simps [of k s] Let_def k'_def [symmetric] r_def [symmetric] r' v_def w_def by simp
    obtain x where x: "(if length k' = length k then cstr_ncmp key 0 b d (length k') else Some 1) = Some x" "x = 0 \<longleftrightarrow> k' = k"
      using cstr_ncmp_spec [OF assms(1) less.prems, of "length k'"] kr by (cases "length k' = length k") auto
    have st: "captab_loop b d key (length k) =
        (if x = 0 then Some (Some (?d1, length v))
         else captab_loop b (if hd (w @ [0]) = of_char CHR '':'' then ?d1 + length v + 1 else ?d1 + length v) key (length k))"
      using c0 hd0 sc c r' x(1) e ce by (subst captab_loop.simps) simp
    show ?thesis
    proof (cases "k' = k")
      case True
      have "take (length v) (drop ?d1 b) = v" using cstr_at_take [OF at', of "length v"] vw by simp
      moreover have "?d1 + length v < length b" using cstr_at_end(2) [OF atw] by simp
      ultimately show ?thesis using st x(2) True cf by simp
    next
      case ne: False
      have w: "cstr_at b (if hd (w @ [0]) = of_char CHR '':'' then ?d1 + length v + 1 else ?d1 + length v) (drop 1 w)"
      proof (cases w)
        case Nil
        then show ?thesis using atw by simp
      next
        case (Cons c w')
        then have "c = of_char CHR '':''" using hd_dropWhile [of "\<lambda>c. c \<noteq> of_char CHR '':''" r'] by (auto simp: w_def)
        then show ?thesis using Cons cstr_at_tl [OF atw [unfolded Cons]] by simp
      qed
      have "length (drop 1 w) < length s" using kr r' vw by simp
      note ih = less.hyps [OF this w]
      have "cap_find k s = cap_find k (drop 1 w)" using cf ne by (simp only: if_False)
      moreover have "x \<noteq> 0" using x(2) ne by simp
      ultimately show ?thesis using ih st by (simp only: if_False)
    qed
  qed
qed

text \<open>The attribute a capability string gives to a key, if it fits the table.\<close>

definition cap_attr :: "u8 list \<Rightarrow> u8 list \<Rightarrow> u8 list option" where
  "cap_attr db key = (case cap_find key db of Some v \<Rightarrow> if length v < CAP_ATTR_MAX then Some v else None | None \<Rightarrow> None)"

lemma captab_lookup_spec:
  assumes "0 \<notin> set db" and "0 \<notin> set key" and "key \<noteq> []"
  shows "\<exists>r. captab_lookup (Some (db @ [0])) (Some (key @ [0])) = Some r \<and>
    (case r of None \<Rightarrow> cap_find key db = None
     | Some (off, len) \<Rightarrow> cap_find key db = Some (take len (drop off (db @ [0]))) \<and> off + len < length (db @ [0]))"
proof -
  have at: "cstr_at (key @ [0]) 0 key" "cstr_at (db @ [0]) 0 db" using assms(1,2) by (simp_all add: cstr_at_def)
  have "rd (key @ [0]) 0 = Some (hd key)" "hd key \<noteq> 0" using assms(2,3) by (cases key; auto simp: rd_def)+
  then show ?thesis using captab_loop_spec [OF at] at(1) by (simp add: captab_lookup_def)
qed

lemma cstr_copy_attr:
  assumes "length a = 16" and "cstr_at a0 0 s" and "length s < 15"
  shows "\<exists>a'. cstr_copy a 0 a0 0 = Some (a', length s) \<and> length a' = 16 \<and> cstr_at a' 0 s"
proof -
  have l: "0 + length s < length a" using assms by simp
  have z: "0 \<notin> set s" using assms(2) by (simp add: cstr_at_def)
  show ?thesis
    using cstr_copy_loop_spec [OF assms(2) l] cstr_at_store [OF z l] length_store_cstr [OF l] assms(1) by (auto simp: cstr_copy_def)
qed

lemma captab_init_cap_spec:
  assumes "0 \<notin> set db" and "i < length tab" and "cap_key (tab ! i) = Some key" and "0 \<notin> set key" and "key \<noteq> []" and "length (attr (tab ! i)) = 16"
    and "cstr_at (attr (tab ! 0)) 0 a0" and "length a0 < 15"
  shows "\<exists>a. captab_init_cap (Some (db @ [0])) tab i = Some (tab[i := (tab ! i)\<lparr>attr := a\<rparr>]) \<and> length a = 16 \<and>
    cstr_at a 0 (case cap_attr db key of Some v \<Rightarrow> v | None \<Rightarrow> a0) \<and> length (case cap_attr db key of Some v \<Rightarrow> v | None \<Rightarrow> a0) < 15"
proof -
  obtain r where r: "captab_lookup (Some (db @ [0])) (Some (key @ [0])) = Some r"
    "case r of None \<Rightarrow> cap_find key db = None
     | Some (off, len) \<Rightarrow> cap_find key db = Some (take len (drop off (db @ [0]))) \<and> off + len < length (db @ [0])"
    using captab_lookup_spec [OF assms(1,4,5)] by blast
  note cp = cstr_copy_attr [OF assms(6-8)]
  show ?thesis
  proof (cases "\<exists>off len. r = Some (off, len) \<and> len < CAP_ATTR_MAX")
    case True
    then obtain off len where ol: "r = Some (off, len)" "len < 15" by (auto simp: CAP_ATTR_MAX_def)
    define v where "v = take len (drop off (db @ [0]))"
    have f: "cap_find key db = Some v" "off + len < length (db @ [0])" using r(2) ol(1) by (simp_all add: v_def)
    then have lv: "length v = len" and z: "0 \<notin> set v"
      using assms(1) by (auto simp: v_def dest!: in_set_takeD in_set_dropD)
    have b: "buf_copy (attr (tab ! i)) 0 (db @ [0]) off len = Some (v @ drop len (attr (tab ! i)))"
      using buf_copy_spec [of 0 len "attr (tab ! i)" off "db @ [0]"] f(2) assms(6) ol(2) by (simp add: v_def)
    have "wr (v @ drop len (attr (tab ! i))) len 0 = Some (v @ 0 # drop (len + 1) (attr (tab ! i)))"
      using lv assms(6) ol(2) by (simp add: wr_def list_update_append flip: Cons_nth_drop_Suc)
    moreover have "cap_attr db key = Some v" using f(1) lv ol(2) by (simp add: cap_attr_def CAP_ATTR_MAX_def)
    moreover have "cstr_at (v @ 0 # drop (len + 1) (attr (tab ! i))) 0 v" using z by (rule cstr_at_zero)
    ultimately show ?thesis
      using r(1) ol b assms(3,6) lv by (auto simp: captab_init_cap_def CAP_ATTR_MAX_def)
  next
    case False
    have ca: "cap_attr db key = None"
    proof (cases r)
      case None
      then show ?thesis using r(2) by (simp add: cap_attr_def)
    next
      case (Some ol)
      then show ?thesis using r(2) False by (cases ol) (auto simp: cap_attr_def)
    qed
    obtain a where a: "cstr_copy (attr (tab ! i)) 0 (attr (tab ! 0)) 0 = Some (a, length a0)" "length a = 16" "cstr_at a 0 a0" using cp by blast
    have "captab_init_cap (Some (db @ [0])) tab i = Some (tab[i := (tab ! i)\<lparr>attr := a\<rparr>])"
      using r(1) a(1) False assms(3) by (cases r) (auto simp: captab_init_cap_def)
    then show ?thesis using a ca assms(8) by auto
  qed
qed

lemma captab_init_loop_spec:
  assumes "0 \<notin> set db" and "distinct is" and "0 \<notin> set is" and "\<forall>i \<in> set is. i < length tab \<and> cap_ndx (lscap_id (tab ! i)) = i \<and>
      (\<exists>key. cap_key (tab ! i) = Some key \<and> 0 \<notin> set key \<and> key \<noteq> []) \<and> length (attr (tab ! i)) = 16"
    and "cstr_at (attr (tab ! 0)) 0 a0" and "length a0 < 15"
  shows "\<exists>tab'. captab_init_loop (Some (db @ [0])) tab is = Some tab' \<and> length tab' = length tab \<and>
    (\<forall>i. i \<notin> set is \<longrightarrow> tab' ! i = tab ! i) \<and>
    (\<forall>i \<in> set is. length (attr (tab' ! i)) = 16 \<and> cstr_at (attr (tab' ! i)) 0 (case cap_attr db (the (cap_key (tab ! i))) of Some v \<Rightarrow> v | None \<Rightarrow> a0))"
  using assms(2-5)
proof (induction "is" arbitrary: tab)
  case (Cons i "is")
  obtain key where key: "cap_key (tab ! i) = Some key" "0 \<notin> set key" "key \<noteq> []" using Cons.prems(3) by auto
  have il: "i < length tab" "length (attr (tab ! i)) = 16" using Cons.prems(3) by auto
  obtain a where a: "captab_init_cap (Some (db @ [0])) tab i = Some (tab[i := (tab ! i)\<lparr>attr := a\<rparr>])" "length a = 16"
      "cstr_at a 0 (case cap_attr db key of Some v \<Rightarrow> v | None \<Rightarrow> a0)"
    using captab_init_cap_spec [OF assms(1) il(1) key il(2) Cons.prems(4) assms(6)] by blast
  let ?tab = "tab[i := (tab ! i)\<lparr>attr := a\<rparr>]"
  have "\<forall>j \<in> set is. ?tab ! j = tab ! j" using Cons.prems(1) by (metis distinct.simps(2) nth_list_update_neq)
  then have pr: "\<forall>j \<in> set is. j < length ?tab \<and> cap_ndx (lscap_id (?tab ! j)) = j \<and>
      (\<exists>key. cap_key (?tab ! j) = Some key \<and> 0 \<notin> set key \<and> key \<noteq> []) \<and> length (attr (?tab ! j)) = 16"
    and "cstr_at (attr (?tab ! 0)) 0 a0" using Cons.prems(2,3,4) by auto
  then obtain tab' where t: "captab_init_loop (Some (db @ [0])) ?tab is = Some tab'" "length tab' = length ?tab"
      "\<forall>j. j \<notin> set is \<longrightarrow> tab' ! j = ?tab ! j"
      "\<forall>j \<in> set is. length (attr (tab' ! j)) = 16 \<and> cstr_at (attr (tab' ! j)) 0 (case cap_attr db (the (cap_key (?tab ! j))) of Some v \<Rightarrow> v | None \<Rightarrow> a0)"
    using Cons.IH [of ?tab] Cons.prems(1,2) by auto
  have "tab' ! i = (tab ! i)\<lparr>attr := a\<rparr>" using t(3) Cons.prems(1) il(1) by auto
  then show ?case using t a key(1) Cons.prems \<open>\<forall>j \<in> set is. ?tab ! j = tab ! j\<close> by auto
qed simp

text \<open>The colours.  For every capability string, \<open>captab_init\<close> ends with each attribute of the table a C string inside its array: the value that
  the string gives to the capability's key if there is one and it has fewer than 15 characters, else the value it gives to \<open>df\<close> under the same condition, else \<open>0\<close>.\<close>

theorem captab_init_attrs:
  assumes "0 \<notin> set db"
  shows "\<exists>tab. captab_init (Some (db @ [0])) captab0 = Some tab \<and> length tab = length captab0 \<and>
    (\<forall>i < LSCAPS. length (attr (tab ! i)) = CAP_ATTR_MAX + 1 \<and>
       cstr_at (attr (tab ! i)) 0
         (case cap_attr db (the (cap_key (captab0 ! i))) of Some v \<Rightarrow> v
          | None \<Rightarrow> (case cap_attr db (bytes ''df'') of Some v \<Rightarrow> v | None \<Rightarrow> bytes ''0'')))"
proof -
  let ?df = "case cap_attr db (bytes ''df'') of Some v \<Rightarrow> v | None \<Rightarrow> bytes ''0''"
  have tab0: "length captab0 = 11" "cap_key (captab0 ! 0) = Some (bytes ''df'')" "length (attr (captab0 ! 0)) = 16"
      "cstr_at (attr (captab0 ! 0)) 0 (bytes ''0'')" "length (bytes ''0'') < 15" "0 \<notin> set (bytes ''df'')" "bytes ''df'' \<noteq> []" "cap_ndx (lscap_id (captab0 ! 0)) = 0"
    by (simp_all add: captab0_def attr_init_def bytes_def CAP_ATTR_MAX_def cstr_at_def)
  obtain a where a: "captab_init_cap (Some (db @ [0])) captab0 0 = Some (captab0[0 := (captab0 ! 0)\<lparr>attr := a\<rparr>])" "length a = 16" "cstr_at a 0 ?df" "length ?df < 15"
    using captab_init_cap_spec [OF assms _ tab0(2,6,7,3,4,5)] tab0(1) by auto
  let ?t1 = "captab0[0 := (captab0 ! 0)\<lparr>attr := a\<rparr>]"
  have ks: "\<forall>i \<in> set [1..<10]. i < length ?t1 \<and> cap_ndx (lscap_id (?t1 ! i)) = i \<and>
      (\<exists>key. cap_key (?t1 ! i) = Some key \<and> 0 \<notin> set key \<and> key \<noteq> []) \<and> length (attr (?t1 ! i)) = 16"
    by (simp add: upt_rec captab0_def attr_init_def bytes_def CAP_ATTR_MAX_def)
  have a0: "cstr_at (attr (?t1 ! 0)) 0 ?df" using a(3) tab0(1) by simp
  obtain tab where t: "captab_init_loop (Some (db @ [0])) ?t1 [1..<10] = Some tab" "length tab = length ?t1" "\<forall>i. i \<notin> set [1..<10] \<longrightarrow> tab ! i = ?t1 ! i"
      "\<forall>i \<in> set [1..<10]. length (attr (tab ! i)) = 16 \<and> cstr_at (attr (tab ! i)) 0 (case cap_attr db (the (cap_key (?t1 ! i))) of Some v \<Rightarrow> v | None \<Rightarrow> ?df)"
    using captab_init_loop_spec [OF assms distinct_upt _ ks a0 a(4)] by auto
  have "captab_init (Some (db @ [0])) captab0 = Some tab"
    using t(1) a(1) tab0(8) by (simp add: captab_init_def LSCAPS_def upt_conv_Cons)
  moreover have "length (attr (tab ! i)) = CAP_ATTR_MAX + 1 \<and>
      cstr_at (attr (tab ! i)) 0 (case cap_attr db (the (cap_key (captab0 ! i))) of Some v \<Rightarrow> v | None \<Rightarrow> ?df)" if "i < LSCAPS" for i
  proof (cases "i = 0")
    case True
    then show ?thesis using t(3) a tab0(1,2) by (auto simp: CAP_ATTR_MAX_def split: option.splits)
  next
    case False
    then have i: "i \<in> set [1..<10]" "?t1 ! i = captab0 ! i" using that by (auto simp: LSCAPS_def)
    have "CAP_ATTR_MAX + 1 = 16" by (simp add: CAP_ATTR_MAX_def)
    then show ?thesis using bspec [OF t(4) i(1)] unfolding i(2) by simp
  qed
  ultimately show ?thesis using t(2) by auto
qed

theorem captab_init_attrs_witness:
  "\<exists>tab. captab_init (Some (bytes ''an=01'' @ [0])) captab0 = Some tab \<and> cstr_at (attr (tab ! 2)) 0 (bytes ''01'')"
proof -
  have "0 \<notin> set (bytes ''an=01'')" by (simp add: bytes_def)
  from captab_init_attrs [OF this] obtain tab where t: "captab_init (Some (bytes ''an=01'' @ [0])) captab0 = Some tab"
    and a: "\<forall>i < LSCAPS. length (attr (tab ! i)) = CAP_ATTR_MAX + 1 \<and> cstr_at (attr (tab ! i)) 0
      (case cap_attr (bytes ''an=01'') (the (cap_key (captab0 ! i))) of Some v \<Rightarrow> v
       | None \<Rightarrow> (case cap_attr (bytes ''an=01'') (bytes ''df'') of Some v \<Rightarrow> v | None \<Rightarrow> bytes ''0''))" by blast
  have "cap_attr (bytes ''an=01'') (the (cap_key (captab0 ! 2))) = Some (bytes ''01'')"
    by (simp add: cap_attr_def captab0_def cap_find.simps bytes_def CAP_ATTR_MAX_def)
  then show ?thesis using t a [rule_format, of 2] by (auto simp: LSCAPS_def)
qed

section \<open>The panel\<close>

text \<open>What the panel means to say of a subservice and of a service of perpd's table; compare \<open>view\<close>, which \<open>perpstat\<close> prints.\<close>

definition panel_subsv :: "tain \<Rightarrow> subsv \<Rightarrow> string" where
  "panel_subsv t ss =
     (case view t ss of
        Down_for _ w _ \<Rightarrow> [if w then CHR ''!'' else CHR ''.'', CHR ''.'', CHR ''.'']
      | Starting _ \<Rightarrow> ''!..''
      | Running r _ _ p o1 \<Rightarrow>
          [if sub_has ss SUBSV_FLAG_WANTDOWN then CHR ''!'' else CHR ''+'', if o1 then CHR ''o'' else CHR ''+'',
           if r then CHR ''r'' else if p then CHR ''p'' else CHR ''+''])"

definition panel_of :: "tain \<Rightarrow> svdef \<Rightarrow> u8 list" where
  "panel_of t sd =
     bytes (''['' @ [if sv_has sd SVDEF_FLAG_CULL then (if sv_has sd SVDEF_FLAG_CYCLE then CHR ''R'' else CHR ''!'') else CHR ''+''] @ '' '' @
       panel_subsv t (sv_main sd) @ '' '' @ (if sv_has sd SVDEF_FLAG_HASLOG then panel_subsv t (sv_log sd) else ''---'') @ '']'')"

text \<open>The process id that is shown, 0 for a process that is just starting.\<close>

definition shown_pid :: "tain \<Rightarrow> subsv \<Rightarrow> int" where
  "shown_pid t ss = (case view t ss of Running _ _ n _ _ \<Rightarrow> n | _ \<Rightarrow> 0)"

lemma three_updates:
  "c + 2 < length pn \<Longrightarrow> pn[c := x, c + 1 := y, c + 2 := z] = take c pn @ [x, y, z] @ drop (c + 3) pn"
  by (rule nth_equalityI) (auto simp: nth_append nth_list_update nth_Cons' min_def)

lemma unpack_subsv_panel:
  assumes "upak32_unpack (drop off buf) = Some (word_of_int (pid ss))" and "\<And>t. tain_unpack t (drop (off + 4) buf) = Some (sub_when ss)"
    and "rd buf (off + 16) = Some (sub_bitflags ss)" and "0 \<le> pid ss" and "pid ss < 2 ^ 31" and "c + 2 < length pn"
  shows "unpack_subsv buf off c t pn = Some (shown_pid t ss, tain_uptime t (sub_when ss), take c pn @ bytes (panel_subsv t ss) @ drop (c + 3) pn)"
proof -
  have lt: "tain_uptime t (sub_when ss) < 1 \<longleftrightarrow> tain_uptime t (sub_when ss) = 0" by (simp add: word_less_1)
  have l: "length (take c pn) = c" using assms(6) by simp
  have up: "(take c pn @ x # y # z # r)[c := v] = take c pn @ v # y # z # r" "(take c pn @ x # y # z # r)[Suc c := v] = take c pn @ x # v # z # r"
    "(take c pn @ x # y # z # r)[Suc (Suc c) := v] = take c pn @ x # y # v # r" for x y z v r
    using l by (simp_all add: list_update_append)
  show ?thesis
    using assms(1-3) pid_word(1) [OF assms(4,5)] lt assms(4)
    unfolding unpack_subsv_def Let_def three_updates [OF assms(6)]
    by (auto simp: up panel_subsv_def shown_pid_def view_def bytes_def Let_def)
qed

lemma status_reply_panel:
  assumes "received (cmd CHR ''S'') (status_bytes s sd) k" and "panel S = bytes ''[+ --- ---]''" and "length (binstat S) = BINSTAT_SIZE" and "pids_ok sd"
  shows "\<exists>S1 S2. svstat_reply S (Inr k) = Some S1 \<and> svstat_unpack S1 t = Some S2 \<and> panel S2 = panel_of t sd \<and>
    pid_main S2 = shown_pid t (sv_main sd) \<and> uptime_main S2 = tain_uptime t (sub_when (sv_main sd)) \<and> has_log S2 = sv_has sd SVDEF_FLAG_HASLOG \<and>
    (has_log S2 \<longrightarrow> pid_log S2 = shown_pid t (sv_log sd) \<and> uptime_log S2 = tain_uptime t (sub_when (sv_log sd)))"
proof -
  obtain rest where d: "pkt_data k = status_bytes s sd @ rest" using received_data [OF assms(1)] by blast
  have b: "buf_copy (binstat S) 0 (pkt_data k) 0 66 = Some (status_bytes s sd)"
    using buf_copy_spec [of 0 66 "binstat S" 0 "pkt_data k"] assms(3) by (simp add: d BINSTAT_SIZE_def)
  let ?S1 = "S\<lparr>binstat := status_bytes s sd\<rparr>"
  have r: "svstat_reply S (Inr k) = Some ?S1" using assms(1) b by (simp add: svstat_reply_def received_def BINSTAT_SIZE_def)
  note u = status_unpack [where s = s and sd = sd and rest = "[]", simplified append_Nil2]
  have at: "rd (status_bytes s sd) i = Some (status_bytes s sd ! i)" if "i < 66" for i using that by (simp add: rd_def)
  define pn where "pn = (bytes ''[+ --- ---]'')[1 := of_char (if sv_has sd SVDEF_FLAG_CULL then (if sv_has sd SVDEF_FLAG_CYCLE then CHR ''R'' else CHR ''!'') else CHR ''+'')]"
  have m: "unpack_subsv (status_bytes s sd) 30 3 t pn = Some (shown_pid t (sv_main sd), tain_uptime t (sub_when (sv_main sd)),
      take 3 pn @ bytes (panel_subsv t (sv_main sd)) @ drop 6 pn)"
    using unpack_subsv_panel [of 30 "status_bytes s sd" "sv_main sd" 3 pn t] u(4-6) at [of 46] assms(4) by (simp add: pids_ok_def pn_def bytes_def)
  let ?pn = "take 3 pn @ bytes (panel_subsv t (sv_main sd)) @ drop 6 pn"
  have lp: "length (panel_subsv t ss) = 3" for ss by (simp add: panel_subsv_def split: sub_view.splits)
  have l: "unpack_subsv (status_bytes s sd) 48 7 t ?pn = Some (shown_pid t (sv_log sd), tain_uptime t (sub_when (sv_log sd)),
      take 7 ?pn @ bytes (panel_subsv t (sv_log sd)) @ drop 10 ?pn)" if "sv_has sd SVDEF_FLAG_HASLOG"
    using unpack_subsv_panel [of 48 "status_bytes s sd" "sv_log sd" 7 ?pn t] u(7-9) [OF that] at [of 64] assms(4) lp
    by (simp add: pids_ok_def pn_def bytes_def)
  have fl: "rd (status_bytes s sd) 28 = Some (sv_bitflags sd)" using u(3) at [of 28] by simp
  let ?S = "(if sv_has sd SVDEF_FLAG_CULL
      then ?S1\<lparr>panel := (panel ?S1)[1 := of_char (if sv_has sd SVDEF_FLAG_CYCLE then CHR ''R'' else CHR ''!'')]\<rparr> else ?S1)
      \<lparr>has_log := sv_has sd SVDEF_FLAG_HASLOG\<rparr>"
  have S: "panel ?S = pn" "binstat ?S = status_bytes s sd" using assms(2) by (auto simp: pn_def bytes_def)
  define S3 where "S3 = ?S\<lparr>pid_main := shown_pid t (sv_main sd), uptime_main := tain_uptime t (sub_when (sv_main sd)), panel := ?pn\<rparr>"
  have S3: "panel S3 = ?pn" "binstat S3 = status_bytes s sd" "has_log S3 = sv_has sd SVDEF_FLAG_HASLOG" "pid_main S3 = shown_pid t (sv_main sd)"
      "uptime_main S3 = tain_uptime t (sub_when (sv_main sd))" using S(2) by (simp_all add: S3_def)
  define S2 where "S2 = (if sv_has sd SVDEF_FLAG_HASLOG
      then S3\<lparr>pid_log := shown_pid t (sv_log sd), uptime_log := tain_uptime t (sub_when (sv_log sd)),
        panel := take 7 ?pn @ bytes (panel_subsv t (sv_log sd)) @ drop 10 ?pn\<rparr> else S3)"
  have ne: "\<not> (panel ?S1 ! 1 = of_char CHR ''E'' \<or> panel ?S1 ! 1 = of_char CHR ''-'')" using assms(2) by (simp add: bytes_def)
  have un: "svstat_unpack ?S1 t = do { (pid, up, pn) \<leftarrow> unpack_subsv (binstat ?S) 30 3 t (panel ?S);
      let S = ?S\<lparr>pid_main := pid, uptime_main := up, panel := pn\<rparr>;
      if \<not> has_log S then Some S
      else do { (pid, up, pn) \<leftarrow> unpack_subsv (binstat S) 48 7 t (panel S); Some (S\<lparr>pid_log := pid, uptime_log := up, panel := pn\<rparr>) } }"
    unfolding svstat_unpack_def if_not_P [OF ne] using fl by (simp add: Let_def)
  have un3: "svstat_unpack ?S1 t = (if \<not> has_log S3 then Some S3
      else do { (pid, up, pn) \<leftarrow> unpack_subsv (binstat S3) 48 7 t (panel S3); Some (S3\<lparr>pid_log := pid, uptime_log := up, panel := pn\<rparr>) })"
    unfolding un S m S3_def by (simp only: bind.bind_lunit prod.case Let_def)
  have "svstat_unpack ?S1 t = Some S2"
  proof (cases "sv_has sd SVDEF_FLAG_HASLOG")
    case True
    show ?thesis unfolding un3 S3(1-3) l [OF True] S2_def using True by (simp only: bind.bind_lunit prod.case simp_thms if_True if_False)
  next
    case False
    show ?thesis unfolding un3 S3(3) S2_def using False by (simp only: simp_thms if_True if_False)
  qed
  moreover have "panel S2 = panel_of t sd"
  proof -
    let ?c = "of_char (if sv_has sd SVDEF_FLAG_CULL then (if sv_has sd SVDEF_FLAG_CYCLE then CHR ''R'' else CHR ''!'') else CHR ''+'')"
    have "take 3 pn = bytes ''['' @ [?c] @ bytes '' ''" "drop 6 pn = bytes '' ---]''" by (simp_all add: pn_def bytes_def)
    moreover obtain a b c where "panel_subsv t (sv_main sd) = [a, b, c]" using lp [of "sv_main sd"] by (auto simp: numeral_3_eq_3 length_Suc_conv)
    ultimately show ?thesis using S3(1) by (simp add: S2_def panel_of_def bytes_def)
  qed
  moreover have "pid_main S2 = shown_pid t (sv_main sd)" "uptime_main S2 = tain_uptime t (sub_when (sv_main sd))" "has_log S2 = sv_has sd SVDEF_FLAG_HASLOG"
      "has_log S2 \<longrightarrow> pid_log S2 = shown_pid t (sv_log sd) \<and> uptime_log S2 = tain_uptime t (sub_when (sv_log sd))"
    using S3(3-5) by (auto simp: S2_def)
  ultimately show ?thesis using r by blast
qed


definition svstat_mem0 :: svstat where
  "svstat_mem0 = \<lparr>is_active = 0, cap = CAP_DF, ls_name = [], panel = [], binstat = replicate BINSTAT_SIZE 0, pid_main = 0, uptime_main = 0,
     has_log = False, pid_log = 0, uptime_log = 0, sys_errno = 0, errmsg = []\<rparr>"


section \<open>Order\<close>

lemma svstat_all_uptime: "svstat_all mem n names = Some Ss \<Longrightarrow> S \<in> set Ss \<Longrightarrow> uptime_main S = 0"
  by (induction names arbitrary: n Ss) (auto simp: svstat_init_def split: Option.bind_splits option.splits)

lemma svstat_query_uptime: "svstat_query env lk S = Some (lk', S') \<Longrightarrow> uptime_main S' = uptime_main S"
proof -
  have r: "svstat_reply S r = Some S' \<Longrightarrow> uptime_main S' = uptime_main S" for S S' r
    by (auto simp: svstat_reply_def svstat_fail_def split: sum.splits xfail.splits if_splits Option.bind_splits)
  assume "svstat_query env lk S = Some (lk', S')"
  then show ?thesis
    by (auto simp: svstat_query_def svstat_fail_def Let_def split: sum.splits if_splits Option.bind_splits prod.splits dest: r)
qed

lemma query_all_uptime:
  "query_all env lk Ss w = Some (Ss', w') \<Longrightarrow> \<forall>S \<in> set Ss. uptime_main S = 0 \<Longrightarrow> S' \<in> set Ss' \<Longrightarrow> uptime_main S' = 0"
proof (induction Ss arbitrary: lk w Ss')
  case (Cons S Ss)
  obtain lk1 S1 len Ss1 where q: "svstat_query (cenv.truncate env) lk S = Some (lk1, S1)" "query_all env lk1 Ss (if len > w then len else w) = Some (Ss1, w')" "Ss' = S1 # Ss1"
    using Cons.prems(1) by (auto split: Option.bind_splits prod.splits if_splits)
  show ?case using Cons.IH [OF q(2)] Cons.prems(2,3) svstat_query_uptime [OF q(1)] q(3) by auto
qed auto

text \<open>C25: the option \<open>-t\<close> does not sort by uptime.  The list is sorted before \<open>svstat_unpack\<close> has set the uptimes, when they are all 0 still; so for every
  \<open>qsort()\<close> whose result depends on the comparisons of the elements only, what \<open>perpls\<close> prints with \<open>-t\<close> is what it prints in the order of the names.\<close>

theorem perpls_t_sorts_by_name:
  assumes "\<And>cmp cmp' xs. (\<forall>a \<in> set xs. \<forall>b \<in> set xs. cmp a b = cmp' a b) \<Longrightarrow> env_qsort env cmp xs = env_qsort env cmp' xs"
    and "svstat_all mem n names = Some Ss"
  shows "perpls_show env o1 colors lk (Some By_uptime) Ss = perpls_show env o1 colors lk (Some By_name) Ss"
proof (cases "query_all env lk Ss 0")
  case None
  then show ?thesis by (simp add: perpls_show_def)
next
  case (Some r)
  obtain Ss' w where r: "r = (Ss', w)" by force
  have z: "uptime_main S = 0" if "S \<in> set Ss'" for S
    using query_all_uptime [OF Some [unfolded r] _ that] svstat_all_uptime [OF assms(2)] by blast
  have "\<forall>a \<in> set Ss'. \<forall>b \<in> set Ss'. cmp_of By_uptime a b = cmp_of By_name a b"
    by (simp add: cmp_of_def cmp_byuptime_def cmp_byname_def z)
  from assms(1) [OF this] show ?thesis using Some r by (simp add: perpls_show_def Let_def)
qed

text \<open>A \<open>qsort()\<close>: insertion sort.\<close>

fun ins_by :: "('a \<Rightarrow> 'a \<Rightarrow> int) \<Rightarrow> 'a \<Rightarrow> 'a list \<Rightarrow> 'a list" where
  "ins_by cmp x [] = [x]"
| "ins_by cmp x (y # ys) = (if cmp x y \<le> 0 then x # y # ys else y # ins_by cmp x ys)"

fun sort_by_cmp :: "('a \<Rightarrow> 'a \<Rightarrow> int) \<Rightarrow> 'a list \<Rightarrow> 'a list" where
  "sort_by_cmp cmp [] = []"
| "sort_by_cmp cmp (x # xs) = ins_by cmp x (sort_by_cmp cmp xs)"

lemma set_ins_by [simp]: "set (ins_by cmp x ys) = insert x (set ys)"
  by (induction ys) auto

lemma set_sort_by_cmp [simp]: "set (sort_by_cmp cmp xs) = set xs"
  by (induction xs) auto

lemma sort_by_cmp_cong: "\<forall>a \<in> set xs. \<forall>b \<in> set xs. cmp a b = cmp' a b \<Longrightarrow> sort_by_cmp cmp xs = sort_by_cmp cmp' xs"
proof (induction xs)
  case (Cons x xs)
  have "ins_by cmp x ys = ins_by cmp' x ys" if "set ys \<subseteq> set xs" for ys
    using that Cons.prems by (induction ys) auto
  then show ?case using Cons by simp
qed simp

definition lsenv0 :: lsenv where
  "lsenv0 = cenv.extend (cenv0 \<lparr>lk_writes = [], lk_reads = [], lk_sent = []\<rparr>) \<lparr>env_colors = None, env_tty = True, env_dir = None,
     env_mem = (\<lambda>n. Some svstat_mem0), env_qsort = sort_by_cmp, env_errnos = []\<rparr>"

theorem perpls_t_sorts_by_name_witness:
  "\<exists>Ss. svstat_all (env_mem lsenv0) 0 [bytes ''b'', bytes ''a''] = Some Ss \<and>
     perpls_show lsenv0 \<lparr>ls_basedir = None, opt_G = False, opt_K = False, opt_r = False, use_color = False, sort_by = Some By_uptime\<rparr> None
       \<lparr>lk_writes = [], lk_reads = [], lk_sent = []\<rparr> (Some By_uptime) Ss =
     perpls_show lsenv0 \<lparr>ls_basedir = None, opt_G = False, opt_K = False, opt_r = False, use_color = False, sort_by = Some By_uptime\<rparr> None
       \<lparr>lk_writes = [], lk_reads = [], lk_sent = []\<rparr> (Some By_name) Ss"
proof -
  have q: "env_qsort lsenv0 cmp xs = env_qsort lsenv0 cmp' xs" if "\<forall>a \<in> set xs. \<forall>b \<in> set xs. cmp a b = cmp' a b" for cmp cmp' xs
    using sort_by_cmp_cong [OF that] by (simp add: lsenv0_def cenv.defs)
  obtain Ss where Ss: "svstat_all (env_mem lsenv0) 0 [bytes ''b'', bytes ''a''] = Some Ss" by (simp add: svstat_init_def lsenv0_def cenv.defs)
  show ?thesis using Ss perpls_t_sorts_by_name [OF q Ss] by blast
qed

section \<open>Names\<close>

lemma pad_loop_spec: "pad_loop s w = take w s @ replicate (w - length s) (of_char CHR '' '')"
  by (induction s w rule: pad_loop.induct) auto

text \<open>The width of the names column is the length of the longest name.  Beyond 80 characters \<open>name_pad\<close> returns NULL, and no name is printed, of any service.\<close>

theorem name_pad_column:
  "name_pad name width = (if width \<le> PADMAX then Some (take width name @ replicate (width - length name) (of_char CHR '' '')) else None)"
  by (simp add: name_pad_def pad_loop_spec)

theorem ls_line_drops_names:
  assumes "PADMAX < width" and "svstat_unpack S t = Some S'" and "ls_detail errno_defs S' = Some d"
  shows "ls_line errno_defs None width t S = Some (panel S' @ bytes ''  '' @ d @ [10])"
  using assms by (simp add: ls_line_def name_pad_def Let_def)

end
