(* ===== verification/Ioq.thy ===== *)
theory Ioq
  imports Cstr Pkt
begin

text \<open>
  Buffered input and output: \<open>src/lasagna/ioq\<close>.  An object of type \<open>ioq_t\<close> is its buffer with the counters \<open>n\<close> and \<open>p\<close>; the descriptor is the state
  \<open>'s\<close> and the function pointer \<open>op\<close> the function that acts on it, a \<open>read()\<close> for an input queue and a \<open>write()\<close> for an output queue.  A loop around
  \<open>op\<close> may run for ever: such a loop is a partial function, and \<open>None\<close> stands for that or for an access outside an object.  The locales \<open>source\<close> and
  \<open>sink\<close> say what the queues rely on; both hold of the descriptors below, whose calls have the results of a list of events.
\<close>

section \<open>Definitions\<close>

type_synonym 's reader = "'s \<Rightarrow> nat \<Rightarrow> (int + u8 list) \<times> 's"
type_synonym 's writer = "'s \<Rightarrow> u8 list \<Rightarrow> (int + nat) \<times> 's"

record ioq =
  q_buf :: buffer
  q_n :: nat
  q_p :: nat

text \<open>Arithmetic of \<open>size_t\<close>.\<close>

definition size_add :: "nat \<Rightarrow> nat \<Rightarrow> nat" where "size_add a b = (a + b) mod 2 ^ 64"
definition size_sub :: "nat \<Rightarrow> nat \<Rightarrow> nat" where "size_sub a b = nat ((int a - int b) mod 2 ^ 64)"

definition ioq_init :: "buffer \<Rightarrow> nat \<Rightarrow> ioq" where
  "ioq_init b len = \<lparr>q_buf = b, q_n = len, q_p = 0\<rparr>"

definition IOQ_BUFSIZE :: nat where "IOQ_BUFSIZE = 8192"

subsection \<open>Input\<close>

text \<open>\<open>read_once\<close> into an object of the caller; the result is an errno or a count.\<close>

partial_function (option) read_once :: "'s reader \<Rightarrow> 's \<Rightarrow> buffer \<Rightarrow> nat \<Rightarrow> ((int + nat) \<times> buffer \<times> 's) option" where
  [code]: "read_once op s b want =
     (case op s want of
        (Inl e, s) \<Rightarrow> if e = EINTR then read_once op s b want else Some (Inl e, b, s)
      | (Inr bs, s) \<Rightarrow> do { b \<leftarrow> put_at b 0 bs; Some (Inr (length bs), b, s) })"

definition ioq_extract :: "ioq \<Rightarrow> buffer \<Rightarrow> nat \<Rightarrow> (nat \<times> buffer \<times> ioq) option" where
  "ioq_extract q data len =
     (let len = (if len > q_p q then q_p q else len) in do {
        data \<leftarrow> buf_copy data 0 (q_buf q) (q_n q) len;
        Some (len, data, q\<lparr>q_p := size_sub (q_p q) len, q_n := size_add (q_n q) len\<rparr>) })"

definition ioq_feed :: "'s reader \<Rightarrow> 's \<Rightarrow> ioq \<Rightarrow> ((int + nat) \<times> ioq \<times> 's) option" where
  "ioq_feed op s q =
     (if q_p q > 0 then Some (Inr (q_p q), q, s)
      else do {
        (r, b, s) \<leftarrow> read_once op s (q_buf q) (q_n q);
        let q = q\<lparr>q_buf := b\<rparr>;
        case r of
          Inl e \<Rightarrow> Some (Inl e, q, s)
        | Inr r \<Rightarrow>
            if r = 0 then Some (Inr 0, q, s)
            else
              (let q = q\<lparr>q_p := r, q_n := size_sub (q_n q) r\<rparr>
               in if q_n q > 0 then do { b \<leftarrow> buf_rcopy_in (q_buf q) (q_n q) 0 r; Some (Inr r, q\<lparr>q_buf := b\<rparr>, s) }
                  else Some (Inr r, q, s)) })"

definition ioq_get :: "'s reader \<Rightarrow> 's \<Rightarrow> ioq \<Rightarrow> buffer \<Rightarrow> nat \<Rightarrow> ((int + nat) \<times> buffer \<times> ioq \<times> 's) option" where
  "ioq_get op s q data len =
     (if q_p q > 0 then do { (k, data, q) \<leftarrow> ioq_extract q data len; Some (Inr k, data, q, s) }
      else if q_n q \<le> len then do { (r, data, s) \<leftarrow> read_once op s data len; Some (r, data, q, s) }
      else do {
        (r, q, s) \<leftarrow> ioq_feed op s q;
        case r of
          Inl e \<Rightarrow> Some (Inl e, data, q, s)
        | Inr r \<Rightarrow>
            if r = 0 then Some (Inr 0, data, q, s)
            else do { (k, data, q) \<leftarrow> ioq_extract q data len; Some (Inr k, data, q, s) } })"

text \<open>The macro \<open>ioq_GETC\<close>; \<open>c\<close> is the byte the caller's variable held before.\<close>

definition ioq_GETC :: "'s reader \<Rightarrow> 's \<Rightarrow> ioq \<Rightarrow> u8 \<Rightarrow> ((int + nat) \<times> u8 \<times> ioq \<times> 's) option" where
  "ioq_GETC op s q c =
     (if q_p q > 0 then do {
        c \<leftarrow> rd (q_buf q) (q_n q);
        Some (Inr 1, c, q\<lparr>q_p := size_sub (q_p q) 1, q_n := size_add (q_n q) 1\<rparr>, s) }
      else do {
        (r, data, q, s) \<leftarrow> ioq_get op s q [c] 1;
        c \<leftarrow> rd data 0;
        Some (r, c, q, s) })"

text \<open>\<open>ioq_peek\<close>: the index of the first byte in the buffer; \<open>ioq_SEEK\<close> is the same as \<open>ioq_seek\<close>.\<close>

definition ioq_peek :: "ioq \<Rightarrow> nat" where "ioq_peek q = q_n q"

definition ioq_seek :: "ioq \<Rightarrow> nat \<Rightarrow> ioq" where
  "ioq_seek q len = q\<lparr>q_n := size_add (q_n q) len, q_p := size_sub (q_p q) len\<rparr>"

subsection \<open>Output\<close>

text \<open>The \<open>to_write\<close> bytes at \<open>i\<close> of the object \<open>b\<close>; the result is the errno of a failure.\<close>

partial_function (option) write_all :: "'s writer \<Rightarrow> 's \<Rightarrow> buffer \<Rightarrow> nat \<Rightarrow> nat \<Rightarrow> (int option \<times> 's) option" where
  [code]: "write_all op s b i to_write =
     (if to_write = 0 then Some (None, s)
      else if length b < i + to_write then None
      else
        (case op s (take to_write (drop i b)) of
           (Inl e, s) \<Rightarrow> if e = EINTR then write_all op s b i to_write else Some (Some e, s)
         | (Inr w, s) \<Rightarrow> write_all op s b (i + w) (size_sub to_write w)))"

text \<open>\<open>int to_write = ioq->p\<close>, and its use as a \<open>size_t\<close>.\<close>

definition int_size :: "nat \<Rightarrow> nat" where
  "int_size p = unat (scast (word_of_nat p :: u32) :: u64)"

definition ioq_flush :: "'s writer \<Rightarrow> 's \<Rightarrow> ioq \<Rightarrow> (int option \<times> ioq \<times> 's) option" where
  "ioq_flush op s q =
     (let to_write = int_size (q_p q)
      in if to_write = 0 then Some (None, q, s)
         else
           (let q = q\<lparr>q_p := 0\<rparr> in do {
              (e, s) \<leftarrow> write_all op s (q_buf q) 0 to_write;
              Some (e, q, s) }))"

text \<open>The loop of \<open>ioq_put\<close>: blocks of \<open>n\<close> bytes until the rest of the data fits the buffer.\<close>

partial_function (option) put_blocks ::
    "'s writer \<Rightarrow> 's \<Rightarrow> nat \<Rightarrow> buffer \<Rightarrow> nat \<Rightarrow> nat \<Rightarrow> nat \<Rightarrow> (int option \<times> nat \<times> nat \<times> 's) option" where
  [code]: "put_blocks op s room b i len n =
     (if len > room then
        (let n = (if len < n then len else n) in do {
           (e, s) \<leftarrow> write_all op s b i n;
           case e of
             Some e \<Rightarrow> Some (Some e, i, len, s)
           | None \<Rightarrow> put_blocks op s room b (i + n) (size_sub len n) n })
      else Some (None, i, len, s))"

definition put_append :: "ioq \<Rightarrow> buffer \<Rightarrow> nat \<Rightarrow> nat \<Rightarrow> ioq option" where
  "put_append q b i len = do {
     buf \<leftarrow> buf_copy (q_buf q) (q_p q) b i len;
     Some (q\<lparr>q_buf := buf, q_p := size_add (q_p q) len\<rparr>) }"

definition ioq_put :: "'s writer \<Rightarrow> 's \<Rightarrow> ioq \<Rightarrow> buffer \<Rightarrow> nat \<Rightarrow> nat \<Rightarrow> (int option \<times> ioq \<times> 's) option" where
  "ioq_put op s q b i len =
     (if len > size_sub (q_n q) (q_p q) then do {
        (e, q, s) \<leftarrow> ioq_flush op s q;
        case e of
          Some e \<Rightarrow> Some (Some e, q, s)
        | None \<Rightarrow> do {
            (e, i, len, s) \<leftarrow> put_blocks op s (q_n q) b i len (if q_n q < IOQ_BUFSIZE then IOQ_BUFSIZE else q_n q);
            case e of
              Some e \<Rightarrow> Some (Some e, q, s)
            | None \<Rightarrow> do { q \<leftarrow> put_append q b i len; Some (None, q, s) } } }
      else do { q \<leftarrow> put_append q b i len; Some (None, q, s) })"

definition ioq_puts :: "'s writer \<Rightarrow> 's \<Rightarrow> ioq \<Rightarrow> buffer \<Rightarrow> nat \<Rightarrow> (int option \<times> ioq \<times> 's) option" where
  "ioq_puts op s q b i = do { len \<leftarrow> cstr_len b i; ioq_put op s q b i len }"

text \<open>The macro \<open>ioq_PUTC\<close>.\<close>

definition ioq_PUTC :: "'s writer \<Rightarrow> 's \<Rightarrow> ioq \<Rightarrow> u8 \<Rightarrow> (int option \<times> ioq \<times> 's) option" where
  "ioq_PUTC op s q c =
     (if q_p q < q_n q then do { b \<leftarrow> wr (q_buf q) (q_p q) c; Some (None, q\<lparr>q_buf := b, q_p := size_add (q_p q) 1\<rparr>, s) }
      else ioq_put op s q [c] 0 1)"

text \<open>\<open>ioq_vputs_\<close>, for the strings before the final NULL; there is at least one.\<close>

fun ioq_vputs :: "'s writer \<Rightarrow> 's \<Rightarrow> ioq \<Rightarrow> buffer \<times> nat \<Rightarrow> (buffer \<times> nat) list \<Rightarrow> (int option \<times> ioq \<times> 's) option" where
  "ioq_vputs op s q (b, i) args = do {
     (e, q, s) \<leftarrow> ioq_puts op s q b i;
     case e of
       Some e \<Rightarrow> Some (Some e, q, s)
     | None \<Rightarrow> (case args of [] \<Rightarrow> Some (None, q, s) | a # args \<Rightarrow> ioq_vputs op s q a args) }"

definition ioq_putflush :: "'s writer \<Rightarrow> 's \<Rightarrow> ioq \<Rightarrow> buffer \<Rightarrow> nat \<Rightarrow> nat \<Rightarrow> (int option \<times> ioq \<times> 's) option" where
  "ioq_putflush op s q b i len = do {
     (e, q, s) \<leftarrow> ioq_flush op s q;
     case e of
       Some e \<Rightarrow> Some (Some e, q, s)
     | None \<Rightarrow> do { (e, s) \<leftarrow> write_all op s b i len; Some (e, q, s) } }"

definition ioq_putsflush :: "'s writer \<Rightarrow> 's \<Rightarrow> ioq \<Rightarrow> buffer \<Rightarrow> nat \<Rightarrow> (int option \<times> ioq \<times> 's) option" where
  "ioq_putsflush op s q b i = do { len \<leftarrow> cstr_len b i; ioq_putflush op s q b i len }"

partial_function (option) ioq_putfill ::
    "'s writer \<Rightarrow> 's \<Rightarrow> ioq \<Rightarrow> buffer \<Rightarrow> nat \<Rightarrow> nat \<Rightarrow> (int option \<times> ioq \<times> 's) option" where
  [code]: "ioq_putfill op s q b i len =
     (let n = size_sub (q_n q) (q_p q)
      in if len > n then do {
           q \<leftarrow> put_append q b i n;
           (e, q, s) \<leftarrow> ioq_flush op s q;
           case e of
             Some e \<Rightarrow> Some (Some e, q, s)
           | None \<Rightarrow> ioq_putfill op s q b (i + n) (size_sub len n) }
         else do { q \<leftarrow> put_append q b i len; Some (None, q, s) })"

definition ioq_putsfill :: "'s writer \<Rightarrow> 's \<Rightarrow> ioq \<Rightarrow> buffer \<Rightarrow> nat \<Rightarrow> (int option \<times> ioq \<times> 's) option" where
  "ioq_putsfill op s q b i = do { len \<leftarrow> cstr_len b i; ioq_putfill op s q b i len }"

text \<open>\<open>ioq_putfile\<close>, given how opening, measuring and mapping the file end.\<close>

datatype file_map = Open_fails int | Fstat_fails int | Mmap_fails int | Mapped "u8 list"

definition ioq_putfile :: "'s writer \<Rightarrow> 's \<Rightarrow> ioq \<Rightarrow> file_map \<Rightarrow> (int option \<times> ioq \<times> 's) option" where
  "ioq_putfile op s q file =
     (case file of
        Open_fails e \<Rightarrow> Some (Some e, q, s)
      | Fstat_fails e \<Rightarrow> Some (Some e, q, s)
      | Mmap_fails e \<Rightarrow> Some (Some e, q, s)
      | Mapped bs \<Rightarrow> if length bs = 0 then Some (None, q, s) else ioq_put op s q bs 0 (length bs))"

section \<open>Descriptors\<close>

text \<open>The end of a pipe or file: the results of the coming calls, and the bytes carried so far.  After the last event a \<open>read()\<close> finds the end of the file and a
  \<open>write()\<close> takes all bytes.\<close>

record fd_in =
  in_events :: "read_event list"
  in_got :: "u8 list"

record fd_out =
  out_events :: "write_event list"
  out_sent :: "u8 list"

fun fd_read :: "fd_in reader" where
  "fd_read s want =
     (case in_events s of
        [] \<Rightarrow> (Inr [], s)
      | Rd_data bs # evs \<Rightarrow>
          (let got = take want bs; rest = drop want bs
           in (Inr got, s\<lparr>in_events := (if rest = [] then evs else Rd_data rest # evs), in_got := in_got s @ got\<rparr>))
      | Rd_eof # evs \<Rightarrow> (Inr [], s\<lparr>in_events := evs\<rparr>)
      | Rd_err e # evs \<Rightarrow> (Inl e, s\<lparr>in_events := evs\<rparr>))"

fun fd_write :: "fd_out writer" where
  "fd_write s bs =
     (case out_events s of
        [] \<Rightarrow> (Inr (length bs), s\<lparr>out_sent := out_sent s @ bs\<rparr>)
      | Wr_count w # evs \<Rightarrow>
          (let w = min w (length bs) in (Inr w, s\<lparr>out_events := evs, out_sent := out_sent s @ take w bs\<rparr>))
      | Wr_err e # evs \<Rightarrow> (Inl e, s\<lparr>out_events := evs\<rparr>))"

declare fd_read.simps [simp del] fd_write.simps [simp del]


section \<open>Input queues\<close>

text \<open>What an input queue relies on: a \<open>read()\<close> gives at most the bytes it is asked for, \<open>got\<close> records them in order, and it is not interrupted for ever.\<close>

locale source =
  fixes op :: "'s reader" and got :: "'s \<Rightarrow> u8 list" and credit :: "'s \<Rightarrow> nat"
  assumes read_data: "op s want = (Inr bs, s') \<Longrightarrow> length bs \<le> want \<and> got s' = got s @ bs"
    and read_fail: "op s want = (Inl e, s') \<Longrightarrow> got s' = got s"
    and read_intr: "op s want = (Inl EINTR, s') \<Longrightarrow> credit s' < credit s"

text \<open>The invariant of an input queue: the two counters share the buffer, and the bytes not yet delivered are those after \<open>n\<close>.\<close>

definition in_ok :: "ioq \<Rightarrow> bool" where
  "in_ok q \<longleftrightarrow> q_n q + q_p q = length (q_buf q) \<and> length (q_buf q) < 2 ^ 64"

definition unread_bytes :: "ioq \<Rightarrow> u8 list" where
  "unread_bytes q = drop (q_n q) (q_buf q)"

lemma size_sub_le [simp]: "b \<le> a \<Longrightarrow> a < 2 ^ 64 \<Longrightarrow> size_sub a b = a - b"
  by (simp add: size_sub_def nat_diff_distrib flip: of_nat_diff)

lemma size_add_lt [simp]: "a + b < 2 ^ 64 \<Longrightarrow> size_add a b = a + b"
  by (simp add: size_add_def)

lemma length_unread: "in_ok q \<Longrightarrow> length (unread_bytes q) = q_p q"
  by (auto simp: in_ok_def unread_bytes_def)

lemma ioq_init_in_ok: "length b < 2 ^ 64 \<Longrightarrow> in_ok (ioq_init b (length b)) \<and> unread_bytes (ioq_init b (length b)) = []"
  by (simp add: in_ok_def ioq_init_def unread_bytes_def)

lemma ioq_extract_spec:
  assumes "in_ok q" and "len \<le> length data"
  shows "\<exists>k data' q'. ioq_extract q data len = Some (k, data', q') \<and> in_ok q' \<and> length (q_buf q') = length (q_buf q) \<and>
    k = min len (q_p q) \<and> data' = take k (unread_bytes q) @ drop k data \<and> unread_bytes q' = drop k (unread_bytes q)"
proof -
  define k where "k = min len (q_p q)"
  have le: "k \<le> q_p q" "k \<le> length data" "q_n q + k \<le> length (q_buf q)" "length (q_buf q) < 2 ^ 64"
    using assms by (auto simp: k_def in_ok_def)
  have "buf_copy data 0 (q_buf q) (q_n q) k = Some (take k (drop (q_n q) (q_buf q)) @ drop k data)"
    using le by (simp add: buf_copy_spec)
  then show ?thesis
    using le assms(1) unfolding ioq_extract_def k_def
    by (auto simp: Let_def min_def in_ok_def unread_bytes_def add.commute)
qed

lemma ioq_seek_spec:
  "in_ok q \<Longrightarrow> len \<le> q_p q \<Longrightarrow> in_ok (ioq_seek q len) \<and> unread_bytes (ioq_seek q len) = drop len (unread_bytes q)"
  by (simp add: ioq_seek_def in_ok_def unread_bytes_def add.commute)

lemma ioq_peek_spec: "in_ok q \<Longrightarrow> take (q_p q) (drop (ioq_peek q) (q_buf q)) = unread_bytes q"
  by (auto simp: ioq_peek_def in_ok_def unread_bytes_def)

text \<open>\<open>delivers\<close>: how \<open>ioq_get\<close> changes the stream: the bytes waiting in the queue and the new ones of the descriptor, in order, are those given to the caller
  and those left in the queue.\<close>

definition delivers :: "('s \<Rightarrow> u8 list) \<Rightarrow> 's \<Rightarrow> ioq \<Rightarrow> buffer \<Rightarrow> nat \<Rightarrow> (int + nat) \<times> buffer \<times> ioq \<times> 's \<Rightarrow> bool" where
  "delivers got s q data len = (\<lambda>(r, data', q', s').
     in_ok q' \<and> length (q_buf q') = length (q_buf q) \<and>
     (\<exists>new. got s' = got s @ new \<and>
       (case r of
          Inl e \<Rightarrow> data' = data \<and> new = [] \<and> unread_bytes q = [] \<and> unread_bytes q' = []
        | Inr k \<Rightarrow> k \<le> len \<and> length data' = length data \<and> drop k data' = drop k data \<and>
            unread_bytes q @ new = take k data' @ unread_bytes q' \<and>
            (k = 0 \<and> 0 < len \<longrightarrow> unread_bytes q = [] \<and> new = []))))"

context source
begin

lemma read_once_spec:
  assumes "want \<le> length b"
  shows "\<exists>r b' s'. read_once op s b want = Some (r, b', s') \<and>
    (case r of Inl e \<Rightarrow> b' = b \<and> got s' = got s \<and> e \<noteq> EINTR
     | Inr k \<Rightarrow> k \<le> want \<and> (\<exists>bs. length bs = k \<and> got s' = got s @ bs \<and> b' = bs @ drop k b))"
  using assms
proof (induction "credit s" arbitrary: s rule: less_induct)
  case less
  obtain r s' where o: "op s want = (r, s')" by fastforce
  show ?case
  proof (cases r)
    case (Inl e)
    show ?thesis
    proof (cases "e = EINTR")
      case True
      then have "read_once op s b want = read_once op s' b want"
        using o Inl by (subst read_once.simps) simp
      moreover have "got s' = got s" "credit s' < credit s"
        using read_fail read_intr o Inl True by auto
      ultimately show ?thesis using less.hyps [of s'] less.prems by (simp cong: sum.case_cong)
    qed (use o Inl read_fail in \<open>subst read_once.simps, simp\<close>)
  next
    case (Inr bs)
    then have "length bs \<le> want" "got s' = got s @ bs" using read_data o by auto
    with less.prems o Inr show ?thesis
      by (subst read_once.simps) (simp add: put_at_def)
  qed
qed

lemma ioq_feed_spec:
  assumes "in_ok q"
  shows "\<exists>r q' s' new. ioq_feed op s q = Some (r, q', s') \<and> in_ok q' \<and> length (q_buf q') = length (q_buf q) \<and>
    got s' = got s @ new \<and> unread_bytes q' = unread_bytes q @ new \<and> (unread_bytes q \<noteq> [] \<longrightarrow> new = []) \<and>
    (case r of Inl e \<Rightarrow> unread_bytes q' = [] | Inr k \<Rightarrow> k = length (unread_bytes q'))"
proof (cases "q_p q > 0")
  case True
  then show ?thesis using assms by (simp add: ioq_feed_def length_unread)
next
  case False
  then have n: "q_n q = length (q_buf q)" "q_p q = 0" "unread_bytes q = []" and l: "length (q_buf q) < 2 ^ 64"
    using assms by (auto simp: in_ok_def unread_bytes_def)
  obtain r b' s' where ro: "read_once op s (q_buf q) (q_n q) = Some (r, b', s')" and
    r: "case r of Inl e \<Rightarrow> b' = q_buf q \<and> got s' = got s \<and> e \<noteq> EINTR
     | Inr k \<Rightarrow> k \<le> q_n q \<and> (\<exists>bs. length bs = k \<and> got s' = got s @ bs \<and> b' = bs @ drop k (q_buf q))"
    using read_once_spec [of "q_n q" "q_buf q" s] n by auto
  show ?thesis
  proof (cases r)
    case (Inl e)
    with ro r n l show ?thesis by (simp add: ioq_feed_def in_ok_def unread_bytes_def)
  next
    case (Inr k)
    then obtain bs where k: "k \<le> length (q_buf q)" "length bs = k" "got s' = got s @ bs" "b' = bs @ drop k (q_buf q)"
      using r n by auto
    define m where "m = length (q_buf q) - k"
    have mv: "buf_rcopy_in b' m 0 k = Some (moved b' m 0 k)" "length (moved b' m 0 k) = length (q_buf q)"
      using k by (auto simp: buf_rcopy_in_backward length_moved m_def)
    have bs: "drop m (moved b' m 0 k) = bs" using k by (simp add: moved_def m_def)
    have ss: "size_sub (length (q_buf q)) k = m" using k l by (simp add: m_def)
    consider "k = 0" | "k > 0" "m = 0" | "k > 0" "m > 0" by linarith
    then show ?thesis
    proof cases
      case 1
      then show ?thesis using Inr k n l ro by (simp add: ioq_feed_def in_ok_def unread_bytes_def)
    next
      case 2
      then have "b' = bs" using k by (simp add: m_def)
      with 2 show ?thesis using Inr k n l ro ss
        by (simp add: ioq_feed_def in_ok_def unread_bytes_def Let_def m_def)
    next
      case 3
      then have "ioq_feed op s q = Some (Inr k, q\<lparr>q_buf := moved b' m 0 k, q_p := k, q_n := m\<rparr>, s')"
        using Inr n ro ss mv by (simp add: ioq_feed_def Let_def)
      then show ?thesis using k n l mv bs by (simp add: in_ok_def unread_bytes_def m_def)
    qed
  qed
qed

lemma extract_delivers:
  assumes "in_ok q" and "len \<le> length data" and "ioq_extract q' data len = Some (k, data', q'')"
    and "in_ok q'" and "length (q_buf q') = length (q_buf q)" and "q_p q' > 0"
    and "got s' = got s @ new" and "unread_bytes q' = unread_bytes q @ new"
  shows "delivers got s q data len (Inr k, data', q'', s')"
proof -
  have e: "in_ok q''" "length (q_buf q'') = length (q_buf q')" "k = min len (q_p q')"
    "data' = take k (unread_bytes q') @ drop k data" "unread_bytes q'' = drop k (unread_bytes q')"
    using ioq_extract_spec [OF assms(4,2)] assms(3) by auto
  have k: "k \<le> len" "length (take k (unread_bytes q')) = k"
    using e(3) length_unread [OF assms(4)] by auto
  have t: "take k data' @ unread_bytes q'' = unread_bytes q'" "length data' = length data" "drop k data' = drop k data"
    using e(4,5) k assms(2) by auto
  then have "unread_bytes q @ new = take k data' @ unread_bytes q''" using assms(8) by simp
  moreover have "k = 0 \<Longrightarrow> len = 0" using e(3) assms(6) by auto
  ultimately show ?thesis using t e(1,2) k assms(5,7) by (auto simp: delivers_def)
qed

lemma ioq_get_delivers:
  assumes ok: "in_ok q" and data: "len \<le> length data"
  shows "\<exists>res. ioq_get op s q data len = Some res \<and> delivers got s q data len res"
proof -
  consider "q_p q > 0" | "q_p q = 0" "q_n q \<le> len" | "q_p q = 0" "len < q_n q" by linarith
  then show ?thesis
  proof cases
    case 1
    obtain k data' q' where e: "ioq_extract q data len = Some (k, data', q')"
      using ioq_extract_spec [OF ok data] by auto
    have "delivers got s q data len (Inr k, data', q', s)"
      using extract_delivers [OF ok data e ok refl 1, of s s "[]"] by simp
    with 1 e show ?thesis by (simp add: ioq_get_def)
  next
    case 2
    then have u: "unread_bytes q = []" using ok by (auto simp: in_ok_def unread_bytes_def)
    obtain r data' s' where ro: "read_once op s data len = Some (r, data', s')" and
      r: "case r of Inl e \<Rightarrow> data' = data \<and> got s' = got s \<and> e \<noteq> EINTR
     | Inr k \<Rightarrow> k \<le> len \<and> (\<exists>bs. length bs = k \<and> got s' = got s @ bs \<and> data' = bs @ drop k data)"
      using read_once_spec [OF data, of s] by auto
    have "delivers got s q data len (r, data', q, s')"
      using r ok u data by (auto simp: delivers_def split: sum.splits)
    with 2 ro show ?thesis by (simp add: ioq_get_def)
  next
    case 3
    obtain r q' s' new where f: "ioq_feed op s q = Some (r, q', s')" "in_ok q'" "length (q_buf q') = length (q_buf q)"
      "got s' = got s @ new" "unread_bytes q' = unread_bytes q @ new"
      "case r of Inl e \<Rightarrow> unread_bytes q' = [] | Inr k \<Rightarrow> k = length (unread_bytes q')"
      using ioq_feed_spec [OF ok, of s] by auto
    consider e where "r = Inl e" | "r = Inr 0" | k where "r = Inr k" "k > 0"
      by (metis gr0I sum.exhaust)
    then show ?thesis
    proof cases
      case (3 k)
      obtain j data' q'' where e: "ioq_extract q' data len = Some (j, data', q'')"
        using ioq_extract_spec [OF f(2) data] by auto
      have "q_p q' > 0" using f(6) 3 length_unread [OF f(2)] by simp
      then have "delivers got s q data len (Inr j, data', q'', s')"
        using extract_delivers [OF ok data e f(2,3) _ f(4,5)] by simp
      with 3 e f(1) \<open>q_p q = 0\<close> \<open>len < q_n q\<close> show ?thesis by (simp add: ioq_get_def)
    qed (use f \<open>q_p q = 0\<close> \<open>len < q_n q\<close> in \<open>auto simp: ioq_get_def delivers_def\<close>)
  qed
qed

text \<open>One byte: \<open>ioq_GETC\<close> gives the next byte of the stream, or it gives none when the queue is empty and the descriptor has nothing.\<close>

lemma ioq_GETC_spec:
  assumes "in_ok q"
  obtains (byte) c' q' s' new where "ioq_GETC op s q c = Some (Inr 1, c', q', s')" "in_ok q'"
      "got s' = got s @ new" "unread_bytes q @ new = c' # unread_bytes q'"
    | (eof) q' s' where "ioq_GETC op s q c = Some (Inr 0, c, q', s')" "in_ok q'"
      "got s' = got s" "unread_bytes q = []" "unread_bytes q' = []"
    | (error) e q' s' where "ioq_GETC op s q c = Some (Inl e, c, q', s')" "in_ok q'"
      "got s' = got s" "unread_bytes q = []" "unread_bytes q' = []"
proof (cases "q_p q > 0")
  case True
  have l: "q_n q < length (q_buf q)" "length (q_buf q) < 2 ^ 64" "q_n q + q_p q = length (q_buf q)"
    using True assms by (auto simp: in_ok_def)
  let ?q = "q\<lparr>q_p := q_p q - 1, q_n := q_n q + 1\<rparr>"
  have "ioq_GETC op s q c = Some (Inr 1, q_buf q ! q_n q, ?q, s)"
    using True l by (simp add: ioq_GETC_def)
  moreover have "in_ok ?q" using True l by (simp add: in_ok_def)
  moreover have "unread_bytes q @ [] = q_buf q ! q_n q # unread_bytes ?q"
    using l by (simp add: unread_bytes_def Cons_nth_drop_Suc)
  ultimately show ?thesis using byte [of _ _ s "[]"] by simp
next
  case False
  obtain r data' q' s' where g: "ioq_get op s q [c] 1 = Some (r, data', q', s')" and d: "delivers got s q [c] 1 (r, data', q', s')"
    using ioq_get_delivers [OF assms, of 1 "[c]" s] by auto
  have u: "unread_bytes q = []" using length_unread [OF assms] False by simp
  show ?thesis
  proof (cases r)
    case (Inl e)
    with d have "data' = [c]" "got s' = got s" "unread_bytes q' = []" "in_ok q'" by (auto simp: delivers_def)
    with Inl g False u show ?thesis using error by (simp add: ioq_GETC_def)
  next
    case (Inr k)
    with d obtain new where n: "in_ok q'" "got s' = got s @ new" "k \<le> 1" "length data' = 1" "drop k data' = drop k [c]"
      "unread_bytes q @ new = take k data' @ unread_bytes q'" "k = 0 \<longrightarrow> new = []"
      by (auto simp: delivers_def)
    obtain c' where c': "data' = [c']" using n(4) by (auto simp: length_Suc_conv)
    have G: "ioq_GETC op s q c = Some (Inr k, c', q', s')" using False g c' Inr by (simp add: ioq_GETC_def)
    show ?thesis
    proof (cases k)
      case 0
      then show ?thesis using eof [of q' s'] G n c' u by simp
    next
      case (Suc j)
      then show ?thesis using byte [of c' q' s' new] G n c' u by simp
    qed
  qed
qed

end

interpretation fdr: source fd_read in_got "\<lambda>s. length (in_events s)"
  by unfold_locales (auto simp: fd_read.simps Let_def split: list.splits read_event.splits if_splits)

section \<open>Output queues\<close>

text \<open>What an output queue relies on: a \<open>write()\<close> takes a first part of the bytes, \<open>sent\<close> records it, and it does not go on for ever without taking any.\<close>

locale sink =
  fixes op :: "'s writer" and sent :: "'s \<Rightarrow> u8 list" and credit :: "'s \<Rightarrow> nat"
  assumes write_data: "op s bs = (Inr w, s') \<Longrightarrow> w \<le> length bs \<and> sent s' = sent s @ take w bs"
    and write_fail: "op s bs = (Inl e, s') \<Longrightarrow> sent s' = sent s"
    and write_intr: "op s bs = (Inl EINTR, s') \<Longrightarrow> credit s' < credit s"
    and write_none: "bs \<noteq> [] \<Longrightarrow> op s bs = (Inr 0, s') \<Longrightarrow> credit s' < credit s"
    and write_credit: "op s bs = (r, s') \<Longrightarrow> credit s' \<le> credit s"

text \<open>The invariant of an output queue: \<open>n\<close> is the size of the buffer, and the first \<open>p\<close> bytes wait to be written.\<close>

definition out_ok :: "ioq \<Rightarrow> bool" where
  "out_ok q \<longleftrightarrow> q_n q = length (q_buf q) \<and> q_p q \<le> q_n q \<and> q_n q < 2 ^ 31"

definition queued :: "ioq \<Rightarrow> u8 list" where "queued q = take (q_p q) (q_buf q)"

text \<open>\<open>emits\<close>: a call that is to append \<open>bs\<close> to the stream.  It sends a first part of what was queued and \<open>bs\<close>; after success the rest is queued.\<close>

definition emits :: "('s \<Rightarrow> u8 list) \<Rightarrow> 's \<Rightarrow> ioq \<Rightarrow> u8 list \<Rightarrow> int option \<times> ioq \<times> 's \<Rightarrow> bool" where
  "emits sent s q bs = (\<lambda>(e, q', s').
     out_ok q' \<and> q_n q' = q_n q \<and>
     (\<exists>w rest. sent s' = sent s @ w \<and> w @ rest = queued q @ bs \<and> (e = None \<longrightarrow> rest = queued q')))"

lemma emitsI:
  "out_ok q' \<Longrightarrow> q_n q' = q_n q \<Longrightarrow> sent s' = sent s @ w \<Longrightarrow> w @ rest = queued q @ bs \<Longrightarrow> (e = None \<Longrightarrow> rest = queued q') \<Longrightarrow>
   emits sent s q bs (e, q', s')"
  by (auto simp: emits_def)

lemma int_size_id: "p < 2 ^ 31 \<Longrightarrow> int_size p = p"
proof -
  assume p: "p < 2 ^ 31"
  have u: "unat (word_of_nat p :: u32) = p" using p by (simp add: unat_of_nat take_bit_nat_eq_self_iff)
  have "sint (word_of_nat p :: u32) = int p"
  proof -
    have "uint (word_of_nat p :: u32) = int p" using u by (simp add: uint_nat)
    then show ?thesis using p by (simp add: sint_uint signed_take_bit_int_eq_self_iff)
  qed
  then have "(scast (word_of_nat p :: u32) :: u64) = word_of_nat p" by (simp add: scast_eq)
  then show ?thesis using p by (simp add: int_size_def unat_of_nat take_bit_nat_eq_self_iff)
qed

lemma ioq_init_out_ok: "length b < 2 ^ 31 \<Longrightarrow> out_ok (ioq_init b (length b)) \<and> queued (ioq_init b (length b)) = []"
  by (simp add: out_ok_def ioq_init_def queued_def)

lemma put_append_spec:
  assumes "out_ok q" and "q_p q + len \<le> q_n q" and "i + len \<le> length b"
  shows "\<exists>q'. put_append q b i len = Some q' \<and> out_ok q' \<and> q_n q' = q_n q \<and> q_p q' = q_p q + len \<and>
    queued q' = queued q @ take len (drop i b)"
  using assms by (auto simp: put_append_def out_ok_def queued_def buf_copy_spec)

context sink
begin

lemma write_all_spec:
  assumes "i + len \<le> length b" and "len < 2 ^ 64"
  shows "\<exists>e s' k. write_all op s b i len = Some (e, s') \<and> sent s' = sent s @ take k (take len (drop i b)) \<and> (e = None \<longrightarrow> k = len)"
  using assms
proof (induction "len + credit s" arbitrary: len i s rule: less_induct)
  case less
  obtain r s' where o: "op s (take len (drop i b)) = (r, s')" by fastforce
  let ?bs = "take len (drop i b)"
  have len: "length ?bs = len" using less.prems by simp
  note cr = write_credit [OF o]
  consider "len = 0" | "len > 0" "r = Inl EINTR" | e where "len > 0" "r = Inl e" "e \<noteq> EINTR" | w where "len > 0" "r = Inr w"
    by (cases r) auto
  then show ?case
  proof cases
    case 1
    then show ?thesis by (subst write_all.simps) simp
  next
    case 2
    then have "write_all op s b i len = write_all op s' b i len"
      using o less.prems by (subst write_all.simps) simp
    moreover have "credit s' < credit s" "sent s' = sent s" using write_intr write_fail o 2 by auto
    ultimately show ?thesis using less.hyps [of len s' i] less.prems by simp
  next
    case 3
    then have "sent s' = sent s @ take 0 ?bs" using write_fail o by simp
    with 3 show ?thesis using o less.prems
      by (subst write_all.simps) (auto intro: exI [of _ 0])
  next
    case 4
    have w: "w \<le> len" "sent s' = sent s @ take w ?bs" using write_data [of s ?bs w s'] o 4(2) len by auto
    have "len - w + credit s' < len + credit s"
      using write_none [of ?bs s s'] o 4 cr w len by (cases w) auto
    moreover have "i + w + (len - w) \<le> length b" "len - w < 2 ^ 64" using less.prems w by auto
    ultimately obtain e s'' k where IH: "write_all op s' b (i + w) (len - w) = Some (e, s'')"
        "sent s'' = sent s' @ take k (take (len - w) (drop (i + w) b))" "e = None \<longrightarrow> k = len - w"
      using less.hyps [of "len - w" s' "i + w"] by blast
    have "write_all op s b i len = Some (e, s'')"
      using o 4 less.prems w IH(1) by (subst write_all.simps) simp
    moreover have "take (w + k) ?bs = take w ?bs @ take k (take (len - w) (drop (i + w) b))"
      by (subst take_add) (simp add: drop_take add.commute)
    ultimately show ?thesis using IH w by (intro exI [of _ e] exI [of _ s''] exI [of _ "w + k"]) simp
  qed
qed

lemma ioq_flush_emits:
  assumes "out_ok q"
  shows "\<exists>e q' s'. ioq_flush op s q = Some (e, q', s') \<and> emits sent s q [] (e, q', s') \<and> q_p q' = 0"
proof (cases "q_p q = 0")
  case True
  then show ?thesis using assms by (simp add: ioq_flush_def int_size_def emits_def)
next
  case False
  have p: "int_size (q_p q) = q_p q" using assms by (simp add: out_ok_def int_size_id)
  obtain e s' k where w: "write_all op s (q_buf q) 0 (q_p q) = Some (e, s')"
      "sent s' = sent s @ take k (queued q)" "e = None \<longrightarrow> k = q_p q"
    using write_all_spec [of 0 "q_p q" "q_buf q" s] assms by (auto simp: out_ok_def queued_def)
  then have "ioq_flush op s q = Some (e, q\<lparr>q_p := 0\<rparr>, s')" using False p by (simp add: ioq_flush_def)
  moreover have "emits sent s q [] (e, q\<lparr>q_p := 0\<rparr>, s')"
    using w(2,3) assms
    by (intro emitsI [of _ _ _ _ _ "take k (queued q)" "drop k (queued q)"])
      (auto simp: out_ok_def queued_def simp del: take_take)
  ultimately show ?thesis by simp
qed

lemma put_blocks_spec:
  assumes "i + len \<le> length b" and "len < 2 ^ 64" and "0 < n"
  shows "\<exists>e j len' s'. put_blocks op s room b i len n = Some (e, j, len', s') \<and>
    (case e of
       None \<Rightarrow> len' \<le> room \<and> j + len' = i + len \<and> (\<exists>w. sent s' = sent s @ w \<and> w @ take len' (drop j b) = take len (drop i b))
     | Some e \<Rightarrow> \<exists>k. sent s' = sent s @ take k (take len (drop i b)))"
  using assms
proof (induction len arbitrary: i n s rule: less_induct)
  case (less len)
  show ?case
  proof (cases "len > room")
    case False
    then show ?thesis by (subst put_blocks.simps) simp
  next
    case True
    define m where "m = (if len < n then len else n)"
    have m: "0 < m" "m \<le> len" using True less.prems by (auto simp: m_def)
    have d: "take len (drop i b) = take m (drop i b) @ take (len - m) (drop (i + m) b)"
      using m by (metis add.commute drop_drop le_add_diff_inverse take_add)
    obtain e s' k where w: "write_all op s b i m = Some (e, s')" "sent s' = sent s @ take k (take m (drop i b))"
        "e = None \<longrightarrow> k = m"
      using write_all_spec [of i m b s] less.prems m by auto
    show ?thesis
    proof (cases e)
      case None
      have pre: "len - m < len" "i + m + (len - m) \<le> length b" "len - m < 2 ^ 64" using less.prems m by auto
      obtain e' j len' s'' where IH: "put_blocks op s' room b (i + m) (len - m) m = Some (e', j, len', s'')"
        "case e' of
           None \<Rightarrow> len' \<le> room \<and> j + len' = i + m + (len - m) \<and> (\<exists>w. sent s'' = sent s' @ w \<and> w @ take len' (drop j b) = take (len - m) (drop (i + m) b))
         | Some e \<Rightarrow> \<exists>k. sent s'' = sent s' @ take k (take (len - m) (drop (i + m) b))"
        using less.IH [OF pre m(1), of s'] by blast
      have s': "sent s' = sent s @ take m (drop i b)" using w None by simp
      have "put_blocks op s room b i len n = Some (e', j, len', s'')"
        using True w(1) None IH(1) m less.prems by (subst put_blocks.simps) (simp flip: m_def)
      moreover have "\<exists>k. sent s'' = sent s @ take k (take len (drop i b))" if ex: "e' = Some x" for x
      proof -
        obtain k where "sent s'' = sent s' @ take k (take (len - m) (drop (i + m) b))" using IH(2) ex by auto
        moreover have "length (take m (drop i b)) = m" using m less.prems by simp
        ultimately show ?thesis unfolding s' d by (intro exI [of _ "m + k"]) simp
      qed
      ultimately show ?thesis using IH(2) m s' d by (auto split: option.splits)
    next
      case (Some x)
      then have "put_blocks op s room b i len n = Some (Some x, i, len, s')"
        using True w(1) by (subst put_blocks.simps) (simp flip: m_def)
      moreover have "sent s' = sent s @ take (min k m) (take len (drop i b))"
        using w(2) m by (simp add: min.absorb1 min.assoc)
      ultimately show ?thesis by auto
    qed
  qed
qed

lemma ioq_put_emits:
  assumes ok: "out_ok q" and b: "i + len \<le> length b" and len: "len < 2 ^ 64"
  shows "\<exists>res. ioq_put op s q b i len = Some res \<and> emits sent s q (take len (drop i b)) res"
proof -
  have sz: "size_sub (q_n q) (q_p q) = q_n q - q_p q" using ok by (simp add: out_ok_def)
  show ?thesis
  proof (cases "len > q_n q - q_p q")
    case False
    then have "q_p q + len \<le> q_n q" using ok by (auto simp: out_ok_def)
    from put_append_spec [OF ok this b] obtain q' where "put_append q b i len = Some q'" "out_ok q'" "q_n q' = q_n q"
        "queued q' = queued q @ take len (drop i b)" by auto
    with False sz show ?thesis by (simp add: ioq_put_def emits_def)
  next
    case True
    obtain e q1 s1 where f: "ioq_flush op s q = Some (e, q1, s1)" "emits sent s q [] (e, q1, s1)" "q_p q1 = 0"
      using ioq_flush_emits [OF ok, of s] by auto
    then have q1: "out_ok q1" "q_n q1 = q_n q" "queued q1 = []" by (auto simp: emits_def queued_def)
    show ?thesis
    proof (cases e)
      case (Some x)
      then obtain w rest where "sent s1 = sent s @ w" "w @ rest = queued q" using f(2) by (auto simp: emits_def)
      then have "emits sent s q (take len (drop i b)) (Some x, q1, s1)"
        using q1 by (auto simp: emits_def intro!: exI [of _ "rest @ take len (drop i b)"])
      with True sz f(1) Some show ?thesis by (simp add: ioq_put_def)
    next
      case None
      let ?n = "if q_n q < IOQ_BUFSIZE then IOQ_BUFSIZE else q_n q"
      have s1: "sent s1 = sent s @ queued q" using f(2) None q1 by (simp add: emits_def)
      have n: "0 < ?n" by (auto simp: IOQ_BUFSIZE_def)
      obtain e' j len' s2 where p: "put_blocks op s1 (q_n q) b i len ?n = Some (e', j, len', s2)"
        "case e' of
           None \<Rightarrow> len' \<le> q_n q \<and> j + len' = i + len \<and> (\<exists>w. sent s2 = sent s1 @ w \<and> w @ take len' (drop j b) = take len (drop i b))
         | Some e \<Rightarrow> \<exists>k. sent s2 = sent s1 @ take k (take len (drop i b))"
        using put_blocks_spec [OF b len n, of s1 "q_n q"] by blast
      show ?thesis
      proof (cases e')
        case (Some y)
        then obtain k where "sent s2 = sent s @ queued q @ take k (take len (drop i b))"
          using p(2) s1 by auto
        then have "emits sent s q (take len (drop i b)) (Some y, q1, s2)"
          using q1 by (intro emitsI [of _ _ _ _ _ "queued q @ take k (take len (drop i b))" "drop k (take len (drop i b))"])
            (auto simp del: take_take)
        with True sz f(1) None p(1) Some q1 show ?thesis by (simp add: ioq_put_def split del: if_split cong: if_cong)
      next
        case N: None
        have "q_p q1 + len' \<le> q_n q1" "j + len' \<le> length b" using p(2) N q1 f(3) b by auto
        from put_append_spec [OF q1(1) this] obtain q' where a: "put_append q1 b j len' = Some q'" "out_ok q'" "q_n q' = q_n q"
          "queued q' = take len' (drop j b)" using q1 by auto
        moreover obtain w where "sent s2 = sent s @ queued q @ w" "w @ take len' (drop j b) = take len (drop i b)"
          using p(2) N s1 by auto
        ultimately have "emits sent s q (take len (drop i b)) (None, q', s2)"
          by (auto simp: emits_def intro!: exI [of _ "queued q @ w"])
        with True sz f(1) None p(1) N a q1 show ?thesis by (simp add: ioq_put_def split del: if_split cong: if_cong)
      qed
    qed
  qed
qed

lemma ioq_puts_emits:
  assumes "out_ok q" and "cstr_at b i str" and "length str < 2 ^ 64"
  shows "\<exists>res. ioq_puts op s q b i = Some res \<and> emits sent s q str res"
proof -
  have "take (length str) (drop i b) = str"
    using assms(2) by (auto simp: cstr_at_def dest: arg_cong [of _ _ "take (length str)"])
  moreover have "i + length str \<le> length b" using assms(2) by (simp add: cstr_at_def)
  ultimately show ?thesis using ioq_put_emits [OF assms(1), of i "length str" b s] assms by (simp add: ioq_puts_def)
qed

lemma ioq_PUTC_emits:
  assumes "out_ok q"
  shows "\<exists>res. ioq_PUTC op s q c = Some res \<and> emits sent s q [c] res"
proof (cases "q_p q < q_n q")
  case True
  then show ?thesis using assms
    by (auto simp: ioq_PUTC_def emits_def out_ok_def queued_def take_Suc_conv_app_nth)
next
  case False
  then show ?thesis using ioq_put_emits [OF assms, of 0 1 "[c]" s] by (simp add: ioq_PUTC_def)
qed

text \<open>Two calls one after the other.\<close>

lemma emits_trans:
  assumes "emits sent s q xs (None, q', s')" and "emits sent s' q' ys (e, q'', s'')"
  shows "emits sent s q (xs @ ys) (e, q'', s'')"
proof -
  from assms(1) obtain w where 1: "sent s' = sent s @ w" "w @ queued q' = queued q @ xs" "q_n q' = q_n q"
    by (auto simp: emits_def)
  from assms(2) obtain v rest where 2: "sent s'' = sent s' @ v" "v @ rest = queued q' @ ys" "out_ok q''" "q_n q'' = q_n q'"
    "e = None \<longrightarrow> rest = queued q''" by (auto simp: emits_def)
  have "(w @ v) @ rest = queued q @ xs @ ys" using 1(2) 2(2) by (metis append.assoc)
  with 1 2 show ?thesis by (intro emitsI [of _ _ _ _ _ "w @ v" rest]) auto
qed

lemma ioq_vputs_emits:
  assumes "out_ok q" and "args_at (a # args) (str # strs)" and "\<forall>x\<in>set (str # strs). length x < 2 ^ 64"
  shows "\<exists>res. ioq_vputs op s q a args = Some res \<and> emits sent s q (concat (str # strs)) res"
  using assms
proof (induction args arbitrary: s q a str strs)
  case Nil
  obtain b i where a: "a = (b, i)" by fastforce
  have strs: "strs = []" and c: "cstr_at b i str" using Nil.prems(2) a by (auto simp: args_at_def)
  obtain e q' s' where "ioq_puts op s q b i = Some (e, q', s')" "emits sent s q str (e, q', s')"
    using ioq_puts_emits [OF Nil.prems(1) c, of s] Nil.prems(3) by auto
  then show ?case using a strs by (cases e) auto
next
  case (Cons a' args)
  obtain b i where a: "a = (b, i)" by fastforce
  obtain str' strs' where strs: "strs = str' # strs'" and c: "cstr_at b i str" and r: "args_at (a' # args) (str' # strs')"
    using Cons.prems(2) a by (auto simp: args_at_def list_all2_Cons1)
  obtain e q' s' where p: "ioq_puts op s q b i = Some (e, q', s')" "emits sent s q str (e, q', s')"
    using ioq_puts_emits [OF Cons.prems(1) c, of s] Cons.prems(3) by auto
  show ?case
  proof (cases e)
    case None
    have "out_ok q'" using p(2) by (simp add: emits_def)
    from Cons.IH [OF this r, of s'] obtain res where "ioq_vputs op s' q' a' args = Some res"
        "emits sent s' q' (concat (str' # strs')) res"
      using Cons.prems(3) strs by auto
    with p None a strs show ?thesis using emits_trans [of s q str q' s'] by (cases res) auto
  next
    case (Some x)
    obtain w rest where "sent s' = sent s @ w" "w @ rest = queued q @ str" "out_ok q'" "q_n q' = q_n q"
      using p(2) by (auto simp: emits_def)
    then have "emits sent s q (concat (str # strs)) (e, q', s')"
      using Some by (intro emitsI [of _ _ _ _ _ w "rest @ concat strs"]) auto
    with p a Some show ?thesis by simp
  qed
qed

lemma ioq_putflush_emits:
  assumes "out_ok q" and "i + len \<le> length b" and "len < 2 ^ 64"
  shows "\<exists>res. ioq_putflush op s q b i len = Some res \<and> emits sent s q (take len (drop i b)) res \<and> queued (fst (snd res)) = []"
proof -
  obtain e q' s' where f: "ioq_flush op s q = Some (e, q', s')" "emits sent s q [] (e, q', s')" "q_p q' = 0"
    using ioq_flush_emits [OF assms(1), of s] by auto
  have q': "out_ok q'" "q_n q' = q_n q" "queued q' = []" using f by (auto simp: emits_def queued_def)
  obtain w rest where w: "sent s' = sent s @ w" "w @ rest = queued q" "e = None \<longrightarrow> rest = []"
    using f(2) q' by (auto simp: emits_def)
  show ?thesis
  proof (cases e)
    case (Some x)
    then have "emits sent s q (take len (drop i b)) (e, q', s')"
      using w q' by (intro emitsI [of _ _ _ _ _ w "rest @ take len (drop i b)"]) auto
    with f Some q' show ?thesis by (simp add: ioq_putflush_def)
  next
    case None
    let ?bs = "take len (drop i b)"
    obtain e' s'' k where a: "write_all op s' b i len = Some (e', s'')" "sent s'' = sent s' @ take k ?bs" "e' = None \<longrightarrow> k = len"
      using write_all_spec [OF assms(2,3), of s'] by auto
    have "emits sent s q ?bs (e', q', s'')"
      using w q' None a(2,3) by (intro emitsI [of _ _ _ _ _ "w @ take k ?bs" "drop k ?bs"]) (auto simp del: take_take)
    with f None q' a show ?thesis by (simp add: ioq_putflush_def)
  qed
qed

lemma ioq_putfill_emits:
  assumes "out_ok q" and "0 < q_n q" and "i + len \<le> length b" and "len < 2 ^ 64"
  shows "\<exists>res. ioq_putfill op s q b i len = Some res \<and> emits sent s q (take len (drop i b)) res"
  using assms
proof (induction "len + q_p q" arbitrary: len i q s rule: less_induct)
  case less
  define n where "n = q_n q - q_p q"
  have sz: "size_sub (q_n q) (q_p q) = n" "q_p q + n \<le> q_n q" using less.prems(1) by (auto simp: out_ok_def n_def)
  show ?case
  proof (cases "len > n")
    case False
    then have "q_p q + len \<le> q_n q" using less.prems(1) by (auto simp: out_ok_def n_def)
    from put_append_spec [OF less.prems(1) this less.prems(3)] obtain q' where "put_append q b i len = Some q'" "out_ok q'"
        "q_n q' = q_n q" "queued q' = queued q @ take len (drop i b)" by auto
    with False sz show ?thesis by (subst ioq_putfill.simps) (simp add: emits_def)
  next
    case True
    have b: "i + n \<le> length b" using less.prems(3) True by simp
    from put_append_spec [OF less.prems(1) sz(2) b] obtain q1 where a: "put_append q b i n = Some q1" "out_ok q1"
        "q_n q1 = q_n q" "queued q1 = queued q @ take n (drop i b)" by auto
    obtain e q2 s2 where f: "ioq_flush op s q1 = Some (e, q2, s2)" "emits sent s q1 [] (e, q2, s2)" "q_p q2 = 0"
      using ioq_flush_emits [OF a(2), of s] by auto
    have f': "emits sent s q (take n (drop i b)) (e, q2, s2)" using f(2) a by (simp add: emits_def)
    have split: "take len (drop i b) = take n (drop i b) @ take (len - n) (drop (i + n) b)"
      using True by (metis add.commute drop_drop le_add_diff_inverse less_imp_le take_add)
    show ?thesis
    proof (cases e)
      case None
      have q2: "out_ok q2" "q_n q2 = q_n q" using f' by (auto simp: emits_def)
      have "len - n + q_p q2 < len + q_p q" using f(3) True less.prems(1,2) by (auto simp: n_def out_ok_def)
      moreover have "0 < q_n q2" "i + n + (len - n) \<le> length b" "len - n < 2 ^ 64" using q2 less.prems True by auto
      ultimately obtain res where "ioq_putfill op s2 q2 b (i + n) (len - n) = Some res"
          "emits sent s2 q2 (take (len - n) (drop (i + n) b)) res"
        using less.hyps [of "len - n" q2 "i + n" s2] q2(1) by blast
      then show ?thesis using True sz a(1) f(1) None f' split emits_trans [of s q _ q2 s2] less.prems(4)
        by (cases res) (subst ioq_putfill.simps, simp)
    next
      case (Some x)
      obtain w rest where "sent s2 = sent s @ w" "w @ rest = queued q @ take n (drop i b)" "out_ok q2" "q_n q2 = q_n q"
        using f' by (auto simp: emits_def)
      then have "emits sent s q (take len (drop i b)) (e, q2, s2)"
        unfolding split using Some by (intro emitsI [of _ _ _ _ _ w "rest @ take (len - n) (drop (i + n) b)"]) auto
      with True sz a(1) f(1) Some show ?thesis by (subst ioq_putfill.simps) simp
    qed
  qed
qed

end

interpretation fdw: sink fd_write out_sent "\<lambda>s. length (out_events s)"
  by unfold_locales (auto simp: fd_write.simps Let_def split: list.splits write_event.splits if_splits)

section \<open>Properties\<close>





end
