(* ===== verification/Dynstr.thy ===== *)
theory Dynstr
  imports Ioq
begin

text \<open>
  Growing strings and buffers: \<open>src/lasagna/dynstr\<close> and \<open>src/lasagna/dynbuf\<close>, with \<open>ioq_getln\<close>, which reads a line into a string.  The memory is \<open>None\<close> when the
  pointer is NULL.  \<open>realloc()\<close> is a parameter: the new memory for the old contents and the number of bytes; \<open>malloc()\<close> is \<open>realloc()\<close> of nothing.  The two
  objects of \<open>dynstr_put\<close>, \<open>dynstr_copy\<close>, \<open>dynbuf_put\<close> and \<open>dynbuf_copy\<close> are different ones.
\<close>

section \<open>Definitions\<close>

type_synonym brealloc = "u8 list \<Rightarrow> nat \<Rightarrow> u8 list option"

definition block :: "buffer option \<Rightarrow> buffer" where
  "block s = (case s of None \<Rightarrow> [] | Some b \<Rightarrow> b)"

subsection \<open>Strings\<close>

record dynstr =
  ds_s :: "buffer option"
  ds_n :: nat
  ds_k :: nat

definition dynstr_INIT :: dynstr where "dynstr_INIT = \<lparr>ds_s = None, ds_n = 0, ds_k = 0\<rparr>"

definition dynstr_set :: "buffer \<Rightarrow> dynstr option" where
  "dynstr_set str = do { n \<leftarrow> cstr_len str 0; Some \<lparr>ds_s = Some str, ds_n = n, ds_k = size_add n 1\<rparr> }"

definition DYNSTR_INITSIZE :: nat where "DYNSTR_INITSIZE = 1"

text \<open>\<open>dynstr_new\<close>, with whether the object itself can be allocated; the inner \<open>None\<close> is the result NULL.\<close>

definition dynstr_new :: "brealloc \<Rightarrow> bool \<Rightarrow> dynstr option option" where
  "dynstr_new realloc obj =
     (if \<not> obj then Some None
      else
        (let k = DYNSTR_INITSIZE + 1
         in case realloc [] k of
              None \<Rightarrow> Some None
            | Some s \<Rightarrow> do { s \<leftarrow> wr s 0 0; Some (Some \<lparr>ds_s = Some s, ds_n = 0, ds_k = k\<rparr>) }))"

definition dynstr_freestr :: "dynstr \<Rightarrow> dynstr" where
  "dynstr_freestr S = S\<lparr>ds_s := None, ds_k := 0, ds_n := 0\<rparr>"

text \<open>A write to \<open>S->s[i]\<close>; NULL has no element.\<close>

definition ds_wr :: "dynstr \<Rightarrow> nat \<Rightarrow> u8 \<Rightarrow> dynstr option" where
  "ds_wr S i c = do { b \<leftarrow> ds_s S; b \<leftarrow> wr b i c; Some (S\<lparr>ds_s := Some b\<rparr>) }"

definition dynstr_clear :: "dynstr \<Rightarrow> dynstr option" where
  "dynstr_clear S = (let S = S\<lparr>ds_n := 0\<rparr> in if ds_k S > 0 then ds_wr S 0 0 else Some S)"

text \<open>The flag of the result is \<open>False\<close> for \<open>-1\<close>.\<close>

definition dynstr_need :: "brealloc \<Rightarrow> dynstr \<Rightarrow> nat \<Rightarrow> dynstr \<times> bool" where
  "dynstr_need realloc S need =
     (let have = ds_k S; need = size_add need 1
      in if ds_s S = None \<or> have < need then
           (case realloc (block (ds_s S)) need of
              None \<Rightarrow> (S, False)
            | Some t \<Rightarrow> (S\<lparr>ds_s := Some t, ds_k := need\<rparr>, True))
         else (S, True))"

definition dynstr_grow :: "brealloc \<Rightarrow> dynstr \<Rightarrow> nat \<Rightarrow> dynstr \<times> bool" where
  "dynstr_grow realloc S grow =
     (let have = ds_k S; need = size_add (size_add (ds_n S) grow) 1
      in if have < need then dynstr_need realloc S need else (S, True))"

text \<open>\<open>cstr_copy(&S->s[i], str)\<close>.\<close>

definition ds_copy_at :: "dynstr \<Rightarrow> nat \<Rightarrow> buffer \<Rightarrow> nat \<Rightarrow> (dynstr \<times> nat) option" where
  "ds_copy_at S i str j = do {
     b \<leftarrow> ds_s S;
     (b, n) \<leftarrow> cstr_copy b i str j;
     Some (S\<lparr>ds_s := Some b\<rparr>, n) }"

definition dynstr_put :: "brealloc \<Rightarrow> dynstr \<Rightarrow> dynstr \<Rightarrow> (dynstr \<times> bool) option" where
  "dynstr_put realloc to from =
     (case dynstr_grow realloc to (ds_n from) of
        (to, False) \<Rightarrow> Some (to, False)
      | (to, True) \<Rightarrow> do {
          str \<leftarrow> ds_s from;
          (to, n) \<leftarrow> ds_copy_at to (ds_n to) str 0;
          Some (to\<lparr>ds_n := size_add (ds_n to) n\<rparr>, True) })"

definition dynstr_puts :: "brealloc \<Rightarrow> dynstr \<Rightarrow> buffer \<Rightarrow> nat \<Rightarrow> (dynstr \<times> bool) option" where
  "dynstr_puts realloc S str i = do {
     len \<leftarrow> cstr_len str i;
     case dynstr_grow realloc S len of
       (S, False) \<Rightarrow> Some (S, False)
     | (S, True) \<Rightarrow> do {
         (S, n) \<leftarrow> ds_copy_at S (ds_n S) str i;
         Some (S\<lparr>ds_n := size_add (ds_n S) n\<rparr>, True) } }"

definition dynstr_putn :: "brealloc \<Rightarrow> dynstr \<Rightarrow> buffer \<Rightarrow> nat \<Rightarrow> nat \<Rightarrow> (dynstr \<times> bool) option" where
  "dynstr_putn realloc S str i n = do {
     len \<leftarrow> cstr_len str i;
     let grow = (if n < len then n else len);
     case dynstr_grow realloc S grow of
       (S, False) \<Rightarrow> Some (S, False)
     | (S, True) \<Rightarrow> do {
         b \<leftarrow> ds_s S;
         b \<leftarrow> buf_copy b (ds_n S) str i grow;
         let S = S\<lparr>ds_s := Some b, ds_n := size_add (ds_n S) grow\<rparr>;
         S \<leftarrow> ds_wr S (ds_n S) 0;
         Some (S, True) } }"

definition dynstr_putc :: "brealloc \<Rightarrow> dynstr \<Rightarrow> u8 \<Rightarrow> (dynstr \<times> bool) option" where
  "dynstr_putc realloc S c =
     (case dynstr_grow realloc S 1 of
        (S, False) \<Rightarrow> Some (S, False)
      | (S, True) \<Rightarrow> do {
          S \<leftarrow> ds_wr S (ds_n S) c;
          let S = S\<lparr>ds_n := size_add (ds_n S) 1\<rparr>;
          S \<leftarrow> ds_wr S (ds_n S) 0;
          Some (S, True) })"

text \<open>\<open>dynstr_vputs_\<close>, for the strings before the final NULL.\<close>

fun dynstr_vputs :: "brealloc \<Rightarrow> dynstr \<Rightarrow> buffer \<times> nat \<Rightarrow> (buffer \<times> nat) list \<Rightarrow> (dynstr \<times> bool) option" where
  "dynstr_vputs realloc S (b, i) args = do {
     (S, ok) \<leftarrow> dynstr_puts realloc S b i;
     if \<not> ok then Some (S, False)
     else (case args of [] \<Rightarrow> Some (S, True) | a # args \<Rightarrow> dynstr_vputs realloc S a args) }"

definition dynstr_copy :: "brealloc \<Rightarrow> dynstr \<Rightarrow> dynstr \<Rightarrow> (dynstr \<times> bool) option" where
  "dynstr_copy realloc to from =
     (case dynstr_need realloc to (ds_n from) of
        (to, False) \<Rightarrow> Some (to, False)
      | (to, True) \<Rightarrow> do {
          str \<leftarrow> ds_s from;
          (to, n) \<leftarrow> ds_copy_at to 0 str 0;
          Some (to\<lparr>ds_n := n\<rparr>, True) })"

definition dynstr_copys :: "brealloc \<Rightarrow> dynstr \<Rightarrow> buffer \<Rightarrow> nat \<Rightarrow> (dynstr \<times> bool) option" where
  "dynstr_copys realloc S str i = do {
     len \<leftarrow> cstr_len str i;
     case dynstr_need realloc S len of
       (S, False) \<Rightarrow> Some (S, False)
     | (S, True) \<Rightarrow> do {
         (S, n) \<leftarrow> ds_copy_at S 0 str i;
         Some (S\<lparr>ds_n := n\<rparr>, True) } }"

definition dynstr_chop :: "dynstr \<Rightarrow> dynstr option" where
  "dynstr_chop S =
     (if ds_n S > 0 then do {
        b \<leftarrow> ds_s S;
        c \<leftarrow> rd b (ds_n S - 1);
        if c = 10 then do { S \<leftarrow> ds_wr S (ds_n S - 1) 0; Some (S\<lparr>ds_n := ds_n S - 1\<rparr>) } else Some S }
      else Some S)"

text \<open>\<open>ioq_getln\<close>: the result of \<open>ioq_feed\<close> goes into a variable of type \<open>size_t\<close>, where \<open>-1\<close> is the largest value.  The result is \<open>0\<close>, \<open>1\<close> or \<open>-1\<close>.\<close>

partial_function (option) ioq_getln ::
    "'s reader \<Rightarrow> brealloc \<Rightarrow> 's \<Rightarrow> ioq \<Rightarrow> dynstr \<Rightarrow> (int \<times> dynstr \<times> ioq \<times> 's) option" where
  [code]: "ioq_getln op realloc s q S = do {
     (r, q, s) \<leftarrow> ioq_feed op s q;
     let r = (case r of Inl e \<Rightarrow> 2 ^ 64 - 1 | Inr k \<Rightarrow> k);
     if r = 0 then Some (0, S, q, s)
     else do {
       n \<leftarrow> buf_ndx (q_buf q) (q_n q) r 10;
       let (found, n) = (if n < r then (True, n + 1) else (False, r));
       (S, ok) \<leftarrow> dynstr_putn realloc S (q_buf q) (q_n q) n;
       if \<not> ok then Some (-1, S, q, s)
       else (let q = ioq_seek q n in if found then Some (1, S, q, s) else ioq_getln op realloc s q S) } }"

subsection \<open>Buffers\<close>

record dynbuf =
  db_buf :: "buffer option"
  db_n :: nat
  db_p :: nat

definition dynbuf_INIT :: dynbuf where "dynbuf_INIT = \<lparr>db_buf = None, db_n = 0, db_p = 0\<rparr>"

definition DYNBUF_INITSIZE :: nat where "DYNBUF_INITSIZE = 1"

definition dynbuf_new :: "brealloc \<Rightarrow> bool \<Rightarrow> dynbuf option" where
  "dynbuf_new realloc obj =
     (if \<not> obj then None
      else case realloc [] DYNBUF_INITSIZE of
             None \<Rightarrow> None
           | Some b \<Rightarrow> Some \<lparr>db_buf = Some b, db_n = DYNBUF_INITSIZE, db_p = 0\<rparr>)"

definition dynbuf_freebuf :: "dynbuf \<Rightarrow> dynbuf" where
  "dynbuf_freebuf d = d\<lparr>db_buf := None, db_n := 0, db_p := 0\<rparr>"

definition dynbuf_clear :: "dynbuf \<Rightarrow> dynbuf" where "dynbuf_clear d = d\<lparr>db_p := 0\<rparr>"

definition dynbuf_need :: "brealloc \<Rightarrow> dynbuf \<Rightarrow> nat \<Rightarrow> dynbuf \<times> bool" where
  "dynbuf_need realloc d need =
     (let have = db_n d
      in if db_buf d = None \<or> have < need then
           (let need = size_add need (size_add (need div 4) 8)
            in case realloc (block (db_buf d)) need of
                 None \<Rightarrow> (d, False)
               | Some b \<Rightarrow> (d\<lparr>db_buf := Some b, db_n := need\<rparr>, True))
         else (d, True))"

definition dynbuf_grow :: "brealloc \<Rightarrow> dynbuf \<Rightarrow> nat \<Rightarrow> dynbuf \<times> bool" where
  "dynbuf_grow realloc d add =
     dynbuf_need realloc d (if db_buf d \<noteq> None then size_add add (db_p d) else add)"

definition dynbuf_copybuf :: "brealloc \<Rightarrow> dynbuf \<Rightarrow> buffer \<Rightarrow> nat \<Rightarrow> nat \<Rightarrow> (dynbuf \<times> bool) option" where
  "dynbuf_copybuf realloc d buf i len =
     (case dynbuf_need realloc d (size_add len 1) of
        (d, False) \<Rightarrow> Some (d, False)
      | (d, True) \<Rightarrow> do {
          b \<leftarrow> db_buf d;
          b \<leftarrow> buf_copy b 0 buf i len;
          b \<leftarrow> wr b len (of_char CHR ''Z'');
          Some (d\<lparr>db_buf := Some b, db_p := len\<rparr>, True) })"

definition dynbuf_putbuf :: "brealloc \<Rightarrow> dynbuf \<Rightarrow> buffer \<Rightarrow> nat \<Rightarrow> nat \<Rightarrow> (dynbuf \<times> bool) option" where
  "dynbuf_putbuf realloc d buf i len =
     (if db_n d = 0 then dynbuf_copybuf realloc d buf i len
      else case dynbuf_grow realloc d (size_add len 1) of
             (d, False) \<Rightarrow> Some (d, False)
           | (d, True) \<Rightarrow> do {
               b \<leftarrow> db_buf d;
               b \<leftarrow> buf_copy b (db_p d) buf i len;
               let p = size_add (db_p d) len;
               b \<leftarrow> wr b p (of_char CHR ''Q'');
               Some (d\<lparr>db_buf := Some b, db_p := p\<rparr>, True) })"

definition dynbuf_copy :: "brealloc \<Rightarrow> dynbuf \<Rightarrow> dynbuf \<Rightarrow> (dynbuf \<times> bool) option" where
  "dynbuf_copy realloc to from = dynbuf_copybuf realloc to (block (db_buf from)) 0 (db_n from)"

definition dynbuf_copys :: "brealloc \<Rightarrow> dynbuf \<Rightarrow> buffer \<Rightarrow> nat \<Rightarrow> (dynbuf \<times> bool) option" where
  "dynbuf_copys realloc d str i = do { len \<leftarrow> cstr_len str i; dynbuf_copybuf realloc d str i len }"

definition dynbuf_put :: "brealloc \<Rightarrow> dynbuf \<Rightarrow> dynbuf \<Rightarrow> (dynbuf \<times> bool) option" where
  "dynbuf_put realloc to from = dynbuf_putbuf realloc to (block (db_buf from)) 0 (db_n from)"

definition dynbuf_puts :: "brealloc \<Rightarrow> dynbuf \<Rightarrow> buffer \<Rightarrow> nat \<Rightarrow> (dynbuf \<times> bool) option" where
  "dynbuf_puts realloc d str i = do { len \<leftarrow> cstr_len str i; dynbuf_putbuf realloc d str i len }"

definition dynbuf_putnul :: "brealloc \<Rightarrow> dynbuf \<Rightarrow> (dynbuf \<times> bool) option" where
  "dynbuf_putnul realloc d = dynbuf_putbuf realloc d [0, 0] 0 1"

section \<open>Memory\<close>

text \<open>What the code relies on: \<open>realloc()\<close> gives the bytes asked for and keeps the old contents.\<close>

definition alloc_ok :: "brealloc \<Rightarrow> bool" where
  "alloc_ok realloc \<longleftrightarrow> (\<forall>old n new. realloc old n = Some new \<longrightarrow>
     length new = n \<and> take (min (length old) n) new = take n old)"

text \<open>An allocator that never fails and one that gives no more than \<open>m\<close> bytes.\<close>

definition alloc_limit :: "nat \<Rightarrow> brealloc" where
  "alloc_limit m old n = (if n \<le> m then Some (take n old @ replicate (n - length old) 170) else None)"

lemma alloc_limit_ok: "alloc_ok (alloc_limit m)"
  by (auto simp: alloc_ok_def alloc_limit_def min_def split: if_splits)

section \<open>Strings of bytes\<close>

text \<open>\<open>ds_holds S str\<close>: the first \<open>n\<close> bytes are \<open>str\<close> and there is room for a NUL; \<open>ds_rep S str\<close>: the NUL is there.  A string that was never allocated
  is empty.\<close>

definition ds_holds :: "dynstr \<Rightarrow> u8 list \<Rightarrow> bool" where
  "ds_holds S str \<longleftrightarrow>
     (case ds_s S of
        None \<Rightarrow> ds_n S = 0 \<and> ds_k S = 0 \<and> str = []
      | Some b \<Rightarrow> ds_n S = length str \<and> ds_n S < ds_k S \<and> ds_k S \<le> length b \<and> ds_k S < 2 ^ 64 \<and> take (length str) b = str)"

definition ds_rep :: "dynstr \<Rightarrow> u8 list \<Rightarrow> bool" where
  "ds_rep S str \<longleftrightarrow> ds_holds S str \<and> (case ds_s S of None \<Rightarrow> True | Some b \<Rightarrow> b ! length str = 0)"

lemma ds_holds_n: "ds_holds S str \<Longrightarrow> ds_n S = length str"
  by (auto simp: ds_holds_def split: option.splits)

lemma dynstr_need_spec:
  assumes "alloc_ok realloc" and "ds_holds S str" and "need + 1 < 2 ^ 64" and "dynstr_need realloc S need = (S', ok)"
  shows "if ok then ds_holds S' str \<and> need < ds_k S' \<and> ds_s S' \<noteq> None else S' = S"
proof -
  have sz: "size_add need 1 = need + 1" using assms(3) by simp
  show ?thesis
  proof (cases "ds_s S")
    case None
    then show ?thesis using assms sz
      by (auto simp: dynstr_need_def ds_holds_def alloc_ok_def Let_def split: option.splits)
  next
    case (Some b)
    show ?thesis
    proof (cases "ds_k S < need + 1")
      case False
      then show ?thesis using assms Some sz by (auto simp: dynstr_need_def)
    next
      case True
      show ?thesis
      proof (cases "realloc b (need + 1)")
        case None
        then show ?thesis using assms(4) Some True sz by (auto simp: dynstr_need_def block_def)
      next
        case (Some v)
        then have v: "length v = need + 1" "take (min (length b) (need + 1)) v = take (need + 1) b"
          using assms(1) by (auto simp: alloc_ok_def)
        have S: "length str < ds_k S" "ds_k S \<le> length b" "take (length str) b = str"
          using assms(2) \<open>ds_s S = Some b\<close> by (auto simp: ds_holds_def)
        have "take (length str) v = take (length str) (take (min (length b) (need + 1)) v)"
          using S True by (simp add: min_def)
        also have "\<dots> = str" using v(2) S True by (simp add: min_def)
        finally have "take (length str) v = str" .
        moreover have "S' = S\<lparr>ds_s := Some v, ds_k := need + 1\<rparr>" "ok"
          using assms(4) Some \<open>ds_s S = Some b\<close> True sz by (auto simp: dynstr_need_def block_def)
        ultimately show ?thesis using assms(2,3) v S True \<open>ds_s S = Some b\<close> by (auto simp: ds_holds_def)
      qed
    qed
  qed
qed

lemma dynstr_grow_spec:
  assumes "alloc_ok realloc" and "ds_holds S str" and "length str + grow + 2 < 2 ^ 64" and "dynstr_grow realloc S grow = (S', ok)"
  shows "if ok then ds_holds S' str \<and> length str + grow < ds_k S' \<and> ds_s S' \<noteq> None else S' = S"
proof -
  have sz: "size_add (size_add (ds_n S) grow) 1 = length str + grow + 1"
    using assms(3) ds_holds_n [OF assms(2)] by simp
  show ?thesis
  proof (cases "ds_k S < length str + grow + 1")
    case True
    then have "dynstr_need realloc S (length str + grow + 1) = (S', ok)"
      using assms(4) sz by (simp add: dynstr_grow_def)
    from dynstr_need_spec [OF assms(1,2) _ this] assms(3) show ?thesis by (auto split: if_splits)
  next
    case False
    then have "S' = S" "ok" using assms(4) sz by (auto simp: dynstr_grow_def)
    with False assms(2) show ?thesis by (auto simp: ds_holds_def split: option.splits)
  qed
qed

lemma ds_copy_at_spec:
  assumes "ds_holds S str" and "ds_s S \<noteq> None" and "cstr_at b j t" and "i \<le> length str" and "i + length t < ds_k S"
  shows "\<exists>S'. ds_copy_at S i b j = Some (S', length t) \<and> ds_n S' = ds_n S \<and> ds_rep (S'\<lparr>ds_n := i + length t\<rparr>) (take i str @ t)"
proof -
  obtain v where v: "ds_s S = Some v" using assms(2) by auto
  then have S: "ds_n S = length str" "ds_k S \<le> length v" "ds_k S < 2 ^ 64" "take (length str) v = str"
    using assms(1) by (auto simp: ds_holds_def)
  have i: "take i v = take i str" using S(4) assms(4) by (metis min.absorb1 take_take)
  have "cstr_copy v i b j = Some (store_cstr v i t, length t)"
    using assms(3,5) S by (simp add: cstr_copy_def cstr_copy_loop_spec)
  moreover have "take (i + length t) (store_cstr v i t) = take i str @ t" "store_cstr v i t ! (i + length t) = 0"
    using S assms(4,5) i by (simp_all add: store_cstr_def nth_append)
  ultimately show ?thesis using S v assms(4,5) by (simp add: ds_copy_at_def ds_rep_def ds_holds_def)
qed

text \<open>The operations that append: \<open>appends\<close> says that the call returns, and that the string has grown by \<open>t\<close> or is as before.\<close>

definition appends :: "dynstr \<Rightarrow> u8 list \<Rightarrow> (dynstr \<times> bool) option \<Rightarrow> bool" where
  "appends S t res \<longleftrightarrow> (\<exists>S' ok. res = Some (S', ok) \<and> (if ok then ds_rep S' t else S' = S))"

lemma appendsI: "res = Some (S', True) \<Longrightarrow> ds_rep S' t \<Longrightarrow> appends S t res"
  by (auto simp: appends_def)

lemma dynstr_puts_appends:
  assumes "alloc_ok realloc" and "ds_rep S str" and "cstr_at b i t" and "length str + length t + 2 < 2 ^ 64"
  shows "appends S (str @ t) (dynstr_puts realloc S b i)"
proof -
  have h: "ds_holds S str" using assms(2) by (simp add: ds_rep_def)
  obtain S1 ok where g: "dynstr_grow realloc S (length t) = (S1, ok)" by fastforce
  note gs = dynstr_grow_spec [OF assms(1) h assms(4) g]
  show ?thesis
  proof (cases ok)
    case True
    then have g1: "ds_holds S1 str" "length str + length t < ds_k S1" "ds_s S1 \<noteq> None" using gs by auto
    from ds_copy_at_spec [OF g1(1,3) assms(3) order_refl g1(2)] obtain S' where
      "ds_copy_at S1 (length str) b i = Some (S', length t)" "ds_n S' = ds_n S1" "ds_rep (S'\<lparr>ds_n := length str + length t\<rparr>) (str @ t)"
      by auto
    with True g assms(3,4) ds_holds_n [OF g1(1)] show ?thesis by (auto simp: dynstr_puts_def appends_def)
  next
    case False
    with gs g assms(3) show ?thesis by (auto simp: dynstr_puts_def appends_def)
  qed
qed

lemma ds_rep_cstr: "ds_rep S str \<Longrightarrow> ds_s S = Some b \<Longrightarrow> 0 \<notin> set str \<Longrightarrow> cstr_at b 0 str"
  by (intro cstr_atI) (auto simp: ds_rep_def ds_holds_def, metis nth_take)

lemma dynstr_put_appends:
  assumes "alloc_ok realloc" and "ds_rep to str" and "ds_rep from t" and "ds_s from \<noteq> None" and "0 \<notin> set t"
    and "length str + length t + 2 < 2 ^ 64"
  shows "appends to (str @ t) (dynstr_put realloc to from)"
proof -
  obtain b where b: "ds_s from = Some b" using assms(4) by auto
  have c: "cstr_at b 0 t" using ds_rep_cstr [OF assms(3) b assms(5)] .
  have n: "ds_n from = length t" using ds_holds_n assms(3) by (simp add: ds_rep_def)
  have "dynstr_put realloc to from = dynstr_puts realloc to b 0"
    using b c n by (simp add: dynstr_put_def dynstr_puts_def split: prod.split bool.split)
  with dynstr_puts_appends [OF assms(1,2) c assms(6)] show ?thesis by simp
qed

lemma dynstr_copys_copies:
  assumes "alloc_ok realloc" and "ds_rep S str" and "cstr_at b i t" and "length t + 1 < 2 ^ 64"
  shows "appends S t (dynstr_copys realloc S b i)"
proof -
  have h: "ds_holds S str" using assms(2) by (simp add: ds_rep_def)
  obtain S1 ok where g: "dynstr_need realloc S (length t) = (S1, ok)" by fastforce
  note gs = dynstr_need_spec [OF assms(1) h assms(4) g]
  show ?thesis
  proof (cases ok)
    case True
    then have g1: "ds_holds S1 str" "0 + length t < ds_k S1" "ds_s S1 \<noteq> None" using gs by auto
    from ds_copy_at_spec [OF g1(1,3) assms(3) le0 g1(2)] obtain S' where
      "ds_copy_at S1 0 b i = Some (S', length t)" "ds_rep (S'\<lparr>ds_n := length t\<rparr>) t" by auto
    with True g assms(3) show ?thesis by (auto simp: dynstr_copys_def appends_def)
  next
    case False
    with gs g assms(3) show ?thesis by (auto simp: dynstr_copys_def appends_def)
  qed
qed

lemma dynstr_copy_copies:
  assumes "alloc_ok realloc" and "ds_rep to str" and "ds_rep from t" and "ds_s from \<noteq> None" and "0 \<notin> set t" and "length t + 1 < 2 ^ 64"
  shows "appends to t (dynstr_copy realloc to from)"
proof -
  obtain b where b: "ds_s from = Some b" using assms(4) by auto
  have c: "cstr_at b 0 t" using ds_rep_cstr [OF assms(3) b assms(5)] .
  have n: "ds_n from = length t" using ds_holds_n assms(3) by (simp add: ds_rep_def)
  have "dynstr_copy realloc to from = dynstr_copys realloc to b 0"
    using b c n by (simp add: dynstr_copy_def dynstr_copys_def split: prod.split bool.split)
  with dynstr_copys_copies [OF assms(1,2) c assms(6)] show ?thesis by simp
qed

text \<open>Bytes and a NUL written after the string.\<close>

lemma ds_holds_extend:
  assumes "ds_holds S str" and "ds_s S = Some b" and "length str + length t < ds_k S"
    and "length b' = length b" and "take (length str + length t) b' = str @ t"
  shows "ds_rep (S\<lparr>ds_s := Some (b'[length str + length t := 0]), ds_n := length str + length t\<rparr>) (str @ t)"
  using assms by (auto simp: ds_rep_def ds_holds_def)

lemma dynstr_putn_appends:
  assumes "alloc_ok realloc" and "ds_rep S str" and "cstr_at b i t" and "length str + min n (length t) + 2 < 2 ^ 64"
  shows "appends S (str @ take n t) (dynstr_putn realloc S b i n)"
proof -
  define m where "m = min n (length t)"
  have m: "(if n < length t then n else length t) = m" "m \<le> length t" "take n t = take m t" by (auto simp: m_def min_def)
  have h: "ds_holds S str" using assms(2) by (simp add: ds_rep_def)
  obtain S1 ok where g: "dynstr_grow realloc S m = (S1, ok)" by fastforce
  note gs = dynstr_grow_spec [OF assms(1) h assms(4) [folded m_def] g]
  show ?thesis
  proof (cases ok)
    case True
    then obtain v where g1: "ds_holds S1 str" "length str + m < ds_k S1" "ds_s S1 = Some v" using gs by auto
    then have v: "ds_n S1 = length str" "ds_k S1 \<le> length v" "take (length str) v = str" by (auto simp: ds_holds_def)
    have t: "take m (drop i b) = take m t"
      using assms(3) m(2) by (auto simp: cstr_at_def dest: arg_cong [of _ _ "take m"])
    have ib: "i + m \<le> length b" using assms(3) m(2) by (simp add: cstr_at_def)
    let ?v = "take (length str) v @ take m (drop i b) @ drop (length str + m) v"
    have cp: "buf_copy v (length str) b i m = Some ?v" using g1(2) v ib by (intro buf_copy_spec) auto
    have lt: "length (take m t) = m" using m(2) by simp
    have "ds_rep (S1\<lparr>ds_s := Some (?v[length str + length (take m t) := 0]), ds_n := length str + length (take m t)\<rparr>) (str @ take m t)"
      using g1 v lt ib t by (intro ds_holds_extend [of S1 str v]) auto
    then have rep: "ds_rep (S1\<lparr>ds_s := Some (?v[length str + m := 0]), ds_n := length str + m\<rparr>) (str @ take m t)"
      using lt by simp
    moreover have "length str + m < length ?v" using g1(2) v ib by simp
    ultimately have "dynstr_putn realloc S b i n =
        Some (S1\<lparr>ds_s := Some (?v[length str + m := 0]), ds_n := length str + m\<rparr>, True)"
      using True g assms(3,4) g1 v cp m by (simp add: dynstr_putn_def ds_wr_def Let_def flip: m_def)
    then show ?thesis using rep m(3) by (intro appendsI) simp_all
  next
    case False
    with gs g assms(3) m show ?thesis by (auto simp: dynstr_putn_def appends_def)
  qed
qed

lemma dynstr_putc_appends:
  assumes "alloc_ok realloc" and "ds_rep S str" and "length str + 3 < 2 ^ 64"
  shows "appends S (str @ [c]) (dynstr_putc realloc S c)"
proof -
  have h: "ds_holds S str" using assms(2) by (simp add: ds_rep_def)
  obtain S1 ok where g: "dynstr_grow realloc S 1 = (S1, ok)" by fastforce
  have l: "length str + 1 + 2 < 2 ^ 64" using assms(3) by simp
  note gs = dynstr_grow_spec [OF assms(1) h l g]
  show ?thesis
  proof (cases ok)
    case True
    then obtain v where g1: "ds_holds S1 str" "length str + 1 < ds_k S1" "ds_s S1 = Some v" using gs by auto
    then have v: "ds_n S1 = length str" "ds_k S1 \<le> length v" "take (length str) v = str" by (auto simp: ds_holds_def)
    have "ds_rep (S1\<lparr>ds_s := Some (v[length str := c, length str + length [c] := 0]), ds_n := length str + length [c]\<rparr>) (str @ [c])"
      using g1 v by (intro ds_holds_extend [of S1 str v]) (auto simp: take_Suc_conv_app_nth)
    moreover have "dynstr_putc realloc S c =
        Some (S1\<lparr>ds_s := Some (v[length str := c, length str + length [c] := 0]), ds_n := length str + length [c]\<rparr>, True)"
      using True g g1 v assms(3) by (simp add: dynstr_putc_def ds_wr_def Let_def)
    ultimately show ?thesis by (intro appendsI)
  next
    case False
    with gs g show ?thesis by (auto simp: dynstr_putc_def appends_def)
  qed
qed

lemma dynstr_chop_spec:
  assumes "ds_rep S str"
  shows "\<exists>S'. dynstr_chop S = Some S' \<and> ds_rep S' (if str \<noteq> [] \<and> last str = 10 then butlast str else str)"
proof (cases "str = []")
  case True
  then have "ds_n S = 0" using assms ds_holds_n by (fastforce simp: ds_rep_def)
  with True show ?thesis using assms by (simp add: dynstr_chop_def)
next
  case False
  then obtain b where b: "ds_s S = Some b" using assms by (cases "ds_s S") (auto simp: ds_rep_def ds_holds_def)
  then have S: "ds_n S = length str" "length str < ds_k S" "ds_k S \<le> length b" "take (length str) b = str" "ds_k S < 2 ^ 64"
    using assms by (auto simp: ds_rep_def ds_holds_def)
  have l: "b ! (length str - 1) = last str"
    using S(4) False by (metis diff_less last_conv_nth length_greater_0_conv nth_take zero_less_one)
  have "take (length str - 1) b = butlast str" using S(2,3,4) by (metis butlast_take le_trans less_imp_le)
  then show ?thesis using False b S l assms
    by (auto simp: dynstr_chop_def ds_wr_def ds_rep_def ds_holds_def)
qed

lemma dynstr_new_spec: "alloc_ok realloc \<Longrightarrow> \<exists>r. dynstr_new realloc obj = Some r \<and> (\<forall>S. r = Some S \<longrightarrow> ds_rep S [])"
  by (auto simp: dynstr_new_def DYNSTR_INITSIZE_def alloc_ok_def ds_rep_def ds_holds_def wr_def split: option.splits)

lemma dynstr_set_spec: "cstr_at b 0 str \<Longrightarrow> length str + 1 < 2 ^ 64 \<Longrightarrow> \<exists>S. dynstr_set b = Some S \<and> ds_rep S str"
  using cstr_at_end [of b 0 str]
  by (auto simp: dynstr_set_def ds_rep_def ds_holds_def cstr_at_def dest: arg_cong [of _ _ "take (length str)"])

lemma dynstr_clear_spec: "ds_rep S str \<Longrightarrow> \<exists>S'. dynstr_clear S = Some S' \<and> ds_rep S' []"
  by (cases "ds_s S") (auto simp: dynstr_clear_def ds_wr_def ds_rep_def ds_holds_def Let_def wr_def)

section \<open>Lines\<close>

text \<open>A scan over bytes none of which is NUL leaves the object.\<close>

lemma cstr_len_overrun: "0 \<notin> set (drop i b) \<Longrightarrow> cstr_len b i = None"
proof -
  assume nz: "0 \<notin> set (drop i b)"
  then have "cstr_len_small_loop b i = None"
  proof (induction "length b - i" arbitrary: i)
    case 0
    then show ?case by (subst cstr_len_small_loop.simps) simp
  next
    case (Suc m)
    then have i: "i < length b" by simp
    then have d: "drop i b = b ! i # drop (i + 1) b" by (simp add: Cons_nth_drop_Suc)
    with Suc.prems have "b ! i \<noteq> 0" "0 \<notin> set (drop (i + 1) b)" by auto
    with Suc.hyps(1) [of "i + 1"] Suc.hyps(2) i show ?case by (subst cstr_len_small_loop.simps) simp
  qed
  then show ?thesis by (simp add: cstr_len_def cstr_len_loop_eq)
qed

lemma buf_ndx_loop_bounded: "i + r \<le> length b \<Longrightarrow> \<exists>p. buf_ndx_loop b i r c = Some p \<and> i \<le> p \<and> p \<le> i + r"
proof (induction r arbitrary: i)
  case (Suc r)
  then show ?case using Suc.IH [of "i + 1"] by auto
qed simp

section \<open>Buffers of bytes\<close>

definition db_rep :: "dynbuf \<Rightarrow> u8 list \<Rightarrow> bool" where
  "db_rep d bs \<longleftrightarrow>
     (case db_buf d of
        None \<Rightarrow> db_n d = 0 \<and> db_p d = 0 \<and> bs = []
      | Some b \<Rightarrow> length b = db_n d \<and> db_p d = length bs \<and> length bs \<le> db_n d \<and> db_n d < 2 ^ 64 \<and> take (length bs) b = bs)"

definition db_appends :: "dynbuf \<Rightarrow> u8 list \<Rightarrow> (dynbuf \<times> bool) option \<Rightarrow> bool" where
  "db_appends d bs res \<longleftrightarrow> (\<exists>d' ok. res = Some (d', ok) \<and> (if ok then db_rep d' bs else d' = d))"

lemma dynbuf_need_spec:
  assumes "alloc_ok realloc" and "db_rep d bs" and "need + need div 4 + 8 < 2 ^ 64" and "dynbuf_need realloc d need = (d', ok)"
  shows "if ok then db_rep d' bs \<and> need \<le> db_n d' \<and> db_buf d' \<noteq> None else d' = d"
proof -
  have sz: "size_add need (size_add (need div 4) 8) = need + need div 4 + 8" using assms(3) by simp
  show ?thesis
  proof (cases "db_buf d = None \<or> db_n d < need")
    case False
    then show ?thesis using assms by (auto simp: dynbuf_need_def)
  next
    case True
    let ?old = "block (db_buf d)" and ?need = "need + need div 4 + 8"
    have old: "take (length bs) ?old = bs" "length ?old = db_n d" "db_n d \<le> ?need"
      using assms(2) True by (auto simp: db_rep_def block_def split: option.splits)
    show ?thesis
    proof (cases "realloc ?old ?need")
      case None
      then show ?thesis using assms(4) True sz by (auto simp: dynbuf_need_def)
    next
      case (Some v)
      then have v: "length v = ?need" "take (min (length ?old) ?need) v = take ?need ?old"
        using assms(1) unfolding alloc_ok_def by blast+
      have l: "length bs \<le> length ?old" using old(1) by (metis length_take min.cobounded1)
      have "take (length bs) v = take (length bs) (take (min (length ?old) ?need) v)"
        using l old(2,3) by (simp add: min_def)
      also have "\<dots> = bs" using v(2) old l by simp
      finally have t: "take (length bs) v = bs" .
      have "d' = d\<lparr>db_buf := Some v, db_n := ?need\<rparr>" "ok"
        using assms(4) Some True sz by (auto simp: dynbuf_need_def)
      moreover have "db_p d = length bs" using assms(2) by (auto simp: db_rep_def split: option.splits)
      ultimately show ?thesis using v t l old(2,3) assms(3) by (auto simp: db_rep_def)
    qed
  qed
qed

text \<open>The bytes and the sentinel after them, in memory that has room for both.\<close>

lemma db_store:
  assumes "db_rep d bs" and "db_buf d = Some b" and "p \<le> length bs" and "p + len + 1 \<le> db_n d" and "i + len \<le> length src"
  shows "\<exists>b'. buf_copy b p src i len = Some b' \<and> p + len < length b' \<and>
    db_rep (d\<lparr>db_buf := Some (b'[p + len := c]), db_p := p + len\<rparr>) (take p bs @ take len (drop i src))"
proof -
  have b: "length b = db_n d" "take (length bs) b = bs" "db_n d < 2 ^ 64" using assms(1,2) by (auto simp: db_rep_def)
  have p: "take p b = take p bs" using b(2) assms(3) by (metis min.absorb1 take_take)
  show ?thesis using b p assms(3-5) by (simp add: buf_copy_spec db_rep_def)
qed

lemma dynbuf_copybuf_copies:
  assumes "alloc_ok realloc" and "db_rep d bs" and "i + len \<le> length src" and "(len + 1) + (len + 1) div 4 + 8 < 2 ^ 64"
  shows "db_appends d (take len (drop i src)) (dynbuf_copybuf realloc d src i len)"
proof -
  have sz: "size_add len 1 = len + 1" using assms(4) by simp
  obtain d1 ok where n: "dynbuf_need realloc d (len + 1) = (d1, ok)" by fastforce
  note ns = dynbuf_need_spec [OF assms(1,2,4) n]
  show ?thesis
  proof (cases ok)
    case True
    then obtain b where d1: "db_rep d1 bs" "len + 1 \<le> db_n d1" "db_buf d1 = Some b" using ns by auto
    from db_store [OF d1(1,3) le0 _ assms(3)] d1(2) obtain b' where "buf_copy b 0 src i len = Some b'" "len < length b'"
        "db_rep (d1\<lparr>db_buf := Some (b'[len := of_char CHR ''Z'']), db_p := len\<rparr>) (take len (drop i src))" by auto
    then show ?thesis using True n sz d1 by (auto simp: dynbuf_copybuf_def db_appends_def)
  next
    case False
    with ns n sz show ?thesis by (auto simp: dynbuf_copybuf_def db_appends_def)
  qed
qed

lemma dynbuf_putbuf_appends:
  assumes "alloc_ok realloc" and "db_rep d bs" and "i + len \<le> length src"
    and "(len + 1 + length bs) + (len + 1 + length bs) div 4 + 8 < 2 ^ 64"
  shows "db_appends d (bs @ take len (drop i src)) (dynbuf_putbuf realloc d src i len)"
proof (cases "db_n d = 0")
  case True
  then have bs: "bs = []" using assms(2) by (auto simp: db_rep_def split: option.splits)
  have "db_appends d (take len (drop i src)) (dynbuf_copybuf realloc d src i len)"
    using assms bs by (intro dynbuf_copybuf_copies [of _ _ bs]) auto
  with True bs show ?thesis by (simp add: dynbuf_putbuf_def)
next
  case False
  have sz: "size_add len 1 = len + 1" "size_add (len + 1) (length bs) = len + 1 + length bs" using assms(4) by simp_all
  have d: "db_buf d \<noteq> None" "db_p d = length bs" using assms(2) False by (auto simp: db_rep_def split: option.splits)
  obtain d1 ok where n: "dynbuf_need realloc d (len + 1 + length bs) = (d1, ok)" by fastforce
  then have g: "dynbuf_grow realloc d (len + 1) = (d1, ok)" using d sz by (simp add: dynbuf_grow_def)
  note ns = dynbuf_need_spec [OF assms(1,2,4) n]
  show ?thesis
  proof (cases ok)
    case True
    then obtain b where d1: "db_rep d1 bs" "len + 1 + length bs \<le> db_n d1" "db_buf d1 = Some b" using ns by auto
    have p: "db_p d1 = length bs" "length bs + len < 2 ^ 64" using d1 assms(4) by (auto simp: db_rep_def)
    from db_store [OF d1(1,3) order_refl _ assms(3)] d1(2) obtain b' where "buf_copy b (length bs) src i len = Some b'"
        "length bs + len < length b'"
        "db_rep (d1\<lparr>db_buf := Some (b'[length bs + len := of_char CHR ''Q'']), db_p := length bs + len\<rparr>) (bs @ take len (drop i src))"
      by auto
    then show ?thesis using True False g sz d1 p by (auto simp: dynbuf_putbuf_def db_appends_def Let_def)
  next
    case False
    with ns g sz \<open>db_n d \<noteq> 0\<close> show ?thesis by (auto simp: dynbuf_putbuf_def db_appends_def)
  qed
qed

section \<open>Properties\<close>

text \<open>C32: a growing string is a string.  For an allocator that keeps the old contents, appending a string, a bounded part of one, a byte or another growing string, and replacing
  the contents, stay within the memory and give exactly the concatenation or the copy, with its NUL, or \<open>-1\<close> and the string as before when memory runs out.\<close>

theorem dynstr_refines:
  assumes "alloc_ok realloc" and "ds_rep S str" and "cstr_at b i t" and "ds_rep T t" and "ds_s T \<noteq> None"
    and "length str + length t + 3 < 2 ^ 64"
  shows "appends S (str @ t) (dynstr_puts realloc S b i) \<and>
    appends S (str @ take n t) (dynstr_putn realloc S b i n) \<and>
    appends S (str @ [c]) (dynstr_putc realloc S c) \<and>
    appends S (str @ t) (dynstr_put realloc S T) \<and>
    appends S t (dynstr_copys realloc S b i) \<and>
    appends S t (dynstr_copy realloc S T)"
proof -
  have nz: "0 \<notin> set t" using assms(3) by (simp add: cstr_at_def)
  have l: "length str + length t + 2 < 2 ^ 64" "length str + min n (length t) + 2 < 2 ^ 64" "length str + 3 < 2 ^ 64"
    "length t + 1 < 2 ^ 64" using assms(6) by (simp_all add: min_def)
  show ?thesis
    using dynstr_puts_appends [OF assms(1-3) l(1)] dynstr_putn_appends [OF assms(1-3) l(2)] dynstr_putc_appends [OF assms(1,2) l(3), of c]
      dynstr_put_appends [OF assms(1,2,4,5) nz l(1)] dynstr_copys_copies [OF assms(1-3) l(4)]
      dynstr_copy_copies [OF assms(1,2,4,5) nz l(4)]
    by blast
qed

theorem dynstr_refines_witness:
  "appends dynstr_INIT [97, 98] (dynstr_puts (alloc_limit 9) dynstr_INIT [97, 98, 0] 0) \<and>
   appends dynstr_INIT [97] (dynstr_putn (alloc_limit 9) dynstr_INIT [97, 98, 0] 0 1)"
  using dynstr_refines [OF alloc_limit_ok [of 9], of dynstr_INIT "[]" "[97, 98, 0]" 0 "[97, 98]" "\<lparr>ds_s = Some [97, 98, 0], ds_n = 2, ds_k = 3\<rparr>" 1]
  by (simp add: ds_rep_def ds_holds_def dynstr_INIT_def cstr_at_def)

text \<open>C33: a growing buffer is a sequence of bytes: \<open>dynbuf_putbuf\<close> appends and \<open>dynbuf_copybuf\<close> replaces, within the memory, or the buffer is as before when memory runs out.
  Against its declaration, \<open>dynbuf_put\<close> appends the whole memory allocated for the other buffer, not the bytes it holds.\<close>

theorem dynbuf_refines:
  assumes "alloc_ok realloc" and "db_rep d bs" and "i + len \<le> length src" and "db_rep from cs"
    and "2 * (length bs + len + db_n from) + 9 < 2 ^ 64"
  shows "db_appends d (bs @ take len (drop i src)) (dynbuf_putbuf realloc d src i len) \<and>
    db_appends d (take len (drop i src)) (dynbuf_copybuf realloc d src i len) \<and>
    db_appends d (bs @ block (db_buf from)) (dynbuf_put realloc d from) \<and>
    cs = take (db_p from) (block (db_buf from))"
proof -
  have f: "length (block (db_buf from)) = db_n from" "cs = take (db_p from) (block (db_buf from))"
    using assms(4) by (auto simp: db_rep_def block_def split: option.splits)
  have "db_appends d (bs @ take (db_n from) (drop 0 (block (db_buf from)))) (dynbuf_put realloc d from)"
    unfolding dynbuf_put_def using assms f by (intro dynbuf_putbuf_appends) auto
  then have p: "db_appends d (bs @ block (db_buf from)) (dynbuf_put realloc d from)" using f(1) by simp
  show ?thesis
    using dynbuf_putbuf_appends [OF assms(1-3)] dynbuf_copybuf_copies [OF assms(1-3)] p f(2) assms(5) by auto
qed

text \<open>The source buffer holds one byte of four.\<close>

theorem dynbuf_refines_witness:
  "db_appends dynbuf_INIT [1, 2] (dynbuf_putbuf (alloc_limit 99) dynbuf_INIT [1, 2] 0 2) \<and>
   db_appends dynbuf_INIT [7, 0, 0, 0] (dynbuf_put (alloc_limit 99) dynbuf_INIT \<lparr>db_buf = Some [7, 0, 0, 0], db_n = 4, db_p = 1\<rparr>)"
  using dynbuf_refines [OF alloc_limit_ok [of 99], of dynbuf_INIT "[]" 0 2 "[1, 2]" "\<lparr>db_buf = Some [7, 0, 0, 0], db_n = 4, db_p = 1\<rparr>" "[7]"]
  by (simp add: db_rep_def dynbuf_INIT_def block_def)

text \<open>C34: \<open>ioq_getln\<close> leaves the buffer of the queue.  When the bytes waiting in the queue hold no NUL, the scan for the end of the string in \<open>dynstr_putn\<close> runs past
  the end of the buffer, even if they hold a newline; and when \<open>read()\<close> fails, the \<open>-1\<close> in an unsigned variable passes for a number of bytes.\<close>

theorem ioq_getln_overreads:
  assumes "in_ok q" and "ioq_feed fd_read s q = Some (r, q', s')" and "r \<noteq> Inr 0" and "0 \<notin> set (unread_bytes q')"
  shows "ioq_getln fd_read realloc s q S = None"
proof -
  have q': "in_ok q'" "case r of Inl e \<Rightarrow> unread_bytes q' = [] | Inr k \<Rightarrow> k = length (unread_bytes q')"
    using fdr.ioq_feed_spec [OF assms(1), of s] assms(2) by auto
  have nul: "cstr_len (q_buf q') (q_n q') = None"
    using assms(4) by (intro cstr_len_overrun) (simp add: unread_bytes_def)
  have pn: "dynstr_putn realloc S (q_buf q') (q_n q') n = None" for n by (simp add: dynstr_putn_def nul)
  show ?thesis
  proof (cases r)
    case (Inl e)
    then have "length (q_buf q') \<le> q_n q'" using q'(2) by (simp add: unread_bytes_def)
    then have "buf_ndx (q_buf q') (q_n q') k 10 = None" if "0 < k" for k
      using that by (cases k) (simp_all add: buf_ndx_def)
    then have "buf_ndx (q_buf q') (q_n q') (2 ^ 64 - 1) 10 = None" by simp
    then show ?thesis using assms(2) Inl by (subst ioq_getln.simps) simp
  next
    case (Inr k)
    then have k: "0 < k" "q_n q' + k \<le> length (q_buf q')"
      using q' assms(3) by (auto simp: unread_bytes_def in_ok_def)
    obtain p where "buf_ndx (q_buf q') (q_n q') k 10 = Some p"
      using buf_ndx_loop_bounded [OF k(2), of 10] by (auto simp: buf_ndx_def)
    then show ?thesis using assms(2) Inr k pn by (subst ioq_getln.simps) (simp add: Let_def)
  qed
qed

text \<open>A line of one character.\<close>

theorem ioq_getln_overreads_witness:
  "ioq_getln fd_read (alloc_limit 99) \<lparr>in_events = [], in_got = []\<rparr> \<lparr>q_buf = [97, 10], q_n = 0, q_p = 2\<rparr> dynstr_INIT = None"
  by (rule ioq_getln_overreads [where r = "Inr 2" and q' = "\<lparr>q_buf = [97, 10], q_n = 0, q_p = 2\<rparr>" and s' = "\<lparr>in_events = [], in_got = []\<rparr>"]) (simp_all add: in_ok_def ioq_feed_def unread_bytes_def)

end
