(* ===== verification/Tinylog.thy ===== *)
theory Tinylog
  imports Ioq Nfmt Tain Perp_Client
begin

text \<open>
  The logger: \<open>src/perp/tinylog.c\<close>.  Its state is one record: the fields of \<open>struct tinylog\<close>, the flags of the signal handler, standard input, the log
  directory as its names and inodes, the clock, and \<open>logged\<close>, all bytes written to the log so far, whatever file they went to.  Every system call
  consumes one entry of \<open>faults\<close>: the signals that arrive during the call, and whether it fails, or how many bytes a \<open>write()\<close> takes at most.  The list is finite:
  the system is calm in the end, and a loop that retries a call is a partial function.  A file name is its bytes without the NUL.  Warnings to standard error are not modelled.
  Of the child process for gzip the model has the files it opens and its exit; the program gzip is a parameter.
\<close>

section \<open>The state\<close>

record inode =
  i_data :: "u8 list"
  i_mode :: nat

record fsys =
  dirents :: "(u8 list \<times> nat) list"
  inodes :: "nat \<Rightarrow> inode"
  next_ino :: nat

datatype fault = Calm | Fail int | Short nat

record tlog =
  faults :: "(int list \<times> fault) list"
  flagexit :: nat
  flagrotate :: nat
  blocked :: bool
  pending :: "int list"
  stdin :: fd_in
  clk :: "nat \<Rightarrow> timeval"
  nclk :: nat
  fs :: fsys
  logged :: "u8 list"
  fd_current :: nat
  current_size :: nat
  current_max :: nat
  keep_max :: nat
  wantstamp :: bool
  wantzip :: bool
  fn8601 :: buffer
  os_gzip :: "u8 list \<Rightarrow> int \<times> u8 list"

definition CURRENT_MAX :: nat where "CURRENT_MAX = 100000"
definition LOGLINE_MAX :: nat where "LOGLINE_MAX = 1000"
definition INBUF_SIZE :: nat where "INBUF_SIZE = 1024"
definition ZIP_EXT :: "u8 list" where "ZIP_EXT = bytes ''.Z''"
definition EEXIST :: int where "EEXIST = 17"

definition sig_handler :: "int \<Rightarrow> tlog \<Rightarrow> tlog" where
  "sig_handler sig w =
     (if sig = SIGTERM then w\<lparr>flagexit := flagexit w + 1\<rparr>
      else if sig = SIGHUP then w\<lparr>flagrotate := flagrotate w + 1\<rparr>
      else w)"

text \<open>One system call: the signals that arrive during it, and its fault.\<close>

definition tick :: "tlog \<Rightarrow> fault \<times> tlog" where
  "tick w =
     (case faults w of
        [] \<Rightarrow> (Calm, w)
      | (sigs, f) # fl \<Rightarrow>
          (f, if blocked w then w\<lparr>faults := fl, pending := pending w @ sigs\<rparr> else fold sig_handler sigs (w\<lparr>faults := fl\<rparr>)))"

text \<open>\<open>sigset_unblock(&my_sigset)\<close>.\<close>

definition sigset_unblock :: "tlog \<Rightarrow> tlog" where
  "sigset_unblock w = fold sig_handler (pending w) (w\<lparr>blocked := False, pending := []\<rparr>)"

text \<open>A call that acts on the directory, with the errno of its failure.\<close>

definition syscall :: "(fsys \<Rightarrow> (int + 'a) \<times> fsys) \<Rightarrow> tlog \<Rightarrow> (int + 'a) \<times> tlog" where
  "syscall act w =
     (case tick w of
        (Fail e, w) \<Rightarrow> (Inl e, w)
      | (_, w) \<Rightarrow> (case act (fs w) of (r, f) \<Rightarrow> (r, w\<lparr>fs := f\<rparr>)))"

text \<open>A call whose result is ignored.\<close>

definition pause :: "tlog \<Rightarrow> tlog" where "pause w = snd (tick w)"

datatype 'a outcome = Ok 'a | Exit int

text \<open>The macro \<open>RETRY\<close>: repeat a failing call, and die when SIGTERM has arrived.\<close>

partial_function (option) RETRY :: "(tlog \<Rightarrow> (int + 'a) \<times> tlog) \<Rightarrow> tlog \<Rightarrow> ('a outcome \<times> tlog) option" where
  [code]: "RETRY test w =
     (case test w of
        (Inr x, w) \<Rightarrow> Some (Ok x, w)
      | (Inl e, w) \<Rightarrow> if flagexit w > 0 then Some (Exit 111, w) else RETRY test (pause w))"

text \<open>The rest of a function after a part that may have ended the program.\<close>

definition andthen :: "('a outcome \<times> tlog) option \<Rightarrow> ('a \<Rightarrow> tlog \<Rightarrow> ('b outcome \<times> tlog) option) \<Rightarrow> ('b outcome \<times> tlog) option" where
  "andthen m f = do { (r, w) \<leftarrow> m; case r of Ok x \<Rightarrow> f x w | Exit c \<Rightarrow> Some (Exit c, w) }"

section \<open>The directory\<close>

text \<open>\<open>stat()\<close>, \<open>link()\<close>, \<open>unlink()\<close>, \<open>rename()\<close>, \<open>open()\<close> for appending, and \<open>fchmod()\<close>.\<close>

record fstat =
  f_nlink :: nat
  f_mode :: nat
  f_size :: nat

definition ino_of :: "fsys \<Rightarrow> u8 list \<Rightarrow> nat option" where "ino_of f name = map_of (dirents f) name"

definition nlink :: "fsys \<Rightarrow> nat \<Rightarrow> nat" where
  "nlink f k = length (filter (\<lambda>(_, i). i = k) (dirents f))"

definition fs_stat :: "u8 list \<Rightarrow> fsys \<Rightarrow> (int + fstat) \<times> fsys" where
  "fs_stat name f =
     (case ino_of f name of
        None \<Rightarrow> (Inl ENOENT, f)
      | Some i \<Rightarrow> (Inr \<lparr>f_nlink = nlink f i, f_mode = i_mode (inodes f i), f_size = length (i_data (inodes f i))\<rparr>, f))"

definition fs_link :: "u8 list \<Rightarrow> u8 list \<Rightarrow> fsys \<Rightarrow> (int + unit) \<times> fsys" where
  "fs_link old new f =
     (case ino_of f old of
        None \<Rightarrow> (Inl ENOENT, f)
      | Some i \<Rightarrow> if ino_of f new \<noteq> None then (Inl EEXIST, f) else (Inr (), f\<lparr>dirents := dirents f @ [(new, i)]\<rparr>))"

definition fs_unlink :: "u8 list \<Rightarrow> fsys \<Rightarrow> (int + unit) \<times> fsys" where
  "fs_unlink name f =
     (if ino_of f name = None then (Inl ENOENT, f)
      else (Inr (), f\<lparr>dirents := filter (\<lambda>(n, _). n \<noteq> name) (dirents f)\<rparr>))"

definition fs_rename :: "u8 list \<Rightarrow> u8 list \<Rightarrow> fsys \<Rightarrow> (int + unit) \<times> fsys" where
  "fs_rename old new f =
     (case ino_of f old of
        None \<Rightarrow> (Inl ENOENT, f)
      | Some i \<Rightarrow>
          if ino_of f new = Some i then (Inr (), f)
          else (Inr (), f\<lparr>dirents := filter (\<lambda>(n, _). n \<noteq> old \<and> n \<noteq> new) (dirents f) @ [(new, i)]\<rparr>))"

definition fs_open :: "u8 list \<Rightarrow> fsys \<Rightarrow> (int + nat) \<times> fsys" where
  "fs_open name f =
     (case ino_of f name of
        Some i \<Rightarrow> (Inr i, f)
      | None \<Rightarrow>
          (let i = next_ino f
           in (Inr i, f\<lparr>dirents := dirents f @ [(name, i)], inodes := (inodes f)(i := \<lparr>i_data = [], i_mode = 384\<rparr>), next_ino := i + 1\<rparr>)))"

definition fs_fchmod :: "nat \<Rightarrow> nat \<Rightarrow> fsys \<Rightarrow> (int + unit) \<times> fsys" where
  "fs_fchmod i mode f = (Inr (), f\<lparr>inodes := (inodes f)(i := inodes f i\<lparr>i_mode := mode\<rparr>)\<rparr>)"

definition fs_append :: "nat \<Rightarrow> u8 list \<Rightarrow> fsys \<Rightarrow> fsys" where
  "fs_append i bs f = f\<lparr>inodes := (inodes f)(i := inodes f i\<lparr>i_data := i_data (inodes f i) @ bs\<rparr>)\<rparr>"

text \<open>\<open>open("zipped", O_WRONLY|O_CREAT|O_TRUNC, 0600)\<close> and what gzip then writes to it.\<close>

definition fs_create :: "u8 list \<Rightarrow> u8 list \<Rightarrow> fsys \<Rightarrow> (int + unit) \<times> fsys" where
  "fs_create name bs f =
     (let (_, f) = fs_open name f
      in case ino_of f name of
           Some i \<Rightarrow> (Inr (), f\<lparr>inodes := (inodes f)(i := inodes f i\<lparr>i_data := bs\<rparr>)\<rparr>)
         | None \<Rightarrow> (Inl ENOENT, f))"

definition fs_read :: "u8 list \<Rightarrow> fsys \<Rightarrow> (int + u8 list) \<times> fsys" where
  "fs_read name f = (case ino_of f name of None \<Rightarrow> (Inl ENOENT, f) | Some i \<Rightarrow> (Inr (i_data (inodes f i)), f))"

definition fs_chmod :: "u8 list \<Rightarrow> nat \<Rightarrow> fsys \<Rightarrow> (int + unit) \<times> fsys" where
  "fs_chmod name mode f = (case ino_of f name of None \<Rightarrow> (Inl ENOENT, f) | Some i \<Rightarrow> fs_fchmod i mode f)"

section \<open>Input and output\<close>

definition sys_read :: "tlog \<Rightarrow> nat \<Rightarrow> (int + u8 list) \<times> tlog" where
  "sys_read w want =
     (case tick w of
        (Fail e, w) \<Rightarrow> (Inl e, w)
      | (_, w) \<Rightarrow> (case fd_read (stdin w) want of (r, s) \<Rightarrow> (r, w\<lparr>stdin := s\<rparr>)))"

text \<open>\<open>noise w w'\<close>: the states differ only in what signals and faults do by themselves.\<close>

definition noise :: "tlog \<Rightarrow> tlog \<Rightarrow> bool" where
  "noise w w' \<longleftrightarrow> (\<exists>k a b p. w' = w\<lparr>faults := drop k (faults w), flagexit := flagexit w + a, flagrotate := b, pending := p\<rparr>)"

lemma noise_refl [simp]: "noise w w"
  unfolding noise_def by (intro exI [of _ 0] exI [of _ "flagrotate w"] exI [of _ "pending w"]) simp

lemma noise_trans [trans]:
  assumes "noise u v" and "noise v w"
  shows "noise u w"
proof -
  obtain k a b p where v: "v = u\<lparr>faults := drop k (faults u), flagexit := flagexit u + a, flagrotate := b, pending := p\<rparr>"
    using assms(1) by (auto simp: noise_def)
  obtain l c d p' where w: "w = v\<lparr>faults := drop l (faults v), flagexit := flagexit v + c, flagrotate := d, pending := p'\<rparr>"
    using assms(2) by (auto simp: noise_def)
  have "w = u\<lparr>faults := drop (k + l) (faults u), flagexit := flagexit u + (a + c), flagrotate := d, pending := p'\<rparr>"
    unfolding w v by (simp add: ac_simps)
  then show ?thesis unfolding noise_def by blast
qed

lemma noise_fields:
  assumes "noise w w'"
  shows "stdin w' = stdin w" "clk w' = clk w" "nclk w' = nclk w" "fs w' = fs w" "logged w' = logged w" "fd_current w' = fd_current w"
    "current_size w' = current_size w" "current_max w' = current_max w" "keep_max w' = keep_max w" "wantstamp w' = wantstamp w"
    "wantzip w' = wantzip w" "fn8601 w' = fn8601 w" "os_gzip w' = os_gzip w" "length (faults w') \<le> length (faults w)"
    "flagexit w \<le> flagexit w'" "set (faults w') \<subseteq> set (faults w)"
  using assms by (auto simp: noise_def dest: in_set_dropD)

lemma sig_handler_noise: "noise w (sig_handler sig w)"
proof -
  have "\<exists>a b. sig_handler sig w = w\<lparr>faults := drop 0 (faults w), flagexit := flagexit w + a, flagrotate := b, pending := pending w\<rparr>"
    by (cases w) (auto simp: sig_handler_def)
  then show ?thesis unfolding noise_def by blast
qed

lemma fold_sig_handler_noise: "noise w (fold sig_handler sigs w)"
  by (induction sigs arbitrary: w) (auto intro: noise_trans sig_handler_noise)

lemma tick_noise:
  assumes "tick w = (f, w')"
  shows "noise w w'" "f \<noteq> Calm \<Longrightarrow> length (faults w') < length (faults w)" "f \<noteq> Calm \<Longrightarrow> \<exists>sigs. (sigs, f) \<in> set (faults w)"
proof -
  have "noise w w' \<and> (f \<noteq> Calm \<longrightarrow> length (faults w') < length (faults w) \<and> (\<exists>sigs. (sigs, f) \<in> set (faults w)))"
  proof (cases "faults w")
    case Nil
    then show ?thesis using assms by (simp add: tick_def)
  next
    case (Cons a fl)
    obtain sigs g where a: "a = (sigs, g)" by fastforce
    let ?v = "w\<lparr>faults := fl\<rparr>"
    have f: "f = g" using assms Cons a by (simp add: tick_def)
    have v: "noise w ?v"
      unfolding noise_def using Cons by (intro exI [of _ 1] exI [of _ 0] exI [of _ "flagrotate w"] exI [of _ "pending w"]) simp
    have n: "noise ?v w'"
    proof (cases "blocked w")
      case True
      then have "w' = ?v\<lparr>faults := drop 0 (faults ?v), flagexit := flagexit ?v + 0, flagrotate := flagrotate ?v, pending := pending w @ sigs\<rparr>"
        using assms Cons a by (simp add: tick_def)
      then show ?thesis unfolding noise_def by blast
    next
      case False
      then have "w' = fold sig_handler sigs ?v" using assms Cons a by (simp add: tick_def)
      then show ?thesis using fold_sig_handler_noise by simp
    qed
    have "length (faults w') \<le> length fl" using noise_fields(14) [OF n] by simp
    with v n f Cons a show ?thesis by (auto intro: noise_trans)
  qed
  then show "noise w w'" "f \<noteq> Calm \<Longrightarrow> length (faults w') < length (faults w)" "f \<noteq> Calm \<Longrightarrow> \<exists>sigs. (sigs, f) \<in> set (faults w)"
    by auto
qed

lemma pause_noise: "noise w (pause w)"
  using tick_noise(1) by (cases "tick w") (auto simp: pause_def)

lemma fd_read_fail: "fd_read s want = (Inl e, s') \<Longrightarrow> length (in_events s') < length (in_events s)"
  by (auto simp: fd_read.simps Let_def split: list.splits read_event.splits if_splits)

lemma sys_read_fail:
  "sys_read w want = (Inl e, w') \<Longrightarrow>
   length (faults w') + length (in_events (stdin w')) < length (faults w) + length (in_events (stdin w))"
proof -
  assume r: "sys_read w want = (Inl e, w')"
  obtain f v where t: "tick w = (f, v)" by fastforce
  note n = noise_fields [OF tick_noise(1) [OF t]]
  show ?thesis
  proof (cases "\<exists>x. f = Fail x")
    case True
    then show ?thesis using r t n tick_noise(2) [OF t] by (auto simp: sys_read_def)
  next
    case False
    then have "w' = v\<lparr>stdin := snd (fd_read (stdin v) want)\<rparr>" "fst (fd_read (stdin v) want) = Inl e"
      using r t by (auto simp: sys_read_def split: fault.splits prod.splits)
    then show ?thesis using n fd_read_fail [of "stdin v" want e] by (cases "fd_read (stdin v) want") auto
  qed
qed

text \<open>\<open>read_op\<close>, the operation of the queue on standard input.\<close>

function read_op :: "tlog \<Rightarrow> nat \<Rightarrow> (int + u8 list) \<times> tlog" where
  "read_op w len =
     (if flagexit w > 0 then (Inr [], w)
      else
        (case sys_read w len of
           (Inl e, w) \<Rightarrow> if e = EINTR then read_op w len else (Inl e, w)
         | (Inr bs, w) \<Rightarrow> (Inr bs, w)))"
  by pat_completeness auto
termination
  by (relation "measure (\<lambda>(w, len). length (faults w) + length (in_events (stdin w)))") (auto dest!: sys_read_fail [OF sym])

declare read_op.simps [simp del]

text \<open>\<open>write()\<close> to the current log.\<close>

definition sys_write :: "tlog \<Rightarrow> u8 list \<Rightarrow> (int + nat) \<times> tlog" where
  "sys_write w bs =
     (case tick w of
        (Fail e, w) \<Rightarrow> (Inl e, w)
      | (f, w) \<Rightarrow>
          (let k = (case f of Short n \<Rightarrow> min n (length bs) | _ \<Rightarrow> length bs)
           in (Inr k, w\<lparr>fs := fs_append (fd_current w) (take k bs) (fs w), logged := logged w @ take k bs\<rparr>)))"

partial_function (option) tl_write_all :: "tlog \<Rightarrow> u8 list \<Rightarrow> tlog option" where
  [code]: "tl_write_all w bs =
     (if bs = [] then Some w
      else
        (case sys_write w bs of
           (Inl e, w) \<Rightarrow> tl_write_all (if e \<noteq> EINTR then pause w else w) bs
         | (Inr k, w) \<Rightarrow> tl_write_all w (drop k bs)))"

section \<open>Time stamps\<close>

text \<open>\<open>gmtime()\<close>, for the times whose year fits an \<open>int\<close>.\<close>

record tm =
  tm_year :: nat
  tm_mon :: nat
  tm_mday :: nat
  tm_hour :: nat
  tm_min :: nat
  tm_sec :: nat

definition year_len :: "nat \<Rightarrow> nat" where
  "year_len y = (if (4 dvd y \<and> \<not> 100 dvd y) \<or> 400 dvd y then 366 else 365)"

function year_of :: "nat \<Rightarrow> nat \<Rightarrow> nat \<times> nat" where
  "year_of y days = (if days < year_len y then (y, days) else year_of (y + 1) (days - year_len y))"
  by pat_completeness auto
termination
  by (relation "measure (\<lambda>(y, days). days)") (auto simp: year_len_def)

declare year_of.simps [simp del]

fun month_of :: "nat list \<Rightarrow> nat \<Rightarrow> nat \<Rightarrow> nat \<times> nat" where
  "month_of [] m d = (m, d)"
| "month_of (l # ls) m d = (if d < l then (m, d) else month_of ls (m + 1) (d - l))"

definition month_lens :: "nat \<Rightarrow> nat list" where
  "month_lens y = [31, if year_len y = 366 then 29 else 28, 31, 30, 31, 30, 31, 31, 30, 31, 30]"

definition gmtime :: "nat \<Rightarrow> tm option" where
  "gmtime t =
     (if t < 67768036191676800 then
        (let (y, d) = year_of 1970 (t div 86400); (m, d) = month_of (month_lens y) 0 d; s = t mod 86400
         in Some \<lparr>tm_year = y - 1900, tm_mon = m, tm_mday = d + 1, tm_hour = s div 3600, tm_min = s mod 3600 div 60, tm_sec = s mod 60\<rparr>)
      else None)"

definition put_pad0 :: "buffer \<Rightarrow> nat \<Rightarrow> nat \<Rightarrow> nat \<Rightarrow> buffer option" where
  "put_pad0 b i n k = do { (r, _) \<leftarrow> nfmt_uint32_pad0_raw (Some b) i (word_of_nat n) k; r }"

definition stamp8601_make :: "buffer \<Rightarrow> nat \<Rightarrow> tlog \<Rightarrow> (buffer \<times> tlog) option" where
  "stamp8601_make b s w =
     (let t = tain_now (clk w (nclk w)); w = w\<lparr>nclk := nclk w + 1\<rparr> in do {
        tm_now \<leftarrow> gmtime (unat (tain_to_utc t));
        b \<leftarrow> put_pad0 b s (1900 + tm_year tm_now) 4;
        b \<leftarrow> put_pad0 b (s + 4) (1 + tm_mon tm_now) 2;
        b \<leftarrow> put_pad0 b (s + 6) (tm_mday tm_now) 2;
        b \<leftarrow> wr b (s + 8) (of_char CHR ''T'');
        b \<leftarrow> put_pad0 b (s + 9) (tm_hour tm_now) 2;
        b \<leftarrow> put_pad0 b (s + 11) (tm_min tm_now) 2;
        b \<leftarrow> put_pad0 b (s + 13) (tm_sec tm_now) 2;
        b \<leftarrow> wr b (s + 15) (of_char CHR ''.'');
        b \<leftarrow> put_pad0 b (s + 16) (unat (nsec t div 1000)) 6;
        Some (b, w) })"

section \<open>Archives\<close>

text \<open>One scan of \<open>tinylog_prune\<close> over the names \<open>readdir()\<close> gives.  \<open>n\<close> holds the result of the comparison with 23, so that the test against the size of
  \<open>target\<close> is always true.\<close>

fun prune_scan :: "u8 list list \<Rightarrow> tlog \<Rightarrow> int \<Rightarrow> buffer \<Rightarrow> ((int + int \<times> buffer) \<times> tlog) option" where
  "prune_scan names w cnt target =
     (case tick w of
        (Fail e, w) \<Rightarrow> Some (Inl e, w)
      | (_, w) \<Rightarrow>
          (case names of
             [] \<Rightarrow> Some (Inr (cnt, target), w)
           | d # names \<Rightarrow> do {
               let d_name = d @ [0];
               c0 \<leftarrow> rd d_name 0;
               len \<leftarrow> cstr_len d_name 0;
               let n = (if len \<ge> 23 then 1 else 0);
               if c0 = of_char CHR ''_'' \<and> n \<noteq> (0 :: nat) \<and> rd d_name 9 = Some (of_char CHR ''T'') \<and> n < length target then do {
                 x \<leftarrow> cstr_cmp d_name 0 target 0;
                 if x < 0 then do { (target, _) \<leftarrow> cstr_copy target 0 d_name 0; prune_scan names w (cnt + 1) target }
                 else prune_scan names w (cnt + 1) target }
               else prune_scan names w cnt target }))"

declare prune_scan.simps [simp del]

text \<open>\<open>tinylog_prune\<close>: \<open>False\<close> for \<open>-1\<close>.  A second round of its loop would read the directory after \<open>closedir()\<close>, which is undefined.\<close>

definition tinylog_prune :: "tlog \<Rightarrow> (bool \<times> tlog) option" where
  "tinylog_prune w =
     (let keep = sint (word_of_nat (keep_max w) :: u32)
      in case syscall (\<lambda>f. (Inr (map fst (dirents f)), f)) w of
           (Inl e, w) \<Rightarrow> Some (False, w)
         | (Inr names, w) \<Rightarrow> do {
             (r, w) \<leftarrow> prune_scan names w 0 (bytes ''_z'' @ replicate 78 0);
             let w = pause w;
             case r of
               Inl e \<Rightarrow> Some (False, w)
             | Inr (cnt, target) \<Rightarrow>
                 if cnt \<le> keep then Some (True, w)
                 else
                   (case syscall (fs_unlink (cstr_of target)) w of
                      (Inl e, w) \<Rightarrow> Some (False, w)
                    | (Inr _, w) \<Rightarrow> if cnt - 1 > keep then None else Some (True, w)) })"

partial_function (option) prune_loop :: "tlog \<Rightarrow> tlog option" where
  [code]: "prune_loop w = do { (ok, w) \<leftarrow> tinylog_prune w; if ok then Some w else prune_loop (pause w) }"

text \<open>\<open>tinylog_gzip\<close>: the child opens the file and \<open>zipped\<close> and runs gzip; when it cannot open one, it goes on as a second logger, which is outside the model.\<close>

definition tinylog_gzip :: "tlog \<Rightarrow> u8 list \<Rightarrow> (bool outcome \<times> tlog) option" where
  "tinylog_gzip w file =
     andthen (RETRY (syscall (\<lambda>f. (Inr (), f))) w) (\<lambda>_ w.
       case syscall (fs_read file) w of
         (Inl e, w) \<Rightarrow> None
       | (Inr data, w) \<Rightarrow>
           (case os_gzip w data of (status, zipped) \<Rightarrow>
              (case syscall (fs_create (bytes ''zipped'') zipped) w of
                 (Inl e, w) \<Rightarrow> None
               | (Inr _, w) \<Rightarrow>
                   andthen (RETRY (syscall (\<lambda>f. (Inr (), f))) w) (\<lambda>_ w.
                     if (WIFEXITED status \<and> WEXITSTATUS status \<noteq> 0) \<or> WIFSIGNALED status
                     then Some (Ok False, snd (syscall (fs_unlink (bytes ''zipped'')) w))
                     else do {
                       (b, _) \<leftarrow> cstr_vcat (replicate 80 0) 0 [(file @ [0], 0), (ZIP_EXT @ [0], 0)];
                       let gzipfile = cstr_of b;
                       case syscall (fs_rename (bytes ''zipped'') gzipfile) w of
                         (Inl e, w) \<Rightarrow> Some (Ok False, snd (syscall (fs_unlink (bytes ''zipped'')) w))
                       | (Inr _, w) \<Rightarrow>
                           (case syscall (fs_chmod gzipfile 420) w of
                              (Inl e, w) \<Rightarrow> Some (Ok False, snd (syscall (fs_unlink gzipfile) w))
                            | (Inr _, w) \<Rightarrow> andthen (RETRY (syscall (fs_unlink file)) w) (\<lambda>_ w. Some (Ok True, w))) }))))"

text \<open>The first two loops of \<open>tinylog_keep\<close>; the pauses of the second differ in length only.\<close>

partial_function (option) keep_stat :: "u8 list \<Rightarrow> tlog \<Rightarrow> (fstat option \<times> tlog) option" where
  [code]: "keep_stat log w =
     (case syscall (fs_stat log) w of
        (Inr sb, w) \<Rightarrow> Some (Some sb, w)
      | (Inl e, w) \<Rightarrow> if e = ENOENT then Some (None, w) else keep_stat log (pause w))"

partial_function (option) keep_link :: "u8 list \<Rightarrow> tlog \<Rightarrow> tlog option" where
  [code]: "keep_link log w = do {
     (b, w) \<leftarrow> stamp8601_make (fn8601 w) 1 w;
     let w = w\<lparr>fn8601 := b\<rparr>;
     case syscall (fs_link log (cstr_of b)) w of
       (Inr _, w) \<Rightarrow> Some w
     | (Inl e, w) \<Rightarrow> keep_link log (pause w) }"

definition tinylog_keep :: "tlog \<Rightarrow> u8 list \<Rightarrow> u8 \<Rightarrow> (unit outcome \<times> tlog) option" where
  "tinylog_keep w log ext = do {
     (sb, w) \<leftarrow> keep_stat log w;
     case sb of
       None \<Rightarrow> Some (Ok (), w)
     | Some sb \<Rightarrow> do {
         w \<leftarrow> (if f_nlink sb = 1 then do {
                b \<leftarrow> wr (fn8601 w) 0 (of_char CHR ''_'');
                b \<leftarrow> wr b 23 (of_char CHR ''.'');
                b \<leftarrow> wr b 24 ext;
                b \<leftarrow> wr b 25 0;
                keep_link log (w\<lparr>fn8601 := b\<rparr>) }
              else Some w);
         andthen (RETRY (syscall (fs_unlink log)) w) (\<lambda>_ w.
           andthen (if wantzip w then tinylog_gzip w (cstr_of (fn8601 w)) else Some (Ok True, w)) (\<lambda>_ w. do {
             w \<leftarrow> prune_loop w;
             Some (Ok (), w) })) } }"

section \<open>The current log\<close>

text \<open>The end of \<open>init_current\<close>, with the size of a log that is resumed.\<close>

definition open_current :: "tlog \<Rightarrow> nat \<Rightarrow> (unit outcome \<times> tlog) option" where
  "open_current w n =
     (case syscall (fs_open (bytes ''current'')) w of
        (Inl e, w) \<Rightarrow> Some (Exit 111, w)
      | (Inr fd, w) \<Rightarrow>
          (case syscall (fs_fchmod fd 420) w of
             (Inl e, w) \<Rightarrow> Some (Exit 111, w)
           | (Inr _, w) \<Rightarrow> Some (Ok (), (pause w)\<lparr>fd_current := fd, current_size := n\<rparr>)))"

definition init_current :: "tlog \<Rightarrow> bool \<Rightarrow> (unit outcome \<times> tlog) option" where
  "init_current w resume =
     (case syscall (fs_stat (bytes ''current'')) w of
        (Inl e, w) \<Rightarrow> if e \<noteq> ENOENT then Some (Exit 111, w) else open_current w 0
      | (Inr sb, w) \<Rightarrow>
          if \<not> S_IXUSR (f_mode sb) then andthen (tinylog_keep w (bytes ''current'') (of_char CHR ''u'')) (\<lambda>_ w. open_current w 0)
          else if \<not> resume then andthen (tinylog_keep w (bytes ''current'') (of_char CHR ''s'')) (\<lambda>_ w. open_current w 0)
          else open_current w (f_size sb))"

definition tinylog_rotate :: "tlog \<Rightarrow> (unit outcome \<times> tlog) option" where
  "tinylog_rotate w =
     (if \<not> current_size w > 0 then Some (Ok (), w\<lparr>flagrotate := 0\<rparr>)
      else
        (let w = pause (pause w)
         in andthen (RETRY (syscall (fs_rename (bytes ''current'') (bytes ''previous''))) w) (\<lambda>_ w.
              andthen (tinylog_keep w (bytes ''previous'') (of_char CHR ''s'')) (\<lambda>_ w.
                andthen (RETRY (syscall (fs_open (bytes ''current''))) w) (\<lambda>fd w.
                  andthen (RETRY (syscall (fs_fchmod fd 420)) w) (\<lambda>_ w.
                    Some (Ok (), (pause w)\<lparr>fd_current := fd, current_size := 0, flagrotate := 0\<rparr>)))))))"

definition tinylog_post :: "tlog \<Rightarrow> buffer \<Rightarrow> nat \<Rightarrow> (unit outcome \<times> tlog) option" where
  "tinylog_post w logline len =
     (if len > length logline then None
      else
        andthen (if flagrotate w > 0 \<or> current_size w \<ge> size_sub (current_max w) len then tinylog_rotate w else Some (Ok (), w)) (\<lambda>_ w. do {
          w \<leftarrow> tl_write_all w (take len logline);
          Some (Ok (), w\<lparr>current_size := size_add (current_size w) len\<rparr>) }))"

section \<open>The loop over the input\<close>

text \<open>The inner loop of \<open>do_log\<close>: characters up to the end of a line; \<open>c\<close> is the variable of the source.\<close>

partial_function (option) get_line :: "tlog \<Rightarrow> ioq \<Rightarrow> u8 \<Rightarrow> buffer \<Rightarrow> nat \<Rightarrow> ((int + nat) \<times> u8 \<times> buffer \<times> nat \<times> ioq \<times> tlog) option" where
  [code]: "get_line w q c logline len = do {
     (r, c, q, w) \<leftarrow> ioq_GETC read_op w q c;
     if r \<noteq> Inr 1 \<or> c = 10 then Some (r, c, logline, len, q, w)
     else if len < LOGLINE_MAX then do {
       let c = (if sint c < 32 \<and> c \<noteq> 9 then of_char CHR ''?'' else c);
       logline \<leftarrow> wr logline len c;
       get_line w q c logline (len + 1) }
     else get_line w q c logline len }"

definition finish_line :: "tlog \<Rightarrow> buffer \<Rightarrow> nat \<Rightarrow> (buffer \<times> tlog) option" where
  "finish_line w logline len = do {
     (logline, w) \<leftarrow>
       (if wantstamp w then do {
          (logline, w) \<leftarrow> stamp8601_make logline 0 w;
          logline \<leftarrow> wr logline 22 (of_char CHR '':'');
          logline \<leftarrow> wr logline 23 32;
          Some (logline, w) }
        else Some (logline, w));
     logline \<leftarrow> wr logline len 10;
     Some (logline, w) }"

partial_function (option) log_loop :: "tlog \<Rightarrow> ioq \<Rightarrow> u8 \<Rightarrow> buffer \<Rightarrow> (int outcome \<times> ioq \<times> tlog) option" where
  [code]: "log_loop w q c logline =
     (let startpos = (if wantstamp w then 24 else 0) in do {
        (r, c, logline, len, q, w) \<leftarrow> get_line w q c logline startpos;
        case r of
          Inl e \<Rightarrow> Some (Ok (-1), q, w)
        | Inr k \<Rightarrow>
            if len > startpos then do {
              (logline, w) \<leftarrow> finish_line w logline len;
              (x, w) \<leftarrow> tinylog_post w logline (len + 1);
              case x of
                Exit e \<Rightarrow> Some (Exit e, q, w)
              | Ok _ \<Rightarrow> if k = 0 then Some (Ok 0, q, w) else log_loop w q c logline }
            else if k = 0 then Some (Ok 0, q, w)
            else log_loop w q c logline })"

text \<open>\<open>do_log\<close>; \<open>c\<close> and \<open>logline\<close> are what the variables hold on entry.\<close>

definition do_log :: "tlog \<Rightarrow> ioq \<Rightarrow> u8 \<Rightarrow> buffer \<Rightarrow> (int outcome \<times> ioq \<times> tlog) option" where
  "do_log w q c logline = do {
     (x, q, w) \<leftarrow> log_loop w q c logline;
     if x = Ok 0 then Some (x, q, pause (snd (syscall (fs_fchmod (fd_current w) 484) w)))
     else Some (x, q, w) }"

section \<open>The program\<close>

record tlopts =
  o_keep :: nat
  o_max :: nat
  o_resume :: bool
  o_stamp :: bool
  o_zip :: bool

text \<open>\<open>nuscan_uint32(&n, nopt.opt_arg)\<close>, or \<open>None\<close> when the argument does not end there.\<close>

definition num_arg :: "u8 list option \<Rightarrow> nat option" where
  "num_arg a =
     (case a of
        None \<Rightarrow> None
      | Some a \<Rightarrow>
          (case nuscan_uint32 (a @ [0]) 0 of
             None \<Rightarrow> None
           | Some (n, z) \<Rightarrow> if rd (a @ [0]) z = Some 0 then Some (unat n) else None))"

definition tinylog_option :: "u8 \<Rightarrow> u8 list option \<Rightarrow> tlopts \<Rightarrow> int + tlopts" where
  "tinylog_option opt arg os =
     (if opt = of_char CHR ''h'' then Inl 0
      else if opt = of_char CHR ''V'' then Inl 0
      else if opt = of_char CHR ''k'' then
        (case num_arg arg of None \<Rightarrow> Inl 100 | Some n \<Rightarrow> Inr (os\<lparr>o_keep := n\<rparr>))
      else if opt = of_char CHR ''r'' then Inr (os\<lparr>o_resume := False\<rparr>)
      else if opt = of_char CHR ''s'' then
        (case num_arg arg of
           None \<Rightarrow> Inl 100
         | Some n \<Rightarrow> Inr (os\<lparr>o_max := (if n < LOGLINE_MAX * 2 then LOGLINE_MAX * 2 else n)\<rparr>))
      else if opt = of_char CHR ''t'' then Inr (os\<lparr>o_stamp := True\<rparr>)
      else if opt = of_char CHR ''z'' then Inr (os\<lparr>o_zip := True\<rparr>)
      else Inl 100)"

text \<open>Calls that only fail or not, and whether a failure is fatal.\<close>

definition startup_calls :: "bool list \<Rightarrow> tlog \<Rightarrow> (unit outcome \<times> tlog) option" where
  "startup_calls fatal w =
     fold (\<lambda>must m. andthen m (\<lambda>_ w.
       case syscall (\<lambda>f. (Inr (), f)) w of
         (Inl e, w) \<Rightarrow> Some (if must then Exit 111 else Ok (), w)
       | (Inr _, w) \<Rightarrow> Some (Ok (), w))) fatal (Some (Ok (), w))"

text \<open>\<open>init_logdir\<close>: \<open>mkdir()\<close>, \<open>chdir()\<close>, \<open>open()\<close> and the pid lock, whose result is taken as that of one call.\<close>

definition init_logdir :: "tlog \<Rightarrow> (unit outcome \<times> tlog) option" where
  "init_logdir w = startup_calls [False, True, True, False, True, False] w"

text \<open>\<open>main()\<close> on the state the process starts in, and the contents of the stack; signals
  that arrive before the handlers are installed are left out.  The result is the exit code.\<close>

definition tinylog_main :: "u8 list list \<Rightarrow> u8 \<Rightarrow> buffer \<Rightarrow> tlog \<Rightarrow> (int \<times> tlog) option" where
  "tinylog_main args c logline w = do {
     r \<leftarrow> main_options tinylog_option (bytes '':hVk:rs:tz'') args
            \<lparr>o_keep = 5, o_max = CURRENT_MAX, o_resume = True, o_stamp = False, o_zip = False\<rparr>;
     case r of
       Inl e \<Rightarrow> Some (e, w)
     | Inr (os, argv) \<Rightarrow>
         if argv = [] then Some (100, w)
         else do {
           (x, w) \<leftarrow> andthen (startup_calls [True, True, False]
               (w\<lparr>blocked := True, keep_max := o_keep os, current_max := o_max os, wantstamp := o_stamp os, wantzip := o_zip os\<rparr>))
             (\<lambda>_ w. andthen (init_logdir w) (\<lambda>_ w. init_current w (o_resume os)));
           case x of
             Exit e \<Rightarrow> Some (e, w)
           | Ok _ \<Rightarrow> do {
               (y, q, w) \<leftarrow> do_log (sigset_unblock w) (ioq_init (replicate INBUF_SIZE 0) INBUF_SIZE) c logline;
               Some (case y of Exit e \<Rightarrow> (e, w) | Ok err \<Rightarrow> (if err \<noteq> 0 then 111 else 0, w)) } } }"

end
