(* ===== verification/Tinylog_Rotate.thy ===== *)
theory Tinylog_Rotate
  imports Tinylog
begin

text \<open>
  The log directory of tinylog: time stamps, retried calls, writing, archives, rotation and posting a line.  The invariant \<open>tl_ok\<close> holds of the directory while tinylog
  runs; rotation moves the current log to a new archive whole and removes at most the oldest archive.
\<close>

section \<open>Time stamps\<close>

definition pad0 :: "nat \<Rightarrow> nat \<Rightarrow> u8 list" where
  "pad0 k n = replicate (k - length (digits 10 n)) 48 @ digit_text (digits 10 n)"

lemma length_digits: "0 < k \<Longrightarrow> n < 10 ^ k \<Longrightarrow> length (digits 10 n) \<le> k"
proof (induction k arbitrary: n)
  case (Suc k)
  show ?case
  proof (cases "n < 10")
    case True
    then show ?thesis by (subst digits.simps) simp
  next
    case False
    then have k: "0 < k" using Suc.prems by (cases k) auto
    have "n div 10 < 10 ^ k" using Suc.prems(2) by (simp add: less_mult_imp_div_less mult.commute)
    from Suc.IH [OF k this] show ?thesis using False by (subst digits.simps) simp
  qed
qed simp

lemma length_pad0: "0 < k \<Longrightarrow> n < 10 ^ k \<Longrightarrow> length (pad0 k n) = k"
  using length_digits by (simp add: pad0_def)

lemma pad0_no_nul: "0 \<notin> set (pad0 k n)"
  using digit_text_not_nul [of "digits 10 n"] digits_small [of 10 _ n] by (auto simp: pad0_def)

lemma nfmt_fill_spec:
  "len \<le> w \<Longrightarrow> i + (w - len) \<le> length s \<Longrightarrow>
   nfmt_fill c s i len w = Some (take i s @ replicate (w - len) c @ drop (i + (w - len)) s, i + (w - len), w)"
proof (induction "w - len" arbitrary: s i len)
  case 0
  then show ?case by (subst nfmt_fill.simps) simp
next
  case (Suc m)
  then have lt: "len < w" "i < length s" "w - (len + 1) = m" by auto
  have "nfmt_fill c (s[i := c]) (i + 1) (len + 1) w =
      Some (take (i + 1) (s[i := c]) @ replicate m c @ drop (i + 1 + m) (s[i := c]), i + 1 + m, w)"
  proof -
    have "m = w - (len + 1)" "len + 1 \<le> w" "i + 1 + (w - (len + 1)) \<le> length (s[i := c])" using Suc.prems lt by auto
    from Suc.hyps(1) [OF this] show ?thesis by (simp only: lt(3))
  qed
  moreover have "take (i + 1) (s[i := c]) = take i s @ [c]" using lt by (simp add: take_Suc_conv_app_nth)
  moreover have "w = len + Suc m" using Suc.hyps(2) lt by simp
  ultimately show ?case using lt by (subst nfmt_fill.simps) simp
qed

lemma put_pad0_spec:
  assumes "0 < k" and "n < 10 ^ k" and "n < 2 ^ 32" and "i + k \<le> length b"
  shows "put_pad0 b i n k = Some (take i b @ pad0 k n @ drop (i + k) b)"
proof -
  let ?ds = "digits 10 n" and ?u = "word_of_nat n :: u32"
  have u: "unat ?u = n" using assms(3) by (simp add: unat_of_nat take_bit_nat_eq_self_iff)
  have l: "length ?ds \<le> k" "0 < length ?ds" using length_digits [OF assms(1,2)] by auto
  have len: "nfmt_len 10 ?u (Suc 0) = length ?ds"
  proof -
    have "nfmt_len 10 ?u 1 = 1 + length (digits (unat (10 :: u32)) (unat ?u)) - 1" by (rule nfmt_len_digits) simp
    then have "nfmt_len 10 ?u 1 = 1 + length (digits (unat (10 :: u32)) n) - 1" unfolding u .
    then show ?thesis by simp
  qed
  have r0: "nfmt_uint32_raw None 0 ?u = Some (None, length ?ds)" by (simp add: nfmt_uint32_raw_def nfmt_raw_def len)
  let ?m = "k - length ?ds"
  define s where "s = take i b @ replicate ?m 48 @ drop (i + ?m) b"
  have f: "nfmt_fill 48 b i (length ?ds) k = Some (s, i + ?m, k)"
    using nfmt_fill_spec [of "length ?ds" k i b 48] l assms(4) by (simp add: s_def)
  have ls: "length s = length b" "i + k \<le> length s" using assms(4) l by (auto simp: s_def)
  have "nfmt_put 10 s (i + ?m + length ?ds) ?u = Some (take (i + ?m) s @ digit_text ?ds @ drop (i + k) s)"
    using nfmt_put_digits [of "10 :: u32" "i + ?m + length ?ds" s ?u] l ls u by (simp add: Let_def)
  moreover have "take (i + ?m) s = take i b @ replicate ?m 48" "drop (i + k) s = drop (i + k) b"
    using assms(4) l by (auto simp: s_def)
  ultimately have "nfmt_uint32_raw (Some s) (i + ?m) ?u = Some (Some (take i b @ replicate ?m 48 @ digit_text ?ds @ drop (i + k) b), length ?ds)"
    by (simp add: nfmt_uint32_raw_def nfmt_raw_def len Let_def)
  then show ?thesis using r0 f by (simp add: put_pad0_def nfmt_uint32_pad0_raw_def nfmt_pad_raw_def pad0_def)
qed

lemma year_of_bound: "year_of y days = (y', d) \<Longrightarrow> y \<le> y' \<and> (y' - y) * 365 \<le> days \<and> d < year_len y'"
proof (induction y days rule: year_of.induct)
  case (1 y days)
  show ?case
  proof (cases "days < year_len y")
    case True
    then show ?thesis using "1.prems" by (subst (asm) year_of.simps) simp
  next
    case False
    then have "year_of (y + 1) (days - year_len y) = (y', d)" using "1.prems" by (subst (asm) year_of.simps) simp
    from "1.IH" [OF False this] have "y + 1 \<le> y'" "(y' - (y + 1)) * 365 \<le> days - year_len y" "d < year_len y'" by auto
    moreover have "365 \<le> year_len y" by (simp add: year_len_def)
    ultimately show ?thesis using False by auto
  qed
qed

lemma month_of_sum:
  "month_of ls m d = (m', d') \<Longrightarrow> d < sum_list ls + 31 \<Longrightarrow> \<forall>l\<in>set ls. l \<le> 31 \<Longrightarrow> m' \<le> m + length ls \<and> d' < 31"
proof (induction ls arbitrary: m d)
  case (Cons l ls)
  show ?case
  proof (cases "d < l")
    case False
    then show ?thesis using Cons.IH [of "m + 1" "d - l"] Cons.prems by auto
  qed (use Cons.prems in auto)
qed simp

lemma month_of_bound:
  assumes "d < year_len y" and "month_of (month_lens y) 0 d = (m, d')"
  shows "m < 12 \<and> d' < 31"
proof -
  have "d < sum_list (month_lens y) + 31" using assms(1) by (auto simp: month_lens_def year_len_def split: if_splits)
  moreover have "\<forall>l\<in>set (month_lens y). l \<le> 31" "length (month_lens y) = 11" by (simp_all add: month_lens_def)
  ultimately show ?thesis using month_of_sum [OF assms(2)] by auto
qed

text \<open>A reading of the clock before the year 6328, and its time stamp.\<close>

definition time_ok :: "timeval \<Rightarrow> bool" where "time_ok tv \<longleftrightarrow> fst tv < 2 ^ 37 \<and> snd tv < 1000000"

definition stamp_of :: "timeval \<Rightarrow> u8 list" where
  "stamp_of tv =
     (case gmtime (unat (fst tv)) of
        None \<Rightarrow> []
      | Some m \<Rightarrow>
          pad0 4 (1900 + tm_year m) @ pad0 2 (1 + tm_mon m) @ pad0 2 (tm_mday m) @ [of_char CHR ''T''] @
          pad0 2 (tm_hour m) @ pad0 2 (tm_min m) @ pad0 2 (tm_sec m) @ [of_char CHR ''.''] @ pad0 6 (unat (snd tv)))"

lemma gmtime_ok:
  assumes "t < 2 ^ 37"
  shows "\<exists>m. gmtime t = Some m \<and> 1900 + tm_year m < 10000 \<and> tm_mon m < 12 \<and> tm_mday m \<le> 31 \<and> tm_hour m < 24 \<and> tm_min m < 60 \<and> tm_sec m < 60"
proof -
  obtain y d where y: "year_of 1970 (t div 86400) = (y, d)" by fastforce
  obtain m d' where m: "month_of (month_lens y) 0 d = (m, d')" by fastforce
  note yb = year_of_bound [OF y] and mb = month_of_bound [OF _ m]
  have "t div 86400 < 1590730" using assms by auto
  then have "y < 6329" "1970 \<le> y" using yb by auto
  then show ?thesis using y m yb mb assms by (auto simp: gmtime_def Let_def)
qed

lemma tain_now_utc: "tain_to_utc (tain_now tv) = fst tv"
  by (simp add: tain_to_utc_def tain_now_def tain_load_utc_def Let_def)

lemma tain_now_usec:
  assumes "snd tv < 1000000"
  shows "unat (nsec (tain_now tv) div 1000) = unat (snd tv)"
proof -
  have u: "unat (snd tv) < 1000000" using assms by (simp add: word_less_nat_alt)
  have "unat (1000 * snd tv + 500) = 1000 * unat (snd tv) + 500"
    using u by (simp add: unat_word_ariths take_bit_nat_eq_self_iff unat_of_nat)
  then have "unat (nsec (tain_now tv)) = 1000 * unat (snd tv) + 500"
    using u by (simp add: tain_now_def Let_def unsigned_ucast_eq take_bit_nat_eq_self_iff)
  then show ?thesis by (simp add: unat_div)
qed

lemma length_stamp_of:
  assumes "time_ok tv"
  shows "length (stamp_of tv) = 22" "stamp_of tv ! 8 = of_char CHR ''T''" "0 \<notin> set (stamp_of tv)"
proof -
  have "unat (fst tv) < 2 ^ 37" using assms by (simp add: time_ok_def word_less_nat_alt)
  from gmtime_ok [OF this] obtain m where g: "gmtime (unat (fst tv)) = Some m" and
    m: "1900 + tm_year m < 10 ^ 4" "1 + tm_mon m < 10 ^ 2" "tm_mday m < 10 ^ 2" "tm_hour m < 10 ^ 2" "tm_min m < 10 ^ 2" "tm_sec m < 10 ^ 2"
    by auto
  have u: "unat (snd tv) < 10 ^ 6" using assms by (simp add: time_ok_def word_less_nat_alt)
  note l = length_pad0 [OF _ m(1)] length_pad0 [OF _ m(2)] length_pad0 [OF _ m(3)] length_pad0 [OF _ m(4)] length_pad0 [OF _ m(5)]
    length_pad0 [OF _ m(6)] length_pad0 [OF _ u]
  show "length (stamp_of tv) = 22" using l by (simp add: stamp_of_def g)
  show "stamp_of tv ! 8 = of_char CHR ''T''" using l by (simp add: stamp_of_def g nth_append)
  show "0 \<notin> set (stamp_of tv)" by (simp add: stamp_of_def g pad0_no_nul)
qed

lemma stamp8601_make_spec:
  assumes "time_ok (clk w (nclk w))" and "s + 22 \<le> length b"
  shows "stamp8601_make b s w = Some (take s b @ stamp_of (clk w (nclk w)) @ drop (s + 22) b, w\<lparr>nclk := nclk w + 1\<rparr>)"
proof -
  let ?tv = "clk w (nclk w)"
  have "unat (fst ?tv) < 2 ^ 37" using assms(1) by (simp add: time_ok_def word_less_nat_alt)
  from gmtime_ok [OF this] obtain m where g: "gmtime (unat (fst ?tv)) = Some m" and
    m: "1900 + tm_year m < 10 ^ 4" "1 + tm_mon m < 10 ^ 2" "tm_mday m < 10 ^ 2" "tm_hour m < 10 ^ 2" "tm_min m < 10 ^ 2" "tm_sec m < 10 ^ 2"
    by auto
  have u: "unat (snd ?tv) < 10 ^ 6" using assms(1) by (simp add: time_ok_def word_less_nat_alt)
  have us: "unat (nsec (tain_now ?tv) div 1000) = unat (snd ?tv)"
    using assms(1) by (intro tain_now_usec) (simp add: time_ok_def)
  define x1 x2 x3 x4 x5 x6 x7 where x: "x1 = pad0 4 (1900 + tm_year m)" "x2 = pad0 2 (1 + tm_mon m)" "x3 = pad0 2 (tm_mday m)"
    "x4 = pad0 2 (tm_hour m)" "x5 = pad0 2 (tm_min m)" "x6 = pad0 2 (tm_sec m)" "x7 = pad0 6 (unat (snd ?tv))"
  have l: "length x1 = 4" "length x2 = 2" "length x3 = 2" "length x4 = 2" "length x5 = 2" "length x6 = 2" "length x7 = 6"
    using length_pad0 m u by (auto simp: x)
  have p: "put_pad0 c i n k = Some (take i c @ pad0 k n @ drop (i + k) c)" if "0 < k" "n < 10 ^ k" "k \<le> 6" "i + k \<le> length c" for c i n k
  proof -
    have "(10 :: nat) ^ k \<le> 10 ^ 6" using that(3) by (intro power_increasing) auto
    then have "n < 2 ^ 32" using that(2) by simp
    then show ?thesis using that by (intro put_pad0_spec) auto
  qed
  let ?F = "\<lambda>d. take s b @ d @ drop (s + length d) b"
  have pad: "put_pad0 (?F d) (s + j) n k = Some (?F (d @ pad0 k n))" if "length d = j" "0 < k" "n < 10 ^ k" "k \<le> 6" "j + k \<le> 22" for d j n k
    using p [of k n "s + j" "?F d"] that assms(2) length_pad0 [OF that(2,3)] by (simp add: ac_simps)
  have chr: "wr (?F d) (s + j) c = Some (?F (d @ [c]))" if "length d = j" "j < 22" for d j and c :: u8
    using that assms(2) by (simp add: list_update_append Cons_nth_drop_Suc [symmetric] wr_def)
  let ?T = "of_char CHR ''T'' :: u8" and ?D = "of_char CHR ''.'' :: u8"
  have "put_pad0 b s (1900 + tm_year m) 4 = Some (?F x1)" using pad [of "[]" 0 4 "1900 + tm_year m"] m by (simp add: x)
  moreover have "put_pad0 (?F x1) (s + 4) (1 + tm_mon m) 2 = Some (?F (x1 @ x2))" using pad [of x1 4 2] l m by (simp add: x(2))
  moreover have "put_pad0 (?F (x1 @ x2)) (s + 6) (tm_mday m) 2 = Some (?F (x1 @ x2 @ x3))" using pad [of "x1 @ x2" 6 2] l m by (simp add: x(3))
  moreover have "wr (?F (x1 @ x2 @ x3)) (s + 8) ?T = Some (?F (x1 @ x2 @ x3 @ [?T]))" using chr [of "x1 @ x2 @ x3" 8] l by simp
  moreover have "put_pad0 (?F (x1 @ x2 @ x3 @ [?T])) (s + 9) (tm_hour m) 2 = Some (?F (x1 @ x2 @ x3 @ [?T] @ x4))"
    using pad [of "x1 @ x2 @ x3 @ [?T]" 9 2] l m by (simp add: x(4))
  moreover have "put_pad0 (?F (x1 @ x2 @ x3 @ [?T] @ x4)) (s + 11) (tm_min m) 2 = Some (?F (x1 @ x2 @ x3 @ [?T] @ x4 @ x5))"
    using pad [of "x1 @ x2 @ x3 @ [?T] @ x4" 11 2] l m by (simp add: x(5))
  moreover have "put_pad0 (?F (x1 @ x2 @ x3 @ [?T] @ x4 @ x5)) (s + 13) (tm_sec m) 2 = Some (?F (x1 @ x2 @ x3 @ [?T] @ x4 @ x5 @ x6))"
    using pad [of "x1 @ x2 @ x3 @ [?T] @ x4 @ x5" 13 2] l m by (simp add: x(6))
  moreover have "wr (?F (x1 @ x2 @ x3 @ [?T] @ x4 @ x5 @ x6)) (s + 15) ?D = Some (?F (x1 @ x2 @ x3 @ [?T] @ x4 @ x5 @ x6 @ [?D]))"
    using chr [of "x1 @ x2 @ x3 @ [?T] @ x4 @ x5 @ x6" 15] l by simp
  moreover have "put_pad0 (?F (x1 @ x2 @ x3 @ [?T] @ x4 @ x5 @ x6 @ [?D])) (s + 16) (unat (snd ?tv)) 6 =
      Some (?F (x1 @ x2 @ x3 @ [?T] @ x4 @ x5 @ x6 @ [?D] @ x7))"
    using pad [of "x1 @ x2 @ x3 @ [?T] @ x4 @ x5 @ x6 @ [?D]" 16 6] l u by (simp add: x(7))
  moreover have "stamp_of ?tv = x1 @ x2 @ x3 @ [?T] @ x4 @ x5 @ x6 @ [?D] @ x7" by (simp add: stamp_of_def g x)
  ultimately show ?thesis
    unfolding stamp8601_make_def Let_def tain_now_utc g us Option.bind.bind_lunit by (simp only: Option.bind.bind_lunit) (simp add: l)
qed

section \<open>Calls that are repeated\<close>

text \<open>\<open>calm w w'\<close>: apart from faults and flags, only the directory may differ; \<open>keeps\<close> allows also the clock and the file name to differ.\<close>

definition keeps :: "tlog \<Rightarrow> tlog \<Rightarrow> bool" where
  "keeps w w' \<longleftrightarrow> stdin w' = stdin w \<and> clk w' = clk w \<and> logged w' = logged w \<and> fd_current w' = fd_current w \<and> current_size w' = current_size w \<and>
     current_max w' = current_max w \<and> keep_max w' = keep_max w \<and> wantstamp w' = wantstamp w \<and> wantzip w' = wantzip w \<and>
     length (faults w') \<le> length (faults w) \<and> set (faults w') \<subseteq> set (faults w) \<and> flagexit w \<le> flagexit w'"

definition calm :: "tlog \<Rightarrow> tlog \<Rightarrow> bool" where
  "calm w w' \<longleftrightarrow> keeps w w' \<and> fn8601 w' = fn8601 w \<and> nclk w' = nclk w"

lemma keeps_trans [trans]: "keeps u v \<Longrightarrow> keeps v w \<Longrightarrow> keeps u w"
  unfolding keeps_def by auto

lemma calm_trans [trans]: "calm u v \<Longrightarrow> calm v w \<Longrightarrow> calm u w"
  unfolding calm_def using keeps_trans by auto

lemma calm_keeps: "calm w w' \<Longrightarrow> keeps w w'"
  by (simp add: calm_def)

lemma calm_refl [simp]: "calm w w" "keeps w w"
  by (simp_all add: calm_def keeps_def)

lemma noise_calm: "noise w w' \<Longrightarrow> calm w w'"
  by (simp add: calm_def keeps_def noise_fields)

lemma calm_fs [simp]: "calm w (w'\<lparr>fs := f\<rparr>) \<longleftrightarrow> calm w w'"
  by (simp add: calm_def keeps_def)

definition honest :: "tlog \<Rightarrow> bool" where
  "honest w \<longleftrightarrow> (\<forall>sigs. (sigs, Fail ENOENT) \<notin> set (faults w))"

lemma honest_keeps: "honest w \<Longrightarrow> keeps w w' \<Longrightarrow> honest w'"
  by (auto simp: honest_def keeps_def)

lemma syscall_cases:
  obtains (fault) e w' where "syscall act w = (Inl e, w')" "noise w w'" "length (faults w') < length (faults w)"
      "\<exists>sigs. (sigs, Fail e) \<in> set (faults w)"
    | (act) v where "syscall act w = (fst (act (fs w)), v\<lparr>fs := snd (act (fs w))\<rparr>)" "noise w v"
proof (cases "tick w")
  case (Pair f v)
  note n = tick_noise [OF Pair]
  have fs: "fs v = fs w" using noise_fields(4) [OF n(1)] .
  show ?thesis
  proof (cases "\<exists>e. f = Fail e")
    case True
    then obtain e where "f = Fail e" by auto
    then show ?thesis using fault [of e v] n Pair by (simp add: syscall_def)
  next
    case False
    then have "syscall act w = (fst (act (fs v)), v\<lparr>fs := snd (act (fs v))\<rparr>)"
      using Pair by (simp add: syscall_def split: fault.splits prod.splits)
    then show ?thesis using act [of v] n(1) fs by simp
  qed
qed

lemma RETRY_spec:
  assumes "fst (act (fs w)) = Inr x"
  obtains (ok) w' where "RETRY (syscall act) w = Some (Ok x, w')" "calm w w'" "fs w' = snd (act (fs w))"
    | (exit) w' where "RETRY (syscall act) w = Some (Exit 111, w')" "calm w w'" "fs w' = fs w" "0 < flagexit w'"
proof -
  have "(\<exists>w'. RETRY (syscall act) w = Some (Ok x, w') \<and> calm w w' \<and> fs w' = snd (act (fs w))) \<or>
        (\<exists>w'. RETRY (syscall act) w = Some (Exit 111, w') \<and> calm w w' \<and> fs w' = fs w \<and> 0 < flagexit w')"
    using assms
  proof (induction "length (faults w)" arbitrary: w rule: less_induct)
    case less
    show ?case
    proof (cases rule: syscall_cases [of act w])
      case (fault e w')
      note c = noise_calm [OF fault(2)] and f = noise_fields [OF fault(2)]
      show ?thesis
      proof (cases "flagexit w' > 0")
        case True
        then have "RETRY (syscall act) w = Some (Exit 111, w')" using fault(1) by (subst RETRY.simps) simp
        then show ?thesis using True c f(4) by blast
      next
        case False
        note p = noise_fields [OF pause_noise [of w']]
        have c': "calm w (pause w')" using c noise_calm [OF pause_noise] calm_trans by blast
        have "length (faults (pause w')) < length (faults w)" "fs (pause w') = fs w" using fault(3) p f by auto
        moreover have "RETRY (syscall act) w = RETRY (syscall act) (pause w')" using fault(1) False by (subst RETRY.simps) simp
        ultimately show ?thesis using less.hyps [of "pause w'"] less.prems c' calm_trans by (metis (no_types, lifting))
      qed
    next
      case (act v)
      then have "RETRY (syscall act) w = Some (Ok x, v\<lparr>fs := snd (act (fs w))\<rparr>)"
        using less.prems by (subst RETRY.simps) simp
      then show ?thesis using noise_calm [OF act(2)] by auto
    qed
  qed
  then show ?thesis using ok exit by blast
qed

lemma tl_write_all_spec:
  "\<exists>v. tl_write_all w bs = Some (v\<lparr>fs := fs_append (fd_current w) bs (fs w), logged := logged w @ bs\<rparr>) \<and> noise w v"
proof (induction "length (faults w)" arbitrary: w bs rule: less_induct)
  case less
  show ?case
  proof (cases "bs = []")
    case True
    have "w = w\<lparr>fs := fs_append (fd_current w) [] (fs w), logged := logged w @ []\<rparr>" by (simp add: fs_append_def)
    then show ?thesis using True by (subst tl_write_all.simps) (metis noise_refl)
  next
    case False
    obtain f v where t: "tick w = (f, v)" by fastforce
    note n = tick_noise [OF t] and nf = noise_fields [OF tick_noise(1) [OF t]]
    show ?thesis
    proof (cases f)
      case Calm
      then have "sys_write w bs = (Inr (length bs), v\<lparr>fs := fs_append (fd_current w) bs (fs w), logged := logged w @ bs\<rparr>)"
        using t nf by (simp add: sys_write_def)
      then show ?thesis using False n(1) by (subst tl_write_all.simps, simp, subst tl_write_all.simps) auto
    next
      case (Fail e)
      let ?v = "if e \<noteq> EINTR then pause v else v"
      have nv: "noise w ?v" using n(1) pause_noise noise_trans by auto
      have "length (faults ?v) < length (faults w)" using n(2) Fail noise_fields(14) [OF pause_noise [of v]] by auto
      from less.hyps [OF this, of bs] obtain u where
        u: "tl_write_all ?v bs = Some (u\<lparr>fs := fs_append (fd_current ?v) bs (fs ?v), logged := logged ?v @ bs\<rparr>)" "noise ?v u" by blast
      have "tl_write_all w bs = tl_write_all ?v bs"
        using False Fail t by (subst tl_write_all.simps) (simp add: sys_write_def)
      then show ?thesis using u nv noise_trans noise_fields(4,5,6) [OF nv] by metis
    next
      case (Short k)
      define j where "j = min k (length bs)"
      let ?v = "v\<lparr>fs := fs_append (fd_current w) (take j bs) (fs w), logged := logged w @ take j bs\<rparr>"
      have "sys_write w bs = (Inr j, ?v)" using t nf Short by (simp add: sys_write_def j_def Let_def)
      then have step: "tl_write_all w bs = tl_write_all ?v (drop j bs)" using False by (subst tl_write_all.simps) simp
      have "length (faults ?v) < length (faults w)" using n(2) Short by simp
      from less.hyps [OF this, of "drop j bs"] obtain u where
        u: "tl_write_all ?v (drop j bs) = Some (u\<lparr>fs := fs_append (fd_current ?v) (drop j bs) (fs ?v), logged := logged ?v @ drop j bs\<rparr>)" "noise ?v u"
        by blast
      have ap: "fs_append (fd_current w) (drop j bs) (fs_append (fd_current w) (take j bs) (fs w)) = fs_append (fd_current w) bs (fs w)"
        by (simp add: fs_append_def)
      obtain l a b p where "u = ?v\<lparr>faults := drop l (faults ?v), flagexit := flagexit ?v + a, flagrotate := b, pending := p\<rparr>"
        using u(2) by (auto simp: noise_def)
      then have "u\<lparr>fs := x, logged := y\<rparr> = v\<lparr>faults := drop l (faults v), flagexit := flagexit v + a, flagrotate := b, pending := p\<rparr>\<lparr>fs := x, logged := y\<rparr>" for x y
        by simp
      moreover have "noise w (v\<lparr>faults := drop l (faults v), flagexit := flagexit v + a, flagrotate := b, pending := p\<rparr>)"
        using n(1) noise_trans unfolding noise_def by blast
      ultimately show ?thesis using u(1) step ap nf(6) by auto
    qed
  qed
qed

section \<open>Pruning\<close>

text \<open>\<open>smells\<close>: what the scan takes for an archive; \<open>older\<close>: the order of \<open>cstr_cmp\<close>; \<open>oldest\<close>: the least of some names and a first one.\<close>

definition smells :: "u8 list \<Rightarrow> bool" where
  "smells d \<longleftrightarrow> 23 \<le> length d \<and> d ! 0 = of_char CHR ''_'' \<and> d ! 9 = of_char CHR ''T''"

definition older :: "u8 list \<Rightarrow> u8 list \<Rightarrow> bool" where "older d t \<longleftrightarrow> (d, t) \<in> lexord {(x, y). x < y}"

definition oldest :: "u8 list \<Rightarrow> u8 list list \<Rightarrow> u8 list" where
  "oldest t ds = fold (\<lambda>d t. if older d t then d else t) ds t"

text \<open>A name the scan can handle: its copy fits \<open>target\<close> and it is before the first value of \<open>target\<close>.\<close>

definition name_ok :: "u8 list \<Rightarrow> bool" where
  "name_ok d \<longleftrightarrow> d \<noteq> [] \<and> 0 \<notin> set d \<and> (smells d \<longrightarrow> length d < 80 \<and> older d (bytes ''_z''))"

lemma older_trans: "older a b \<Longrightarrow> older b c \<Longrightarrow> older a c"
  unfolding older_def by (rule lexord_trans [of a b _ c]) (auto simp: trans_def)

lemma older_linear: "older a b \<or> a = b \<or> older b a"
proof -
  have "\<forall>x y. (x, y) \<in> {(x, y). x < (y :: u8)} \<or> x = y \<or> (y, x) \<in> {(x, y). x < (y :: u8)}" by auto
  from lexord_linear [OF this, of a b] show ?thesis by (simp add: older_def)
qed

lemma oldest_least: "\<forall>d\<in>insert t (set ds). d = oldest t ds \<or> older (oldest t ds) d"
proof (induction ds arbitrary: t)
  case (Cons a ds)
  let ?t = "if older a t then a else t"
  have o: "oldest t (a # ds) = oldest ?t ds" by (simp add: oldest_def)
  have "?t = oldest ?t ds \<or> older (oldest ?t ds) ?t" using Cons.IH [of ?t] by auto
  moreover have "?t = a \<or> older ?t a" "?t = t \<or> older ?t t" using older_linear [of a t] by auto
  ultimately have "a = oldest ?t ds \<or> older (oldest ?t ds) a" "t = oldest ?t ds \<or> older (oldest ?t ds) t"
    using older_trans [of "oldest ?t ds" ?t a] older_trans [of "oldest ?t ds" ?t t] by (auto split: if_splits)
  then show ?case using Cons.IH [of ?t] unfolding o by auto
qed (simp add: oldest_def)

lemma oldest_in: "oldest t ds \<in> insert t (set ds)"
proof (induction ds arbitrary: t)
  case (Cons a ds)
  then show ?case using Cons.IH [of "if older a t then a else t"] by (auto simp: oldest_def)
qed (simp add: oldest_def)

lemma older_irrefl: "\<not> older a a"
  unfolding older_def using lexord_irreflexive [of "{(x, y). x < (y :: u8)}" a] by auto

lemma oldest_member:
  assumes "ds \<noteq> []" and "\<forall>d\<in>set ds. older d t"
  shows "oldest t ds \<in> set ds"
proof (rule ccontr)
  assume "oldest t ds \<notin> set ds"
  then have "oldest t ds = t" using oldest_in [of t ds] by auto
  then have "\<forall>d\<in>set ds. d = t \<or> older t d" using oldest_least [of t ds] by auto
  then show False using assms older_trans older_irrefl by (metis list.set_intros(1) neq_Nil_conv)
qed

lemma prune_scan_spec:
  assumes "\<forall>d\<in>set names. name_ok d" and "cstr_at target 0 t" and "length target = 80"
  shows "\<exists>r w'. prune_scan names w cnt target = Some (r, w') \<and> noise w w' \<and>
    (case r of
       Inl e \<Rightarrow> length (faults w') < length (faults w)
     | Inr (cnt', target') \<Rightarrow> cnt' = cnt + int (length (filter smells names)) \<and> cstr_at target' 0 (oldest t (filter smells names)))"
  using assms
proof (induction names arbitrary: w cnt target t)
  case Nil
  obtain f v where t: "tick w = (f, v)" by fastforce
  show ?case using tick_noise [OF t] t Nil.prems by (cases f) (subst prune_scan.simps, auto simp: oldest_def)+
next
  case (Cons d names)
  obtain f v where t: "tick w = (f, v)" by fastforce
  note n = tick_noise [OF t]
  show ?case
  proof (cases "\<exists>e. f = Fail e")
    case True
    then show ?thesis using n t by (subst prune_scan.simps) auto
  next
    case False
    have d: "d \<noteq> []" "0 \<notin> set d" "cstr_at (d @ [0]) 0 d"
      using Cons.prems(1) by (auto simp: name_ok_def intro: cstr_at_zero)
    have r0: "rd (d @ [0]) 0 = Some (d ! 0)" using d(1) by (cases d) auto
    have l: "cstr_len (d @ [0]) 0 = Some (length d)" using d(3) by simp
    have sm: "d ! 0 = of_char CHR ''_'' \<and> (if 23 \<le> length d then 1 else 0) \<noteq> (0 :: nat) \<and> rd (d @ [0]) 9 = Some (of_char CHR ''T'') \<longleftrightarrow> smells d"
      by (auto simp: smells_def nth_append)
    obtain x where x: "cstr_cmp (d @ [0]) 0 target 0 = Some x" "x < 0 \<longleftrightarrow> older d t"
      using cstr_cmp_spec [OF d(3) Cons.prems(2)] by (auto simp: older_def)
    define target' where "target' = (if smells d \<and> older d t then store_cstr target 0 d else target)"
    define t' where "t' = (if smells d \<and> older d t then d else t)"
    have fit: "smells d \<Longrightarrow> length d < length target" using Cons.prems(1,3) by (simp add: name_ok_def)
    have cp: "smells d \<Longrightarrow> cstr_copy target 0 (d @ [0]) 0 = Some (store_cstr target 0 d, length d)"
      using cstr_copy_loop_spec [OF d(3), of 0 target] fit by (simp add: cstr_copy_def)
    have t': "cstr_at target' 0 t'" "length target' = 80"
      using Cons.prems(2,3) fit d(2) cstr_at_store [of d 0 target] by (auto simp: target'_def t'_def)
    have step: "prune_scan (d # names) w cnt target = prune_scan names v (if smells d then cnt + 1 else cnt) target'"
      using t False r0 l x cp sm Cons.prems(3) by (subst prune_scan.simps) (auto simp: target'_def Let_def split: fault.splits)
    from Cons.IH [OF _ t', of v "if smells d then cnt + 1 else cnt"] Cons.prems(1) obtain r w' where
      IH: "prune_scan names v (if smells d then cnt + 1 else cnt) target' = Some (r, w')" "noise v w'"
      "case r of
         Inl e \<Rightarrow> length (faults w') < length (faults v)
       | Inr (cnt', target'') \<Rightarrow> cnt' = (if smells d then cnt + 1 else cnt) + int (length (filter smells names)) \<and> cstr_at target'' 0 (oldest t' (filter smells names))"
      by auto
    have "oldest t (filter smells (d # names)) = oldest t' (filter smells names)" by (simp add: oldest_def t'_def)
    then show ?thesis using step IH noise_trans [OF n(1) IH(2)] noise_fields(14) [OF n(1)] by (auto split: sum.splits prod.splits if_splits)
  qed
qed

definition arch_names :: "fsys \<Rightarrow> u8 list list" where
  "arch_names f = filter smells (map fst (dirents f))"

text \<open>What pruning does to the directory: with more archives than are to be kept, the oldest is removed.\<close>

definition prune_fs :: "nat \<Rightarrow> fsys \<Rightarrow> fsys" where
  "prune_fs keep f =
     (if length (arch_names f) \<le> keep then f
      else f\<lparr>dirents := filter (\<lambda>(n, _). n \<noteq> oldest (bytes ''_z'') (arch_names f)) (dirents f)\<rparr>)"

lemma cstr_of_at: "cstr_at b 0 t \<Longrightarrow> cstr_of b = t"
proof -
  assume a: "cstr_at b 0 t"
  then have t: "take (Suc (length t)) b = t @ [0]" "0 \<notin> set t" by (auto simp: cstr_at_def)
  have "b = take (Suc (length t)) b @ drop (Suc (length t)) b" by simp
  then have "b = t @ 0 # drop (Suc (length t)) b" unfolding t(1) by simp
  then show ?thesis using cstr_of_noz(3) [OF t(2)] by metis
qed

lemma ino_of_member: "n \<in> fst ` set (dirents f) \<Longrightarrow> ino_of f n \<noteq> None"
  by (metis ino_of_def map_of_eq_None_iff)

lemma tinylog_prune_spec:
  assumes "\<forall>d\<in>fst ` set (dirents (fs w)). name_ok d" and "keep_max w < 2 ^ 31" and "length (arch_names (fs w)) \<le> keep_max w + 1"
  shows "\<exists>ok w'. tinylog_prune w = Some (ok, w') \<and> calm w w' \<and>
    (if ok then fs w' = prune_fs (keep_max w) (fs w) else fs w' = fs w \<and> length (faults w') < length (faults w))"
proof -
  have k: "sint (word_of_nat (keep_max w) :: u32) = int (keep_max w)"
  proof -
    have "uint (word_of_nat (keep_max w) :: u32) = int (keep_max w)"
      using assms(2) by (simp add: uint_nat unat_of_nat take_bit_nat_eq_self_iff)
    then show ?thesis using assms(2) by (simp add: sint_uint signed_take_bit_int_eq_self_iff)
  qed
  let ?names = "map fst (dirents (fs w))" and ?A = "arch_names (fs w)" and ?list = "\<lambda>f. (Inr (map fst (dirents f)), f)"
  have "replicate 78 (0 :: u8) = 0 # replicate 77 0" by (simp flip: replicate_Suc)
  then have tg: "cstr_at (bytes ''_z'' @ replicate 78 0) 0 (bytes ''_z'')"
    using cstr_at_zero [of "bytes ''_z''" "replicate 77 0"] by (simp add: bytes_def)
  show ?thesis
  proof (cases rule: syscall_cases [of ?list w])
    case (fault e w')
    then show ?thesis using noise_calm noise_fields(4) by (auto simp: tinylog_prune_def)
  next
    case (act v)
    have v: "syscall ?list w = (Inr ?names, v)" using act noise_fields(4) [OF act(2)] by simp
    obtain r w1 where s: "prune_scan ?names v 0 (bytes ''_z'' @ replicate 78 0) = Some (r, w1)" "noise v w1"
      "case r of
         Inl e \<Rightarrow> length (faults w1) < length (faults v)
       | Inr (cnt, target) \<Rightarrow> cnt = 0 + int (length (filter smells ?names)) \<and> cstr_at target 0 (oldest (bytes ''_z'') (filter smells ?names))"
      using prune_scan_spec [of ?names "bytes ''_z'' @ replicate 78 0" "bytes ''_z''" v 0] assms(1) tg by (auto simp: bytes_def)
    have n: "noise w (pause w1)" using act(2) s(2) pause_noise noise_trans by blast
    have P: "tinylog_prune w = (case r of
        Inl e \<Rightarrow> Some (False, pause w1)
      | Inr (cnt, target) \<Rightarrow>
          if cnt \<le> int (keep_max w) then Some (True, pause w1)
          else (case syscall (fs_unlink (cstr_of target)) (pause w1) of
                  (Inl e, w) \<Rightarrow> Some (False, w)
                | (Inr _, w') \<Rightarrow> if cnt - 1 > int (keep_max w) then None else Some (True, w')))"
      using v s(1) k by (simp add: tinylog_prune_def Let_def)
    note nf = noise_fields [OF n]
    show ?thesis
    proof (cases r)
      case (Inl e)
      then show ?thesis using P s(3) n nf noise_calm noise_fields(14) [OF act(2)] noise_fields(14) [OF pause_noise [of w1]]
        by auto
    next
      case (Inr p)
      then obtain target where p: "r = Inr (int (length ?A), target)" "cstr_at target 0 (oldest (bytes ''_z'') ?A)"
        using s(3) by (auto simp: arch_names_def)
      show ?thesis
      proof (cases "length ?A \<le> keep_max w")
        case True
        then show ?thesis using P p(1) n nf(4) noise_calm by (auto simp: prune_fs_def)
      next
        case False
        let ?o = "oldest (bytes ''_z'') ?A"
        have ne: "?A \<noteq> []" using False by auto
        have "\<forall>d\<in>set ?A. older d (bytes ''_z'')" using assms(1) by (auto simp: arch_names_def name_ok_def)
        then have "?o \<in> set ?A" using oldest_member ne by blast
        then have "ino_of (fs w) ?o \<noteq> None" by (intro ino_of_member) (auto simp: arch_names_def)
        then have u: "fs_unlink ?o (fs w) = (Inr (), prune_fs (keep_max w) (fs w))"
          using False by (auto simp: fs_unlink_def prune_fs_def)
        have cnt: "\<not> int (length ?A) \<le> int (keep_max w)" "\<not> int (length ?A) - 1 > int (keep_max w)" using False assms(3) by auto
        show ?thesis
        proof (cases rule: syscall_cases [of "fs_unlink ?o" "pause w1"])
          case (fault e w')
          have "noise w w'" using n fault(2) noise_trans by blast
          then show ?thesis using P p cnt fault(1,3) nf noise_calm noise_fields(4) by (auto simp: cstr_of_at)
        next
          case (act u')
          have "noise w u'" using n act(2) noise_trans by blast
          then show ?thesis using P p cnt act(1) nf(4) u noise_calm by (auto simp: cstr_of_at)
        qed
      qed
    qed
  qed
qed

lemma prune_loop_spec:
  assumes "\<forall>d\<in>fst ` set (dirents (fs w)). name_ok d" and "keep_max w < 2 ^ 31" and "length (arch_names (fs w)) \<le> keep_max w + 1"
  shows "\<exists>w'. prune_loop w = Some w' \<and> calm w w' \<and> fs w' = prune_fs (keep_max w) (fs w)"
  using assms
proof (induction "length (faults w)" arbitrary: w rule: less_induct)
  case less
  obtain ok w1 where p: "tinylog_prune w = Some (ok, w1)" "calm w w1"
    "if ok then fs w1 = prune_fs (keep_max w) (fs w) else fs w1 = fs w \<and> length (faults w1) < length (faults w)"
    using tinylog_prune_spec [OF less.prems] by auto
  show ?case
  proof (cases ok)
    case True
    then show ?thesis using p by (subst prune_loop.simps) simp
  next
    case False
    note f = noise_fields [OF pause_noise [of w1]]
    have c: "calm w (pause w1)" using p(2) noise_calm [OF pause_noise] calm_trans by blast
    then have k: "keep_max (pause w1) = keep_max w" by (simp add: calm_def keeps_def)
    have "fs (pause w1) = fs w" "length (faults (pause w1)) < length (faults w)" using p(3) False f by auto
    from less.hyps [OF this(2)] less.prems this(1) k obtain w' where
      "prune_loop (pause w1) = Some w'" "calm (pause w1) w'" "fs w' = prune_fs (keep_max w) (fs w)" by auto
    then show ?thesis using p(1) False c calm_trans by (subst prune_loop.simps) auto
  qed
qed

section \<open>Archiving\<close>

lemma keep_stat_spec:
  assumes "honest w" and "ino_of (fs w) log = Some i"
  shows "\<exists>sb w'. keep_stat log w = Some (Some sb, w') \<and> calm w w' \<and> fs w' = fs w \<and> f_nlink sb = nlink (fs w) i"
  using assms
proof (induction "length (faults w)" arbitrary: w rule: less_induct)
  case less
  show ?case
  proof (cases rule: syscall_cases [of "fs_stat log" w])
    case (fault e w')
    have e: "e \<noteq> ENOENT" using fault(4) less.prems(1) by (auto simp: honest_def)
    note f = noise_fields [OF pause_noise [of w']] noise_fields [OF fault(2)]
    have c: "calm w (pause w')" using noise_calm [OF fault(2)] noise_calm [OF pause_noise] calm_trans by blast
    have "length (faults (pause w')) < length (faults w)" "fs (pause w') = fs w" using f fault(3) by auto
    moreover have "honest (pause w')" using honest_keeps less.prems(1) calm_keeps c by blast
    ultimately obtain sb u where "keep_stat log (pause w') = Some (Some sb, u)" "calm (pause w') u" "fs u = fs w" "f_nlink sb = nlink (fs w) i"
      using less.hyps [of "pause w'"] less.prems(2) by auto
    then show ?thesis using fault(1) e c calm_trans by (subst keep_stat.simps) auto
  next
    case (act v)
    then show ?thesis using less.prems(2) noise_calm [OF act(2)] by (subst keep_stat.simps) (auto simp: fs_stat_def)
  qed
qed

text \<open>The name of an archive made at a reading of the clock.\<close>

definition aname :: "u8 \<Rightarrow> timeval \<Rightarrow> u8 list" where
  "aname ext tv = of_char CHR ''_'' # stamp_of tv @ [of_char CHR ''.'', ext]"

definition fn_ready :: "u8 \<Rightarrow> buffer \<Rightarrow> bool" where
  "fn_ready ext b \<longleftrightarrow> length b = 28 \<and> b ! 0 = of_char CHR ''_'' \<and> b ! 23 = of_char CHR ''.'' \<and> b ! 24 = ext \<and> b ! 25 = 0"

text \<open>The readings from \<open>n\<close> on and before \<open>N\<close> that give a name not in use.\<close>

definition unused :: "u8 \<Rightarrow> fsys \<Rightarrow> (nat \<Rightarrow> timeval) \<Rightarrow> nat \<Rightarrow> nat \<Rightarrow> nat set" where
  "unused ext f ck n N = {k. n \<le> k \<and> k < N \<and> ino_of f (aname ext (ck k)) = None}"

lemma unused_step:
  "unused ext f ck n N = (if n < N \<and> ino_of f (aname ext (ck n)) = None then insert n (unused ext f ck (Suc n) N) else unused ext f ck (Suc n) N)"
proof -
  have "n \<le> k \<longleftrightarrow> k = n \<or> Suc n \<le> k" for k by auto
  then show ?thesis unfolding unused_def by auto
qed

lemma finite_unused: "finite (unused ext f ck n N)"
  by (rule finite_subset [of _ "{..<N}"]) (auto simp: unused_def)

lemma fn_name:
  assumes "fn_ready ext b" and "time_ok tv" and "ext \<noteq> 0"
  shows "cstr_of (take 1 b @ stamp_of tv @ drop 23 b) = aname ext tv" "fn_ready ext (take 1 b @ stamp_of tv @ drop 23 b)"
proof -
  note st = length_stamp_of [OF assms(2)]
  have b: "length b = 28" "b ! 0 = of_char CHR ''_''" "b ! 23 = of_char CHR ''.''" "b ! 24 = ext" "b ! 25 = 0"
    using assms(1) by (auto simp: fn_ready_def)
  have d: "drop 23 b = of_char CHR ''.'' # ext # 0 # drop 26 b"
    using b by (simp add: Cons_nth_drop_Suc [symmetric] numeral_eq_Suc)
  have t: "take 1 b = [of_char CHR ''_'']" using b by (cases b) auto
  show "cstr_of (take 1 b @ stamp_of tv @ drop 23 b) = aname ext tv"
    unfolding d t aname_def using cstr_of_noz(3) [of "of_char CHR ''_'' # stamp_of tv @ [of_char CHR ''.'', ext]" "drop 26 b"] st(3) assms(3) by simp
  show "fn_ready ext (take 1 b @ stamp_of tv @ drop 23 b)"
    using st(1) b by (simp add: fn_ready_def t nth_append d)
qed

text \<open>The loop over \<open>link()\<close> ends when the clock gives more unused names than there are faults left; each reading of the clock that gave an unused name
  but was not the last one went with a fault.\<close>

lemma keep_link_spec:
  assumes "fn_ready ext (fn8601 w)" and "ext \<noteq> 0" and "ino_of (fs w) log = Some i"
    and "\<forall>n. nclk w \<le> n \<and> n < N \<longrightarrow> time_ok (clk w n)"
    and "length (faults w) < card (unused ext (fs w) (clk w) (nclk w) N)"
  shows "\<exists>w' k. keep_link log w = Some w' \<and> keeps w w' \<and> nclk w \<le> k \<and> k < N \<and> nclk w' = Suc k \<and>
    ino_of (fs w) (aname ext (clk w k)) = None \<and> length (fn8601 w') = 28 \<and>
    fs w' = (fs w)\<lparr>dirents := dirents (fs w) @ [(aname ext (clk w k), i)]\<rparr> \<and>
    card (unused ext (fs w) (clk w) (nclk w) N) + length (faults w') \<le> card (unused ext (fs w) (clk w) (Suc k) N) + 1 + length (faults w)"
  using assms
proof (induction "N - nclk w" arbitrary: w rule: less_induct)
  case less
  let ?U = "\<lambda>n. unused ext (fs w) (clk w) n N" and ?n = "nclk w" and ?tv = "clk w (nclk w)"
  have lt: "?n < N"
  proof (rule ccontr)
    assume "\<not> ?n < N"
    then have "?U ?n = {}" by (auto simp: unused_def)
    then show False using less.prems(5) by simp
  qed
  then have tv: "time_ok ?tv" using less.prems(4) by simp
  define b where "b = take 1 (fn8601 w) @ stamp_of ?tv @ drop 23 (fn8601 w)"
  note nm = fn_name [OF less.prems(1) tv less.prems(2), folded b_def]
  have st: "stamp8601_make (fn8601 w) 1 w = Some (b, w\<lparr>nclk := Suc ?n\<rparr>)"
    using stamp8601_make_spec [of w 1 "fn8601 w"] tv less.prems(1) by (simp add: b_def fn_ready_def)
  define u where "u = w\<lparr>nclk := Suc ?n, fn8601 := b\<rparr>"
  have u: "fs u = fs w" "clk u = clk w" "faults u = faults w" "nclk u = Suc ?n" "fn8601 u = b" "keeps w u"
    by (simp_all add: u_def keeps_def)
  have step: "keep_link log w = (case syscall (fs_link log (aname ext ?tv)) u of (Inr _, w) \<Rightarrow> Some w | (Inl e, w) \<Rightarrow> keep_link log (pause w))"
    using st nm(1) by (subst keep_link.simps) (simp add: u_def)
  have lb: "length b = 28" using nm(2) by (simp add: fn_ready_def)
  have again: ?case if c: "noise u v" and kl: "keep_link log w = keep_link log (pause v)"
    and fl: "length (faults v) < card (?U (Suc ?n))" "card (?U ?n) + length (faults v) \<le> card (?U (Suc ?n)) + length (faults w)" for v
  proof -
    have n: "noise u (pause v)" using c pause_noise noise_trans by blast
    note f = noise_fields [OF n] and p = noise_fields(14) [OF pause_noise [of v]]
    have k: "keeps w (pause v)" using u(6) noise_calm [OF n] calm_keeps keeps_trans by blast
    have "N - nclk (pause v) < N - ?n" using f(3) u(4) lt by simp
    moreover have "fn_ready ext (fn8601 (pause v))" using f(12) u(5) nm(2) by simp
    moreover have "ino_of (fs (pause v)) log = Some i" using f(4) u(1) less.prems(3) by simp
    moreover have "\<forall>n. nclk (pause v) \<le> n \<and> n < N \<longrightarrow> time_ok (clk (pause v) n)" using f(2,3) u less.prems(4) by simp
    moreover have "length (faults (pause v)) < card (unused ext (fs (pause v)) (clk (pause v)) (nclk (pause v)) N)"
      using fl(1) f(2,3,4) u p by simp
    ultimately obtain w' k where IH: "keep_link log (pause v) = Some w'" "keeps (pause v) w'" "Suc ?n \<le> k" "k < N" "nclk w' = Suc k"
        "ino_of (fs w) (aname ext (clk w k)) = None" "length (fn8601 w') = 28"
        "fs w' = (fs w)\<lparr>dirents := dirents (fs w) @ [(aname ext (clk w k), i)]\<rparr>"
        "card (?U (Suc ?n)) + length (faults w') \<le> card (?U (Suc k)) + 1 + length (faults (pause v))"
      using less.hyps [of "pause v"] less.prems(2) f(2,3,4) u by auto
    have "card (?U ?n) + length (faults w') \<le> card (?U (Suc k)) + 1 + length (faults w)" using IH(9) fl(2) p by linarith
    moreover have "nclk w \<le> k" using IH(3) by simp
    ultimately show ?thesis using IH kl keeps_trans [OF k IH(2)] by (intro exI [of _ w'] exI [of _ k]) simp
  qed
  have card: "card (?U ?n) = (if ino_of (fs w) (aname ext ?tv) = None then Suc (card (?U (Suc ?n))) else card (?U (Suc ?n)))"
    using unused_step [of ext "fs w" "clk w" ?n N] lt finite_unused [of ext "fs w" "clk w" "Suc ?n" N] by (auto simp: unused_def)
  show ?case
  proof (cases rule: syscall_cases [of "fs_link log (aname ext ?tv)" u])
    case (fault e v)
    then show ?thesis using again [of v] step card u(3) less.prems(5) by (auto split: if_splits)
  next
    case (act v)
    show ?thesis
    proof (cases "ino_of (fs w) (aname ext ?tv)")
      case None
      then have a: "fs_link log (aname ext ?tv) (fs u) = (Inr (), (fs w)\<lparr>dirents := dirents (fs w) @ [(aname ext ?tv, i)]\<rparr>)"
        using less.prems(3) u(1) by (simp add: fs_link_def)
      let ?w = "v\<lparr>fs := (fs w)\<lparr>dirents := dirents (fs w) @ [(aname ext ?tv, i)]\<rparr>\<rparr>"
      note f = noise_fields [OF act(2)]
      have "keep_link log w = Some ?w" using step act(1) a by simp
      moreover have "keeps w ?w" by (rule keeps_trans [OF u(6)], rule calm_keeps) (simp add: noise_calm [OF act(2)])
      moreover have "card (?U ?n) + length (faults ?w) \<le> card (?U (Suc ?n)) + 1 + length (faults w)" using card None f(14) u(3) by simp
      ultimately show ?thesis using None lt f u lb by (intro exI [of _ ?w] exI [of _ ?n]) simp
    next
      case (Some j)
      then have a: "fs_link log (aname ext ?tv) (fs u) = (Inl EEXIST, fs u)" using less.prems(3) u(1) by (simp add: fs_link_def)
      have "v\<lparr>fs := fs u\<rparr> = v" using noise_fields(4) [OF act(2)] by simp
      then show ?thesis using again [of v] step act a card Some less.prems(5) noise_fields(14) [OF act(2)] u(3) by simp
    qed
  qed
qed

lemma pad0_digits: "c \<in> set (pad0 k n) \<Longrightarrow> c < 58"
proof -
  assume c: "c \<in> set (pad0 k n)"
  have "48 + (word_of_nat d :: u8) < 58" if "d \<in> set (digits 10 n)" for d
  proof -
    have d: "d < 10" using digits_small [of 10 d n] that by simp
    then have "unat (48 + word_of_nat d :: u8) = 48 + d"
      by (simp add: unat_word_ariths unat_of_nat take_bit_nat_eq_self_iff)
    then show ?thesis using d by (simp add: word_less_nat_alt)
  qed
  then show ?thesis using c by (auto simp: pad0_def digit_text_def split: if_splits)
qed

lemma aname_ok:
  assumes "time_ok tv" and "ext \<noteq> 0"
  shows "smells (aname ext tv)" "name_ok (aname ext tv)"
proof -
  note st = length_stamp_of [OF assms(1)]
  have "unat (fst tv) < 2 ^ 37" using assms(1) by (simp add: time_ok_def word_less_nat_alt)
  from gmtime_ok [OF this] obtain m where g: "gmtime (unat (fst tv)) = Some m" and y: "1900 + tm_year m < 10 ^ 4" by auto
  obtain c r where c: "pad0 4 (1900 + tm_year m) = c # r"
    using length_pad0 [OF _ y] by (cases "pad0 4 (1900 + tm_year m)") auto
  then have "c < 58" using pad0_digits [of c 4 "1900 + tm_year m"] by simp
  then have "c < 122" by (rule order.strict_trans) simp
  then have o: "older (aname ext tv) (bytes ''_z'')" using c by (simp add: older_def aname_def stamp_of_def g bytes_def)
  show s: "smells (aname ext tv)" using st by (simp add: smells_def aname_def nth_append)
  show "name_ok (aname ext tv)" using st o assms(2) by (simp add: name_ok_def aname_def)
qed

lemma not_smells: "\<not> smells (bytes ''current'')" "\<not> smells (bytes ''previous'')"
  by (simp_all add: smells_def bytes_def)

lemma ino_of_Some: "distinct (map fst (dirents f)) \<Longrightarrow> ino_of f n = Some i \<longleftrightarrow> (n, i) \<in> set (dirents f)"
  by (simp add: ino_of_def)

lemma ino_of_None: "ino_of f n = None \<longleftrightarrow> n \<notin> fst ` set (dirents f)"
  by (simp add: ino_of_def map_of_eq_None_iff)

text \<open>A directory with at most \<open>keep\<close> archives.\<close>

definition dir_ok :: "nat \<Rightarrow> fsys \<Rightarrow> bool" where
  "dir_ok keep f \<longleftrightarrow> distinct (map fst (dirents f)) \<and> (\<forall>(n, i)\<in>set (dirents f). name_ok n \<and> i < next_ino f) \<and> length (arch_names f) \<le> keep"

lemma dir_okD:
  assumes "dir_ok keep f"
  shows "distinct (map fst (dirents f))" "\<forall>d\<in>fst ` set (dirents f). name_ok d" "length (arch_names f) \<le> keep"
    "(n, i) \<in> set (dirents f) \<Longrightarrow> i < next_ino f"
  using assms by (auto simp: dir_ok_def)

lemma prune_fs_ok:
  assumes "distinct (map fst (dirents f))" and "\<forall>(n, i)\<in>set (dirents f). name_ok n \<and> i < next_ino f" and "length (arch_names f) \<le> keep + 1"
  shows "dir_ok keep (prune_fs keep f)" "set (dirents (prune_fs keep f)) \<subseteq> set (dirents f)" "inodes (prune_fs keep f) = inodes f"
    "next_ino (prune_fs keep f) = next_ino f"
proof -
  let ?A = "arch_names f"
  define old where "old = oldest (bytes ''_z'') ?A"
  show "set (dirents (prune_fs keep f)) \<subseteq> set (dirents f)" "inodes (prune_fs keep f) = inodes f" "next_ino (prune_fs keep f) = next_ino f"
    by (auto simp: prune_fs_def)
  show "dir_ok keep (prune_fs keep f)"
  proof (cases "length ?A \<le> keep")
    case True
    then show ?thesis using assms by (simp add: prune_fs_def dir_ok_def)
  next
    case False
    let ?D = "filter (\<lambda>(n, _). n \<noteq> old) (dirents f)"
    have mf: "map fst ?D = filter (\<lambda>n. n \<noteq> old) (map fst (dirents f))" by (simp add: filter_map old_def case_prod_unfold comp_def)
    have "\<forall>d\<in>set ?A. older d (bytes ''_z'')" using assms(2) by (fastforce simp: arch_names_def name_ok_def)
    moreover have "?A \<noteq> []" using False by auto
    ultimately have "old \<in> set ?A" unfolding old_def using oldest_member by blast
    moreover have "distinct ?A" using assms(1) by (simp add: arch_names_def)
    ultimately have "length (filter (\<lambda>n. n \<noteq> old) ?A) < length ?A" by (metis (mono_tags, lifting) length_filter_less)
    moreover have D: "dirents (prune_fs keep f) = ?D" using False by (simp add: prune_fs_def old_def)
    have "arch_names (prune_fs keep f) = filter (\<lambda>n. n \<noteq> old) ?A"
      unfolding arch_names_def D mf by (simp add: conj_commute)
    ultimately have "length (arch_names (prune_fs keep f)) \<le> keep" using assms(3) by simp
    moreover note D
    moreover have "distinct (map fst ?D)" unfolding mf using assms(1) by simp
    ultimately show ?thesis using assms(2) by (auto simp: dir_ok_def prune_fs_def)
  qed
qed

lemma tinylog_keep_spec:
  assumes "honest w" and "\<not> wantzip w" and "length (fn8601 w) = 28" and "keep_max w < 2 ^ 31" and dir: "dir_ok (keep_max w) (fs w)"
    and log: "ino_of (fs w) log = Some i" "nlink (fs w) i = 1" "\<not> smells log" and "ext \<noteq> 0"
    and time: "\<forall>n. nclk w \<le> n \<and> n < N \<longrightarrow> time_ok (clk w n)"
    and free: "length (faults w) < card (unused ext (fs w) (clk w) (nclk w) N)"
  shows "\<exists>r w' k. tinylog_keep w log ext = Some (r, w') \<and> keeps w w' \<and> nclk w \<le> k \<and> k < N \<and> nclk w' = Suc k \<and> length (fn8601 w') = 28 \<and>
    ino_of (fs w) (aname ext (clk w k)) = None \<and>
    card (unused ext (fs w) (clk w) (nclk w) N) + length (faults w') \<le> card (unused ext (fs w) (clk w) (Suc k) N) + 1 + length (faults w) \<and>
    (case r of
       Ok _ \<Rightarrow> fs w' = prune_fs (keep_max w) ((fs w)\<lparr>dirents := filter (\<lambda>(n, _). n \<noteq> log) (dirents (fs w)) @ [(aname ext (clk w k), i)]\<rparr>)
     | Exit e \<Rightarrow> e = 111 \<and> 0 < flagexit w')"
proof -
  obtain sb w1 where s: "keep_stat log w = Some (Some sb, w1)" "calm w w1" "fs w1 = fs w" "f_nlink sb = 1"
    using keep_stat_spec [OF assms(1) log(1)] log(2) by auto
  have w1: "clk w1 = clk w" "nclk w1 = nclk w" "length (faults w1) \<le> length (faults w)" "fn8601 w1 = fn8601 w"
    using s(2) by (auto simp: calm_def keeps_def)
  define b where "b = (fn8601 w)[0 := of_char CHR ''_'', 23 := of_char CHR ''.'', 24 := ext, 25 := 0]"
  have b: "fn_ready ext b" using assms(3) by (simp add: b_def fn_ready_def)
  let ?w2 = "w1\<lparr>fn8601 := b\<rparr>"
  have k2: "keeps w ?w2" using s(2) by (simp add: calm_def keeps_def)
  obtain w3 k where l: "keep_link log ?w2 = Some w3" "keeps ?w2 w3" "nclk w \<le> k" "k < N" "nclk w3 = Suc k"
      "ino_of (fs w) (aname ext (clk w k)) = None" "length (fn8601 w3) = 28"
      "fs w3 = (fs w)\<lparr>dirents := dirents (fs w) @ [(aname ext (clk w k), i)]\<rparr>"
      "card (unused ext (fs w) (clk w) (nclk w) N) + length (faults w3) \<le> card (unused ext (fs w) (clk w) (Suc k) N) + 1 + length (faults w1)"
    using keep_link_spec [of ext ?w2 log i N] b assms(9) log(1) time free w1 s(3) by auto
  let ?nm = "aname ext (clk w k)"
  let ?f = "(fs w)\<lparr>dirents := filter (\<lambda>(n, _). n \<noteq> log) (dirents (fs w)) @ [(?nm, i)]\<rparr>"
  have k3: "keeps w w3" using keeps_trans [OF k2 l(2)] .
  have ne: "?nm \<noteq> log" using l(6) log(1) by auto
  have un: "fs_unlink log (fs w3) = (Inr (), ?f)"
    using log(1) ne l(8) by (auto simp: fs_unlink_def ino_of_def)
  have cd: "card (unused ext (fs w) (clk w) (nclk w) N) + length (faults v) \<le> card (unused ext (fs w) (clk w) (Suc k) N) + 1 + length (faults w)"
    if "length (faults v) \<le> length (faults w3)" for v using that l(9) w1(3) by simp
  have K: "tinylog_keep w log ext = andthen (RETRY (syscall (fs_unlink log)) w3) (\<lambda>_ w.
      andthen (if wantzip w then tinylog_gzip w (cstr_of (fn8601 w)) else Some (Ok True, w)) (\<lambda>_ w. do { w \<leftarrow> prune_loop w; Some (Ok (), w) }))"
    using s(1,4) l(1) assms(3) w1(4) by (simp add: tinylog_keep_def b_def)
  have "fst (fs_unlink log (fs w3)) = Inr ()" by (simp add: un)
  then show ?thesis
  proof (cases rule: RETRY_spec)
    case (exit w')
    have "keeps w w'" using keeps_trans [OF k3 calm_keeps [OF exit(2)]] .
    moreover have "length (faults w') \<le> length (faults w3)" "nclk w' = Suc k" "length (fn8601 w') = 28" using exit(2) l by (auto simp: calm_def keeps_def)
    ultimately show ?thesis using K exit l cd by (intro exI [of _ "Exit 111"] exI [of _ w'] exI [of _ k]) (simp add: andthen_def)
  next
    case (ok w4)
    have k4: "keeps w w4" using keeps_trans [OF k3 calm_keeps [OF ok(2)]] .
    have w4: "fs w4 = ?f" "nclk w4 = Suc k" "length (fn8601 w4) = 28" "length (faults w4) \<le> length (faults w3)" "keep_max w4 = keep_max w"
      "\<not> wantzip w4" using ok(2,3) un l assms(2) k4 by (auto simp: calm_def keeps_def)
    have tk: "time_ok (clk w k)" using time l(3,4) by simp
    have "arch_names ?f = arch_names (fs w) @ [?nm]"
      using aname_ok(1) [OF tk assms(9)] log(3)
      by (auto simp: arch_names_def filter_map comp_def case_prod_unfold intro!: arg_cong [of _ _ "map fst"] filter_cong)
    then have "length (arch_names ?f) \<le> keep_max w + 1" using dir_okD(3) [OF dir] by simp
    moreover have "\<forall>d\<in>fst ` set (dirents ?f). name_ok d" using dir_okD(2) [OF dir] aname_ok(2) [OF tk assms(9)] by auto
    ultimately obtain w5 where p: "prune_loop w4 = Some w5" "calm w4 w5" "fs w5 = prune_fs (keep_max w) ?f"
      using prune_loop_spec [of w4] w4 assms(4) by auto
    have "keeps w w5" using keeps_trans [OF k4 calm_keeps [OF p(2)]] .
    moreover have "length (faults w5) \<le> length (faults w3)" "nclk w5 = Suc k" "length (fn8601 w5) = 28" using p(2) w4 by (auto simp: calm_def keeps_def)
    ultimately show ?thesis using K ok(1) w4(6) p l cd by (intro exI [of _ "Ok ()"] exI [of _ w5] exI [of _ k]) (simp add: andthen_def)
  qed
qed

section \<open>Rotation\<close>

text \<open>The invariant of the running logger: the directory is in order, \<open>current\<close> is the one name of the file that is open, and \<open>current_size\<close> is its size.\<close>

definition log_ok :: "tlog \<Rightarrow> bool" where
  "log_ok w \<longleftrightarrow> dir_ok (keep_max w) (fs w) \<and> keep_max w < 2 ^ 31 \<and> honest w \<and> length (fn8601 w) = 28 \<and>
     2 * LOGLINE_MAX \<le> current_max w \<and> current_max w < 2 ^ 32 \<and>
     ino_of (fs w) (bytes ''current'') = Some (fd_current w) \<and>
     (\<forall>(n, i)\<in>set (dirents (fs w)). i = fd_current w \<longrightarrow> n = bytes ''current'') \<and>
     length (i_data (inodes (fs w) (fd_current w))) = current_size w"

text \<open>The same without \<open>-z\<close>: archives are not compressed.\<close>

definition tl_ok :: "tlog \<Rightarrow> bool" where
  "tl_ok w \<longleftrightarrow> log_ok w \<and> \<not> wantzip w"

text \<open>The archives with their contents, and the contents of the current log.\<close>

definition archives :: "fsys \<Rightarrow> (u8 list \<times> u8 list) list" where
  "archives f = map (\<lambda>(n, i). (n, i_data (inodes f i))) (filter (\<lambda>(n, _). smells n) (dirents f))"

definition current_log :: "tlog \<Rightarrow> u8 list" where
  "current_log w = i_data (inodes (fs w) (fd_current w))"

definition prune_archives :: "nat \<Rightarrow> (u8 list \<times> u8 list) list \<Rightarrow> (u8 list \<times> u8 list) list" where
  "prune_archives keep xs = (if length xs \<le> keep then xs else filter (\<lambda>(n, _). n \<noteq> oldest (bytes ''_z'') (map fst xs)) xs)"

lemma map_fst_archives: "map fst (archives f) = arch_names f"
  by (induction "dirents f" arbitrary: f) (auto simp: archives_def arch_names_def filter_map comp_def case_prod_unfold)

lemma archives_prune: "archives (prune_fs keep f) = prune_archives keep (archives f)"
proof -
  have l: "length (archives f) = length (arch_names f)" by (metis length_map map_fst_archives)
  show ?thesis
    unfolding prune_archives_def prune_fs_def l map_fst_archives
    by (auto simp: archives_def filter_map comp_def case_prod_unfold conj_commute)
qed

text \<open>Enough unused names for archives before the reading \<open>N\<close> of the clock.\<close>

definition clock_ok :: "nat \<Rightarrow> tlog \<Rightarrow> bool" where
  "clock_ok N w \<longleftrightarrow> (\<forall>n. nclk w \<le> n \<and> n < N \<longrightarrow> time_ok (clk w n)) \<and>
     length (faults w) < card (unused (of_char CHR ''s'') (fs w) (clk w) (nclk w) N)"

text \<open>The directory after \<open>rename("current", "previous")\<close>.\<close>

lemma rename_current:
  assumes "tl_ok w"
  defines "f \<equiv> snd (fs_rename (bytes ''current'') (bytes ''previous'') (fs w))"
  shows "fst (fs_rename (bytes ''current'') (bytes ''previous'') (fs w)) = Inr ()"
    "f = (fs w)\<lparr>dirents := filter (\<lambda>(n, _). n \<noteq> bytes ''current'' \<and> n \<noteq> bytes ''previous'') (dirents (fs w)) @ [(bytes ''previous'', fd_current w)]\<rparr>"
    "dir_ok (keep_max w) f" "ino_of f (bytes ''previous'') = Some (fd_current w)" "nlink f (fd_current w) = 1"
    "smells n \<Longrightarrow> ino_of f n = ino_of (fs w) n" "archives f = archives (fs w)"
proof -
  have ok: "dir_ok (keep_max w) (fs w)" "ino_of (fs w) (bytes ''current'') = Some (fd_current w)"
    "\<And>n i. (n, i) \<in> set (dirents (fs w)) \<Longrightarrow> i = fd_current w \<Longrightarrow> n = bytes ''current''"
    using assms(1) by (auto simp: tl_ok_def log_ok_def)
  let ?P = "\<lambda>(n, _ :: nat). n \<noteq> bytes ''current'' \<and> n \<noteq> bytes ''previous''" and ?D = "dirents (fs w)" and ?c = "fd_current w"
  have ne: "bytes ''current'' \<noteq> bytes ''previous''" by (simp add: bytes_def)
  have np: "ino_of (fs w) (bytes ''previous'') \<noteq> Some ?c"
    using ok(3) [of "bytes ''previous''" ?c] ne ino_of_Some [OF dir_okD(1) [OF ok(1)]] by auto
  show "fst (fs_rename (bytes ''current'') (bytes ''previous'') (fs w)) = Inr ()" using ok(2) np by (simp add: fs_rename_def)
  show f: "f = (fs w)\<lparr>dirents := filter (\<lambda>(n, _). n \<noteq> bytes ''current'' \<and> n \<noteq> bytes ''previous'') ?D @ [(bytes ''previous'', ?c)]\<rparr>"
    using ok(2) np by (simp add: f_def fs_rename_def)
  have D: "dirents f = filter ?P ?D @ [(bytes ''previous'', ?c)]" "inodes f = inodes (fs w)" "next_ino f = next_ino (fs w)" by (simp_all add: f)
  have c: "(bytes ''current'', ?c) \<in> set ?D" using ok(2) ino_of_Some [OF dir_okD(1) [OF ok(1)]] by simp
  have none: "(n, ?c) \<notin> set (filter ?P ?D)" for n using ok(3) by auto
  show "nlink f ?c = 1"
  proof -
    have "filter (\<lambda>(_, i). i = ?c) (filter ?P ?D) = []" using none by (auto simp: filter_empty_conv)
    then show ?thesis by (simp add: nlink_def D)
  qed
  have dist: "distinct (map fst (dirents f))"
    using dir_okD(1) [OF ok(1)] by (auto simp: D distinct_map_filter)
  show "ino_of f (bytes ''previous'') = Some ?c" using dist D by (simp add: ino_of_Some)
  have fl: "filter (\<lambda>(n, _). smells n) (dirents f) = filter (\<lambda>(n, _). smells n) ?D"
    using not_smells by (auto simp: D intro!: filter_cong)
  then show "archives f = archives (fs w)" by (simp add: archives_def D)
  have "arch_names f = arch_names (fs w)"
  proof -
    have "arch_names g = map fst (filter (\<lambda>(n, _). smells n) (dirents g))" for g by (simp add: arch_names_def filter_map comp_def case_prod_unfold)
    then show ?thesis using fl by simp
  qed
  moreover have "name_ok (bytes ''previous'')" using not_smells by (simp add: name_ok_def bytes_def)
  ultimately show "dir_ok (keep_max w) f"
    using dist ok(1) c by (auto simp: dir_ok_def D)
  show "ino_of f n = ino_of (fs w) n" if sm: "smells n"
  proof -
    have "n \<noteq> bytes ''current''" "n \<noteq> bytes ''previous''" using sm not_smells by auto
    then have "(n, i) \<in> set (dirents f) \<longleftrightarrow> (n, i) \<in> set ?D" for i by (auto simp: D)
    then show ?thesis using ino_of_Some [OF dist] ino_of_Some [OF dir_okD(1) [OF ok(1)]] by (metis option.exhaust)
  qed
qed

text \<open>\<open>runs w w'\<close>: what a call leaves alone of the rest of the state.\<close>

definition runs :: "tlog \<Rightarrow> tlog \<Rightarrow> bool" where
  "runs w w' \<longleftrightarrow> stdin w' = stdin w \<and> clk w' = clk w \<and> current_max w' = current_max w \<and> keep_max w' = keep_max w \<and> wantstamp w' = wantstamp w \<and>
     length (faults w') \<le> length (faults w) \<and> flagexit w \<le> flagexit w'"

lemma keeps_runs: "keeps w w' \<Longrightarrow> runs w w'"
  by (simp add: runs_def keeps_def)

lemma tl_ok_noise: "noise w w' \<Longrightarrow> tl_ok w \<Longrightarrow> tl_ok w'"
  using honest_keeps [of w w'] noise_calm [of w w'] calm_keeps by (auto simp: tl_ok_def log_ok_def noise_fields)

text \<open>A new \<open>current\<close> in a directory without one.\<close>

lemma fs_open_new:
  assumes "dir_ok keep f" and "ino_of f (bytes ''current'') = None"
  defines "g \<equiv> snd (fs_fchmod (next_ino f) 420 (snd (fs_open (bytes ''current'') f)))"
  shows "fst (fs_open (bytes ''current'') f) = Inr (next_ino f)" "dir_ok keep g" "ino_of g (bytes ''current'') = Some (next_ino f)"
    "\<forall>(n, i)\<in>set (dirents g). i = next_ino f \<longrightarrow> n = bytes ''current''" "i_data (inodes g (next_ino f)) = []" "archives g = archives f"
    "ino_of f n \<noteq> None \<or> n = bytes ''current'' \<longleftrightarrow> ino_of g n \<noteq> None"
proof -
  have D: "dirents g = dirents f @ [(bytes ''current'', next_ino f)]" "next_ino g = Suc (next_ino f)"
    "inodes g i = (if i = next_ino f then \<lparr>i_data = [], i_mode = 420\<rparr> else inodes f i)" for i
    using assms(2) by (auto simp: g_def fs_open_def fs_fchmod_def Let_def)
  have cur: "bytes ''current'' \<notin> fst ` set (dirents f)" using assms(2) by (simp add: ino_of_None)
  have an: "arch_names g = arch_names f" using not_smells by (simp add: arch_names_def D)
  have lt: "\<And>n i. (n, i) \<in> set (dirents f) \<Longrightarrow> i < next_ino f" using dir_okD(4) [OF assms(1)] by blast
  have dist: "distinct (map fst (dirents g))" using dir_okD(1) [OF assms(1)] cur by (simp add: D)
  show "fst (fs_open (bytes ''current'') f) = Inr (next_ino f)" using assms(2) by (simp add: fs_open_def Let_def)
  show "dir_ok keep g"
    using assms(1) dist an not_smells by (auto simp: dir_ok_def D name_ok_def bytes_def)
  show "ino_of g (bytes ''current'') = Some (next_ino f)" using dist by (simp add: ino_of_Some D)
  show "\<forall>(n, i)\<in>set (dirents g). i = next_ino f \<longrightarrow> n = bytes ''current''" using lt by (auto simp: D)
  show "i_data (inodes g (next_ino f)) = []" by (simp add: D)
  show "archives g = archives f" using lt not_smells by (auto simp: archives_def D)
  show "ino_of f n \<noteq> None \<or> n = bytes ''current'' \<longleftrightarrow> ino_of g n \<noteq> None" by (auto simp: ino_of_None D)
qed

text \<open>The directory after the archive is made and the oldest one is pruned.\<close>

lemma archive_previous:
  assumes ok: "tl_ok w" and nm: "name_ok nm" "smells nm" "ino_of (fs w) nm = None"
  defines "f1 \<equiv> snd (fs_rename (bytes ''current'') (bytes ''previous'') (fs w))"
  defines "f3 \<equiv> prune_fs (keep_max w) (f1\<lparr>dirents := filter (\<lambda>(n, _). n \<noteq> bytes ''previous'') (dirents f1) @ [(nm, fd_current w)]\<rparr>)"
  shows "dir_ok (keep_max w) f3" "ino_of f3 (bytes ''current'') = None"
    "archives f3 = prune_archives (keep_max w) (archives (fs w) @ [(nm, current_log w)])"
    "smells n \<Longrightarrow> ino_of f3 n \<noteq> None \<Longrightarrow> ino_of (fs w) n \<noteq> None \<or> n = nm"
proof -
  let ?D = "dirents (fs w)" and ?c = "fd_current w" and ?P = "\<lambda>(n, _ :: nat). n \<noteq> bytes ''current'' \<and> n \<noteq> bytes ''previous''"
  note f1 = rename_current [OF ok, folded f1_def]
  have dok: "dir_ok (keep_max w) (fs w)" using ok by (simp add: tl_ok_def log_ok_def)
  define f2 where "f2 = f1\<lparr>dirents := filter (\<lambda>(n, _). n \<noteq> bytes ''previous'') (dirents f1) @ [(nm, ?c)]\<rparr>"
  have D: "dirents f2 = filter ?P ?D @ [(nm, ?c)]" "inodes f2 = inodes (fs w)" "next_ino f2 = next_ino (fs w)"
    unfolding f2_def f1(2) by (auto simp: case_prod_unfold intro!: filter_cong)
  have new: "nm \<notin> fst ` set ?D" "nm \<noteq> bytes ''current''" using nm(2,3) not_smells by (auto simp: ino_of_None)
  have dist: "distinct (map fst (dirents f2))" using dir_okD(1) [OF dok] new(1) by (auto simp: D distinct_map_filter)
  have fl: "filter (\<lambda>(n, _). smells n) (dirents f2) = filter (\<lambda>(n, _). smells n) ?D @ [(nm, ?c)]"
    using not_smells nm(2) by (auto simp: D intro!: filter_cong)
  then have ar: "archives f2 = archives (fs w) @ [(nm, current_log w)]" by (simp add: archives_def D current_log_def)
  then have l: "length (arch_names f2) \<le> keep_max w + 1"
    using dir_okD(3) [OF dok] by (metis (no_types, lifting) map_fst_archives length_map length_append_singleton Suc_eq_plus1 Suc_le_mono)
  have "(bytes ''current'', ?c) \<in> set ?D" using ok ino_of_Some [OF dir_okD(1) [OF dok]] by (simp add: tl_ok_def log_ok_def)
  then have nn: "\<forall>(n, i)\<in>set (dirents f2). name_ok n \<and> i < next_ino f2" using dok nm(1) by (auto simp: D dir_ok_def)
  have F3: "f3 = prune_fs (keep_max w) f2" by (simp add: f3_def f2_def)
  note p = prune_fs_ok(1,2) [OF dist nn l, folded F3]
  show "dir_ok (keep_max w) f3" by (rule p(1))
  show "ino_of f3 (bytes ''current'') = None" using p(2) new(2) by (auto simp: ino_of_None D)
  show "archives f3 = prune_archives (keep_max w) (archives (fs w) @ [(nm, current_log w)])"
    unfolding F3 archives_prune ar ..
  show "ino_of (fs w) n \<noteq> None \<or> n = nm" if "smells n" "ino_of f3 n \<noteq> None"
    using that p(2) by (auto simp: ino_of_None D)
qed

text \<open>The end of a rotation: the new \<open>current\<close>.\<close>

lemma reopen_spec:
  assumes "dir_ok keep (fs w)" and "ino_of (fs w) (bytes ''current'') = None"
  obtains (exit) w' where "andthen (RETRY (syscall (fs_open (bytes ''current''))) w) (\<lambda>fd w.
          andthen (RETRY (syscall (fs_fchmod fd 420)) w) (\<lambda>_ w.
            Some (Ok (), (pause w)\<lparr>fd_current := fd, current_size := 0, flagrotate := 0\<rparr>))) = Some (Exit 111, w')" "keeps w w'" "0 < flagexit w'"
    | (ok) v where "andthen (RETRY (syscall (fs_open (bytes ''current''))) w) (\<lambda>fd w.
          andthen (RETRY (syscall (fs_fchmod fd 420)) w) (\<lambda>_ w.
            Some (Ok (), (pause w)\<lparr>fd_current := fd, current_size := 0, flagrotate := 0\<rparr>))) =
          Some (Ok (), v\<lparr>fd_current := next_ino (fs w), current_size := 0, flagrotate := 0\<rparr>)" "calm w v"
        "fs v = snd (fs_fchmod (next_ino (fs w)) 420 (snd (fs_open (bytes ''current'') (fs w))))"
proof -
  from fs_open_new(1) [OF assms] show ?thesis
  proof (cases rule: RETRY_spec)
    case e: (exit w')
    then show ?thesis using exit calm_keeps by (simp add: andthen_def)
  next
    case o: (ok w4)
    have "fst (fs_fchmod (next_ino (fs w)) 420 (fs w4)) = Inr ()" by (simp add: fs_fchmod_def)
    then show ?thesis
    proof (cases rule: RETRY_spec)
      case e: (exit w')
      then show ?thesis using exit [of w'] o(1) calm_keeps [OF calm_trans [OF o(2) e(2)]] by (simp add: andthen_def)
    next
      case m: (ok w5)
      have "calm w (pause w5)" using calm_trans [OF o(2) calm_trans [OF m(2) noise_calm [OF pause_noise]]] .
      then show ?thesis using ok [of "pause w5"] o(1,3) m(1,3) noise_fields(4) [OF pause_noise [of w5]] by (simp add: andthen_def)
    qed
  qed
qed

lemma tinylog_rotate_spec:
  assumes ok: "tl_ok w" and size: "0 < current_size w" and clk: "clock_ok N w"
  shows "\<exists>r w' k. tinylog_rotate w = Some (r, w') \<and> runs w w' \<and> logged w' = logged w \<and>
    (case r of
       Exit e \<Rightarrow> e = 111 \<and> 0 < flagexit w'
     | Ok _ \<Rightarrow> tl_ok w' \<and> flagrotate w' = 0 \<and> set (faults w') \<subseteq> set (faults w) \<and> current_size w' = 0 \<and> current_log w' = [] \<and> nclk w \<le> k \<and> k < N \<and> nclk w' = Suc k \<and>
         archives (fs w') = prune_archives (keep_max w) (archives (fs w) @ [(aname (of_char CHR ''s'') (clk w k), current_log w)]) \<and>
         card (unused (of_char CHR ''s'') (fs w) (clk w) (nclk w) N) + length (faults w') \<le>
           card (unused (of_char CHR ''s'') (fs w) (clk w) (Suc k) N) + 1 + length (faults w) \<and>
         (\<forall>n. smells n \<longrightarrow> ino_of (fs w') n \<noteq> None \<longrightarrow> ino_of (fs w) n \<noteq> None \<or> n = aname (of_char CHR ''s'') (clk w k)))"
proof -
  define w1 where "w1 = pause (pause w)"
  have n1: "noise w w1" unfolding w1_def using pause_noise noise_trans by blast
  note w1 = noise_fields [OF n1]
  have c1: "calm w w1" using noise_calm [OF n1] .
  define ext :: u8 where "ext = of_char CHR ''s''"
  note rn = rename_current [OF tl_ok_noise [OF n1 ok], unfolded w1(4,6,9)]
  define f1 where "f1 = snd (fs_rename (bytes ''current'') (bytes ''previous'') (fs w))"
  note f1 = rn(2-7) [folded f1_def]
  have R: "tinylog_rotate w = andthen (RETRY (syscall (fs_rename (bytes ''current'') (bytes ''previous''))) w1) (\<lambda>_ w.
      andthen (tinylog_keep w (bytes ''previous'') ext) (\<lambda>_ w.
        andthen (RETRY (syscall (fs_open (bytes ''current''))) w) (\<lambda>fd w.
          andthen (RETRY (syscall (fs_fchmod fd 420)) w) (\<lambda>_ w.
            Some (Ok (), (pause w)\<lparr>fd_current := fd, current_size := 0, flagrotate := 0\<rparr>)))))"
    using size by (simp add: tinylog_rotate_def w1_def ext_def Let_def)
  have stop: ?thesis if "tinylog_rotate w = Some (Exit 111, w')" "keeps w w'" "0 < flagexit w'" for w'
    using that keeps_runs [OF that(2)] by (intro exI [of _ "Exit 111"] exI [of _ w'] exI) (simp add: keeps_def)
  have "fst (fs_rename (bytes ''current'') (bytes ''previous'') (fs w1)) = Inr ()" using rn(1) w1(4) by simp
  then show ?thesis
  proof (cases rule: RETRY_spec)
    case (exit w')
    then show ?thesis using stop [of w'] R calm_keeps [OF calm_trans [OF c1 exit(2)]] by (simp add: andthen_def)
  next
    case (ok w2)
    have c2: "calm w w2" using calm_trans [OF c1 ok(2)] .
    then have w2: "fs w2 = f1" "keep_max w2 = keep_max w" "nclk w2 = nclk w" "clk w2 = clk w" "fn8601 w2 = fn8601 w" "wantzip w2 = wantzip w"
        "length (faults w2) \<le> length (faults w)" "honest w2"
      using ok(3) w1(4) \<open>tl_ok w\<close> honest_keeps [OF _ calm_keeps [OF c2]] by (auto simp: calm_def keeps_def f1_def tl_ok_def log_ok_def)
    have un: "unused ext f1 (clk w) n N = unused ext (fs w) (clk w) n N" if "nclk w \<le> n" for n
    proof -
      have "ino_of f1 (aname ext (clk w k)) = ino_of (fs w) (aname ext (clk w k))" if "nclk w \<le> k" "k < N" for k
        using clk that f1(5) aname_ok(1) [of "clk w k" ext] by (auto simp: clock_ok_def ext_def)
      then show ?thesis using that by (auto simp: unused_def)
    qed
    have t: "\<forall>n. nclk w2 \<le> n \<and> n < N \<longrightarrow> time_ok (clk w2 n)" "length (faults w2) < card (unused ext (fs w2) (clk w2) (nclk w2) N)"
      using clk w2 un [of "nclk w"] by (auto simp: clock_ok_def ext_def)
    have pre: "honest w2" "\<not> wantzip w2" "length (fn8601 w2) = 28" "keep_max w2 < 2 ^ 31" "dir_ok (keep_max w2) (fs w2)"
        "ino_of (fs w2) (bytes ''previous'') = Some (fd_current w)" "nlink (fs w2) (fd_current w) = 1" "\<not> smells (bytes ''previous'')" "ext \<noteq> 0"
      using w2 \<open>tl_ok w\<close> f1 not_smells by (auto simp: tl_ok_def log_ok_def ext_def)
    obtain r w3 k where k: "tinylog_keep w2 (bytes ''previous'') ext = Some (r, w3)" "keeps w2 w3" "nclk w \<le> k" "k < N" "nclk w3 = Suc k"
        "length (fn8601 w3) = 28" "ino_of f1 (aname ext (clk w k)) = None"
        "card (unused ext f1 (clk w) (nclk w) N) + length (faults w3) \<le> card (unused ext f1 (clk w) (Suc k) N) + 1 + length (faults w2)"
        "case r of
           Ok _ \<Rightarrow> fs w3 = prune_fs (keep_max w) (f1\<lparr>dirents := filter (\<lambda>(n, _). n \<noteq> bytes ''previous'') (dirents f1) @ [(aname ext (clk w k), fd_current w)]\<rparr>)
         | Exit e \<Rightarrow> e = 111 \<and> 0 < flagexit w3"
      using tinylog_keep_spec [OF pre t] unfolding w2(1,2,3,4) by blast
    have k3: "keeps w w3" using keeps_trans [OF calm_keeps [OF c2] k(2)] .
    show ?thesis
    proof (cases r)
      case (Exit e)
      then show ?thesis using stop [of w3] R ok(1) k(1,9) k3 by (simp add: andthen_def)
    next
      case r: (Ok x)
      let ?nm = "aname ext (clk w k)"
      have tk: "time_ok (clk w k)" using clk k(3,4) by (simp add: clock_ok_def)
      note nm = aname_ok [OF tk pre(9)]
      have free: "ino_of (fs w) ?nm = None" using k(7) f1(5) [OF nm(1)] by simp
      note f3 = archive_previous [OF \<open>tl_ok w\<close> nm(2,1) free, folded f1_def]
      have w3: "fs w3 = prune_fs (keep_max w) (f1\<lparr>dirents := filter (\<lambda>(n, _). n \<noteq> bytes ''previous'') (dirents f1) @ [(?nm, fd_current w)]\<rparr>)"
        using k(9) r by simp
      note f3 = f3 [folded w3] and g = fs_open_new [OF f3(1,2)]
      from f3(1,2) show ?thesis
      proof (cases rule: reopen_spec)
        case (exit w')
        then show ?thesis using stop [of w'] R ok(1) k(1) r keeps_trans [OF k3 exit(2)] by (simp add: andthen_def)
      next
        case m: (ok v)
        define w' where "w' = v\<lparr>fd_current := next_ino (fs w3), current_size := 0, flagrotate := 0\<rparr>"
        have k5: "keeps w v" using keeps_trans [OF k3 calm_keeps [OF m(2)]] .
        have fs': "fs w' = snd (fs_fchmod (next_ino (fs w3)) 420 (snd (fs_open (bytes ''current'') (fs w3))))"
          using m(3) by (simp add: w'_def)
        have fr: "nclk w' = Suc k" "length (fn8601 w') = 28" "length (faults w') \<le> length (faults w3)" "runs w w'" "logged w' = logged w"
          using m(2) k k5 keeps_runs [OF k5] by (auto simp: w'_def calm_def keeps_def runs_def)
        have "honest w'" using honest_keeps [OF _ k5] \<open>tl_ok w\<close> by (simp add: tl_ok_def log_ok_def honest_def w'_def)
        then have "tl_ok w'"
          using g [folded fs'] fr \<open>tl_ok w\<close> k5 by (simp add: tl_ok_def log_ok_def w'_def keeps_def)
        moreover have "tinylog_rotate w = Some (Ok (), w')" using R ok(1) k(1) r m(1) by (simp add: andthen_def w'_def)
        moreover have "current_log w' = []" using g(5) [folded fs'] by (simp add: current_log_def w'_def)
        moreover have "card (unused ext (fs w) (clk w) (nclk w) N) + length (faults w') \<le> card (unused ext (fs w) (clk w) (Suc k) N) + 1 + length (faults w)"
          using k(3,8) un [of "nclk w"] un [of "Suc k"] w2(7) fr(3) by simp
        moreover have "ino_of (fs w) n \<noteq> None \<or> n = ?nm" if "smells n" "ino_of (fs w') n \<noteq> None" for n
          using f3(4) [OF that(1)] g(7) [of n, folded fs'] that not_smells by auto
        moreover have "current_size w' = 0" "flagrotate w' = 0" "set (faults w') \<subseteq> set (faults w)" using k5 by (simp_all add: w'_def keeps_def)
        ultimately show ?thesis using k(3,4) fr g(6) [folded fs'] f3(3)
          by (intro exI [of _ "Ok ()"] exI [of _ w'] exI [of _ k]) (simp add: ext_def)
      qed
    qed
  qed
qed

end
