(* ===== verification/Tinylog_Log.thy ===== *)
theory Tinylog_Log
  imports Tinylog_Rotate
begin

text \<open>
  Posting lines and the loop of tinylog over its input.  A line that is posted goes whole to one file; the size of a log stays within the limit; the loop logs exactly the
  lines of its input.
\<close>

section \<open>Posting a line\<close>

definition rotated :: "tlog \<Rightarrow> nat \<Rightarrow> tlog \<Rightarrow> bool" where
  "rotated w k w' \<longleftrightarrow> nclk w \<le> k \<and>
     archives (fs w') = prune_archives (keep_max w) (archives (fs w) @ [(aname (of_char CHR ''s'') (clk w k), current_log w)])"

text \<open>\<open>moved_on\<close>: a rotation at reading \<open>k\<close> of the clock; its readings that gave unused names, but for one, went with faults.\<close>

definition moved_on :: "nat \<Rightarrow> tlog \<Rightarrow> nat \<Rightarrow> tlog \<Rightarrow> bool" where
  "moved_on N w k w' \<longleftrightarrow> rotated w k w' \<and> k < N \<and> nclk w' = Suc k \<and>
     card (unused (of_char CHR ''s'') (fs w) (clk w) (nclk w) N) + length (faults w') \<le>
       card (unused (of_char CHR ''s'') (fs w) (clk w) (Suc k) N) + 1 + length (faults w) \<and>
     (\<forall>n. smells n \<longrightarrow> ino_of (fs w') n \<noteq> None \<longrightarrow> ino_of (fs w) n \<noteq> None \<or> n = aname (of_char CHR ''s'') (clk w k))"

text \<open>A rotation is due before a line of \<open>len\<close> bytes: the log has something in it, and SIGHUP has asked for it or the line would bring the log to its limit.\<close>

definition due :: "tlog \<Rightarrow> nat \<Rightarrow> bool" where
  "due w len \<longleftrightarrow> 0 < current_size w \<and> (0 < flagrotate w \<or> current_max w \<le> current_size w + len)"

text \<open>\<open>posted\<close>: a line went to the end of the current log, or, after a rotation if that was due, to the start of a new one.  The request for a rotation is off again unless
  SIGHUP arrives.\<close>

definition hup_free :: "tlog \<Rightarrow> bool" where
  "hup_free w \<longleftrightarrow> (\<forall>(sigs, f)\<in>set (faults w). SIGHUP \<notin> set sigs)"

definition posted :: "nat \<Rightarrow> tlog \<Rightarrow> u8 list \<Rightarrow> tlog \<Rightarrow> bool" where
  "posted N w line w' \<longleftrightarrow> tl_ok w' \<and> logged w' = logged w @ line \<and> current_size w' \<le> current_max w \<and> (hup_free w \<longrightarrow> flagrotate w' = 0) \<and>
     (if due w (length line) then \<exists>k. current_log w' = line \<and> moved_on N w k w'
      else current_log w' = current_log w @ line \<and> archives (fs w') = archives (fs w) \<and> nclk w' = nclk w \<and> ino_of (fs w') = ino_of (fs w))"

lemma sigs_hup: "SIGHUP \<notin> set sigs \<Longrightarrow> flagrotate (fold sig_handler sigs w) = flagrotate w"
  by (induction sigs arbitrary: w) (simp_all add: sig_handler_def)

lemma tick_hup:
  assumes "tick w = (f, w')" and "hup_free w"
  shows "flagrotate w' = flagrotate w" and "hup_free w'"
proof -
  have "set (faults w') \<subseteq> set (faults w)" using noise_fields(16) [OF tick_noise(1) [OF assms(1)]] .
  then show "hup_free w'" using assms(2) by (auto simp: hup_free_def)
  show "flagrotate w' = flagrotate w"
    using assms sigs_hup by (cases "faults w") (auto simp: tick_def hup_free_def split: if_splits)
qed

lemma pause_hup: "hup_free w \<Longrightarrow> flagrotate (pause w) = flagrotate w \<and> hup_free (pause w)"
  using tick_hup by (cases "tick w") (simp add: pause_def)

lemma sys_write_hup:
  assumes "sys_write w bs = (r, w')" and "hup_free w"
  shows "flagrotate w' = flagrotate w \<and> hup_free w'"
proof -
  obtain f v where t: "tick w = (f, v)" by fastforce
  have "flagrotate w' = flagrotate v \<and> faults w' = faults v" using assms(1) t by (auto simp: sys_write_def Let_def split: fault.splits)
  then show ?thesis using tick_hup [OF t assms(2)] by (simp add: hup_free_def)
qed

lemma tl_write_all_hup:
  assumes "tl_write_all w bs = Some w'" and "hup_free w"
  shows "flagrotate w' = flagrotate w"
proof -
  have "hup_free w \<longrightarrow> flagrotate y = flagrotate w" if "tl_write_all w bs = Some y" for w bs y
    using _ that
  proof (rule tl_write_all.raw_induct [where P = "\<lambda>w bs y. hup_free w \<longrightarrow> flagrotate y = flagrotate w"])
    fix f w bs y
    assume IH: "\<And>w bs y. f w bs = Some y \<Longrightarrow> hup_free w \<longrightarrow> flagrotate y = flagrotate w"
      and e: "(if bs = [] then Some w
        else case sys_write w bs of
               (Inl e, w) \<Rightarrow> f (if e \<noteq> EINTR then pause w else w) bs
             | (Inr k, w) \<Rightarrow> f w (drop k bs)) = Some y"
    show "hup_free w \<longrightarrow> flagrotate y = flagrotate w"
    proof (cases "bs = []")
      case False
      obtain r v where s: "sys_write w bs = (r, v)" by fastforce
      have "\<exists>v' cs. f v' cs = Some y \<and> (v' = v \<or> v' = pause v)" using e False s by (auto split: sum.splits if_splits)
      then obtain v' cs where v': "f v' cs = Some y" "v' = v \<or> v' = pause v" by blast
      show ?thesis using IH [OF v'(1)] v'(2) sys_write_hup [OF s] pause_hup by auto
    qed (use e in simp)
  qed
  then show ?thesis using assms by blast
qed

text \<open>\<open>appended\<close>: the line went to the end of the current log, and nothing else changed in the directory.\<close>

definition appended :: "tlog \<Rightarrow> u8 list \<Rightarrow> tlog \<Rightarrow> bool" where
  "appended u bs w \<longleftrightarrow> tl_ok w \<and> runs u w \<and> logged w = logged u @ bs \<and> current_log w = current_log u @ bs \<and> archives (fs w) = archives (fs u) \<and>
     ino_of (fs w) = ino_of (fs u) \<and> nclk w = nclk u \<and> current_size w = current_size u + length bs \<and> (hup_free u \<longrightarrow> flagrotate w = flagrotate u)"

lemma append_tl_ok:
  assumes "tl_ok w" and "noise w v" and "current_size w + length bs < 2 ^ 64"
  defines "w' \<equiv> v\<lparr>fs := fs_append (fd_current w) bs (fs w), logged := logged w @ bs, current_size := size_add (current_size w) (length bs)\<rparr>"
  shows "tl_ok w'" "runs w w'" "logged w' = logged w @ bs" "current_log w' = current_log w @ bs" "archives (fs w') = archives (fs w)"
    "ino_of (fs w') = ino_of (fs w)" "nclk w' = nclk w" "current_size w' = current_size w + length bs" "current_max w' = current_max w"
proof -
  note f = noise_fields [OF assms(2)]
  let ?c = "fd_current w"
  have D: "dirents (fs w') = dirents (fs w)" "next_ino (fs w') = next_ino (fs w)"
    "inodes (fs w') i = (if i = ?c then inodes (fs w) ?c\<lparr>i_data := i_data (inodes (fs w) ?c) @ bs\<rparr> else inodes (fs w) i)" for i
    by (auto simp: w'_def fs_append_def)
  show ino': "ino_of (fs w') = ino_of (fs w)" by (rule ext) (simp add: ino_of_def D)
  show "current_size w' = current_size w + length bs" using assms(3) by (simp add: w'_def)
  have c: "fd_current w' = ?c" using f by (simp add: w'_def)
  have "honest w'" using assms(1) honest_keeps [OF _ calm_keeps [OF noise_calm [OF assms(2)]]] by (simp add: tl_ok_def log_ok_def w'_def honest_def)
  then show "tl_ok w'"
    using assms(1,3) f ino' by (simp add: tl_ok_def log_ok_def dir_ok_def arch_names_def D c) (simp add: w'_def)
  show "runs w w'" using f by (simp add: runs_def w'_def)
  show "logged w' = logged w @ bs" "nclk w' = nclk w" "current_max w' = current_max w" using f by (simp_all add: w'_def)
  show "current_log w' = current_log w @ bs" by (simp add: current_log_def D c)
  have "i \<noteq> ?c" if "(n, i) \<in> set (dirents (fs w))" "smells n" for n i
    using assms(1) that not_smells by (auto simp: tl_ok_def log_ok_def)
  then show "archives (fs w') = archives (fs w)" by (auto simp: archives_def D)
qed

lemma runs_trans: "runs u v \<Longrightarrow> runs v w \<Longrightarrow> runs u w"
  by (auto simp: runs_def)

text \<open>The first part of \<open>tinylog_post\<close>.\<close>

definition make_room :: "tlog \<Rightarrow> nat \<Rightarrow> (unit outcome \<times> tlog) option" where
  "make_room w len = (if flagrotate w > 0 \<or> current_size w \<ge> size_sub (current_max w) len then tinylog_rotate w else Some (Ok (), w))"

lemma post_write:
  assumes "make_room w len = Some (Ok (), u)" and "len \<le> length logline" and "tl_ok u" and "current_size u + len < 2 ^ 64"
  obtains w' where "tinylog_post w logline len = Some (Ok (), w')" "appended u (take len logline) w'"
proof -
  let ?line = "take len logline"
  obtain v where v: "tl_write_all u ?line = Some (v\<lparr>fs := fs_append (fd_current u) ?line (fs u), logged := logged u @ ?line\<rparr>)" "noise u v"
    using tl_write_all_spec [of u ?line] by blast
  have l: "length ?line = len" using assms(2) by simp
  define w' where "w' = v\<lparr>fs := fs_append (fd_current u) ?line (fs u), logged := logged u @ ?line, current_size := size_add (current_size u) len\<rparr>"
  note a = append_tl_ok [OF assms(3) v(2), of ?line, unfolded l, OF assms(4), folded w'_def]
  have "tinylog_post w logline len = Some (Ok (), w')"
    using assms(2) v(1) noise_fields(7) [OF v(2)] by (simp add: tinylog_post_def andthen_def assms(1) w'_def flip: make_room_def)
  moreover have "hup_free u \<longrightarrow> flagrotate w' = flagrotate u" using tl_write_all_hup [OF v(1)] by (simp add: w'_def)
  then have "appended u ?line w'" unfolding appended_def l by (intro conjI a)
  ultimately show ?thesis by (rule that)
qed

lemma tinylog_post_spec:
  assumes ok: "tl_ok w" and clk: "clock_ok N w" and len: "len \<le> LOGLINE_MAX + 1" "len \<le> length logline"
  shows "\<exists>r w'. tinylog_post w logline len = Some (r, w') \<and> runs w w' \<and>
    (case r of Ok _ \<Rightarrow> posted N w (take len logline) w' | Exit e \<Rightarrow> e = 111 \<and> 0 < flagexit w' \<and> logged w' = logged w \<and> due w len)"
proof -
  have cm: "2000 \<le> current_max w" "current_max w < 2 ^ 32" using ok by (auto simp: tl_ok_def log_ok_def LOGLINE_MAX_def)
  have len': "len \<le> 1001" using len(1) by (simp add: LOGLINE_MAX_def)
  have sub: "size_sub (current_max w) len = current_max w - len" using cm len' by simp
  have ln: "length (take len logline) = len" using len(2) by simp
  have stay: ?thesis if r: "make_room w len = Some (Ok (), u)" and u: "u = w\<lparr>flagrotate := 0\<rparr>" "current_size w + len \<le> current_max w" "\<not> due w len" for u
  proof -
    have k: "tl_ok u" "runs w u" "current_size u + len < 2 ^ 64" "current_log u = current_log w" "hup_free u \<longleftrightarrow> hup_free w"
      using ok cm u by (auto simp: tl_ok_def log_ok_def runs_def honest_def current_log_def hup_free_def)
    obtain w' where w': "tinylog_post w logline len = Some (Ok (), w')" "appended u (take len logline) w'"
      by (rule post_write [OF r len(2) k(1,3)])
    have "posted N w (take len logline) w'" using w'(2) u k(4,5) ln by (simp add: posted_def appended_def)
    moreover have "runs u w'" using w'(2) by (simp add: appended_def)
    ultimately show ?thesis using runs_trans [OF k(2)] w'(1) by (intro exI [of _ "Ok ()"] exI [of _ w']) simp
  qed
  consider (no) "make_room w len = Some (Ok (), w)" "current_size w < current_max w - len" "flagrotate w = 0"
    | (empty) "make_room w len = tinylog_rotate w" "current_size w = 0"
    | (rotate) "make_room w len = tinylog_rotate w" "0 < current_size w" "due w len"
    using sub by (cases "flagrotate w > 0 \<or> current_size w \<ge> current_max w - len"; cases "current_size w = 0") (auto simp: make_room_def due_def le_diff_conv)
  then show ?thesis
  proof cases
    case no
    then have "w = w\<lparr>flagrotate := 0\<rparr>" "current_size w + len < current_max w" by simp_all
    then show ?thesis using stay [of w] no by (simp add: due_def)
  next
    case empty
    then show ?thesis using stay [of "w\<lparr>flagrotate := 0\<rparr>"] cm len' by (simp add: tinylog_rotate_def due_def)
  next
    case rotate
    obtain r u k where R: "tinylog_rotate w = Some (r, u)" "runs w u" "logged u = logged w"
      and c: "case r of
       Exit e \<Rightarrow> e = 111 \<and> 0 < flagexit u
     | Ok _ \<Rightarrow> tl_ok u \<and> flagrotate u = 0 \<and> set (faults u) \<subseteq> set (faults w) \<and> current_size u = 0 \<and> current_log u = [] \<and> nclk w \<le> k \<and> k < N \<and> nclk u = Suc k \<and>
         archives (fs u) = prune_archives (keep_max w) (archives (fs w) @ [(aname (of_char CHR ''s'') (clk w k), current_log w)]) \<and>
         card (unused (of_char CHR ''s'') (fs w) (clk w) (nclk w) N) + length (faults u) \<le>
           card (unused (of_char CHR ''s'') (fs w) (clk w) (Suc k) N) + 1 + length (faults w) \<and>
         (\<forall>n. smells n \<longrightarrow> ino_of (fs u) n \<noteq> None \<longrightarrow> ino_of (fs w) n \<noteq> None \<or> n = aname (of_char CHR ''s'') (clk w k))"
      using tinylog_rotate_spec [OF ok rotate(2) clk] by (elim exE conjE)
    show ?thesis
    proof (cases r)
      case (Exit e)
      then show ?thesis using R c rotate(1,3) len(2) by (simp add: tinylog_post_def andthen_def flip: make_room_def)
    next
      case (Ok x)
      then have u: "tl_ok u" "current_size u = 0" "current_log u = []" "moved_on N w k u" "make_room w len = Some (Ok (), u)" "flagrotate u = 0"
        "set (faults u) \<subseteq> set (faults w)"
        using R c rotate(1) by (simp_all add: moved_on_def rotated_def)
      then have hf: "hup_free w \<longrightarrow> hup_free u" by (auto simp: hup_free_def)
      have "current_size u + len < 2 ^ 64" using u(2) len' by simp
      then obtain w' where w': "tinylog_post w logline len = Some (Ok (), w')" "appended u (take len logline) w'"
        by (rule post_write [OF u(5) len(2) u(1)])
      then have a: "runs u w'" "archives (fs w') = archives (fs u)" "ino_of (fs w') = ino_of (fs u)" "nclk w' = nclk u"
        "length (faults w') \<le> length (faults u)" by (simp_all add: appended_def runs_def)
      then have "moved_on N w k w'" using u(4) by (auto simp: moved_on_def rotated_def)
      then have "posted N w (take len logline) w'" using w'(2) u(2,3,6) hf R(3) len' cm rotate(3) ln by (auto simp: posted_def appended_def)
      then show ?thesis using w'(1) runs_trans [OF R(2) a(1)] by (intro exI [of _ "Ok ()"] exI [of _ w']) simp
    qed
  qed
qed

text \<open>C27: Posting a line, rotation included, for a logger without \<open>-z\<close> whose directory has at most \<open>keep_max\<close> archives, with unused names for archives left.
  \<open>tinylog_post\<close> returns; it has written the line whole.  If the log is not empty and SIGHUP has asked for a rotation or the line would bring the log to its limit, the
  current log has become an archive named by the time, at most \<open>keep_max\<close> archives are kept, the oldest removed, and the line is the start of a new log; otherwise the line is at the end
  of the current log and the archives are as before.  The request for a rotation is off again unless SIGHUP arrives; the current log stays within its limit, and the
  directory remains well formed.  Only in a rotation that was due, and after SIGTERM, does it end the program, with nothing of the line written.\<close>

theorem tinylog_post_keeps:
  assumes "log_ok w" and "\<not> wantzip w" and "clock_ok N w" and "len \<le> LOGLINE_MAX + 1" and "len \<le> length logline"
  shows "\<exists>r w'. tinylog_post w logline len = Some (r, w') \<and>
    (case r of
       Exit e \<Rightarrow> e = 111 \<and> 0 < flagexit w' \<and> logged w' = logged w \<and> due w len
     | Ok _ \<Rightarrow> log_ok w' \<and> \<not> wantzip w' \<and> logged w' = logged w @ take len logline \<and> current_size w' \<le> current_max w \<and>
         (hup_free w \<longrightarrow> flagrotate w' = 0) \<and>
         (if due w len then \<exists>k. current_log w' = take len logline \<and> rotated w k w'
          else current_log w' = current_log w @ take len logline \<and> archives (fs w') = archives (fs w)))"
proof -
  have ok: "tl_ok w" using assms(1,2) by (simp add: tl_ok_def)
  obtain r w' where "tinylog_post w logline len = Some (r, w')"
    "case r of Ok _ \<Rightarrow> posted N w (take len logline) w' | Exit e \<Rightarrow> e = 111 \<and> 0 < flagexit w' \<and> logged w' = logged w \<and> due w len"
    using tinylog_post_spec [OF ok assms(3-5)] by (elim exE conjE)
  moreover have "length (take len logline) = len" using assms(5) by simp
  ultimately show ?thesis by (intro exI [of _ r] exI [of _ w'] conjI) (auto simp: posted_def moved_on_def tl_ok_def split: outcome.splits if_splits)
qed

definition tlog0 :: tlog where
  "tlog0 = \<lparr>faults = [([], Fail 5)], flagexit = 0, flagrotate = 1, blocked = False, pending = [], stdin = \<lparr>in_events = [], in_got = []\<rparr>,
     clk = (\<lambda>n. (word_of_nat n, 7)), nclk = 0,
     fs = \<lparr>dirents = [(bytes ''current'', 0)], inodes = (\<lambda>_. \<lparr>i_data = [104, 10], i_mode = 420\<rparr>), next_ino = 1\<rparr>,
     logged = [104, 10], fd_current = 0, current_size = 2, current_max = 2000, keep_max = 5, wantstamp = False, wantzip = False,
     fn8601 = replicate 28 0, os_gzip = (\<lambda>x. (0, x))\<rparr>"

theorem tinylog_post_keeps_witness:
  "\<exists>r w'. tinylog_post tlog0 [105, 10] 2 = Some (r, w') \<and>
    (case r of
       Exit e \<Rightarrow> e = 111 \<and> 0 < flagexit w' \<and> logged w' = [104, 10]
     | Ok _ \<Rightarrow> log_ok w' \<and> \<not> wantzip w' \<and> logged w' = [104, 10, 105, 10] \<and> current_size w' \<le> 2000 \<and> flagrotate w' = 0 \<and>
         (\<exists>k. current_log w' = [105, 10] \<and> rotated tlog0 k w'))"
proof -
  have t: "logged tlog0 = [104, 10]" "current_max tlog0 = 2000" "current_log tlog0 = [104, 10]" "clk tlog0 n = (word_of_nat n, 7)" "nclk tlog0 = 0"
    "length (faults tlog0) = 1" "dirents (fs tlog0) = [(bytes ''current'', 0)]" for n
    by (simp_all add: tlog0_def current_log_def)
  have d: "due tlog0 2" "hup_free tlog0" by (simp_all add: due_def hup_free_def tlog0_def)
  have ok: "log_ok tlog0" "\<not> wantzip tlog0"
    by (simp_all add: log_ok_def dir_ok_def arch_names_def honest_def name_ok_def smells_def ino_of_def LOGLINE_MAX_def tlog0_def ENOENT_def bytes_def)
  have "{0, 1} \<subseteq> unused (of_char CHR ''s'') (fs tlog0) (clk tlog0) 0 2"
    by (auto simp: unused_def ino_of_def t aname_def bytes_def)
  from card_mono [OF finite_unused this] have "1 < card (unused (of_char CHR ''s'') (fs tlog0) (clk tlog0) 0 2)" by simp
  moreover have "time_ok (clk tlog0 n)" if "n < 2" for n
    using that by (cases "n = 0") (auto simp: t time_ok_def less_2_cases_iff)
  ultimately have c: "clock_ok 2 tlog0" by (simp add: clock_ok_def t)
  have "2 \<le> LOGLINE_MAX + 1" "2 \<le> length [105 :: u8, 10]" by (simp_all add: LOGLINE_MAX_def)
  from tinylog_post_keeps [OF ok c this] obtain r w' where "tinylog_post tlog0 [105, 10] 2 = Some (r, w')"
    "case r of
       Exit e \<Rightarrow> e = 111 \<and> 0 < flagexit w' \<and> logged w' = logged tlog0 \<and> due tlog0 2
     | Ok _ \<Rightarrow> log_ok w' \<and> \<not> wantzip w' \<and> logged w' = logged tlog0 @ take 2 [105, 10] \<and> current_size w' \<le> current_max tlog0 \<and>
         (hup_free tlog0 \<longrightarrow> flagrotate w' = 0) \<and>
         (if due tlog0 2 then \<exists>k. current_log w' = take 2 [105, 10] \<and> rotated tlog0 k w'
          else current_log w' = current_log tlog0 @ take 2 [105, 10] \<and> archives (fs w') = archives (fs tlog0))" by (elim exE conjE)
  then show ?thesis by (intro exI [of _ r] exI [of _ w'] conjI) (simp_all add: t d cong: outcome.case_cong)
qed

end
