(* ===== verification/Tinylog_Run.thy ===== *)
theory Tinylog_Run
  imports Tinylog_Log
begin

text \<open>
  The loop of tinylog over its input (\<open>do_log\<close>): what it logs is the lines of what it read.
\<close>

section \<open>What a queue keeps of its descriptor\<close>

text \<open>A source whose operation respects a preorder on its states: so do the calls of the queue, and the end of the stream is that of the last call.\<close>

locale tracked = source op got credit
  for op :: "'s reader" and got :: "'s \<Rightarrow> u8 list" and credit :: "'s \<Rightarrow> nat" +
  fixes R :: "'s \<Rightarrow> 's \<Rightarrow> bool"
  assumes R_refl: "R s s"
    and R_trans: "R s t \<Longrightarrow> R t u \<Longrightarrow> R s u"
    and R_step: "op s want = (r, s') \<Longrightarrow> R s s'"
begin

definition ended :: "'s \<Rightarrow> 's \<Rightarrow> bool" where
  "ended s s' \<longleftrightarrow> (\<exists>t want. R s t \<and> 0 < want \<and> op t want = (Inr [], s'))"

lemma read_once_tracked:
  "read_once op s b want = Some (r, b', s') \<Longrightarrow> R s s' \<and> (r = Inr 0 \<and> 0 < want \<longrightarrow> ended s s')"
proof (induction "credit s" arbitrary: s rule: less_induct)
  case less
  obtain x t where o: "op s want = (x, t)" by fastforce
  note st = R_step [OF o]
  show ?case
  proof (cases "x = Inl EINTR")
    case True
    then have "read_once op t b want = Some (r, b', s')"
      using less.prems o by (subst (asm) read_once.simps) simp
    moreover have "credit t < credit s" using read_intr o True by simp
    ultimately show ?thesis using less.hyps [of t] R_trans [OF st] unfolding ended_def by blast
  next
    case False
    have "s' = t \<and> (r = Inr 0 \<longrightarrow> x = Inr [])"
      using less.prems o False by (subst (asm) read_once.simps) (auto split: sum.splits if_splits bind_splits)
    then show ?thesis using st o R_refl by (auto simp: ended_def)
  qed
qed

lemma ioq_feed_tracked:
  assumes "ioq_feed op s q = Some (r, q', s')" and "q_p q = 0" and "0 < q_n q"
  shows "R s s' \<and> (r = Inr 0 \<longrightarrow> ended s s')"
proof -
  obtain x b t where ro: "read_once op s (q_buf q) (q_n q) = Some (x, b, t)"
    using assms(1,2) by (auto simp: ioq_feed_def split: bind_splits)
  have "s' = t \<and> (r = Inr 0 \<longrightarrow> x = Inr 0)"
    using assms(1,2) ro by (auto simp: ioq_feed_def Let_def split: sum.splits if_splits bind_splits)
  then show ?thesis using read_once_tracked [OF ro] assms(3) by auto
qed

lemma ioq_get_tracked:
  assumes "ioq_get op s q data len = Some (r, data', q', s')" and "0 < len"
  shows "R s s' \<and> (r = Inr 0 \<longrightarrow> q_p q > 0 \<or> ended s s')"
proof -
  consider "q_p q > 0" | "q_p q = 0" "q_n q \<le> len" | "q_p q = 0" "len < q_n q" by linarith
  then show ?thesis
  proof cases
    case 1
    then have "s' = s" using assms(1) by (auto simp: ioq_get_def split: bind_splits)
    then show ?thesis using R_refl 1 by simp
  next
    case 2
    then have "read_once op s data len = Some (r, data', s')" using assms(1) by (auto simp: ioq_get_def split: bind_splits)
    from read_once_tracked [OF this] show ?thesis using assms(2) by auto
  next
    case 3
    then obtain x q1 t where f: "ioq_feed op s q = Some (x, q1, t)" using assms(1) by (auto simp: ioq_get_def split: bind_splits)
    have s: "s' = t" using assms(1) 3 f by (auto simp: ioq_get_def split: bind_splits sum.splits if_splits)
    have "r = Inr 0 \<Longrightarrow> x = Inr 0"
    proof -
      assume r: "r = Inr 0"
      show "x = Inr 0"
      proof (rule ccontr)
        assume "x \<noteq> Inr 0"
        then obtain k where k: "x = Inr k" "0 < k" using assms(1) 3 f r by (cases x) (auto simp: ioq_get_def)
        then have "q_p q1 = k" using f 3(1) by (auto simp: ioq_feed_def Let_def split: bind_splits sum.splits if_splits)
        then show False using assms 3 f k r by (auto simp: ioq_get_def ioq_extract_def Let_def split: bind_splits if_splits)
      qed
    qed
    then show ?thesis using ioq_feed_tracked [OF f 3(1)] 3 s by auto
  qed
qed

lemma ioq_GETC_tracked:
  assumes "ioq_GETC op s q c = Some (r, c', q', s')"
  shows "R s s' \<and> (r = Inr 0 \<longrightarrow> ended s s')"
proof (cases "q_p q > 0")
  case True
  then show ?thesis using assms R_refl by (auto simp: ioq_GETC_def split: bind_splits)
next
  case False
  then obtain data where "ioq_get op s q [c] 1 = Some (r, data, q', s')"
    using assms by (auto simp: ioq_GETC_def split: bind_splits)
  from ioq_get_tracked [OF this] show ?thesis using False by simp
qed

end

section \<open>Reading standard input\<close>

definition in_data :: "fd_in \<Rightarrow> u8 list" where
  "in_data s = concat (map (\<lambda>e. case e of Rd_data bs \<Rightarrow> bs | _ \<Rightarrow> []) (in_events s))"

text \<open>\<open>steady\<close>: no error and no end before the last byte.\<close>

definition steady :: "fd_in \<Rightarrow> bool" where
  "steady s \<longleftrightarrow> (\<forall>e\<in>set (in_events s). \<exists>bs. e = Rd_data bs \<and> bs \<noteq> [])"

lemma fd_read_conserves:
  assumes "fd_read s want = (r, s')"
  shows "in_got s' @ in_data s' = in_got s @ in_data s" "steady s \<Longrightarrow> steady s'"
    "r = Inr [] \<Longrightarrow> 0 < want \<Longrightarrow> steady s \<Longrightarrow> in_data s' = []"
  using assms by (auto simp: fd_read.simps in_data_def steady_def Let_def split: list.splits read_event.splits if_splits)

text \<open>\<open>reads\<close>: the state after some calls of \<open>read()\<close>.\<close>

definition reads :: "tlog \<Rightarrow> tlog \<Rightarrow> bool" where
  "reads w w' \<longleftrightarrow> (\<exists>v s. noise w v \<and> w' = v\<lparr>stdin := s\<rparr> \<and> in_got s @ in_data s = in_got (stdin w) @ in_data (stdin w) \<and> (steady (stdin w) \<longrightarrow> steady s))"

lemma noise_stdin: "noise (v\<lparr>stdin := s\<rparr>) u \<Longrightarrow> noise v (u\<lparr>stdin := stdin v\<rparr>)"
  unfolding noise_def by (elim exE, simp) blast

lemma reads_refl: "reads w w"
  unfolding reads_def by (intro exI [of _ w] exI [of _ "stdin w"]) simp

lemma reads_trans:
  assumes "reads u v" and "reads v w"
  shows "reads u w"
proof -
  obtain v' s where v: "noise u v'" "v = v'\<lparr>stdin := s\<rparr>" "in_got s @ in_data s = in_got (stdin u) @ in_data (stdin u)" "steady (stdin u) \<longrightarrow> steady s"
    using assms(1) by (auto simp: reads_def)
  obtain w' t where w: "noise v w'" "w = w'\<lparr>stdin := t\<rparr>" "in_got t @ in_data t = in_got s @ in_data s" "steady s \<longrightarrow> steady t"
    using assms(2) v(2) by (auto simp: reads_def)
  have "noise u (w'\<lparr>stdin := stdin v'\<rparr>)" using noise_trans [OF v(1) noise_stdin] w(1) v(2) by simp
  moreover have "w = w'\<lparr>stdin := stdin v'\<rparr>\<lparr>stdin := t\<rparr>" using w(2) by simp
  ultimately show ?thesis using v(3,4) w(3,4) unfolding reads_def by metis
qed

lemma sys_read_reads:
  assumes "sys_read w want = (r, w')"
  shows "reads w w'" "r = Inr [] \<Longrightarrow> 0 < want \<Longrightarrow> steady (stdin w) \<Longrightarrow> in_data (stdin w') = []"
    "r = Inr bs \<Longrightarrow> length bs \<le> want \<and> in_got (stdin w') = in_got (stdin w) @ bs" "r = Inl e \<Longrightarrow> in_got (stdin w') = in_got (stdin w)"
proof -
  obtain f v where t: "tick w = (f, v)" by fastforce
  note n = tick_noise(1) [OF t]
  have v: "stdin v = stdin w" using noise_fields [OF n] by simp
  have *: "reads w w' \<and> (r = Inr [] \<longrightarrow> 0 < want \<longrightarrow> steady (stdin w) \<longrightarrow> in_data (stdin w') = []) \<and>
      (\<forall>bs. r = Inr bs \<longrightarrow> length bs \<le> want \<and> in_got (stdin w') = in_got (stdin w) @ bs) \<and> (\<forall>e. r = Inl e \<longrightarrow> in_got (stdin w') = in_got (stdin w))"
  proof (cases "\<exists>x. f = Fail x")
    case True
    then have "w' = v" "\<exists>x. r = Inl x" using assms t by (auto simp: sys_read_def)
    then show ?thesis using n v unfolding reads_def by (auto intro!: exI [of _ v] exI [of _ "stdin w"])
  next
    case False
    obtain y s where y: "fd_read (stdin w) want = (y, s)" by fastforce
    then have r: "r = y" "w' = v\<lparr>stdin := s\<rparr>"
      using assms t False v by (auto simp: sys_read_def split: fault.splits)
    have "reads w w'" using n r fd_read_conserves [OF y] unfolding reads_def by blast
    then show ?thesis using r fd_read_conserves [OF y] y fdr.read_data fdr.read_fail by auto
  qed
  then show "reads w w'" "r = Inr [] \<Longrightarrow> 0 < want \<Longrightarrow> steady (stdin w) \<Longrightarrow> in_data (stdin w') = []"
    "r = Inr bs \<Longrightarrow> length bs \<le> want \<and> in_got (stdin w') = in_got (stdin w) @ bs" "r = Inl e \<Longrightarrow> in_got (stdin w') = in_got (stdin w)"
    by blast+
qed

lemma read_op_reads:
  "read_op w want = (r, w') \<Longrightarrow> reads w w' \<and>
     (r = Inr [] \<longrightarrow> 0 < want \<longrightarrow> steady (stdin w) \<longrightarrow> 0 < flagexit w' \<or> in_data (stdin w') = []) \<and>
     (\<forall>bs. r = Inr bs \<longrightarrow> length bs \<le> want \<and> in_got (stdin w') = in_got (stdin w) @ bs) \<and>
     (\<forall>e. r = Inl e \<longrightarrow> e \<noteq> EINTR \<and> in_got (stdin w') = in_got (stdin w))"
proof (induction w want rule: read_op.induct)
  case (1 w want)
  show ?case
  proof (cases "flagexit w > 0")
    case True
    then have "r = Inr []" "w' = w" using "1.prems" by (auto simp: read_op.simps)
    then show ?thesis using True reads_refl by simp
  next
    case False
    obtain y v where y: "sys_read w want = (y, v)" by fastforce
    note s = sys_read_reads [OF y]
    show ?thesis
    proof (cases "y = Inl EINTR")
      case True
      then have r: "read_op v want = (r, w')" using "1.prems" y False by (subst (asm) read_op.simps) simp
      have g: "in_got (stdin v) = in_got (stdin w)" "steady (stdin w) \<longrightarrow> steady (stdin v)" using s(1,4) True by (auto simp: reads_def)
      from "1.IH" [OF False y [symmetric] True refl r] g reads_trans [OF s(1)] show ?thesis by (simp add: cong: conj_cong)
    next
      case False
      then have "r = y \<and> w' = v" using "1.prems" y \<open>\<not> flagexit w > 0\<close> by (subst (asm) read_op.simps) (auto split: sum.splits if_splits)
      then show ?thesis using s False by auto
    qed
  qed
qed

interpretation tin: tracked read_op "\<lambda>w. in_got (stdin w)" "\<lambda>_. 0" reads
  by unfold_locales (blast dest: read_op_reads intro: reads_refl reads_trans)+

text \<open>What is still to come: the bytes in the queue and those of standard input.\<close>

definition stream :: "tlog \<Rightarrow> ioq \<Rightarrow> u8 list" where
  "stream w q = unread_bytes q @ in_data (stdin w)"

lemma reads_stream:
  assumes "reads w w'" and "in_got (stdin w') = in_got (stdin w) @ new"
  shows "in_data (stdin w) = new @ in_data (stdin w')"
  using assms by (auto simp: reads_def)

lemma reads_steady: "reads w w' \<Longrightarrow> steady (stdin w) \<Longrightarrow> steady (stdin w')"
  by (auto simp: reads_def)

lemma getc_cases:
  assumes "in_ok q"
  obtains (byte) c' q' w' where "ioq_GETC read_op w q c = Some (Inr 1, c', q', w')" "in_ok q'" "reads w w'" "stream w q = c' # stream w' q'"
    | (eof) q' w' where "ioq_GETC read_op w q c = Some (Inr 0, c, q', w')" "in_ok q'" "reads w w'" "stream w q = stream w' q'"
        "steady (stdin w) \<longrightarrow> 0 < flagexit w' \<or> stream w' q' = []"
    | (error) e q' w' where "ioq_GETC read_op w q c = Some (Inl e, c, q', w')" "in_ok q'" "reads w w'" "stream w q = stream w' q'"
  using assms
proof (cases rule: tin.ioq_GETC_spec [of q w c])
  case b: (byte c' q' w' new)
  have "reads w w'" using tin.ioq_GETC_tracked [OF b(1)] by simp
  then show ?thesis using byte [OF b(1,2)] b(4) reads_stream [OF _ b(3)] by (simp add: stream_def)
next
  case e: (eof q' w')
  have r: "reads w w'" "tin.ended w w'" using tin.ioq_GETC_tracked [OF e(1)] by simp_all
  have d: "in_data (stdin w) = in_data (stdin w')" using reads_stream [OF r(1), of "[]"] e(3) by simp
  have "steady (stdin w) \<longrightarrow> 0 < flagexit w' \<or> in_data (stdin w') = []"
    using r(2) read_op_reads reads_steady unfolding tin.ended_def by blast
  then show ?thesis using eof [OF e(1,2) r(1)] d e(4,5) by (simp add: stream_def)
next
  case e: (error x q' w')
  have r: "reads w w'" using tin.ioq_GETC_tracked [OF e(1)] by simp
  then show ?thesis using error [OF e(1,2) r] e(3-5) reads_stream [OF r, of "[]"] by (simp add: stream_def)
qed

section \<open>One line\<close>

definition clean :: "u8 \<Rightarrow> u8" where
  "clean c = (if sint c < 32 \<and> c \<noteq> 9 then of_char CHR ''?'' else c)"

definition got_line :: "tlog \<Rightarrow> ioq \<Rightarrow> buffer \<Rightarrow> nat \<Rightarrow> u8 list \<Rightarrow> (int + nat) \<times> u8 \<times> buffer \<times> nat \<times> ioq \<times> tlog \<Rightarrow> bool" where
  "got_line w q logline len seg = (\<lambda>(r, c', logline', len', q', w').
     in_ok q' \<and> reads w w' \<and> 10 \<notin> set seg \<and> stream w q = seg @ (if r = Inr 1 then 10 # stream w' q' else stream w' q') \<and>
     length logline' = length logline \<and> len' = len + min (length seg) (LOGLINE_MAX - len) \<and>
     take len' logline' = take len logline @ take (LOGLINE_MAX - len) (map clean seg) \<and>
     (\<forall>k. r = Inr k \<longrightarrow> k = 1 \<or> k = 0 \<and> (steady (stdin w) \<longrightarrow> 0 < flagexit w' \<or> stream w' q' = [])))"

lemma get_line_spec:
  assumes "in_ok q" and "len \<le> LOGLINE_MAX" and "LOGLINE_MAX < length logline"
  shows "\<exists>res seg. get_line w q c logline len = Some res \<and> got_line w q logline len seg res"
  using assms
proof (induction "length (stream w q)" arbitrary: w q c logline len rule: less_induct)
  case less
  from less.prems(1) show ?case
  proof (cases rule: getc_cases [of q w c])
    case (byte c' q' w')
    show ?thesis
    proof (cases "c' = 10")
      case True
      then have "get_line w q c logline len = Some (Inr 1, c', logline, len, q', w')" using byte by (subst get_line.simps) simp
      moreover have "got_line w q logline len [] (Inr 1, c', logline, len, q', w')" using byte True by (simp add: got_line_def)
      ultimately show ?thesis by blast
    next
      case False
      have l: "length (stream w' q') < length (stream w q)" using byte by simp
      show ?thesis
      proof (cases "len < LOGLINE_MAX")
        case True
        let ?b = "logline[len := clean c']"
        have g: "get_line w q c logline len = get_line w' q' (clean c') ?b (len + 1)"
          using byte(1) False True less.prems(3) by (subst get_line.simps) (simp add: clean_def wr_def Let_def)
        from less.hyps [OF l byte(2), of "len + 1" ?b "clean c'"] True less.prems(3)
        obtain res seg where r: "get_line w' q' (clean c') ?b (len + 1) = Some res" "got_line w' q' ?b (len + 1) seg res" by auto
        have "take (Suc len) ?b = take len logline @ [clean c']" using True less.prems(3) by (simp add: take_Suc_conv_app_nth)
        moreover have "LOGLINE_MAX - len = Suc (LOGLINE_MAX - Suc len)" using True by simp
        ultimately have "got_line w q logline len (c' # seg) res"
          using r(2) byte False reads_trans [OF byte(3)] reads_steady [OF byte(3)] unfolding got_line_def by (auto split: prod.splits)
        then show ?thesis using g r(1) by auto
      next
        case F: False
        then have g: "get_line w q c logline len = get_line w' q' c' logline len"
          using byte(1) False by (subst get_line.simps) simp
        from less.hyps [OF l byte(2) less.prems(2,3), of c']
        obtain res seg where r: "get_line w' q' c' logline len = Some res" "got_line w' q' logline len seg res" by blast
        have "LOGLINE_MAX - len = 0" using F by simp
        then have "got_line w q logline len (c' # seg) res"
          using r(2) byte False reads_trans [OF byte(3)] reads_steady [OF byte(3)] unfolding got_line_def by (auto split: prod.splits)
        then show ?thesis using g r(1) by auto
      qed
    qed
  next
    case (eof q' w')
    then have "get_line w q c logline len = Some (Inr 0, c, logline, len, q', w')" by (subst get_line.simps) simp
    moreover have "got_line w q logline len [] (Inr 0, c, logline, len, q', w')" using eof by (simp add: got_line_def)
    ultimately show ?thesis by blast
  next
    case (error e q' w')
    then have "get_line w q c logline len = Some (Inl e, c, logline, len, q', w')" by (subst get_line.simps) simp
    moreover have "got_line w q logline len [] (Inl e, c, logline, len, q', w')" using error by (simp add: got_line_def)
    ultimately show ?thesis by blast
  qed
qed

text \<open>The text of a line in the log, stamped with the reading \<open>k\<close> of the clock when stamps are wanted.\<close>

definition line_text :: "tlog \<Rightarrow> nat \<Rightarrow> u8 list \<Rightarrow> u8 list" where
  "line_text w k l = (if wantstamp w then stamp_of (clk w k) @ bytes '': '' else []) @ l @ [10]"

abbreviation startpos :: "tlog \<Rightarrow> nat" where "startpos w \<equiv> (if wantstamp w then 24 else 0)"

lemma finish_line_spec:
  assumes "LOGLINE_MAX < length logline" and "startpos w \<le> len" and "len \<le> LOGLINE_MAX" and "take len logline = pre @ txt" and "length pre = startpos w"
    and "wantstamp w \<longrightarrow> time_ok (clk w (nclk w))"
  shows "\<exists>b. finish_line w logline len = Some (b, if wantstamp w then w\<lparr>nclk := nclk w + 1\<rparr> else w) \<and>
    length b = length logline \<and> take (len + 1) b = line_text w (nclk w) txt"
proof -
  have len: "length (pre @ txt) = len" using assms(1,3) by (simp flip: assms(4))
  obtain rest where l: "logline = pre @ txt @ rest" "rest \<noteq> []"
    using assms(1,3,4) append_take_drop_id [of len logline] that [of "drop len logline"] by auto
  then obtain z zs where rest: "rest = z # zs" by (cases rest) auto
  show ?thesis
  proof (cases "wantstamp w")
    case False
    then show ?thesis using assms(5) len l rest by (simp add: finish_line_def line_text_def wr_def list_update_append)
  next
    case True
    then have p: "length pre = 24" using assms(5) by simp
    have st: "length (stamp_of (clk w (nclk w))) = 22" using length_stamp_of assms(6) True by simp
    have "stamp8601_make logline 0 w = Some (stamp_of (clk w (nclk w)) @ drop 22 logline, w\<lparr>nclk := nclk w + 1\<rparr>)"
      using stamp8601_make_spec [of w 0 logline] assms(6) True p l by simp
    moreover obtain x y where "drop 22 logline = x # y # txt @ z # zs"
    proof -
      have "length (drop 22 pre) = 2" using p by simp
      then obtain x y where "drop 22 pre = [x, y]" unfolding numeral_2_eq_2 length_Suc_conv length_0_conv by blast
      then show ?thesis using that l rest p by simp
    qed
    moreover have "len - 22 = Suc (Suc (length txt))" "len - 21 = Suc (Suc (Suc (length txt)))" using len p by auto
    ultimately show ?thesis using True st p len l rest
      by (simp add: finish_line_def line_text_def wr_def list_update_append nth_append bytes_def)
  qed
qed

section \<open>The clock\<close>

text \<open>The readings before \<open>N\<close> that can still name an archive, and that no two of them give the same name.\<close>

definition spare :: "nat \<Rightarrow> tlog \<Rightarrow> nat" where
  "spare N w = card (unused (of_char CHR ''s'') (fs w) (clk w) (nclk w) N)"

definition fresh :: "nat \<Rightarrow> tlog \<Rightarrow> bool" where
  "fresh N w \<longleftrightarrow> (\<forall>n. nclk w \<le> n \<and> n < N \<longrightarrow> time_ok (clk w n)) \<and> inj_on (\<lambda>n. aname (of_char CHR ''s'') (clk w n)) {nclk w..<N}"

lemma fresh_mono: "fresh N w \<Longrightarrow> clk w' = clk w \<Longrightarrow> nclk w \<le> nclk w' \<Longrightarrow> fresh N w'"
  by (auto simp: fresh_def inj_on_def)

lemma spare_pos: "0 < spare N w \<Longrightarrow> nclk w < N"
  using card_gt_0_iff [of "unused (of_char CHR ''s'') (fs w) (clk w) (nclk w) N"] by (auto simp: spare_def unused_def)

lemma spare_tick:
  assumes "clk w' = clk w" and "nclk w' \<le> nclk w + 1" and "fs w' = fs w" and "nclk w \<le> nclk w'"
  shows "spare N w \<le> spare N w' + 1"
proof -
  have "unused (of_char CHR ''s'') (fs w) (clk w) (nclk w) N \<subseteq> insert (nclk w) (unused (of_char CHR ''s'') (fs w') (clk w') (nclk w') N)"
    using assms by (auto simp: unused_def)
  from card_mono [OF _ this] show ?thesis unfolding spare_def by (simp add: card_insert_if finite_unused split: if_splits)
qed

lemma posted_spare:
  assumes p: "posted N w line w'" and r: "runs w w'" and f: "fresh N w"
  shows "spare N w + length (faults w') \<le> spare N w' + 1 + length (faults w)" "nclk w \<le> nclk w'"
proof -
  have c: "clk w' = clk w" "length (faults w') \<le> length (faults w)" using r by (simp_all add: runs_def)
  consider "nclk w' = nclk w" "ino_of (fs w') = ino_of (fs w)" | k where "moved_on N w k w'" using p by (auto simp: posted_def split: if_splits)
  then have "spare N w + length (faults w') \<le> spare N w' + 1 + length (faults w) \<and> nclk w \<le> nclk w'"
  proof cases
    case 1
    then show ?thesis using c by (simp add: spare_def unused_def)
  next
    case (2 k)
    then have k: "nclk w \<le> k" "k < N" "nclk w' = Suc k"
      "spare N w + length (faults w') \<le> card (unused (of_char CHR ''s'') (fs w) (clk w) (Suc k) N) + 1 + length (faults w)"
      and n: "\<And>n. smells n \<Longrightarrow> ino_of (fs w') n \<noteq> None \<Longrightarrow> ino_of (fs w) n \<noteq> None \<or> n = aname (of_char CHR ''s'') (clk w k)"
      unfolding moved_on_def rotated_def spare_def by blast+
    have "unused (of_char CHR ''s'') (fs w) (clk w) (Suc k) N \<subseteq> unused (of_char CHR ''s'') (fs w') (clk w') (nclk w') N"
    proof
      fix j assume "j \<in> unused (of_char CHR ''s'') (fs w) (clk w) (Suc k) N"
      then have j: "Suc k \<le> j" "j < N" "ino_of (fs w) (aname (of_char CHR ''s'') (clk w j)) = None" by (simp_all add: unused_def)
      have "time_ok (clk w j)" using f j k by (simp add: fresh_def)
      then have "smells (aname (of_char CHR ''s'') (clk w j))" by (rule aname_ok) simp
      moreover have "aname (of_char CHR ''s'') (clk w j) \<noteq> aname (of_char CHR ''s'') (clk w k)"
        using f j k inj_onD [of "\<lambda>n. aname (of_char CHR ''s'') (clk w n)" "{nclk w..<N}" j k] by (auto simp: fresh_def)
      ultimately have "ino_of (fs w') (aname (of_char CHR ''s'') (clk w j)) = None" using n j(3) by blast
      then show "j \<in> unused (of_char CHR ''s'') (fs w') (clk w') (nclk w') N" using j k c by (simp add: unused_def)
    qed
    from card_mono [OF finite_unused this] show ?thesis using k by (simp add: spare_def)
  qed
  then show "spare N w + length (faults w') \<le> spare N w' + 1 + length (faults w)" "nclk w \<le> nclk w'" by simp_all
qed

section \<open>All lines\<close>

text \<open>The specification: the input cut at the newlines, cleaned, cut to the room of a line, without the empty lines.\<close>

fun segs :: "u8 list \<Rightarrow> u8 list list" where
  "segs [] = [[]]"
| "segs (c # cs) = (if c = 10 then [] # segs cs else (c # hd (segs cs)) # tl (segs cs))"

definition log_line :: "nat \<Rightarrow> u8 list \<Rightarrow> u8 list" where
  "log_line room l = take room (map clean l)"

definition log_lines :: "nat \<Rightarrow> u8 list list \<Rightarrow> u8 list list" where
  "log_lines room ls = map (log_line room) (filter (\<lambda>l. l \<noteq> []) ls)"

definition written :: "tlog \<Rightarrow> u8 list list \<Rightarrow> tlog \<Rightarrow> bool" where
  "written w ls w' \<longleftrightarrow> (\<exists>ks. length ks = length ls \<and> logged w' = logged w @ concat (map2 (line_text w) ks ls) \<and>
     (wantstamp w \<longrightarrow> sorted_wrt (<) ks \<and> (\<forall>k\<in>set ks. nclk w \<le> k)))"

lemma segs_ne: "segs cs \<noteq> []"
  by (cases cs) auto

lemma segs_line: "10 \<notin> set l \<Longrightarrow> segs (l @ 10 # cs) = l # segs cs" "10 \<notin> set l \<Longrightarrow> segs l = [l]"
  by (induction l) auto

lemma log_lines_Cons: "log_lines room (l # ls) = (if l = [] then [] else [log_line room l]) @ log_lines room ls"
  by (simp add: log_lines_def)

lemma written_Nil: "logged w' = logged w \<Longrightarrow> written w [] w'"
  by (simp add: written_def)

lemma written_cong:
  assumes "logged w = logged v" and "clk w = clk v" and "wantstamp w = wantstamp v" and "nclk w = nclk v"
  shows "written w ls w' = written v ls w'"
proof -
  have "line_text w = line_text v" using assms(2,3) by (simp add: line_text_def fun_eq_iff)
  then show ?thesis using assms by (simp add: written_def)
qed

lemma written_Cons:
  assumes "logged v = logged w @ line_text w (nclk w) l" and "clk v = clk w" and "wantstamp v = wantstamp w"
    and "wantstamp w \<longrightarrow> nclk w < nclk v" and "written v ls w'"
  shows "written w (l # ls) w'"
proof -
  from assms(5) obtain ks where k: "length ks = length ls" "logged w' = logged v @ concat (map2 (line_text v) ks ls)"
    "wantstamp v \<longrightarrow> sorted_wrt (<) ks \<and> (\<forall>k\<in>set ks. nclk v \<le> k)" by (auto simp: written_def)
  have "line_text v = line_text w" using assms(2,3) by (simp add: line_text_def fun_eq_iff)
  then show ?thesis unfolding written_def using k assms by (intro exI [of _ "nclk w # ks"]) fastforce
qed

text \<open>One line posted.\<close>

definition line_done :: "nat \<Rightarrow> tlog \<Rightarrow> u8 list \<Rightarrow> unit outcome \<Rightarrow> tlog \<Rightarrow> bool" where
  "line_done N w txt x v \<longleftrightarrow> stdin v = stdin w \<and> clk v = clk w \<and> wantstamp v = wantstamp w \<and> flagexit w \<le> flagexit v \<and>
     (case x of
        Exit e \<Rightarrow> e = 111 \<and> 0 < flagexit v \<and> logged v = logged w
      | Ok _ \<Rightarrow> tl_ok v \<and> logged v = logged w @ line_text w (nclk w) txt \<and> (wantstamp w \<longrightarrow> nclk w < nclk v) \<and> nclk w \<le> nclk v \<and>
          spare N w + length (faults v) \<le> spare N v + 2 + length (faults w))"

lemma post_line:
  assumes ok: "tl_ok w" and fr: "fresh N w" and sp: "length (faults w) + 1 < spare N w"
    and b: "LOGLINE_MAX < length logline" and len: "startpos w \<le> len" "len \<le> LOGLINE_MAX" and t: "take len logline = pre @ txt" "length pre = startpos w"
  shows "\<exists>b w1 x v. finish_line w logline len = Some (b, w1) \<and> length b = length logline \<and> tinylog_post w1 b (len + 1) = Some (x, v) \<and> line_done N w txt x v"
proof -
  have "nclk w < N" using sp by (intro spare_pos) simp
  then have "wantstamp w \<longrightarrow> time_ok (clk w (nclk w))" using fr by (simp add: fresh_def)
  from finish_line_spec [OF b len t this] obtain lb where
    lb: "finish_line w logline len = Some (lb, if wantstamp w then w\<lparr>nclk := nclk w + 1\<rparr> else w)" "length lb = length logline"
      "take (len + 1) lb = line_text w (nclk w) txt" by blast
  define w1 where "w1 = (if wantstamp w then w\<lparr>nclk := nclk w + 1\<rparr> else w)"
  have f1: "clk w1 = clk w" "nclk w1 \<le> nclk w + 1" "fs w1 = fs w" "nclk w \<le> nclk w1" "faults w1 = faults w" "stdin w1 = stdin w" "logged w1 = logged w"
    "wantstamp w1 = wantstamp w" "flagexit w1 = flagexit w" "wantstamp w \<longrightarrow> nclk w < nclk w1" by (simp_all add: w1_def)
  have ok1: "tl_ok w1" using ok by (simp add: w1_def tl_ok_def log_ok_def honest_def)
  have fr1: "fresh N w1" using fresh_mono [OF fr f1(1,4)] .
  have s1: "spare N w \<le> spare N w1 + 1" by (rule spare_tick [OF f1(1-4)])
  have c1: "clock_ok N w1" using fr1 sp s1 f1(5) by (simp add: clock_ok_def fresh_def spare_def)
  have "len + 1 \<le> LOGLINE_MAX + 1" "len + 1 \<le> length lb" using len b lb(2) by simp_all
  from tinylog_post_spec [OF ok1 c1 this] obtain x v where
    p: "tinylog_post w1 lb (len + 1) = Some (x, v)" "runs w1 v"
      "case x of Ok _ \<Rightarrow> posted N w1 (line_text w (nclk w) txt) v | Exit e \<Rightarrow> e = 111 \<and> 0 < flagexit v \<and> logged v = logged w1 \<and> due w1 (len + 1)"
    unfolding lb(3) by blast
  have "line_done N w txt x v"
  proof (cases x)
    case (Ok u)
    then have po: "posted N w1 (line_text w (nclk w) txt) v" using p(3) by simp
    note ps = posted_spare [OF po p(2) fr1]
    have "tl_ok v" "logged v = logged w1 @ line_text w (nclk w) txt" using po by (simp_all add: posted_def)
    then show ?thesis using Ok p(2) ps s1 f1 by (auto simp: line_done_def runs_def)
  next
    case (Exit e)
    then show ?thesis using p(2,3) f1 by (auto simp: line_done_def runs_def)
  qed
  then show ?thesis using lb(1,2) p(1) by (auto simp flip: w1_def)
qed

text \<open>What the loop leaves: the bytes it used, and the lines it logged.  After SIGTERM the line at hand may be lost, after an error on the input the last line without a newline.\<close>

definition logs :: "tlog \<Rightarrow> ioq \<Rightarrow> int outcome \<times> ioq \<times> tlog \<Rightarrow> bool" where
  "logs w q = (\<lambda>(x, q', w').
     \<exists>used. let ls = segs used; room = LOGLINE_MAX - startpos w in
       stream w q = used @ stream w' q' \<and>
       (case x of
          Exit e \<Rightarrow> e = 111 \<and> 0 < flagexit w' \<and> log_lines room ls \<noteq> [] \<and> written w (butlast (log_lines room ls)) w'
        | Ok e \<Rightarrow> tl_ok w' \<and>
            (if e = 0 then written w (log_lines room ls) w' \<and> (steady (stdin w) \<longrightarrow> 0 < flagexit w' \<or> stream w' q' = [])
             else e = -1 \<and> written w (log_lines room (butlast ls)) w')))"

lemma reads_fields:
  assumes "reads w w'"
  shows "clk w' = clk w" "nclk w' = nclk w" "fs w' = fs w" "logged w' = logged w" "wantstamp w' = wantstamp w" "length (faults w') \<le> length (faults w)"
    "tl_ok w \<Longrightarrow> tl_ok w'" "spare N w' = spare N w" "fresh N w \<Longrightarrow> fresh N w'"
proof -
  obtain v s where v: "noise w v" "w' = v\<lparr>stdin := s\<rparr>" using assms by (auto simp: reads_def)
  show f: "clk w' = clk w" "nclk w' = nclk w" "fs w' = fs w" "logged w' = logged w" "wantstamp w' = wantstamp w" "length (faults w') \<le> length (faults w)"
    using noise_fields [OF v(1)] v(2) by simp_all
  show "tl_ok w'" if "tl_ok w" using tl_ok_noise [OF v(1) that] v(2) by (simp add: tl_ok_def log_ok_def honest_def)
  show "spare N w' = spare N w" "fresh N w \<Longrightarrow> fresh N w'" using f by (simp_all add: spare_def fresh_def)
qed

text \<open>A line before the rest, for the cases of the loop.\<close>

lemma logs_line:
  assumes rest: "logs v q' (x, q'', w')" and seg: "10 \<notin> set seg" and st: "stream w q = seg @ 10 # stream v q'"
    and wr: "\<And>ls. written v ls w' \<Longrightarrow> written w (log_lines (LOGLINE_MAX - startpos w) [seg] @ ls) w'"
    and same: "wantstamp v = wantstamp w" "steady (stdin w) \<longrightarrow> steady (stdin v)"
  shows "logs w q (x, q'', w')"
proof -
  let ?R = "LOGLINE_MAX - startpos w"
  from rest obtain used where u: "stream v q' = used @ stream w' q''"
    and c: "case x of
          Exit e \<Rightarrow> e = 111 \<and> 0 < flagexit w' \<and> log_lines ?R (segs used) \<noteq> [] \<and> written v (butlast (log_lines ?R (segs used))) w'
        | Ok e \<Rightarrow> tl_ok w' \<and>
            (if e = 0 then written v (log_lines ?R (segs used)) w' \<and> (steady (stdin v) \<longrightarrow> 0 < flagexit w' \<or> stream w' q'' = [])
             else e = -1 \<and> written v (log_lines ?R (butlast (segs used))) w')"
    unfolding logs_def Let_def split same(1) by (elim exE conjE)
  have sg: "segs (seg @ 10 # used) = seg # segs used" using segs_line(1) [OF seg] .
  have l: "log_lines ?R (seg # ls) = log_lines ?R [seg] @ log_lines ?R ls" for ls by (simp add: log_lines_def)
  have b: "butlast (seg # segs used) = seg # butlast (segs used)" using segs_ne by simp
  have "stream w q = (seg @ 10 # used) @ stream w' q''" using st u by simp
  moreover have "case x of
          Exit e \<Rightarrow> e = 111 \<and> 0 < flagexit w' \<and> log_lines ?R (seg # segs used) \<noteq> [] \<and> written w (butlast (log_lines ?R (seg # segs used))) w'
        | Ok e \<Rightarrow> tl_ok w' \<and>
            (if e = 0 then written w (log_lines ?R (seg # segs used)) w' \<and> (steady (stdin w) \<longrightarrow> 0 < flagexit w' \<or> stream w' q'' = [])
             else e = -1 \<and> written w (log_lines ?R (seg # butlast (segs used))) w')"
    using c wr same(2) unfolding l [of "segs used"] l [of "butlast (segs used)"] by (cases x) (auto simp: butlast_append)
  ultimately show ?thesis unfolding logs_def Let_def split by (intro exI [of _ "seg @ 10 # used"] conjI) (simp_all only: sg b)
qed

text \<open>The end of the loop: the last segment, with or without its newline.\<close>

lemma logs_last:
  assumes seg: "10 \<notin> set seg" and st: "stream w q = seg @ (if nl then 10 # stream w' q' else stream w' q')"
    and x: "case x of
          Exit e \<Rightarrow> e = 111 \<and> 0 < flagexit w' \<and> seg \<noteq> [] \<and> logged w' = logged w
        | Ok e \<Rightarrow> tl_ok w' \<and> \<not> nl \<and>
            (if e = 0 then written w (log_lines (LOGLINE_MAX - startpos w) [seg]) w' \<and> (steady (stdin w) \<longrightarrow> 0 < flagexit w' \<or> stream w' q' = [])
             else e = -1 \<and> logged w' = logged w)"
  shows "logs w q (x, q', w')"
proof -
  let ?used = "seg @ (if nl then [10] else [])"
  have sg: "segs ?used = seg # (if nl then [[]] else [])" using segs_line [OF seg] by simp
  show ?thesis unfolding logs_def Let_def split
  proof (intro exI [of _ ?used] conjI)
    show "stream w q = ?used @ stream w' q'" using st by simp
    show "case x of
        Exit e \<Rightarrow> e = 111 \<and> 0 < flagexit w' \<and> log_lines (LOGLINE_MAX - startpos w) (segs ?used) \<noteq> [] \<and>
          written w (butlast (log_lines (LOGLINE_MAX - startpos w) (segs ?used))) w'
      | Ok e \<Rightarrow> tl_ok w' \<and>
          (if e = 0 then written w (log_lines (LOGLINE_MAX - startpos w) (segs ?used)) w' \<and> (steady (stdin w) \<longrightarrow> 0 < flagexit w' \<or> stream w' q' = [])
           else e = -1 \<and> written w (log_lines (LOGLINE_MAX - startpos w) (butlast (segs ?used))) w')"
      using x unfolding sg by (cases x) (auto simp: log_lines_def written_Nil split: if_splits)
  qed
qed

text \<open>What the loop needs, and how it goes on with the next line.\<close>

definition loop_ok :: "nat \<Rightarrow> tlog \<Rightarrow> ioq \<Rightarrow> buffer \<Rightarrow> bool" where
  "loop_ok N w q logline \<longleftrightarrow> tl_ok w \<and> fresh N w \<and> in_ok q \<and> LOGLINE_MAX < length logline \<and> length (faults w) + 2 * length (stream w q) < spare N w"

definition continues :: "nat \<Rightarrow> tlog \<Rightarrow> ioq \<Rightarrow> tlog \<Rightarrow> ioq \<Rightarrow> buffer \<Rightarrow> bool" where
  "continues N w q v q' b \<longleftrightarrow> loop_ok N v q' b \<and> length (stream v q') < length (stream w q) \<and> (\<forall>res. logs v q' res \<longrightarrow> logs w q res)"

definition one_round :: "nat \<Rightarrow> tlog \<Rightarrow> ioq \<Rightarrow> (int outcome \<times> ioq \<times> tlog) option \<Rightarrow> bool" where
  "one_round N w q m \<longleftrightarrow> (\<exists>res. m = Some res \<and> logs w q res) \<or> (\<exists>v q' c b. m = log_loop v q' c b \<and> continues N w q v q' b)"

lemma continuesI:
  assumes "loop_ok N w q logline" and "tl_ok v" and "clk v = clk w" and "nclk w \<le> nclk v" and "in_ok q'" and "LOGLINE_MAX < length b"
    and "spare N w + length (faults v) \<le> spare N v + 2 + length (faults w)"
    and "10 \<notin> set seg" and "stream w q = seg @ 10 # stream v q'"
    and "\<And>ls u. written v ls u \<Longrightarrow> written w (log_lines (LOGLINE_MAX - startpos w) [seg] @ ls) u"
    and "wantstamp v = wantstamp w" and "steady (stdin w) \<longrightarrow> steady (stdin v)"
  shows "continues N w q v q' b"
proof -
  have "fresh N v" using assms(1,3,4) fresh_mono by (auto simp: loop_ok_def)
  moreover have "length (faults v) + 2 * length (stream v q') < spare N v" using assms(1,7,9) by (simp add: loop_ok_def)
  moreover have "logs w q res" if "logs v q' res" for res
    using logs_line [OF _ assms(8,9,10-12)] that by (cases res) blast
  ultimately show ?thesis using assms(2,5,6,9) by (simp add: continues_def loop_ok_def)
qed

lemma one_round_empty:
  assumes ok: "loop_ok N w q logline" and gl: "got_line w q logline (startpos w) [] (Inr k, c1, b, len, q1, w1)"
  shows "one_round N w q (if k = 0 then Some (Ok 0, q1, w1) else log_loop w1 q1 c1 b)"
proof -
  from gl have g: "in_ok q1" "reads w w1" "stream w q = (if k = 1 then 10 # stream w1 q1 else stream w1 q1)" "length b = length logline"
    "k = 1 \<or> k = 0 \<and> (steady (stdin w) \<longrightarrow> 0 < flagexit w1 \<or> stream w1 q1 = [])" by (simp_all add: got_line_def)
  note f = reads_fields [OF g(2)]
  have ok1: "tl_ok w1" using ok f(7) by (simp add: loop_ok_def)
  show ?thesis
  proof (cases "k = 0")
    case True
    then have "logs w q (Ok 0, q1, w1)" using g ok1 f(4)
      by (intro logs_last [where nl = False and seg = "[]"]) (simp_all add: log_lines_def written_Nil)
    then show ?thesis using True by (simp add: one_round_def)
  next
    case False
    have wc: "written w1 ls u = written w ls u" for ls u by (rule written_cong) (simp_all add: f)
    have "length (faults w1) \<le> 2 + length (faults w)" using f(6) by simp
    then have "continues N w q w1 q1 b" using ok g False ok1
      by (intro continuesI [where seg = "[]"]) (auto simp: f(1-5,8) wc log_lines_def loop_ok_def reads_steady [OF g(2)])
    then show ?thesis using False unfolding one_round_def by auto
  qed
qed

lemma one_round_post:
  assumes ok: "loop_ok N w q logline" and gl: "got_line w q logline (startpos w) seg (Inr k, c1, b, len, q1, w1)" and "seg \<noteq> []"
  shows "\<exists>lb w2 x v. finish_line w1 b len = Some (lb, w2) \<and> tinylog_post w2 lb (len + 1) = Some (x, v) \<and>
    one_round N w q (case x of Exit e \<Rightarrow> Some (Exit e, q1, v) | Ok _ \<Rightarrow> if k = 0 then Some (Ok 0, q1, v) else log_loop v q1 c1 lb)"
proof -
  let ?S = "startpos w"
  let ?txt = "log_line (LOGLINE_MAX - ?S) seg"
  from gl have q1: "in_ok q1" and rd: "reads w w1" and seg: "10 \<notin> set seg"
    and st: "stream w q = seg @ (if k = 1 then 10 # stream w1 q1 else stream w1 q1)"
    and b: "length b = length logline" "len = ?S + min (length seg) (LOGLINE_MAX - ?S)" "take len b = take ?S logline @ ?txt"
    and k: "k = 1 \<or> k = 0 \<and> (steady (stdin w) \<longrightarrow> 0 < flagexit w1 \<or> stream w1 q1 = [])"
    unfolding got_line_def log_line_def split by auto
  note f = reads_fields [OF rd]
  have ok1: "tl_ok w1" "fresh N w1" using f(7,9) ok by (simp_all add: loop_ok_def)
  have "0 < length (stream w q)" using st assms(3) by simp
  then have sp: "length (faults w1) + 1 < spare N w1" using ok f(6) unfolding loop_ok_def f(8) by linarith
  have "LOGLINE_MAX < length b" "startpos w1 \<le> len" "len \<le> LOGLINE_MAX" "length (take ?S logline) = startpos w1"
    using ok b(1,2) f(5) by (auto simp: loop_ok_def LOGLINE_MAX_def)
  from post_line [OF ok1 sp this(1-3) b(3) this(4)] obtain lb w2 x v where
    p: "finish_line w1 b len = Some (lb, w2)" "length lb = length b" "tinylog_post w2 lb (len + 1) = Some (x, v)" "line_done N w1 ?txt x v" by blast
  have sv: "stream v q1 = stream w1 q1" "stdin v = stdin w1" and v: "clk v = clk w" "wantstamp v = wantstamp w" "flagexit w1 \<le> flagexit v"
    using p(4) f by (simp_all add: line_done_def stream_def)
  have "one_round N w q (case x of Exit e \<Rightarrow> Some (Exit e, q1, v) | Ok _ \<Rightarrow> if k = 0 then Some (Ok 0, q1, v) else log_loop v q1 c1 lb)"
  proof (cases x)
    case (Exit e)
    then have "logs w q (Exit e, q1, v)" using st seg p(4) f(4) assms(3) sv
      by (intro logs_last [where nl = "k = 1" and seg = seg]) (simp_all add: line_done_def)
    then show ?thesis using Exit by (simp add: one_round_def)
  next
    case (Ok u)
    then have d: "tl_ok v" "logged v = logged w @ line_text w (nclk w) ?txt" "wantstamp w \<longrightarrow> nclk w < nclk v" "nclk w \<le> nclk v"
      "spare N w + length (faults v) \<le> spare N v + 2 + length (faults w1)"
      using p(4) f by (simp_all add: line_done_def line_text_def)
    have wr: "written w (log_lines (LOGLINE_MAX - ?S) [seg] @ ls) u" if "written v ls u" for ls u
      using written_Cons [OF d(2) v(1,2) d(3) that] assms(3) by (simp add: log_lines_def)
    show ?thesis
    proof (cases "k = 0")
      case True
      have "logs w q (Ok 0, q1, v)" using st seg d(1) True k sv v(3) wr [OF written_Nil [OF refl]]
        by (intro logs_last [where nl = False and seg = seg]) auto
      then show ?thesis using Ok True by (simp add: one_round_def)
    next
      case False
      then have "stream w q = seg @ 10 # stream v q1" using st k sv by simp
      moreover have "LOGLINE_MAX < length lb" using ok b(1) p(2) by (simp add: loop_ok_def)
      moreover have "spare N w + length (faults v) \<le> spare N v + 2 + length (faults w)" using d(5) f(6) by linarith
      ultimately have "continues N w q v q1 lb" using ok d(1,4) v q1 seg wr sv reads_steady [OF rd] by (intro continuesI) auto
      then show ?thesis using Ok False unfolding one_round_def by auto
    qed
  qed
  then show ?thesis using p(1,3) by blast
qed

lemma log_loop_round:
  assumes ok: "loop_ok N w q logline"
  shows "one_round N w q (log_loop w q c logline)"
proof -
  let ?S = "startpos w"
  have S: "?S < LOGLINE_MAX" by (simp add: LOGLINE_MAX_def)
  obtain r c1 b len q1 w1 seg where g: "get_line w q c logline ?S = Some (r, c1, b, len, q1, w1)"
    and gl: "got_line w q logline ?S seg (r, c1, b, len, q1, w1)"
    using get_line_spec [of q ?S logline w c] ok S by (auto simp: loop_ok_def)
  have len: "?S < len \<longleftrightarrow> seg \<noteq> []" using gl S by (auto simp: got_line_def)
  show ?thesis
  proof (cases r)
    case (Inl e)
    then have "log_loop w q c logline = Some (Ok (-1), q1, w1)" using g by (subst log_loop.simps) (simp add: Let_def)
    moreover have "logs w q (Ok (-1), q1, w1)" using gl Inl reads_fields(4,7) [of w w1] ok
      by (intro logs_last [where nl = False and seg = seg]) (simp_all add: got_line_def loop_ok_def)
    ultimately show ?thesis by (simp add: one_round_def)
  next
    case (Inr k)
    note gl = gl [unfolded Inr]
    show ?thesis
    proof (cases "seg = []")
      case True
      then have "log_loop w q c logline = (if k = 0 then Some (Ok 0, q1, w1) else log_loop w1 q1 c1 b)"
        using g Inr len by (subst log_loop.simps) (simp add: Let_def)
      then show ?thesis using one_round_empty [OF ok gl [unfolded True]] by simp
    next
      case False
      obtain lb w2 x v where p: "finish_line w1 b len = Some (lb, w2)" "tinylog_post w2 lb (len + 1) = Some (x, v)"
        "one_round N w q (case x of Exit e \<Rightarrow> Some (Exit e, q1, v) | Ok _ \<Rightarrow> if k = 0 then Some (Ok 0, q1, v) else log_loop v q1 c1 lb)"
        using one_round_post [OF ok gl False] by blast
      have "log_loop w q c logline = (case x of Exit e \<Rightarrow> Some (Exit e, q1, v) | Ok _ \<Rightarrow> if k = 0 then Some (Ok 0, q1, v) else log_loop v q1 c1 lb)"
        using g Inr len False p(1,2) by (subst log_loop.simps) (simp add: Let_def cong: outcome.case_cong)
      then show ?thesis using p(3) by simp
    qed
  qed
qed

lemma log_loop_spec: "loop_ok N w q logline \<Longrightarrow> \<exists>res. log_loop w q c logline = Some res \<and> logs w q res"
proof (induction "length (stream w q)" arbitrary: w q c logline rule: less_induct)
  case less
  from log_loop_round [OF less.prems, of c] show ?case
    unfolding one_round_def continues_def using less.hyps by metis
qed

section \<open>The property\<close>

lemma fchmod_end:
  fixes w :: tlog and m :: nat
  assumes "tl_ok w"
  defines "w' \<equiv> pause (snd (syscall (fs_fchmod (fd_current w) m) w))"
  shows "tl_ok w'" "logged w' = logged w" "stdin w' = stdin w" "flagexit w \<le> flagexit w'"
proof -
  define v where "v = snd (syscall (fs_fchmod (fd_current w) m) w)"
  have v: "tl_ok v \<and> logged v = logged w \<and> stdin v = stdin w \<and> flagexit w \<le> flagexit v"
  proof (cases rule: syscall_cases [of "fs_fchmod (fd_current w) m" w])
    case (fault e u)
    then show ?thesis using tl_ok_noise [OF fault(2) assms(1)] noise_fields [OF fault(2)] by (simp add: v_def)
  next
    case (act u)
    have "tl_ok (u\<lparr>fs := snd (fs_fchmod (fd_current w) m (fs w))\<rparr>)"
      using tl_ok_noise [OF act(2) assms(1)] noise_fields [OF act(2)]
      by (simp add: tl_ok_def log_ok_def fs_fchmod_def dir_ok_def arch_names_def ino_of_def honest_def)
    then show ?thesis using act noise_fields [OF act(2)] by (simp add: v_def)
  qed
  have "noise v w'" unfolding w'_def v_def by (rule pause_noise)
  then show "tl_ok w'" "logged w' = logged w" "stdin w' = stdin w" "flagexit w \<le> flagexit w'"
    using v tl_ok_noise noise_fields [of v w'] by auto
qed

lemma do_log_spec:
  assumes "loop_ok N w q logline"
  shows "\<exists>res. do_log w q c logline = Some res \<and> logs w q res"
proof -
  obtain x q' v where l: "log_loop w q c logline = Some (x, q', v)" "logs w q (x, q', v)" using log_loop_spec [OF assms, of c] by auto
  show ?thesis
  proof (cases "x = Ok 0")
    case True
    define w' where "w' = pause (snd (syscall (fs_fchmod (fd_current v) 484) v))"
    have "tl_ok v" using l(2) True by (auto simp: logs_def Let_def)
    note e = fchmod_end [OF this, of 484, folded w'_def]
    have "logs w q (x, q', w')" using l(2) True e by (auto simp: logs_def Let_def written_def stream_def)
    then show ?thesis using l(1) True by (simp add: do_log_def w'_def)
  next
    case False
    then show ?thesis using l by (simp add: do_log_def)
  qed
qed


definition tlog1 :: tlog where
  "tlog1 = tlog0\<lparr>faults := [], stdin := \<lparr>in_events = [Rd_data [104], Rd_data [10]], in_got = []\<rparr>, clk := (\<lambda>n. (0, word_of_nat n)), wantstamp := True\<rparr>"


end
