(* ===== verification/Spec2Isabelle.thy ===== *)
theory Spec2Isabelle
  imports Cstr_Match Perpd_Main Perpctl Perpls Dynstr Tinylog_Run
begin

text \<open>
  perp is a persistent process supervisor.  Its daemon perpd watches a base directory, runs the \<open>rc.main\<close> and \<open>rc.log\<close> scripts of every
  service directory it finds there, restarts them when they end, and takes commands from clients over a local socket.  The daemon and
  the tools around it are built on a small C library, lasagna.

  \<^bold>\<open>Conventions.\<close>  A byte is an \<open>8 word\<close> and machine integers keep their width; process numbers, descriptors and errno values are \<open>int\<close>, which
  are only compared and stored.  A C object is a list of bytes; reads and writes out of its bounds are the value \<open>None\<close> of \<open>rd\<close> and \<open>wr\<close>
  (theory Perp_Prelude).  Loops are recursive functions with termination proofs, or structural recursion over what a system call
  delivers.  System calls are inputs: the results of \<open>fork()\<close> and of the clock are sequences in the state with a cursor each, those of \<open>poll()\<close>,
  \<open>waitpid()\<close>, \<open>readdir()\<close>, \<open>stat()\<close>, \<open>read()\<close>, \<open>write()\<close> and \<open>accept()\<close> are arguments, and the effects on the outside (signals sent, processes
  forked, descriptors closed, bytes in the self-pipe) are recorded in the field \<open>trace\<close> in their order.  Log output is left out.

  \<^bold>\<open>The library (src/lasagna).\<close>
  \<^item> Upak (\<open>upak\<close>): packed integers.  The locale \<open>fixed_codec\<close> states what a packer and an unpacker of a fixed width promise; it is interpreted on the
    16, 24, 32 and 64 bit codecs here and on the time labels in Tain.
  \<^item> Tain (\<open>tain\<close>): time stamps.  The locale \<open>time_scale\<close> relates order, sum and difference to integers; its interpretation on \<open>tain\<close> carries the
    respawn governor and the staleness of clients.  Arithmetic is exact modulo the range; \<open>tain_unpackhex\<close> does not invert \<open>tain_packhex\<close>.
  \<^item> Cstr and Cstr_Match (\<open>cstr\<close>): strings: the unrolled length loop, bounded and variadic copies, comparison, trimming, glob matching.
  \<^item> Nfmt (\<open>nfmt\<close>, \<open>nuscan\<close>): numerals: round trips, the overflow that the scanner misses, and the byte \<open>nfmt_uint32x\<close> writes before its buffer.
  \<^item> Buf (\<open>buf\<close>), Sysstr (\<open>sysstr\<close>, the binary search in the tables of errno and signal names), Pkt (\<open>pkt\<close>, packets that survive any
    fragmentation), Posix (the constants and status macros the sources use).

  \<^bold>\<open>The daemon (src/perp).\<close>
  \<^item> Perpd_State: the flags, \<open>struct subsv\<close>, \<open>struct svdef\<close>, the variables of \<open>perpd.c\<close>, the signal handler and the triggers.  \<open>later\<close> relates two
    states of the process between polls: same environment, time not running backwards, flags raised only together with a byte in the self-pipe.
  \<^item> Perpd_Svdef (\<open>perpd_svdef.c\<close>): activation, starting and resetting with the respawn governor, the child up to \<open>execve()\<close>, retry after a failed
    fork, culling; \<open>svdef_ok\<close> is the invariant of a definition.  The loops of the daemon over its services are instances of the
    locale \<open>entry_op\<close> (Perp_Prelude): what one call keeps, the loop keeps.
  \<^item> Perpd_Table (\<open>perpd.c\<close>): lookup, \<open>perpd_cull\<close>, \<open>perpd_waitup\<close>, \<open>perpd_scan\<close>, with the invariant \<open>perpd_ok\<close>.  Supervision restarts what ends,
    a scan makes the table reflect the directory, a cull of everything ends after exactly the children left, and a failed fork during
    shutdown leaves perpd waiting for ever.
  \<^item> Perpd_Conn (\<open>perpd_conn.c\<close>): the connections and the control commands, with the invariant \<open>conn_ok\<close>.
  \<^item> Perpd_Main (\<open>perpd_mainloop\<close>, \<open>pollio\<close>): one round of the loop as a function, runs as the relation \<open>mainloop_reach\<close>; the invariant of the
    daemon in every run, that no wakeup is lost, that SIGTERM is obeyed and that the shutdown makes progress.

  \<^bold>\<open>The clients (src/perp).\<close>  All are modelled together with the daemon: a request is a packet of Pkt and its answer is what
  \<open>perpd_conn_exec\<close> of Perpd_Conn returns, so that their theorems relate what a user sees to the state of perpd.
  \<^item> Nextopt (\<open>nextopt\<close>): the option parser as a refinement of a grammar of command lines; Perp_Client: the loop over the options, base
    directory, socket path and packet exchange that the programs share.  The fuel of \<open>getopt_loop\<close> is one more than the bytes of the
    arguments, and each round of the parser consumes at least one.
  \<^item> Perpctl (\<open>perpctl.c\<close>): a command is executed on the service of the named directory and success is reported exactly then; activation
    changes the sticky bit alone.  Perpstat (\<open>perpstat.c\<close>, \<open>perpok.c\<close>) and Perpls (\<open>perpls.c\<close>): reports, panels, exit codes, order of the list.
  \<^item> Dynstuf (\<open>dynstuf\<close>): the growing vector as a list, with \<open>realloc()\<close> and \<open>qsort()\<close> as parameters.

  \<^bold>\<open>Buffered streams and the logger.\<close>
  \<^item> Ioq (\<open>ioq\<close>): input and output queues.  The locales \<open>source\<close> and \<open>sink\<close> state what a queue relies on of its \<open>read()\<close> and \<open>write()\<close>; they are
    interpreted on descriptors whose calls follow a list of events, and the queues hand on the stream in order, for every
    pattern of short and interrupted calls.
  \<^item> Dynstr (\<open>dynstr\<close>, \<open>dynbuf\<close>, \<open>ioq_getln\<close>): growing strings and buffers, with the errors of their callers.
  \<^item> Tinylog (\<open>tinylog.c\<close>): signals, the log directory, archives, rotation, the loop over the input, main.  Each system call consumes an entry of
    a finite list of faults, so that loops that retry a failing call are partial functions that return.  Tinylog_Rotate: time
    stamps, pruning, archiving and rotation; Tinylog_Log: posting a line; Tinylog_Run: the loop, which
    logs the lines of its input.  Archives need unused names: the theorems ask for enough distinct readings of the clock (\<open>clock_ok\<close>, \<open>fresh\<close>).
  \<^bold>\<open>Not modelled.\<close>  the constant databases cdb and hdb with their hash functions, which no program of the repository uses; \<open>main()\<close> and \<open>perpd_control_init\<close> of perpd (options, pid lock and socket: system calls whose only outcome is an exit on
  failure); sissylog, perpboot, perphup and the runtools (rows of system calls around \<open>exec\<close>) and the parts of lasagna only they use; the wrappers of
  single system calls (fd, sig, rlimit, padlock, pidlock, the other calls of domsock), whose results are inputs here; \<open>tain_to_float\<close>
  and \<open>tain_pause\<close>; the generator of the tables of names; all text written to standard error.
\<close>

end
